(* ===== verification/Prelude.thy ===== *)
theory Prelude
  imports Main "HOL-Library.Word"
begin

text \<open>
  Shared vocabulary of the development: the machine integers of the source as words, the
  error-or-value results of its fallible functions, and the generic facts on words, lists and
  maps that the components' proofs rest on.
\<close>

unbundle bit_operations_syntax

section \<open>Types\<close>

type_synonym u8 = "8 word"
type_synonym u16 = "16 word"
type_synonym u32 = "32 word"
type_synonym u64 = "64 word"

text \<open>A \<open>bool\<close> cast to an integer, Rust's \<open>b as u32\<close>.\<close>

definition of_flag :: "bool \<Rightarrow> 'a::len word" where
  "of_flag b = (if b then 1 else 0)"

text \<open>Bit \<open>n\<close> of a word, the source's \<open>v & (1 << n) != 0\<close> and \<open>v >> n & 1 != 0\<close>.\<close>

abbreviation word_bit :: "'a::len word \<Rightarrow> nat \<Rightarrow> bool" where
  "word_bit v n \<equiv> bit v n"

section \<open>Collections of facts\<close>

named_theorems field_simps_word
  \<open>how a bit field reads a word put together with \<open>OR\<close> and shifts\<close>
named_theorems step_inv
  \<open>what an operation keeps of its component's invariant\<close>

section \<open>Words\<close>

lemma bit_of_flag [simp]: "bit (of_flag b :: 'a::len word) n \<longleftrightarrow> b \<and> n = 0"
  by (simp add: of_flag_def bit_1_iff)

lemma of_flag_eq_iff [simp]:
  "of_flag b = (0 :: 'a::len word) \<longleftrightarrow> \<not> b" "of_flag b = (1 :: 'a::len word) \<longleftrightarrow> b"
  by (simp_all add: of_flag_def)

lemma word_eq_by_bits:
  fixes x y :: "'a::len word"
  assumes "\<And>n. n < LENGTH('a) \<Longrightarrow> bit x n = bit y n"
  shows "x = y"
  using assms by (rule bit_word_eqI)

lemma word_less_exp_bit:
  fixes x :: "'a::len word"
  assumes "x < 2 ^ k" and "bit x n"
  shows "n < k"
proof -
  have "x AND mask k = x" using assms(1) by (rule less_mask_eq)
  then have "bit (x AND mask k) n" using assms(2) by simp
  then show ?thesis by (simp add: bit_simps)
qed

lemma word_less_exp_iff_unat:
  fixes x :: "'a::len word"
  assumes "k < LENGTH('a)"
  shows "x < 2 ^ k \<longleftrightarrow> unat x < 2 ^ k"
proof -
  have "x < 2 ^ k \<longleftrightarrow> uint x < 2 ^ k"
    using assms by (simp add: word_2p_lem word_size)
  also have "uint x = int (unat x)" by simp
  finally show ?thesis by (metis of_nat_less_numeral_power_cancel_iff)
qed

lemma word_less_exp_mono:
  fixes x :: "'a::len word"
  assumes "x < 2 ^ k" "k \<le> l" "l < LENGTH('a)"
  shows "x < 2 ^ l"
proof -
  have "unat x < 2 ^ k" using assms by (simp add: word_less_exp_iff_unat)
  also have "\<dots> \<le> 2 ^ l" using assms(2) by simp
  finally show ?thesis using assms(3) by (simp add: word_less_exp_iff_unat)
qed

lemma ucast_ucast_narrow [simp]:
  fixes x :: "'a::len word"
  assumes "LENGTH('c) \<le> LENGTH('b)"
  shows "(ucast (ucast x :: 'b::len word) :: 'c::len word) = ucast x"
  using assms by (intro bit_word_eqI) (auto simp: bit_simps)

lemma ucast_or [simp]: "ucast (x OR y) = ucast x OR ucast y"
  by (rule bit_word_eqI) (auto simp: bit_simps)

lemma drop_bit_push_bit_fits:
  fixes x :: "'a::len word"
  assumes "x < 2 ^ k" "k + n \<le> LENGTH('a)"
  shows "drop_bit n (push_bit n x) = x"
proof (rule bit_word_eqI)
  fix j
  assume "j < LENGTH('a)"
  then show "bit (drop_bit n (push_bit n x)) j \<longleftrightarrow> bit x j"
    using word_less_exp_bit [OF assms(1), of j] assms(2) by (auto simp: bit_simps)
qed

lemma word_and_mask_less:
  fixes x :: "'a::len word"
  shows "n < LENGTH('a) \<Longrightarrow> x AND mask n < 2 ^ n"
  by (rule and_mask_less_size) (simp add: word_size)

lemma unat_and_mask_less:
  fixes x :: "'a::len word"
  shows "n < LENGTH('a) \<Longrightarrow> unat (x AND mask n) < 2 ^ n"
  using word_and_mask_less [of n x] by (simp only: word_less_exp_iff_unat)

lemma unat_ucast_less:
  fixes x :: "'a::len word"
  shows "unat x < 2 ^ k \<Longrightarrow> unat (ucast x :: 'b::len word) < 2 ^ k"
proof -
  assume "unat x < 2 ^ k"
  moreover have "unat (ucast x :: 'b word) \<le> unat x"
    by (simp add: unsigned_ucast_eq take_bit_nat_less_eq_self)
  ultimately show ?thesis by simp
qed

lemma uint_take_bit_mod: "uint (take_bit n w) = uint w mod 2 ^ n"
  by (subst unsigned_take_bit_eq) (rule take_bit_eq_mod)

lemma uint_and_mask_mod: "uint (w AND mask n) = uint w mod 2 ^ n"
  by (simp only: take_bit_eq_mask [symmetric] uint_take_bit_mod)

lemma uint_or_disjoint:
  fixes x y :: "'a::len word"
  assumes "x AND y = 0"
  shows "uint (x OR y) = uint x + uint y"
proof -
  have "uint x AND uint y = 0" using assms by (metis uint_and uint_0_iff)
  then have "uint x + uint y = uint x OR uint y" by (rule disjunctive_add_eq_or)
  then show ?thesis by (simp add: uint_or)
qed

lemma unat_and_mask_mod: "unat (w AND mask n) = unat w mod 2 ^ n"
  unfolding take_bit_eq_mask [symmetric] unsigned_take_bit_eq by (rule take_bit_eq_mod)

lemma unat_drop_bit: "unat (drop_bit n w) = unat w div 2 ^ n"
  by (subst unsigned_drop_bit_eq) (simp add: drop_bit_eq_div take_bit_nat_eq_self unsigned_less)

lemma unat_add_exact:
  fixes a b :: "'a::len word"
  shows "unat a + unat b < 2 ^ LENGTH('a) \<Longrightarrow> unat (a + b) = unat a + unat b"
  by (simp add: unat_word_ariths)

lemma unat_of_nat_64: "k < 2 ^ 64 \<Longrightarrow> unat (of_nat k :: u64) = k"
  by (simp add: unat_of_nat)

lemma xor_eq_zero: "a XOR b = 0 \<longleftrightarrow> a = (b :: 'a::len word)"
  unfolding bit_eq_iff bit_xor_iff by auto

lemma xor_cancel_left: "a XOR b = a XOR c \<longleftrightarrow> b = (c :: 'a::len word)"
  unfolding bit_eq_iff bit_xor_iff by auto

lemma xor_cancel_right: "b XOR a = c XOR a \<longleftrightarrow> b = (c :: 'a::len word)"
  unfolding bit_eq_iff bit_xor_iff by auto

lemma unat_exp:
  assumes "k < LENGTH('a)"
  shows "unat (2 ^ k :: 'a::len word) = 2 ^ k"
proof -
  have "(2::nat) ^ k < 2 ^ LENGTH('a)" using assms by simp
  then have "unat (of_nat (2 ^ k) :: 'a word) = 2 ^ k"
    by (simp only: unat_of_nat mod_less)
  then show ?thesis by simp
qed

lemma and_bit_set: "w AND push_bit n 1 = 0 \<longleftrightarrow> \<not> bit (w :: 'a::len word) n"
proof
  assume "w AND push_bit n 1 = 0"
  then have "\<not> bit (w AND push_bit n 1) n" by simp
  then show "\<not> bit w n" using bit_imp_le_length [of w n] by (auto simp: bit_simps)
next
  assume "\<not> bit w n"
  then show "w AND push_bit n 1 = 0" by (intro bit_word_eqI) (auto simp: bit_simps)
qed

section \<open>Results\<close>

text \<open>A check that gives nothing but its error.\<close>

lemma case_check: "(case s of Inl _ \<Rightarrow> a | Inr (_ :: unit) \<Rightarrow> b) = (if s = Inr () then b else a)"
  by (cases s) simp_all

section \<open>Residues\<close>

lemma half_mod: "(s mod 2 ^ Suc n) div 2 = s div 2 mod (2 ^ n :: int)"
  using zmod_zmult2_eq [of "2 ^ n" s 2] by simp

lemma mod_sum3: "(a mod k + b mod k + c) mod (k :: int) = (a + b + c) mod k"
  by (metis mod_add_eq mod_add_left_eq)

lemma mod_neg_pred: "(- (a mod k) - 1) mod k = (- a - 1) mod (k :: int)"
  by (metis mod_diff_left_eq mod_minus_eq)

end
