(* ===== verification/Isa.thy ===== *)
theory Isa
  imports Prelude
begin

text \<open>
  The 48-bit CADR microinstruction, \<open>src/isa.rs\<close>: the accessors of \<open>Insn\<close>, the
  fields of its four classes, the destination field, and the hand assembler \<open>isa::asm\<close>.
  A microinstruction is the source's \<open>u64\<close>; \<open>Insn_new\<close> keeps its low 48 bits. The lemmas
  say how a field reads a word assembled with \<open>OR\<close>, so that the assembler and the decoder are
  inverse class by class.
\<close>

section \<open>The instruction and its fields\<close>

type_synonym insn = u64

datatype op = Op_Alu | Op_Jump | Op_Dispatch | Op_Byte

definition Insn_new :: "u64 \<Rightarrow> insn" where
  "Insn_new raw = raw AND 0xffffffffffff"

definition insn_field :: "insn \<Rightarrow> nat \<Rightarrow> nat \<Rightarrow> u32" where
  "insn_field i pos len = ucast (drop_bit pos i AND (push_bit len 1 - 1))"

definition insn_statistics :: "insn \<Rightarrow> bool" where
  "insn_statistics i \<longleftrightarrow> insn_field i 46 1 \<noteq> 0"

definition insn_ilong :: "insn \<Rightarrow> bool" where
  "insn_ilong i \<longleftrightarrow> insn_field i 45 1 \<noteq> 0"

definition insn_op :: "insn \<Rightarrow> op" where
  "insn_op i =
     (let f = insn_field i 43 2
      in if f = 0 then Op_Alu else if f = 1 then Op_Jump
         else if f = 2 then Op_Dispatch else Op_Byte)"

definition insn_popj :: "insn \<Rightarrow> bool" where
  "insn_popj i \<longleftrightarrow> insn_field i 42 1 \<noteq> 0"

definition insn_a_src :: "insn \<Rightarrow> u16" where
  "insn_a_src i = ucast (insn_field i 32 10)"

definition insn_m_src_functional :: "insn \<Rightarrow> bool" where
  "insn_m_src_functional i \<longleftrightarrow> insn_field i 31 1 \<noteq> 0"

definition insn_m_src :: "insn \<Rightarrow> u8" where
  "insn_m_src i = ucast (insn_field i 26 5)"

definition insn_misc :: "insn \<Rightarrow> u8" where
  "insn_misc i = ucast (insn_field i 10 2)"

text \<open>\<open>Dest\<close>: \<open>IR<25:14>\<close>, where an ALU or BYTE result is written.\<close>

type_synonym dest = u16

definition dest_is_a_mem :: "dest \<Rightarrow> bool" where
  "dest_is_a_mem d \<longleftrightarrow> d AND 0x800 \<noteq> 0"

definition dest_a_addr :: "dest \<Rightarrow> u16" where
  "dest_a_addr d = d AND 0x3ff"

definition dest_m_addr :: "dest \<Rightarrow> u8" where
  "dest_m_addr d = ucast (d AND 0x1f)"

record alu_fields =
  alu_dest :: dest
  alu_ob_select :: u8
  alu_func :: u8
  alu_carry_in :: bool
  alu_q_control :: u8

record jump_fields =
  jump_target :: u16
  jump_r :: bool
  jump_p :: bool
  jump_n :: bool
  jump_invert :: bool
  jump_internal_cond :: bool
  jump_cond :: u8
  jump_rotate :: u8

record dispatch_fields =
  dispatch_constant_field :: u16
  dispatch_use_lpc :: bool
  dispatch_advance_lc :: bool
  dispatch_addr :: u16
  dispatch_map :: u8
  dispatch_len :: u8
  dispatch_rotate :: u8

record byte_fields =
  byte_dest :: dest
  byte_func :: u8
  byte_width_minus_1 :: u8
  byte_rotate :: u8

definition insn_alu :: "insn \<Rightarrow> alu_fields" where
  "insn_alu i =
     \<lparr>alu_dest = ucast (insn_field i 14 12), alu_ob_select = ucast (insn_field i 12 2),
      alu_func = ucast (insn_field i 3 6), alu_carry_in = (insn_field i 2 1 \<noteq> 0),
      alu_q_control = ucast (insn_field i 0 2)\<rparr>"

definition insn_jump :: "insn \<Rightarrow> jump_fields" where
  "insn_jump i =
     \<lparr>jump_target = ucast (insn_field i 12 14), jump_r = (insn_field i 9 1 \<noteq> 0),
      jump_p = (insn_field i 8 1 \<noteq> 0), jump_n = (insn_field i 7 1 \<noteq> 0),
      jump_invert = (insn_field i 6 1 \<noteq> 0), jump_internal_cond = (insn_field i 5 1 \<noteq> 0),
      jump_cond = ucast (insn_field i 0 3), jump_rotate = ucast (insn_field i 0 5)\<rparr>"

definition insn_dispatch :: "insn \<Rightarrow> dispatch_fields" where
  "insn_dispatch i =
     \<lparr>dispatch_constant_field = ucast (insn_field i 32 10),
      dispatch_use_lpc = (insn_field i 25 1 \<noteq> 0), dispatch_advance_lc = (insn_field i 24 1 \<noteq> 0),
      dispatch_addr = ucast (insn_field i 12 11), dispatch_map = ucast (insn_field i 8 2),
      dispatch_len = ucast (insn_field i 5 3), dispatch_rotate = ucast (insn_field i 0 5)\<rparr>"

definition insn_byte :: "insn \<Rightarrow> byte_fields" where
  "insn_byte i =
     \<lparr>byte_dest = ucast (insn_field i 14 12), byte_func = ucast (insn_field i 12 2),
      byte_width_minus_1 = ucast (insn_field i 5 5), byte_rotate = ucast (insn_field i 0 5)\<rparr>"

section \<open>The assembler\<close>

definition asm_ALU :: u64 where "asm_ALU = push_bit 12 1"
definition asm_JUMP :: u64 where "asm_JUMP = push_bit 43 1"
definition asm_SETM :: u64 where "asm_SETM = push_bit 3 3"
definition asm_SETA :: u64 where "asm_SETA = push_bit 3 5"
definition asm_SETZ :: u64 where "asm_SETZ = 0"
definition asm_ADD :: u64 where "asm_ADD = push_bit 3 0x19"
definition asm_CARRY_IN :: u64 where "asm_CARRY_IN = push_bit 2 1"
definition asm_AND :: u64 where "asm_AND = push_bit 3 1"
definition asm_ANDCA :: u64 where "asm_ANDCA = push_bit 3 2"
definition asm_ANDCM :: u64 where "asm_ANDCM = push_bit 3 4"
definition asm_XOR :: u64 where "asm_XOR = push_bit 3 6"
definition asm_IOR :: u64 where "asm_IOR = push_bit 3 7"
definition asm_ANDCB :: u64 where "asm_ANDCB = push_bit 3 8"
definition asm_EQV :: u64 where "asm_EQV = push_bit 3 9"
definition asm_SETCA :: u64 where "asm_SETCA = push_bit 3 0xa"
definition asm_ORCA :: u64 where "asm_ORCA = push_bit 3 0xb"
definition asm_SETCM :: u64 where "asm_SETCM = push_bit 3 0xc"
definition asm_ORCM :: u64 where "asm_ORCM = push_bit 3 0xd"
definition asm_ORCB :: u64 where "asm_ORCB = push_bit 3 0xe"
definition asm_SETO :: u64 where "asm_SETO = push_bit 3 0xf"
definition asm_SUB :: u64 where "asm_SUB = push_bit 3 0x16"
definition asm_M_PLUS_M :: u64 where "asm_M_PLUS_M = push_bit 3 0x1f"
definition asm_M_PLUS_C :: u64 where "asm_M_PLUS_C = push_bit 3 0x1c"
definition asm_OB_RIGHT :: u64 where "asm_OB_RIGHT = push_bit 12 2"
definition asm_OB_LEFT :: u64 where "asm_OB_LEFT = push_bit 12 3"
definition asm_Q_LEFT :: u64 where "asm_Q_LEFT = 1"
definition asm_Q_RIGHT :: u64 where "asm_Q_RIGHT = 2"
definition asm_Q_LOAD :: u64 where "asm_Q_LOAD = 3"
definition asm_POPJ :: u64 where "asm_POPJ = push_bit 42 1"
definition asm_DISPATCH :: u64 where "asm_DISPATCH = push_bit 43 2"
definition asm_BYTE :: u64 where "asm_BYTE = push_bit 43 3"
definition asm_LDB :: u64 where "asm_LDB = push_bit 12 1"
definition asm_DEP :: u64 where "asm_DEP = push_bit 12 2"
definition asm_DPB :: u64 where "asm_DPB = push_bit 12 3"
definition asm_DMEM_WRITE :: u64 where "asm_DMEM_WRITE = push_bit 10 2"
definition asm_AEQM :: u64 where "asm_AEQM = push_bit 5 1 OR 3"
definition asm_STAT :: u64 where "asm_STAT = push_bit 46 1"
definition asm_R :: u64 where "asm_R = push_bit 9 1"
definition asm_P :: u64 where "asm_P = push_bit 8 1"
definition asm_N :: u64 where "asm_N = push_bit 7 1"
definition asm_INVERT :: u64 where "asm_INVERT = push_bit 6 1"
definition asm_ALWAYS :: u64 where "asm_ALWAYS = push_bit 5 1 OR 7"

definition asm_src :: "u64 \<Rightarrow> u64" where
  "asm_src n = push_bit 31 1 OR push_bit 26 n"

definition asm_SRC_MD :: u64 where "asm_SRC_MD = asm_src 0xa"
definition asm_SRC_Q :: u64 where "asm_SRC_Q = asm_src 7"
definition asm_START_READ :: u64 where "asm_START_READ = push_bit 19 0x11 OR push_bit 14 0x1f"
definition asm_START_WRITE :: u64 where "asm_START_WRITE = push_bit 19 0x12 OR push_bit 14 0x1f"
definition asm_MD :: u64 where "asm_MD = push_bit 19 0x18 OR push_bit 14 0x1f"
definition asm_VMA :: u64 where "asm_VMA = push_bit 19 0x10 OR push_bit 14 0x1f"

definition asm_a_src :: "u64 \<Rightarrow> u64" where "asm_a_src a = push_bit 32 a"
definition asm_m_src :: "u64 \<Rightarrow> u64" where "asm_m_src m = push_bit 26 m"
definition asm_a_dest :: "u64 \<Rightarrow> u64" where "asm_a_dest a = push_bit 25 1 OR push_bit 14 a"
definition asm_m_dest :: "u64 \<Rightarrow> u64" where "asm_m_dest m = push_bit 14 m"
definition asm_target :: "u64 \<Rightarrow> u64" where "asm_target pc = push_bit 12 pc"
definition asm_bit :: "u64 \<Rightarrow> u64" where "asm_bit b = (32 - b) AND 0x1f"
definition asm_rot :: "u64 \<Rightarrow> u64" where "asm_rot n = n AND 0x1f"
definition asm_width :: "u64 \<Rightarrow> u64" where "asm_width n = push_bit 5 (n - 1)"
definition asm_d_addr :: "u64 \<Rightarrow> u64" where "asm_d_addr a = push_bit 12 a"
definition asm_d_len :: "u64 \<Rightarrow> u64" where "asm_d_len n = push_bit 5 n"

definition asm_filler :: insn where
  "asm_filler = Insn_new (asm_ALU OR asm_SETA OR asm_a_src 3 OR asm_a_dest 0x40)"

lemmas asm_defs =
  asm_ALU_def asm_JUMP_def asm_SETM_def asm_SETA_def asm_SETZ_def asm_ADD_def asm_CARRY_IN_def
  asm_AND_def asm_ANDCA_def asm_ANDCM_def asm_XOR_def asm_IOR_def asm_ANDCB_def asm_EQV_def
  asm_SETCA_def asm_ORCA_def asm_SETCM_def asm_ORCM_def asm_ORCB_def asm_SETO_def asm_SUB_def
  asm_M_PLUS_M_def asm_M_PLUS_C_def asm_OB_RIGHT_def asm_OB_LEFT_def asm_Q_LEFT_def
  asm_Q_RIGHT_def asm_Q_LOAD_def asm_POPJ_def asm_DISPATCH_def asm_BYTE_def asm_LDB_def
  asm_DEP_def asm_DPB_def asm_DMEM_WRITE_def asm_AEQM_def asm_STAT_def asm_R_def asm_P_def
  asm_N_def asm_INVERT_def asm_ALWAYS_def asm_src_def asm_SRC_MD_def asm_SRC_Q_def
  asm_START_READ_def asm_START_WRITE_def asm_MD_def asm_VMA_def asm_a_src_def asm_m_src_def
  asm_a_dest_def asm_m_dest_def asm_target_def asm_bit_def asm_rot_def asm_width_def
  asm_d_addr_def asm_d_len_def

section \<open>Reading an assembled word\<close>

lemma bit_insn_field:
  assumes "len < 64"
  shows "bit (insn_field i pos len) n \<longleftrightarrow> n < 32 \<and> n < len \<and> bit i (pos + n)"
proof -
  have "push_bit len (1::u64) - 1 = mask len"
    by (simp add: mask_eq_exp_minus_1)
  then show ?thesis
    using assms by (auto simp: insn_field_def bit_simps dest: bit_imp_le_length)
qed

lemma insn_field_0 [field_simps_word]: "insn_field 0 pos len = 0"
  by (simp add: insn_field_def)

lemma insn_field_or [field_simps_word]:
  "len < 64 \<Longrightarrow> insn_field (x OR y) pos len = insn_field x pos len OR insn_field y pos len"
  by (rule bit_word_eqI) (auto simp: bit_insn_field bit_simps)

lemma insn_field_new [field_simps_word]:
  "len < 64 \<Longrightarrow> pos + len \<le> 48 \<Longrightarrow> insn_field (Insn_new x) pos len = insn_field x pos len"
proof (rule bit_word_eqI)
  fix n
  assume a: "len < 64" "pos + len \<le> 48"
  have m: "(0xffffffffffff :: u64) = mask 48" by (simp add: mask_eq_exp_minus_1)
  show "bit (insn_field (Insn_new x) pos len) n \<longleftrightarrow> bit (insn_field x pos len) n"
    using a by (auto simp: bit_insn_field Insn_new_def m bit_simps)
qed

lemma insn_field_numeral [field_simps_word]:
  "insn_field (numeral k) pos len = ucast (drop_bit pos (numeral k :: u64) AND (push_bit len 1 - 1))"
  "insn_field 1 pos len = ucast (drop_bit pos (1 :: u64) AND (push_bit len 1 - 1))"
  by (simp_all add: insn_field_def)

text \<open>A value that fits in \<open>k\<close> bits, shifted into place, seen by a field elsewhere and by its own.\<close>

lemma insn_field_push_other:
  assumes "x < 2 ^ k" "len < 64" "q + k \<le> pos \<or> pos + len \<le> q"
  shows "insn_field (push_bit q x) pos len = 0"
  using assms by (intro bit_word_eqI) (auto simp: bit_insn_field bit_simps dest!: word_less_exp_bit)

lemma insn_field_push_at:
  assumes "x < 2 ^ k" "k \<le> len" "len \<le> 32" "pos + k \<le> 64"
  shows "insn_field (push_bit pos x) pos len = ucast x"
  using assms by (intro bit_word_eqI) (auto simp: bit_insn_field bit_simps dest!: word_less_exp_bit)


section \<open>The assembler and the decoder are inverse\<close>

definition asm_functions :: "u64 list" where
  "asm_functions =
     [asm_SETZ, asm_AND, asm_ANDCA, asm_SETM, asm_ANDCM, asm_SETA, asm_XOR, asm_IOR, asm_ANDCB,
      asm_EQV, asm_SETCA, asm_ORCA, asm_SETCM, asm_ORCM, asm_ORCB, asm_SETO, asm_SUB, asm_ADD,
      asm_M_PLUS_C, asm_M_PLUS_M]"

definition asm_if :: "bool \<Rightarrow> u64 \<Rightarrow> u64" where
  "asm_if b v = (if b then v else 0)"

lemma asm_if_0 [simp]: "asm_if False v = 0" "asm_if True v = v"
  by (simp_all add: asm_if_def)

lemma asm_functions_fit: "f \<in> set asm_functions \<Longrightarrow> \<exists>k. k < 2 ^ 6 \<and> f = push_bit 3 k"
  by (rule exI [of _ "drop_bit 3 f"]) (auto simp: asm_functions_def asm_defs)

lemma insn_field_if [field_simps_word]:
  "insn_field (asm_if b v) pos len = (if b then insn_field v pos len else 0)"
  by (simp add: asm_if_def insn_field_0)

lemma insn_field_raw:
  assumes "x < 2 ^ k" "len < 64" "k \<le> pos"
  shows "insn_field x pos len = 0"
  using assms by (intro bit_word_eqI) (auto simp: bit_insn_field bit_simps dest!: word_less_exp_bit)

lemma insn_field_raw_at:
  assumes "x < 2 ^ k" "k \<le> len" "len \<le> 32"
  shows "insn_field x 0 len = ucast x"
  using assms by (intro bit_word_eqI) (auto simp: bit_insn_field bit_simps dest!: word_less_exp_bit)

text \<open>
  The decoder inverts the assembler on the ALU class. An instruction built from an output-bus
  select, a function, a Q control, the carry and \<open>POPJ\<close> flags, an A source, an M source and
  an A destination reads back as an ALU instruction with exactly these fields.
\<close>

theorem asm_alu_decodes:
  fixes a m d :: u64
  assumes a: "a < 2 ^ 10" and m: "m < 2 ^ 5" and d: "d < 2 ^ 10"
    and f: "f \<in> set asm_functions"
    and ob: "ob \<in> {asm_ALU, asm_OB_RIGHT, asm_OB_LEFT}"
    and q: "q \<in> {0, asm_Q_LEFT, asm_Q_RIGHT, asm_Q_LOAD}"
    and i: "i = Insn_new (ob OR f OR q OR asm_if c asm_CARRY_IN OR asm_if p asm_POPJ OR
                 asm_a_src a OR asm_m_src m OR asm_a_dest d)"
  shows "insn_op i = Op_Alu \<and> insn_a_src i = ucast a \<and> insn_m_src i = ucast m \<and>
    \<not> insn_m_src_functional i \<and> insn_popj i = p \<and>
    insn_alu i = \<lparr>alu_dest = 0x800 OR ucast d, alu_ob_select = ucast (drop_bit 12 ob),
       alu_func = ucast (drop_bit 3 f), alu_carry_in = c, alu_q_control = ucast q\<rparr>"
proof -
  obtain k where k: "k < 2 ^ 6" "f = push_bit 3 k"
    using asm_functions_fit [OF f] by blast
  obtain obs where obs: "obs < 2 ^ 2" "ob = push_bit 12 obs"
    using ob by (intro that [of "drop_bit 12 ob"]) (auto simp: asm_defs)
  have q': "q < 2 ^ 2"
    using q by (auto simp: asm_defs)
  note flds = insn_field_push_other [OF a] insn_field_push_at [OF a]
    insn_field_push_other [OF m] insn_field_push_at [OF m]
    insn_field_push_other [OF d] insn_field_push_at [OF d]
    insn_field_push_other [OF k(1)] insn_field_push_at [OF k(1)]
    insn_field_push_other [OF obs(1)] insn_field_push_at [OF obs(1)]
    insn_field_raw [OF q'] insn_field_raw_at [OF q']
  note eval = i k(2) obs(2) asm_defs field_simps_word flds
  have "drop_bit 12 ob = obs" "drop_bit 3 f = k"
    using obs(1) k(1) by (simp_all add: obs(2) k(2) drop_bit_push_bit_fits [where k = 2]
        drop_bit_push_bit_fits [where k = 6])
  then show ?thesis
    by (simp add: insn_op_def insn_a_src_def insn_m_src_def insn_m_src_functional_def
        insn_popj_def insn_alu_def eval)
qed

lemma asm_alu_decodes_witness:
  "insn_op (Insn_new (asm_OB_LEFT OR asm_ADD OR asm_Q_LOAD OR asm_if True asm_CARRY_IN OR asm_if True asm_POPJ OR
       asm_a_src 0x155 OR asm_m_src 9 OR asm_a_dest 0x2aa)) = Op_Alu"
  by (rule asm_alu_decodes [where f = asm_ADD and ob = asm_OB_LEFT and q = asm_Q_LOAD and c = True and p = True and a = "0x155" and m = 9 and d = "0x2aa",
        THEN conjunct1])
    (simp_all add: asm_functions_def asm_defs)

text \<open>
  The decoder inverts the assembler on the JUMP class: target, M source, the R, P, N and
  invert bits and \<open>POPJ\<close> read back as they were put, the condition is the tested bit's, and the
  rotation brings that bit to the bottom.
\<close>

theorem asm_jump_decodes:
  fixes t m b :: u64
  assumes t: "t < 2 ^ 14" and m: "m < 2 ^ 5"
    and i: "i = Insn_new (asm_JUMP OR asm_target t OR asm_m_src m OR asm_bit b OR asm_if r asm_R OR
                 asm_if p asm_P OR asm_if n asm_N OR asm_if v asm_INVERT OR asm_if pj asm_POPJ)"
  shows "insn_op i = Op_Jump \<and> insn_m_src i = ucast m \<and> insn_popj i = pj \<and>
    jump_target (insn_jump i) = ucast t \<and> jump_r (insn_jump i) = r \<and> jump_p (insn_jump i) = p \<and>
    jump_n (insn_jump i) = n \<and> jump_invert (insn_jump i) = v \<and>
    \<not> jump_internal_cond (insn_jump i) \<and> jump_rotate (insn_jump i) = ucast (asm_bit b)"
proof -
  have b: "asm_bit b < 2 ^ 5"
    using word_and_mask_less [of 5 "32 - b"] by (simp add: asm_bit_def mask_eq_exp_minus_1)
  note flds = insn_field_push_other [OF t] insn_field_push_at [OF t]
    insn_field_push_other [OF m] insn_field_push_at [OF m]
    insn_field_raw [OF b] insn_field_raw_at [OF b]
  show ?thesis
    by (simp add: insn_op_def insn_m_src_def insn_popj_def insn_jump_def i asm_JUMP_def
        asm_target_def asm_m_src_def asm_R_def asm_P_def asm_N_def asm_INVERT_def asm_POPJ_def
        field_simps_word flds)
qed

lemma asm_jump_decodes_witness:
  "insn_op (Insn_new (asm_JUMP OR asm_target 0x1234 OR asm_m_src 7 OR asm_bit 3 OR asm_if True asm_R OR
       asm_if False asm_P OR asm_if True asm_N OR asm_if False asm_INVERT OR asm_if True asm_POPJ)) = Op_Jump"
  by (rule asm_jump_decodes [where t = "0x1234" and m = 7 and b = 3 and r = True and p = False and
        n = True and v = False and pj = True, THEN conjunct1]) simp_all

lemma asm_dispatch_decodes:
  fixes c m a len k :: u64
  assumes c: "c < 2 ^ 10" and m: "m < 2 ^ 5" and a: "a < 2 ^ 11" and len: "len < 2 ^ 3"
    and i: "i = Insn_new (asm_DISPATCH OR asm_a_src c OR asm_m_src m OR asm_d_addr a OR
                 asm_d_len len OR asm_rot k OR asm_if w asm_DMEM_WRITE)"
  shows "insn_op i = Op_Dispatch \<and> insn_m_src i = ucast m \<and> insn_misc i = (if w then 2 else 0) \<and>
    insn_dispatch i = \<lparr>dispatch_constant_field = ucast c, dispatch_use_lpc = False,
      dispatch_advance_lc = False, dispatch_addr = ucast a, dispatch_map = 0,
      dispatch_len = ucast len, dispatch_rotate = ucast (asm_rot k)\<rparr>"
proof -
  have k: "asm_rot k < 2 ^ 5"
    using word_and_mask_less [of 5 k] by (simp add: asm_rot_def mask_eq_exp_minus_1)
  note flds = insn_field_push_other [OF c] insn_field_push_at [OF c]
    insn_field_push_other [OF m] insn_field_push_at [OF m]
    insn_field_push_other [OF a] insn_field_push_at [OF a]
    insn_field_push_other [OF len] insn_field_push_at [OF len]
    insn_field_raw [OF k] insn_field_raw_at [OF k]
  show ?thesis
    by (simp add: insn_op_def insn_m_src_def insn_misc_def insn_dispatch_def i asm_DISPATCH_def
        asm_a_src_def asm_m_src_def asm_d_addr_def asm_d_len_def asm_DMEM_WRITE_def
        field_simps_word flds)
qed

lemma asm_byte_decodes:
  fixes a m d w k :: u64
  assumes a: "a < 2 ^ 10" and m: "m < 2 ^ 5" and d: "d < 2 ^ 10" and w: "w - 1 < 2 ^ 5"
    and f: "f \<in> {asm_LDB, asm_DEP, asm_DPB}"
    and i: "i = Insn_new (asm_BYTE OR f OR asm_a_src a OR asm_m_src m OR asm_a_dest d OR
                 asm_width w OR asm_rot k)"
  shows "insn_op i = Op_Byte \<and> insn_a_src i = ucast a \<and> insn_m_src i = ucast m \<and>
    insn_byte i = \<lparr>byte_dest = 0x800 OR ucast d, byte_func = ucast (drop_bit 12 f),
      byte_width_minus_1 = ucast (w - 1), byte_rotate = ucast (asm_rot k)\<rparr>"
proof -
  have k: "asm_rot k < 2 ^ 5"
    using word_and_mask_less [of 5 k] by (simp add: asm_rot_def mask_eq_exp_minus_1)
  note flds = insn_field_push_other [OF a] insn_field_push_at [OF a]
    insn_field_push_other [OF m] insn_field_push_at [OF m]
    insn_field_push_other [OF d] insn_field_push_at [OF d]
    insn_field_push_other [OF w] insn_field_push_at [OF w]
    insn_field_raw [OF k] insn_field_raw_at [OF k]
  show ?thesis
    using f
    by (auto simp: insn_op_def insn_a_src_def insn_m_src_def insn_byte_def i asm_BYTE_def
        asm_a_src_def asm_m_src_def asm_a_dest_def asm_width_def asm_LDB_def asm_DEP_def
        asm_DPB_def field_simps_word flds)
qed
end
