(* ===== verification/Ttl.thy ===== *)
theory Ttl
  imports Isa
begin

text \<open>
  The 33-bit ALU of nine 74S181 slices and its control, \<open>src/ttl.rs\<close>: the function table
  (\<open>alu\<close>), the tag bits of a 40-bit word (\<open>alu_tag\<close>) and the multiplexers of page ALUC4
  (\<open>alu_control\<close>). The lemmas read the array's output as integers: the ninth slice extends the
  signs, so sums, differences and comparisons are those of the signed operands.
\<close>

section \<open>The array\<close>

definition M33 :: u64 where
  "M33 = push_bit 33 1 - 1"

record alu_result =
  alu_f :: u64
  alu_aeqm :: bool

definition sext33 :: "u32 \<Rightarrow> u64" where
  "sext33 m = (ucast m OR push_bit 32 (ucast (drop_bit 31 m))) AND M33"

definition alu_logic :: "u8 \<Rightarrow> u64 \<Rightarrow> u64 \<Rightarrow> u64" where
  "alu_logic fn x y =
     (if fn = 0x0 then NOT x
      else if fn = 0x1 then NOT (x OR y)
      else if fn = 0x2 then NOT x AND y
      else if fn = 0x3 then 0
      else if fn = 0x4 then NOT (x AND y)
      else if fn = 0x5 then NOT y
      else if fn = 0x6 then x XOR y
      else if fn = 0x7 then x AND NOT y
      else if fn = 0x8 then NOT x OR y
      else if fn = 0x9 then NOT (x XOR y)
      else if fn = 0xa then y
      else if fn = 0xb then x AND y
      else if fn = 0xc then NOT 0
      else if fn = 0xd then x OR NOT y
      else if fn = 0xe then x OR y
      else x)"

definition alu_terms :: "u8 \<Rightarrow> u64 \<Rightarrow> u64 \<Rightarrow> u64 \<times> u64" where
  "alu_terms fn x y =
     (if fn = 0x0 then (x, 0)
      else if fn = 0x1 then (x OR y, 0)
      else if fn = 0x2 then (x OR NOT y, 0)
      else if fn = 0x3 then (M33, 0)
      else if fn = 0x4 then (x, x AND NOT y)
      else if fn = 0x5 then (x OR y, x AND NOT y)
      else if fn = 0x6 then (x, NOT y)
      else if fn = 0x7 then (x AND NOT y, M33)
      else if fn = 0x8 then (x, x AND y)
      else if fn = 0x9 then (x, y)
      else if fn = 0xa then (x OR NOT y, x AND y)
      else if fn = 0xb then (x AND y, M33)
      else if fn = 0xc then (x, x)
      else if fn = 0xd then (x OR y, x)
      else if fn = 0xe then (x OR NOT y, x)
      else (x, M33))"

definition alu :: "u32 \<Rightarrow> u32 \<Rightarrow> u8 \<Rightarrow> bool \<Rightarrow> bool \<Rightarrow> alu_result" where
  "alu m a aluf alumode cin =
     (let x = sext33 m; y = sext33 a;
          f = (if alumode then alu_logic (aluf AND 0xf) x y
               else (let (p, q) = alu_terms (aluf AND 0xf) x y
                     in (p AND M33) + (q AND M33) + of_flag cin)) AND M33
      in \<lparr>alu_f = f, alu_aeqm = (f AND 0xffffffff = 0xffffffff)\<rparr>)"

definition alu_tag :: "u64 \<Rightarrow> u64 \<Rightarrow> u8 \<Rightarrow> bool \<Rightarrow> u64" where
  "alu_tag m a aluf alumode =
     (if alumode
      then push_bit 32
             (alu_f (alu (ucast (drop_bit 32 m) AND 0xff) (ucast (drop_bit 32 a) AND 0xff)
                       aluf True False) AND 0xff)
      else m AND push_bit 32 0xff)"

section \<open>The control\<close>

record alu_ctl =
  ctl_aluf :: u8
  ctl_alumode :: bool
  ctl_cin :: bool
  ctl_alusub :: bool
  ctl_aluadd :: bool

definition alu_control :: "u64 \<Rightarrow> bool \<Rightarrow> bool \<Rightarrow> bool \<Rightarrow> bool \<Rightarrow> alu_ctl" where
  "alu_control ir q0 a31 iralu irjump =
     (let b = (\<lambda>n. bit ir n);
          specalu = (b 8 \<and> iralu);
          sel = (push_bit 1 (of_flag (b 4)) OR of_flag (b 3) :: u8);
          mul = (specalu \<and> sel = 0);
          dv = (specalu \<and> sel = 1);
          divpos = (q0 \<or> b 6);
          divsub = (dv \<and> divpos);
          divadd = (dv \<and> (b 5 \<or> \<not> divpos));
          mulnop = (mul \<and> \<not> q0);
          aluadd = ((divadd \<and> \<not> a31) \<or> (divsub \<and> a31) \<or> mul);
          alusub = (mulnop \<or> (divsub \<and> \<not> a31) \<or> (divadd \<and> a31) \<or> irjump);
          (aluf, alumode, cin) =
            (if \<not> alusub \<and> \<not> aluadd
             then (push_bit 3 (of_flag (b 3)) OR push_bit 2 (of_flag (b 4)) OR
                   push_bit 1 (of_flag (\<not> b 6)) OR of_flag (\<not> b 5), \<not> b 7, b 2)
             else if \<not> alusub \<and> aluadd then (9, False, False)
             else if alusub \<and> \<not> aluadd then (6, False, \<not> irjump)
             else (15, True, True))
      in \<lparr>ctl_aluf = aluf, ctl_alumode = alumode, ctl_cin = cin,
          ctl_alusub = alusub, ctl_aluadd = aluadd\<rparr>)"

section \<open>The array's output as integers\<close>

lemma M33_mask: "M33 = mask 33"
  by (simp add: M33_def mask_eq_exp_minus_1)

lemma bit_sext33: "bit (sext33 m) n \<longleftrightarrow> n < 33 \<and> bit m (min n 31)"
proof (cases "n < 33")
  case True
  then have "n = 32 \<or> n < 32" by linarith
  then show ?thesis
    by (auto simp: sext33_def M33_mask bit_simps min_def dest: bit_imp_le_length)
next
  case False
  then show ?thesis by (simp add: sext33_def M33_mask bit_simps)
qed

lemma uint_sext33: "uint (sext33 m) = sint m mod 2 ^ 33"
proof -
  have "uint (sext33 m) = take_bit 33 (sint m)"
    by (rule bit_eqI) (auto simp: bit_simps bit_sext33 bit_sint_iff min.commute)
  then show ?thesis by (simp only: take_bit_eq_mod)
qed

lemma sext33_and_M33 [simp]: "sext33 m AND M33 = sext33 m"
  by (simp add: sext33_def and.assoc)

lemma uint_and_M33: "uint (v AND M33) = uint v mod 2 ^ 33"
  by (simp only: M33_mask uint_and_mask_mod)

text \<open>A 64-bit sum of two 33-bit operands and a carry does not wrap.\<close>

lemma uint_sum33:
  "uint (((p AND M33) + (q AND M33) + of_flag c) AND M33) =
     (uint p + uint q + of_bool c) mod 2 ^ 33"
proof -
  have "uint (((p AND M33) + (q AND M33) + of_flag c) AND M33) =
      uint ((p AND M33) + (q AND M33) + of_flag c) mod 2 ^ 33"
    by (rule uint_and_M33)
  also have "uint ((p AND M33) + (q AND M33) + (of_flag c :: u64)) =
      (uint (p AND M33) + uint (q AND M33) + of_bool c) mod 2 ^ 64"
    by (simp add: uint_word_arith_bintrs take_bit_eq_mod of_flag_def mod_simps)
  also have "\<dots> mod 2 ^ 33 = (uint (p AND M33) + uint (q AND M33) + of_bool c) mod 2 ^ 33"
    by (rule mod_mod_cancel) simp
  also have "\<dots> = (uint p + uint q + of_bool c) mod 2 ^ 33"
    by (simp only: uint_and_M33 mod_sum3)
  finally show ?thesis .
qed

lemma uint_not_mod33: "uint (NOT (y :: u64)) mod 2 ^ 33 = (- uint y - 1) mod 2 ^ 33"
proof -
  have "uint (NOT y) = (- uint y - 1) mod 2 ^ 64"
    unfolding not_eq_complement by (simp only: uint_word_ariths) (simp add: mod_simps)
  then show ?thesis by (simp add: mod_mod_cancel)
qed

lemma alu_arith:
  assumes "alu_terms (aluf AND 0xf) (sext33 m) (sext33 a) = (p, q)"
  shows "uint (alu_f (alu m a aluf False c)) = (uint p + uint q + of_bool c) mod 2 ^ 33"
  unfolding alu_def Let_def assms by (simp add: uint_sum33)

text \<open>
  The arithmetic functions the instruction set names: \<open>ADD\<close>, \<open>SUB\<close>, \<open>M+M\<close> and \<open>M+C\<close>, by
  the 74S181 select each reaches the array with.
\<close>

lemma alu_add: "uint (alu_f (alu m a 9 False c)) = (sint m + sint a + of_bool c) mod 2 ^ 33"
proof -
  have "uint (alu_f (alu m a 9 False c)) =
      (uint (sext33 m) + uint (sext33 a) + of_bool c) mod 2 ^ 33"
    by (rule alu_arith) (simp add: alu_terms_def)
  then show ?thesis by (simp only: uint_sext33 mod_sum3)
qed

lemma alu_sub: "uint (alu_f (alu m a 6 False c)) = (sint m - sint a - 1 + of_bool c) mod 2 ^ 33"
proof -
  have "uint (alu_f (alu m a 6 False c)) =
      (uint (sext33 m) + uint (NOT (sext33 a)) + of_bool c) mod 2 ^ 33"
    by (rule alu_arith) (simp add: alu_terms_def)
  also have "\<dots> = (uint (sext33 m) mod 2 ^ 33 + uint (NOT (sext33 a)) mod 2 ^ 33 + of_bool c) mod 2 ^ 33"
    by (simp only: mod_sum3)
  also have "\<dots> = (sint m mod 2 ^ 33 + (- (sint a mod 2 ^ 33) - 1) mod 2 ^ 33 + of_bool c) mod 2 ^ 33"
    by (simp only: uint_not_mod33 uint_sext33 mod_mod_trivial)
  also have "\<dots> = (sint m + (- sint a - 1) + of_bool c) mod 2 ^ 33"
    by (simp only: mod_sum3 mod_neg_pred)
  finally show ?thesis by (simp add: algebra_simps)
qed

lemma alu_double: "uint (alu_f (alu m a 12 False c)) = (2 * sint m + of_bool c) mod 2 ^ 33"
proof -
  have "uint (alu_f (alu m a 12 False c)) =
      (uint (sext33 m) + uint (sext33 m) + of_bool c) mod 2 ^ 33"
    by (rule alu_arith) (simp add: alu_terms_def)
  then show ?thesis by (simp only: uint_sext33 mod_sum3 mult_2)
qed

lemma alu_inc: "uint (alu_f (alu m a 0 False c)) = (sint m + of_bool c) mod 2 ^ 33"
proof -
  have "uint (alu_f (alu m a 0 False c)) = (uint (sext33 m) + uint (0::u64) + of_bool c) mod 2 ^ 33"
    by (rule alu_arith) (simp add: alu_terms_def)
  then show ?thesis by (simp add: uint_sext33 mod_simps)
qed

lemma alu_pass: "alu_f (alu m a 15 True c) = sext33 m"
  by (simp add: alu_def alu_logic_def Let_def)

text \<open>Bit 32 is the sign of the 33-bit result, and the low word of ones is a difference of minus one.\<close>

lemma alu_f_sign:
  assumes "uint f = v mod 2 ^ 33" "- (2 ^ 32) \<le> v" "v < 2 ^ 32"
  shows "bit (f :: u64) 32 \<longleftrightarrow> v < 0"
proof -
  have "bit f 32 \<longleftrightarrow> bit (uint f) 32" by (simp add: bit_simps)
  also have "\<dots> \<longleftrightarrow> odd (v mod 2 ^ 33 div 2 ^ 32)" by (simp only: assms(1) bit_iff_odd)
  also have "\<dots> \<longleftrightarrow> v < 0"
  proof (cases "v < 0")
    case True
    have "v mod 2 ^ 33 = (v + 2 ^ 33) mod 2 ^ 33" by simp
    also have "\<dots> = (v + 2 ^ 32) + 2 ^ 32"
      using True assms(2) by (subst mod_pos_pos_trivial) simp_all
    finally have "v mod 2 ^ 33 div 2 ^ 32 = (v + 2 ^ 32 + 2 ^ 32) div 2 ^ 32"
      by (rule arg_cong)
    also have "\<dots> = (v + 2 ^ 32) div 2 ^ 32 + 1"
      by (rule div_add_self2) simp
    finally have "v mod 2 ^ 33 div 2 ^ 32 = (v + 2 ^ 32) div 2 ^ 32 + 1" .
    moreover have "(v + 2 ^ 32) div 2 ^ 32 = 0"
      using True assms(2) by (intro div_pos_pos_trivial) simp_all
    ultimately show ?thesis using True by simp
  next
    case False
    have "v mod 2 ^ 33 = v" using False assms(3) by (intro mod_pos_pos_trivial) simp_all
    moreover have "v div 2 ^ 32 = 0" using False assms(3) by (intro div_pos_pos_trivial) simp_all
    ultimately show ?thesis using False by simp
  qed
  finally show ?thesis .
qed

lemma alu_aeqm_iff:
  "alu_aeqm (alu m a aluf mode c) \<longleftrightarrow> uint (alu_f (alu m a aluf mode c)) mod 2 ^ 32 = 2 ^ 32 - 1"
proof -
  have e: "f AND 0xffffffff = (0xffffffff :: u64) \<longleftrightarrow> uint f mod 2 ^ 32 = 2 ^ 32 - 1" for f
  proof -
    have "(0xffffffff :: u64) = mask 32" by (simp add: mask_eq_exp_minus_1)
    then have "uint (f AND 0xffffffff) = uint f mod 2 ^ 32" by (simp only: uint_and_mask_mod)
    moreover have "f AND 0xffffffff = 0xffffffff \<longleftrightarrow> uint (f AND 0xffffffff) = uint (0xffffffff :: u64)"
      by (simp only: word_uint_eq_iff)
    ultimately show ?thesis by simp
  qed
  show ?thesis unfolding alu_def Let_def by (simp add: e [simplified])
qed

text \<open>The low word of the array's output.\<close>

lemma low_word:
  assumes "uint (f :: u64) = v mod 2 ^ 33"
  shows "(ucast f :: u32) = word_of_int v"
proof -
  have "(ucast f :: u32) = word_of_int (v mod 2 ^ 33)"
    by (simp only: assms [symmetric] ucast_eq)
  also have "\<dots> = word_of_int v"
    by (simp add: word_of_int_eq_iff take_bit_eq_mod mod_mod_cancel)
  finally show ?thesis .
qed

lemma alu_compare:
  fixes m a :: u32
  defines "r \<equiv> alu m a 6 False False"
  shows "bit (alu_f r) 32 \<longleftrightarrow> sint m \<le> sint a" "alu_aeqm r \<longleftrightarrow> m = a"
proof -
  have u: "uint (alu_f r) = (sint m - sint a - 1) mod 2 ^ 33"
    by (simp add: r_def alu_sub [where c = False, simplified])
  have bounds: "- (2 ^ 31) \<le> sint m" "sint m < 2 ^ 31" "- (2 ^ 31) \<le> sint a" "sint a < 2 ^ 31"
    using sint_greater_eq [of m] sint_less [of m] sint_greater_eq [of a] sint_less [of a] by simp_all
  have "bit (alu_f r) 32 \<longleftrightarrow> sint m - sint a - 1 < 0"
    by (rule alu_f_sign [OF u]) (use bounds in simp_all)
  then show "bit (alu_f r) 32 \<longleftrightarrow> sint m \<le> sint a" by linarith
  have "alu_aeqm r \<longleftrightarrow> uint (alu_f r) mod 2 ^ 32 = 2 ^ 32 - 1"
    by (simp only: r_def alu_aeqm_iff)
  also have "uint (alu_f r) mod 2 ^ 32 = (sint m - sint a - 1) mod 2 ^ 32"
    unfolding u by (rule mod_mod_cancel) simp
  also have "\<dots> = uint (word_of_int (sint m - sint a - 1) :: u32)"
    by (simp only: uint_word_of_int) simp
  also have "(word_of_int (sint m - sint a - 1) :: u32) = m - a - 1"
    by simp
  also have "uint (m - a - 1) = 2 ^ 32 - 1 \<longleftrightarrow> m - a - 1 = - 1"
    by (simp add: word_uint_eq_iff unsigned_minus_1_eq_mask mask_eq_exp_minus_1)
  also have "\<dots> \<longleftrightarrow> m = a" by auto
  finally show "alu_aeqm r \<longleftrightarrow> m = a" .
qed


section \<open>The instruction set's function table\<close>

text \<open>The array as the ALU class drives it: page ALUC4's control on the instruction's own code.\<close>

definition alu_by_code :: "u64 \<Rightarrow> u32 \<Rightarrow> u32 \<Rightarrow> bool \<Rightarrow> u32" where
  "alu_by_code ir m a q0 =
     (let c = alu_control ir q0 (bit a 31) True False
      in ucast (alu_f (alu m a (ctl_aluf c) (ctl_alumode c) (ctl_cin c))))"

lemma ucast_sext33 [simp]: "(ucast (sext33 m) :: u32) = m"
  by (rule bit_word_eqI) (auto simp: bit_simps bit_sext33 min_def)

lemma ucast_and_M33 [simp]: "(ucast (v AND M33) :: u32) = ucast v"
  by (rule bit_word_eqI) (auto simp: bit_simps M33_mask)

lemma ucast_bitops [simp]:
  "(ucast (x AND y :: u64) :: u32) = ucast x AND ucast y"
  "(ucast (x XOR y :: u64) :: u32) = ucast x XOR ucast y"
  "(ucast (NOT x :: u64) :: u32) = NOT (ucast x)"
  by (rule bit_word_eqI; auto simp: bit_simps)+

lemma low_arith:
  "(ucast (alu_f (alu m a 9 False c)) :: u32) = m + a + of_flag c"
  "(ucast (alu_f (alu m a 6 False c)) :: u32) = m - a - 1 + of_flag c"
  "(ucast (alu_f (alu m a 12 False c)) :: u32) = 2 * m + of_flag c"
  "(ucast (alu_f (alu m a 0 False c)) :: u32) = m + of_flag c"
  by (simp_all add: low_word [OF alu_add] low_word [OF alu_sub] low_word [OF alu_double]
      low_word [OF alu_inc] of_flag_def)

lemma low_logic: "(ucast (alu_f (alu m a fn True c)) :: u32) =
    ucast (alu_logic (fn AND 0xf) (sext33 m) (sext33 a))"
  by (simp add: alu_def Let_def del: ucast_bitops)

lemma ucast_minus_1 [simp]: "(ucast (- 1 :: u64) :: u32) = - 1"
  by (rule bit_word_eqI) (simp add: bit_simps)

text \<open>
  C18: the whole function table of the instruction set. Driven through the control of page ALUC4 by the
  code the assembler gives a function's name, with or without the carry in, the array computes on its
  low 32 bits the logical or modular arithmetic function that the name says, whatever \<open>Q<0>\<close>.
\<close>

theorem alu_function_table:
  "alu_by_code asm_SETZ m a q0 = 0 \<and>
   alu_by_code asm_AND m a q0 = m AND a \<and>
   alu_by_code asm_ANDCA m a q0 = m AND NOT a \<and>
   alu_by_code asm_SETM m a q0 = m \<and>
   alu_by_code asm_ANDCM m a q0 = NOT m AND a \<and>
   alu_by_code asm_SETA m a q0 = a \<and>
   alu_by_code asm_XOR m a q0 = m XOR a \<and>
   alu_by_code asm_IOR m a q0 = m OR a \<and>
   alu_by_code asm_ANDCB m a q0 = NOT (m OR a) \<and>
   alu_by_code asm_EQV m a q0 = NOT (m XOR a) \<and>
   alu_by_code asm_SETCA m a q0 = NOT a \<and>
   alu_by_code asm_ORCA m a q0 = m OR NOT a \<and>
   alu_by_code asm_SETCM m a q0 = NOT m \<and>
   alu_by_code asm_ORCM m a q0 = NOT m OR a \<and>
   alu_by_code asm_ORCB m a q0 = NOT (m AND a) \<and>
   alu_by_code asm_SETO m a q0 = - 1 \<and>
   alu_by_code asm_ADD m a q0 = m + a \<and>
   alu_by_code (asm_ADD OR asm_CARRY_IN) m a q0 = m + a + 1 \<and>
   alu_by_code asm_SUB m a q0 = m - a - 1 \<and>
   alu_by_code (asm_SUB OR asm_CARRY_IN) m a q0 = m - a \<and>
   alu_by_code asm_M_PLUS_M m a q0 = 2 * m \<and>
   alu_by_code asm_M_PLUS_C m a q0 = m \<and>
   alu_by_code (asm_M_PLUS_C OR asm_CARRY_IN) m a q0 = m + 1"
  by (intro conjI) (simp_all add: alu_by_code_def alu_control_def Let_def asm_defs low_arith low_logic
      alu_logic_def of_flag_def)


text \<open>
  C19: the comparison the jump conditions use. \<open>M - A - 1\<close> on the array has its 33rd bit set exactly
  when \<open>M\<close> is at most \<open>A\<close> as signed numbers, with no overflow to be wary of, and
  the array's \<open>A = B\<close> output is equality.
\<close>

theorem alu_signed_compare:
  "(bit (alu_f (alu m a 6 False False)) 32 \<longleftrightarrow> sint m \<le> sint a) \<and>
   (alu_aeqm (alu m a 6 False False) \<longleftrightarrow> m = a)"
  by (intro conjI alu_compare)

end
