(* ===== verification/Muldiv.thy ===== *)
theory Muldiv
  imports Ttl
begin

text \<open>
  QUUX's one-instruction multiply and divide, \<open>src/muldiv.rs\<close>: the decode of ALU functions 42
  and 43, the multiply and divide steps on the 74S181 array, and \<open>run\<close>, which folds them. The
  lemmas give what the folded steps compute: \<open>MUL\<close> the signed 64-bit product of the A source and
  the unsigned \<open>Q\<close> plus the M source, \<open>DIV\<close> 32 bits of a non-restoring quotient with its partial
  remainder.
\<close>

section \<open>The model\<close>

datatype muldiv_op = Mul | Div

definition MUS :: u64 where "MUS = push_bit 3 0x20"
definition DVS :: u64 where "DVS = push_bit 3 0x21"
definition DVS1 :: u64 where "DVS1 = push_bit 3 0x29"

definition DIV_CYCLES :: nat where "DIV_CYCLES = 9"

definition muldiv_decode :: "u64 \<Rightarrow> muldiv_op option" where
  "muldiv_decode ir =
     (let specalu = (drop_bit 43 ir AND 3 = 0 \<and> bit ir 8);
          sel = drop_bit 3 ir AND 3
      in if specalu \<and> sel = 2 then Some Mul
         else if specalu \<and> sel = 3 then Some Div
         else None)"

definition md_step :: "u64 \<Rightarrow> u32 \<Rightarrow> u32 \<Rightarrow> u32 \<Rightarrow> u64" where
  "md_step code m a q =
     (let ctl = alu_control code (q AND 1 \<noteq> 0) (drop_bit 31 a \<noteq> 0) True False
      in alu_f (alu m a (ctl_aluf ctl) (ctl_alumode ctl) (ctl_cin ctl)))"

definition mul_step :: "u32 \<Rightarrow> u32 \<Rightarrow> u32 \<Rightarrow> u32 \<times> u32" where
  "mul_step m a q =
     (let f = md_step MUS m a q
      in (ucast (drop_bit 1 f), push_bit 31 (ucast f AND 1) OR drop_bit 1 q))"

definition div_step :: "u64 \<Rightarrow> u32 \<Rightarrow> u32 \<Rightarrow> u32 \<Rightarrow> u32 \<times> u32" where
  "div_step code m a q =
     (let f = (ucast (md_step code m a q) :: u32)
      in (push_bit 1 f OR drop_bit 31 q, push_bit 1 q OR drop_bit 31 (NOT f)))"

definition muldiv_run :: "muldiv_op \<Rightarrow> u32 \<Rightarrow> u32 \<Rightarrow> u32 \<Rightarrow> u32 \<times> u32" where
  "muldiv_run op m a q =
     (case op of
        Mul \<Rightarrow> ((\<lambda>(m, q). mul_step m a q) ^^ 32) (m, q)
      | Div \<Rightarrow> ((\<lambda>(m, q). div_step DVS m a q) ^^ 31) (div_step DVS1 m a q))"

section \<open>The multiply\<close>

lemma and_1_bit0: "q AND 1 \<noteq> 0 \<longleftrightarrow> bit (q :: u32) 0"
  by (simp add: and_one_eq bit_0 odd_iff_mod_2_eq_one)

lemma drop_31: "drop_bit 31 w = (of_flag (bit w 31) :: u32)"
proof (rule bit_word_eqI)
  fix n
  show "bit (drop_bit 31 w) n = bit (of_flag (bit w 31) :: u32) n"
    using bit_imp_le_length [of w "31 + n"] by (cases n) (auto simp: bit_simps)
qed

lemma drop_31_bit: "drop_bit 31 a \<noteq> 0 \<longleftrightarrow> bit (a :: u32) 31"
  by (simp add: drop_31)

lemma shift_in_bottom: "push_bit 1 w OR of_flag b = (2 * w + of_flag b :: u32)"
proof -
  have "2 * w AND of_flag b = (0 :: u32)"
    by (rule bit_word_eqI) (auto simp: bit_simps bit_double_iff)
  then show ?thesis by (simp add: disjunctive_add_eq_or mult.commute)
qed

lemma bit_shift_in:
  "bit (push_bit 1 w OR of_flag b :: u32) n \<longleftrightarrow> (if n = 0 then b else n < 32 \<and> bit w (n - 1))"
  unfolding bit_or_iff bit_push_bit_iff by (cases n) auto

lemma uint_MUS_step:
  "uint (md_step MUS m a q) = (sint m + of_bool (bit q 0) * sint a) mod 2 ^ 33"
  by (cases "bit q 0")
    (simp_all add: md_step_def alu_control_def MUS_def Let_def and_1_bit0 of_flag_def
      alu_add [where c = False, simplified] alu_pass uint_sext33)

text \<open>
  One step in integers: with \<open>P\<close> the 64-bit value of the output bus and \<open>Q\<close>, the bus signed,
  \<open>2 P'\<close> is \<open>P\<close> plus, when the multiplier's low bit is set, the multiplicand in the high word
  less the bit that leaves.
\<close>

definition md_value :: "u32 \<times> u32 \<Rightarrow> int" where
  "md_value = (\<lambda>(m, q). sint m * 2 ^ 32 + uint q)"

lemma sint_range32: "- (2 ^ 31) \<le> sint (m :: u32)" "sint m < 2 ^ 31"
  using sint_greater_eq [of m] sint_less [of m] by simp_all

lemma odd_uint: "odd (uint v) \<longleftrightarrow> odd v"
  unfolding bit_0 [symmetric] by (simp only: bit_uint_iff) (simp add: bit_0)

lemma uint_drop_1: "uint (drop_bit 1 v) = uint v div 2"
  by (rule bit_eqI) (auto simp: bit_uint_iff bit_drop_bit_eq bit_Suc [symmetric] dest: bit_imp_le_length)

lemma sint_of_33:
  assumes "- (2 ^ 32) \<le> s" "s < 2 ^ 32" "uint (f :: u64) = s mod 2 ^ 33"
  shows "sint (ucast (drop_bit 1 f) :: u32) = s div 2"
proof -
  have "uint (ucast (drop_bit 1 f) :: u32) = uint f div 2 mod 2 ^ 32"
    by (simp only: unsigned_ucast_eq take_bit_eq_mod uint_drop_1) simp
  also have "\<dots> = s div 2 mod 2 ^ 32 mod 2 ^ 32"
    unfolding assms(3) using half_mod [of s 32] by simp
  finally have u: "uint (ucast (drop_bit 1 f) :: u32) = s div 2 mod 2 ^ 32" by simp
  have "sint (ucast (drop_bit 1 f) :: u32) = signed_take_bit 31 (s div 2)"
    using u by (simp add: sint_uint signed_take_bit_eq_take_bit_shift take_bit_eq_mod mod_simps)
  also have "\<dots> = s div 2"
    using assms(1,2) by (intro signed_take_bit_int_eq_self) auto
  finally show ?thesis .
qed

lemma low_bit_33: "uint (f :: u64) = s mod 2 ^ 33 \<Longrightarrow> uint (ucast f AND 1 :: u32) = s mod 2"
  by (simp add: and_one_eq unsigned_ucast_eq uint_mod take_bit_eq_mod mod_mod_cancel)

lemma shift_in_top:
  fixes b q :: u32
  assumes "uint b < 2"
  shows "uint (push_bit 31 b OR drop_bit 1 q) = uint b * 2 ^ 31 + uint q div 2"
proof -
  have b: "b = 0 \<or> b = 1"
    using assms uint_ge_0 [of b] unfolding word_uint_eq_iff uint_0_eq uint_1_eq by linarith
  then have "push_bit 31 b AND drop_bit 1 q = 0"
    by (intro bit_word_eqI) (auto simp: bit_simps dest: bit_imp_le_length)
  then have "uint (push_bit 31 b OR drop_bit 1 q) = uint (push_bit 31 b) + uint (drop_bit 1 q)"
    by (rule uint_or_disjoint)
  then show ?thesis unfolding uint_drop_1 using b by auto
qed

lemma exp_values: "(2 :: int) ^ 32 = 4294967296" "(2 :: int) ^ 31 = 2147483648"
  by simp_all

lemma md_halves:
  fixes hi lo s sd sm q qd qm b :: int
  assumes "hi = sd" "lo = sm * 2147483648 + qd" "qm = b" "s = 2 * sd + sm" "q = 2 * qd + qm"
  shows "2 * (hi * 4294967296 + lo) = s * 4294967296 + q - b"
  unfolding assms by (simp add: algebra_simps)

lemma mul_step_value:
  assumes "mul_step m a q = (m', q')"
  shows "2 * md_value (m', q') = md_value (m, q) + of_bool (bit q 0) * (2 ^ 32 * sint a - 1)"
proof -
  define s where "s = sint m + of_bool (bit q 0) * sint a"
  let ?f = "md_step MUS m a q"
  have f: "uint ?f = s mod 2 ^ 33" unfolding s_def by (rule uint_MUS_step)
  have m': "m' = ucast (drop_bit 1 ?f)" and q': "q' = push_bit 31 (ucast ?f AND 1) OR drop_bit 1 q"
    using assms by (simp_all add: mul_step_def Let_def)
  have "sint m' = s div 2"
    unfolding m' using sint_range32 [of m] sint_range32 [of a]
    by (intro sint_of_33 [OF _ _ f]) (auto simp: s_def)
  moreover have "uint q' = (s mod 2) * 2 ^ 31 + uint q div 2"
    unfolding q' low_bit_33 [OF f, symmetric]
    by (rule shift_in_top) (simp add: low_bit_33 [OF f])
  moreover have "uint q mod 2 = of_bool (bit q 0)"
    by (simp add: bit_0 mod_2_eq_odd odd_uint)
  moreover have "s = 2 * (s div 2) + s mod 2" "uint q = 2 * (uint q div 2) + uint q mod 2"
    by simp_all
  ultimately have "2 * md_value (m', q') = s * 2 ^ 32 + uint q - of_bool (bit q 0)"
    unfolding md_value_def prod.case exp_values by (rule md_halves)
  then show ?thesis
    by (simp add: md_value_def s_def algebra_simps)
qed

text \<open>
  The multiplier moves down a bit each step, so after \<open>k\<close> steps the remaining multiplier is
  the original one's bits from \<open>k\<close> up.
\<close>

lemma mul_step_bit:
  "n < 31 \<Longrightarrow> bit (snd (mul_step m a q)) n \<longleftrightarrow> bit q (Suc n)"
  by (auto simp: mul_step_def Let_def bit_simps)

lemma mul_steps:
  fixes m a q :: u32
  assumes "k \<le> 32"
  defines "st \<equiv> \<lambda>k. ((\<lambda>(m, q). mul_step m a q) ^^ k) (m, q)"
  shows "(\<forall>n. n + k < 32 \<longrightarrow> bit (snd (st k)) n = bit q (n + k)) \<and>
    2 ^ k * md_value (st k) = md_value (m, q) + (2 ^ 32 * sint a - 1) * (uint q mod 2 ^ k)"
  using assms(1)
proof (induction k)
  case 0
  then show ?case by (simp add: st_def)
next
  case (Suc k)
  obtain mk qk where k: "st k = (mk, qk)" by (cases "st k")
  obtain m' q' where s: "mul_step mk a qk = (m', q')" by (cases "mul_step mk a qk")
  have st: "st (Suc k) = (m', q')" using k s by (simp add: st_def)
  have IH: "\<And>n. n + k < 32 \<Longrightarrow> bit qk n = bit q (n + k)"
    "2 ^ k * md_value (mk, qk) = md_value (m, q) + (2 ^ 32 * sint a - 1) * (uint q mod 2 ^ k)"
    using Suc k by auto
  have "bit q' n = bit q (n + Suc k)" if "n + Suc k < 32" for n
    using that IH(1) [of "Suc n"] mul_step_bit [of n mk a qk] s by simp
  moreover have "2 ^ Suc k * md_value (m', q') =
      md_value (m, q) + (2 ^ 32 * sint a - 1) * (uint q mod 2 ^ Suc k)"
  proof -
    have "bit qk 0 = bit (uint q) k" using IH(1) [of 0] Suc.prems by (simp add: bit_uint_iff)
    then have "uint q mod 2 ^ Suc k = uint q mod 2 ^ k + of_bool (bit qk 0) * 2 ^ k"
      using take_bit_Suc_from_most [of k "uint q"] by (simp only: take_bit_eq_mod) (simp add: mult.commute)
    moreover have "2 ^ Suc k * md_value (m', q') = 2 ^ k * (2 * md_value (m', q'))" by simp
    ultimately show ?thesis
      unfolding mul_step_value [OF s] using IH(2) by (simp add: distrib_left del: power_Suc)
  qed
  ultimately show ?case using st by simp
qed

text \<open>
  C16: \<open>MUL\<close> is the 32 multiply steps, and what they leave is exact: the output bus and \<open>Q\<close>
  together hold the M source plus the product of the signed A source and the unsigned \<open>Q\<close>, with no bit lost.
\<close>

theorem mul_is_product:
  "case muldiv_run Mul m a q of (hi, lo) \<Rightarrow> sint hi * 2 ^ 32 + uint lo = sint m + sint a * uint q"
proof -
  obtain hi lo where r: "muldiv_run Mul m a q = (hi, lo)" by (cases "muldiv_run Mul m a q")
  have "uint q mod 2 ^ 32 = uint q" using uint_lt2p [of q] by (simp add: mod_pos_pos_trivial)
  then have "2 ^ 32 * md_value (hi, lo) = md_value (m, q) + (2 ^ 32 * sint a - 1) * uint q"
    using mul_steps [of 32 a m q] r by (simp only: muldiv_run_def muldiv_op.case)
  then have "2 ^ 32 * md_value (hi, lo) = 2 ^ 32 * (sint m + sint a * uint q)"
    by (simp add: md_value_def algebra_simps)
  then show ?thesis by (simp add: r md_value_def)
qed

section \<open>The divide\<close>

lemma sint_neg_iff: "bit a 31 \<longleftrightarrow> sint (a :: u32) < 0"
  using bit_last_iff [of a] by simp

lemma uint_DVS1_step: "uint (md_step DVS1 m a q) = (sint m - \<bar>sint a\<bar>) mod 2 ^ 33"
  by (cases "bit a 31")
    (simp_all add: md_step_def alu_control_def DVS1_def Let_def and_1_bit0 drop_31_bit of_flag_def
      alu_add [where c = False, simplified] alu_sub [where c = True, simplified] sint_neg_iff)

lemma uint_DVS_step:
  "uint (md_step DVS m a q) =
     (sint m + (if bit q 0 then - \<bar>sint a\<bar> else \<bar>sint a\<bar>)) mod 2 ^ 33"
  by (cases "bit a 31"; cases "bit q 0")
    (simp_all add: md_step_def alu_control_def DVS_def Let_def and_1_bit0 drop_31_bit of_flag_def
      alu_add [where c = False, simplified] alu_sub [where c = True, simplified] sint_neg_iff)

text \<open>
  One step in integers. With the partial remainder in \<open>[- D, D)\<close>, \<open>D\<close> the divisor's
  magnitude, the 32-bit array sees it exactly, although the doubled remainder it is
  given may not fit 32 bits.
\<close>

lemma word_of_int_take_33:
  "uint (f :: u64) = s mod 2 ^ 33 \<Longrightarrow> (ucast f :: u32) = word_of_int s"
  by (simp add: word_uint_eq_iff unsigned_ucast_eq take_bit_eq_mod uint_word_of_int mod_mod_cancel)

lemma word_of_int_sint_add: "word_of_int (sint (word_of_int M :: u32) + d) = (word_of_int (M + d) :: u32)"
  by (simp add: wi_hom_syms)

lemma not_top_bit:
  fixes t :: int
  assumes "- (2 ^ 31) \<le> t" "t < 2 ^ 31"
  shows "drop_bit 31 (NOT (word_of_int t :: u32)) = of_flag (0 \<le> t)"
proof -
  have "sint (word_of_int t :: u32) = t"
    using assms by (simp add: sint_sbintrunc' signed_take_bit_int_eq_self)
  then have "bit (word_of_int t :: u32) 31 \<longleftrightarrow> t < 0" by (simp add: sint_neg_iff)
  then show ?thesis by (auto simp: drop_31 bit_not_iff)
qed

text \<open>
  The dividend's bits the first \<open>j + 1\<close> steps have looked at, and the remainder they leave: the
  true remainder, less the divisor when the last quotient bit is 0.
\<close>

definition div_part :: "u32 \<Rightarrow> u32 \<Rightarrow> nat \<Rightarrow> int" where
  "div_part m q j = sint m * 2 ^ j + uint q div 2 ^ (32 - j)"

definition div_rem :: "int \<Rightarrow> int \<Rightarrow> int" where
  "div_rem N D = N mod D - (if even (N div D) then D else 0)"

lemma div_part_0 [simp]: "div_part m q 0 = sint m"
  using uint_lt2p [of q] by (simp add: div_part_def)

lemma div_part_Suc:
  assumes "j < 32"
  shows "div_part m q (Suc j) = 2 * div_part m q j + of_bool (bit q (31 - j))"
proof -
  have e: "32 - j = Suc (31 - j)" "32 - Suc j = 31 - j" using assms by auto
  have "uint q div 2 ^ (31 - j) = 2 * (uint q div 2 ^ (31 - j) div 2) + uint q div 2 ^ (31 - j) mod 2"
    by simp
  also have "uint q div 2 ^ (31 - j) div 2 = uint q div 2 ^ (32 - j)"
    unfolding e power_Suc2 by (simp only: zdiv_zmult2_eq)
  also have "uint q div 2 ^ (31 - j) mod 2 = of_bool (bit (uint q) (31 - j))"
    by (simp only: bit_iff_odd mod_2_eq_odd)
  also have "bit (uint q) (31 - j) = bit q (31 - j)"
    by (auto simp: bit_uint_iff dest: bit_imp_le_length)
  finally show ?thesis unfolding div_part_def e by (simp add: algebra_simps)
qed

lemma div_rem_range:
  assumes "0 < D"
  shows "- D \<le> div_rem N D" "div_rem N D < D"
  using assms pos_mod_bound [OF assms, of N] pos_mod_sign [OF assms, of N]
  by (auto simp: div_rem_def)

lemma div_rem_sign:
  assumes "0 < D"
  shows "0 \<le> div_rem N D \<longleftrightarrow> odd (N div D)"
  using assms pos_mod_bound [OF assms, of N] pos_mod_sign [OF assms, of N]
  by (auto simp: div_rem_def)

lemma div_step_int:
  fixes N D b :: int
  assumes "0 < D" "0 \<le> b" "b < 2"
  shows "(2 * N + b) div D = 2 * (N div D) + of_bool (0 \<le> 2 * (N mod D) + b - D)"
    and "div_rem (2 * N + b) D = 2 * div_rem N D + b + (if odd (N div D) then - D else D)"
proof -
  let ?r = "2 * (N mod D) + b"
  have r: "0 \<le> ?r" "?r < 2 * D"
    using assms pos_mod_bound [of D N] pos_mod_sign [of D N] by linarith+
  have e: "2 * N + b = ?r + 2 * (N div D) * D"
    by (simp add: minus_div_mult_eq_mod [symmetric] algebra_simps)
  have "(2 * N + b) div D = 2 * (N div D) + ?r div D" 
    unfolding e using assms(1) by simp
  moreover have "?r div D = of_bool (D \<le> ?r)"
  proof (cases "D \<le> ?r")
    case True
    then have "?r div D = 1" using r assms(1) by (intro int_div_pos_eq [of _ _ _ "?r - D"]) auto
    then show ?thesis using True by simp
  next
    case False
    then show ?thesis using r by (simp add: div_pos_pos_trivial)
  qed
  ultimately show q: "(2 * N + b) div D = 2 * (N div D) + of_bool (0 \<le> ?r - D)" by simp
  have "(2 * N + b) mod D = ?r - of_bool (D \<le> ?r) * D"
    using q e by (simp add: minus_div_mult_eq_mod [symmetric] algebra_simps)
  then show "div_rem (2 * N + b) D = 2 * div_rem N D + b + (if odd (N div D) then - D else D)"
    unfolding div_rem_def q by (auto simp: algebra_simps)
qed

lemma div_step_word:
  assumes "ucast (md_step code m a q) = (word_of_int t :: u32)" "- (2 ^ 31) \<le> t" "t < 2 ^ 31"
  shows "div_step code m a q =
    (word_of_int (2 * t + of_bool (bit q 31)), push_bit 1 q OR of_flag (0 \<le> t))"
proof -
  have "2 * word_of_int t + of_flag b = (word_of_int (2 * t + of_bool b) :: u32)" for b
    by (simp add: of_flag_def)
  then show ?thesis
    unfolding div_step_def assms(1) Let_def not_top_bit [OF assms(2,3)]
    by (simp only: drop_31 shift_in_bottom)
qed

text \<open>The state after \<open>j + 1\<close> steps, in integers.\<close>

definition div_at :: "u32 \<Rightarrow> int \<Rightarrow> u32 \<Rightarrow> nat \<Rightarrow> u32 \<times> u32 \<Rightarrow> bool" where
  "div_at m D q j st \<longleftrightarrow>
     fst st = word_of_int (2 * div_rem (div_part m q j) D + of_bool (bit q (31 - j))) \<and>
     (\<forall>n < 32. bit (snd st) n = (if n \<le> j then bit (div_part m q j div D) n else bit q (n - Suc j)))"

lemma div_at_step:
  assumes D: "D = \<bar>sint a\<bar>" "0 < D" and j: "j < 31" and at: "div_at m D q j (mk, qk)"
  shows "div_at m D q (Suc j) (div_step DVS mk a qk)"
proof -
  let ?N = "div_part m q j" and ?N' = "div_part m q (Suc j)" and ?b = "of_bool (bit q (31 - j)) :: int"
  let ?t = "div_rem ?N' D"
  have N': "?N' = 2 * ?N + ?b" using j by (simp add: div_part_Suc)
  have mk: "mk = word_of_int (2 * div_rem ?N D + ?b)"
    and qk: "\<And>n. n < 32 \<Longrightarrow> bit qk n = (if n \<le> j then bit (?N div D) n else bit q (n - Suc j))"
    using at by (simp_all add: div_at_def)
  have q0: "bit qk 0 = odd (?N div D)" using qk [of 0] by (simp add: bit_0)
  have t: "?t = 2 * div_rem ?N D + ?b + (if odd (?N div D) then - D else D)"
    unfolding N' by (rule div_step_int(2)) (use D in auto)
  have Q: "?N' div D = 2 * (?N div D) + of_bool (0 \<le> 2 * (?N mod D) + ?b - D)"
    unfolding N' by (rule div_step_int(1)) (use D in auto)
  have "(ucast (md_step DVS mk a qk) :: u32) =
      word_of_int (sint mk + (if bit qk 0 then - \<bar>sint a\<bar> else \<bar>sint a\<bar>))"
    by (rule word_of_int_take_33) (rule uint_DVS_step)
  also have "\<dots> = word_of_int ?t"
    unfolding mk word_of_int_sint_add q0 D(1) [symmetric] t by simp
  finally have f: "ucast (md_step DVS mk a qk) = (word_of_int ?t :: u32)" .
  have r: "- (2 ^ 31) \<le> ?t" "?t < 2 ^ 31"
    using div_rem_range [OF D(2), of ?N'] sint_range32 [of a] D(1) by linarith+
  have s: "div_step DVS mk a qk =
      (word_of_int (2 * ?t + of_bool (bit qk 31)), push_bit 1 qk OR of_flag (0 \<le> ?t))"
    by (rule div_step_word [OF f r])
  have "bit qk 31 = bit q (31 - Suc j)" using qk [of 31] j by simp
  moreover have "bit (push_bit 1 qk OR of_flag (0 \<le> ?t)) n =
      (if n \<le> Suc j then bit (?N' div D) n else bit q (n - Suc (Suc j)))" if "n < 32" for n
  proof (cases n)
    case 0
    then show ?thesis using div_rem_sign [OF D(2), of ?N'] unfolding bit_shift_in by (simp add: bit_0)
  next
    case (Suc k)
    have "bit (?N' div D) (Suc k) = bit (?N div D) k" unfolding Q by (simp add: bit_Suc)
    then show ?thesis using that Suc qk [of k] unfolding bit_shift_in by auto
  qed
  ultimately show ?thesis unfolding div_at_def s by simp
qed

lemma div_at_0:
  assumes D: "D = \<bar>sint a\<bar>" and m: "0 \<le> sint m" "sint m < D"
  shows "div_at m D q 0 (div_step DVS1 m a q)"
proof -
  let ?t = "sint m - D"
  have D0: "0 < D" using m by linarith
  have t: "div_rem (sint m) D = ?t" using m by (simp add: div_rem_def)
  have f: "ucast (md_step DVS1 m a q) = (word_of_int ?t :: u32)"
    by (rule word_of_int_take_33) (simp add: uint_DVS1_step D)
  have r: "- (2 ^ 31) \<le> ?t" "?t < 2 ^ 31"
    using m sint_range32 [of a] sint_range32 [of m] D by linarith+
  have s: "div_step DVS1 m a q =
      (word_of_int (2 * ?t + of_bool (bit q 31)), push_bit 1 q OR of_flag (0 \<le> ?t))"
    by (rule div_step_word [OF f r])
  show ?thesis
    unfolding div_at_def s fst_conv snd_conv bit_shift_in using m D0 t by (auto simp: bit_0)
qed

lemma div_at_run:
  assumes "D = \<bar>sint a\<bar>" "0 \<le> sint m" "sint m < D" "j \<le> 31"
  shows "div_at m D q j (((\<lambda>(m, q). div_step DVS m a q) ^^ j) (div_step DVS1 m a q))"
  using assms(4)
proof (induction j)
  case 0
  then show ?case using div_at_0 [OF assms(1-3)] by simp
next
  case (Suc j)
  then show ?case
    using assms(1-3) div_at_step [of D a j m q]
    by (auto simp: split_beta)
qed

text \<open>
  C15: \<open>DIV\<close> of a dividend that does not overflow leaves the 32-bit quotient of the dividend's high
  63 bits by the divisor's magnitude in \<open>Q\<close>, and on the output bus twice the partial remainder,
  the dividend's last bit in at the bottom: what a \<open>DIVIDE-LAST-STEP\<close> takes up.
\<close>

theorem div_is_quotient:
  assumes "0 \<le> sint m" "sint m < \<bar>sint a\<bar>"
  shows "let N = (sint m * 2 ^ 32 + uint q) div 2; D = \<bar>sint a\<bar>; (bus, quo) = muldiv_run Div m a q
    in uint quo = N div D \<and>
       bus = word_of_int (2 * (N mod D - (if even (N div D) then D else 0)) + uint q mod 2)"
proof -
  define D where "D = \<bar>sint a\<bar>"
  define N where "N = (sint m * 2 ^ 32 + uint q) div 2"
  obtain bus quo where r: "muldiv_run Div m a q = (bus, quo)" by (cases "muldiv_run Div m a q")
  have D0: "0 < D" using assms D_def by linarith
  have N: "div_part m q 31 = N" by (simp add: div_part_def N_def)
  have at: "div_at m D q 31 (bus, quo)"
    using div_at_run [OF D_def, of m 31 q] assms r unfolding D_def by (simp add: muldiv_run_def)
  have "uint q div 2 < 2 ^ 31" using uint_lt2p [of q] by simp
  moreover have "sint m * 2 ^ 31 \<le> (D - 1) * 2 ^ 31" using assms D_def by simp
  ultimately have lt: "N < D * 2 ^ 31" unfolding N [symmetric] div_part_def by simp
  have N0: "0 \<le> N" unfolding N_def using assms by (simp add: pos_imp_zdiv_nonneg_iff)
  have "D * (N div D) \<le> N" using D0 pos_mod_sign [OF D0, of N] mult_div_mod_eq [of D N] by linarith
  then have "D * (N div D) < D * 2 ^ 31" using lt by (rule order_le_less_trans)
  then have "N div D < 2 ^ 31" using D0 by (simp only: mult_less_cancel_left_pos)
  moreover have "0 \<le> N div D" using N0 D0 by (simp add: pos_imp_zdiv_nonneg_iff)
  moreover have "uint quo = take_bit 32 (N div D)"
    using at N by (intro bit_eqI) (auto simp: div_at_def bit_uint_iff bit_take_bit_iff)
  ultimately have "uint quo = N div D" by (simp add: take_bit_int_eq_self)
  moreover have "of_bool (bit q 0) = uint q mod 2" by (simp add: mod_2_eq_odd odd_uint bit_0)
  ultimately show ?thesis
    using at N unfolding Let_def D_def [symmetric] N_def [symmetric] r prod.case div_at_def div_rem_def
    by simp
qed

lemma div_is_quotient_witness:
  "let N = (sint (3 :: u32) * 2 ^ 32 + uint (0x80000001 :: u32)) div 2; D = \<bar>sint (- 7 :: u32)\<bar>;
       (bus, quo) = muldiv_run Div 3 (- 7) 0x80000001
   in uint quo = N div D \<and>
      bus = word_of_int (2 * (N mod D - (if even (N div D) then D else 0)) + uint (0x80000001 :: u32) mod 2)"
  by (rule div_is_quotient) simp_all

lemma div_steps_shift:
  assumes "k \<le> n" "n < 32"
  shows "bit (snd (((\<lambda>(m, q). div_step c m a q) ^^ k) mq)) n = bit (snd mq) (n - k)"
  using assms
proof (induction k arbitrary: n)
  case (Suc k)
  obtain m' q' where st: "((\<lambda>(m, q). div_step c m a q) ^^ k) mq = (m', q')"
    by (cases "((\<lambda>(m, q). div_step c m a q) ^^ k) mq")
  have "bit (snd (div_step c m' a q')) n = bit q' (n - 1)"
    unfolding div_step_def Let_def drop_31 snd_conv bit_shift_in using Suc.prems by simp
  then show ?case using Suc.IH [of "n - 1"] Suc.prems st by simp
qed simp

text \<open>
  C17: the overflow test. \<open>DIV\<close> leaves the first step's quotient bit in \<open>Q<31>\<close>, and for a dividend
  that is not negative that bit is set exactly when the quotient does not fit: the high word
  is not below the divisor's magnitude. A zero divisor is always an overflow.
\<close>

theorem div_overflow_bit:
  assumes "0 \<le> sint m"
  shows "bit (snd (muldiv_run Div m a q)) 31 \<longleftrightarrow> \<bar>sint a\<bar> \<le> sint m"
proof -
  let ?t = "sint m - \<bar>sint a\<bar>"
  have r: "- (2 ^ 31) \<le> ?t" "?t < 2 ^ 31"
    using assms sint_range32 [of a] sint_range32 [of m] by linarith+
  have "ucast (md_step DVS1 m a q) = (word_of_int ?t :: u32)"
    by (rule word_of_int_take_33) (rule uint_DVS1_step)
  note s = div_step_word [OF this r]
  have "bit (snd (muldiv_run Div m a q)) 31 = bit (snd (div_step DVS1 m a q)) (31 - 31)"
    unfolding muldiv_run_def muldiv_op.case by (rule div_steps_shift) simp_all
  also have "\<dots> = (0 \<le> ?t)" unfolding s snd_conv bit_shift_in by simp
  finally show ?thesis by simp
qed

lemma div_overflow_bit_witness: "bit (snd (muldiv_run Div 5 0 9)) 31 \<longleftrightarrow> \<bar>sint (0 :: u32)\<bar> \<le> sint (5 :: u32)"
  by (rule div_overflow_bit) simp

end
