(* ===== verification/Clock.thy ===== *)
theory Clock
  imports Prelude
begin

text \<open>
  Whose time the machine keeps, the first half of \<open>src/clock.rs\<close>: the delay-line taps the mode
  register's speed bits select, and the three timing models, the board's own nanoseconds, muir-fpga's
  10 ns grid and QUUX's synchronous microcycle.
\<close>

section \<open>Speeds and taps\<close>

datatype speed = ExtraSlow | Slow | Normal | Fast

primrec speed_code :: "speed \<Rightarrow> u8" where
  "speed_code ExtraSlow = 0"
| "speed_code Slow = 1"
| "speed_code Normal = 2"
| "speed_code Fast = 3"

definition RESTART_AFTER_READ_NS :: nat where "RESTART_AFTER_READ_NS = 60"

fun read_phase_ns :: "speed \<Rightarrow> bool \<Rightarrow> nat" where
  "read_phase_ns Fast False = 75"
| "read_phase_ns Fast True = 115"
| "read_phase_ns Normal False = 85"
| "read_phase_ns Normal True = 125"
| "read_phase_ns Slow False = 100"
| "read_phase_ns Slow True = 140"
| "read_phase_ns ExtraSlow _ = 160"

definition speed_cycle_ns :: "speed \<Rightarrow> bool \<Rightarrow> nat" where
  "speed_cycle_ns s ilong = read_phase_ns s ilong + RESTART_AFTER_READ_NS"

section \<open>Timing models\<close>

text \<open>The two tick counts of \<open>Sync\<close> are bytes, so the sum fits any integer that holds it.\<close>

datatype timing_model =
    Cadr
  | Fpga
  | Sync (cycle_ticks: u8) (ilong_ticks: u8)

definition SYNC_CYCLE_TICKS :: u8 where "SYNC_CYCLE_TICKS = 4"

definition GRID_NS :: nat where "GRID_NS = 10"

fun timing_name :: "timing_model \<Rightarrow> string" where
  "timing_name Cadr = ''cadr''"
| "timing_name Fpga = ''fpga''"
| "timing_name (Sync _ _) = ''sync''"

definition timing_parse :: "string \<Rightarrow> timing_model option" where
  "timing_parse word =
     (if word = ''cadr'' then Some Cadr
      else if word = ''fpga'' then Some Fpga
      else if word = ''sync'' then Some (Sync SYNC_CYCLE_TICKS 0)
      else None)"

definition div_ceil :: "nat \<Rightarrow> nat \<Rightarrow> nat" where
  "div_ceil a b = (if a mod b = 0 then a div b else a div b + 1)"

fun timing_tick :: "timing_model \<Rightarrow> nat \<Rightarrow> nat" where
  "timing_tick Cadr ns = ns"
| "timing_tick Fpga ns = div_ceil ns GRID_NS * GRID_NS"
| "timing_tick (Sync _ _) ns = div_ceil ns GRID_NS * GRID_NS"

definition triggered :: "timing_model \<Rightarrow> nat \<Rightarrow> nat" where
  "triggered t ns = timing_tick t ns"

definition free_running :: "timing_model \<Rightarrow> nat \<Rightarrow> nat" where
  "free_running t at = timing_tick t at"

fun timing_cycle_ns :: "timing_model \<Rightarrow> speed \<Rightarrow> bool \<Rightarrow> nat" where
  "timing_cycle_ns (Sync ct it) s ilong =
     (unat ct + (if ilong then unat it else 0)) * GRID_NS"
| "timing_cycle_ns t s ilong =
     triggered t (read_phase_ns s ilong) + triggered t RESTART_AFTER_READ_NS"

section \<open>What the grid keeps\<close>

lemma div_ceil_bounds:
  assumes "0 < b"
  shows "a \<le> div_ceil a b * b" "div_ceil a b * b < a + b"
proof -
  define q r where "q = a div b" and "r = a mod b"
  have a: "a = q * b + r" "r < b" using assms by (simp_all add: q_def r_def)
  have c: "div_ceil a b = (if r = 0 then q else q + 1)" by (simp add: div_ceil_def q_def r_def)
  show "a \<le> div_ceil a b * b" "div_ceil a b * b < a + b"
    unfolding c using a by (auto simp: algebra_simps)
qed

lemma div_ceil_multiple: "0 < b \<Longrightarrow> div_ceil (k * b) b = k"
  by (simp add: div_ceil_def)

lemma div_ceil_mono:
  assumes "0 < b" "a \<le> c"
  shows "div_ceil a b \<le> div_ceil c b"
proof -
  have "div_ceil a b * b < (div_ceil c b + 1) * b"
    using div_ceil_bounds [OF assms(1), of a] div_ceil_bounds [OF assms(1), of c] assms(2)
    by (simp add: algebra_simps)
  then have "div_ceil a b < div_ceil c b + 1" by (simp only: mult_less_cancel2)
  then show ?thesis by simp
qed

text \<open>
  Rounding to the grid. A delay, or the instant of a free-running edge, is put on the first tick
  at or after it: a multiple of the grid, never early, less than a tick late, unchanged when it is
  on the grid already, and no later instant is ever put before an earlier one. The board's own
  time is left as it is.
\<close>

theorem grid_rounding:
  assumes "t \<noteq> Cadr"
  shows "GRID_NS dvd free_running t at \<and> at \<le> free_running t at \<and> free_running t at < at + GRID_NS \<and>
    free_running t (k * GRID_NS) = k * GRID_NS \<and> free_running t at \<le> free_running t (at + d) \<and>
    triggered t at = free_running t at \<and> free_running Cadr at = at"
proof -
  have g: "0 < GRID_NS" by (simp add: GRID_NS_def)
  have tick: "free_running t n = div_ceil n GRID_NS * GRID_NS" for n
    using assms by (cases t) (simp_all add: free_running_def)
  then show ?thesis
    using div_ceil_bounds [OF g, of at] div_ceil_mono [OF g, of at "at + d"] div_ceil_multiple [OF g]
    unfolding tick by (simp add: triggered_def free_running_def [symmetric] tick) (simp add: free_running_def)
qed

lemma grid_rounding_witness:
  "free_running Fpga 145 = 150 \<and> 145 \<le> free_running Fpga 145 \<and> GRID_NS dvd free_running Fpga 145"
  using grid_rounding [of Fpga 145] by (simp add: free_running_def div_ceil_def GRID_NS_def)

end
