(* ===== verification/Codec.thy ===== *)
theory Codec
  imports Clock
begin

text \<open>
  The fields of a checkpoint, \<open>src/checkpoint.rs\<close>: the \<open>Writer\<close>, the \<open>Reader\<close> and the
  little-endian fields that go through them. A reader's operation returns the error that stops the
  load or the value with the reader moved on. The predicate \<open>codes\<close> says that one operation writes
  what another reads back, whatever surrounds it; it composes along a sequence of fields, and the
  locale \<open>codec\<close> states it for a type with its \<open>save\<close> and its \<open>load\<close>.
\<close>

section \<open>Little-endian bytes\<close>

text \<open>\<open>to_le_bytes\<close> and \<open>from_le_bytes\<close> of the standard library, for any width.\<close>

definition le_bytes :: "nat \<Rightarrow> 'a::len word \<Rightarrow> u8 list" where
  "le_bytes k v = map (\<lambda>i. ucast (drop_bit (8 * i) v)) [0..<k]"

fun from_le_bytes :: "u8 list \<Rightarrow> 'a::len word" where
  "from_le_bytes [] = 0"
| "from_le_bytes (b # bs) = push_bit 8 (from_le_bytes bs) OR ucast b"

lemma length_le_bytes [simp]: "length (le_bytes k v) = k"
  by (simp add: le_bytes_def)

lemma bit_from_le_bytes:
  "bit (from_le_bytes bs :: 'a::len word) n \<longleftrightarrow>
     n < LENGTH('a) \<and> n div 8 < length bs \<and> bit (bs ! (n div 8)) (n mod 8)"
proof (induction bs arbitrary: n)
  case (Cons b bs)
  show ?case
  proof (cases "n < 8")
    case True
    then show ?thesis
      by (auto simp: bit_simps dest: bit_imp_le_length)
  next
    case False
    then have "n div 8 = Suc ((n - 8) div 8)" "n mod 8 = (n - 8) mod 8"
      by (simp_all add: le_div_geq le_mod_geq)
    moreover have "\<not> bit b n" using False bit_imp_le_length [of b n] by auto
    ultimately show ?thesis
      using False Cons.IH [of "n - 8"] by (auto simp: bit_simps)
  qed
qed simp

lemma from_le_le_bytes:
  assumes "\<And>n. bit v n \<Longrightarrow> n < 8 * k"
  shows "from_le_bytes (le_bytes k v) = (v :: 'a::len word)"
proof (rule bit_word_eqI)
  fix n
  assume n: "n < LENGTH('a)"
  have split: "8 * (n div 8) + n mod 8 = n" by simp
  have b: "bit (ucast (drop_bit (8 * (n div 8)) v) :: u8) (n mod 8) \<longleftrightarrow> bit v n"
    using n by (simp add: bit_ucast_iff bit_drop_bit_eq split)
  show "bit (from_le_bytes (le_bytes k v) :: 'a word) n = bit v n"
  proof (cases "n div 8 < k")
    case True
    then show ?thesis using n b by (simp add: bit_from_le_bytes le_bytes_def)
  next
    case False
    then have "\<not> bit v n" using assms [of n] by auto
    then show ?thesis using False by (simp add: bit_from_le_bytes)
  qed
qed

lemma from_le_le_bytes_full: "LENGTH('a) \<le> 8 * k \<Longrightarrow> from_le_bytes (le_bytes k v) = (v :: 'a::len word)"
  by (rule from_le_le_bytes) (use bit_imp_le_length in force)

section \<open>The writer\<close>

definition WORD_BYTES_32 :: nat where "WORD_BYTES_32 = 4"

definition word_bytes :: "nat \<Rightarrow> nat" where
  "word_bytes bits = div_ceil bits 8"

record writer =
  w_out :: "u8 list"
  w_word_bytes :: nat

definition writer_new :: writer where
  "writer_new = \<lparr>w_out = [], w_word_bytes = WORD_BYTES_32\<rparr>"

definition put_raw :: "u8 list \<Rightarrow> writer \<Rightarrow> writer" where
  "put_raw bs w = w\<lparr>w_out := w_out w @ bs\<rparr>"

definition set_word_bits :: "nat \<Rightarrow> writer \<Rightarrow> writer" where
  "set_word_bits bits w = w\<lparr>w_word_bytes := word_bytes bits\<rparr>"

definition writer_word_bits :: "writer \<Rightarrow> nat" where
  "writer_word_bits w = w_word_bytes w * 8"

definition put_u8 :: "u8 \<Rightarrow> writer \<Rightarrow> writer" where "put_u8 v = put_raw [v]"
definition put_u16 :: "u16 \<Rightarrow> writer \<Rightarrow> writer" where "put_u16 v = put_raw (le_bytes 2 v)"
definition put_u32 :: "u32 \<Rightarrow> writer \<Rightarrow> writer" where "put_u32 v = put_raw (le_bytes 4 v)"
definition put_u64 :: "u64 \<Rightarrow> writer \<Rightarrow> writer" where "put_u64 v = put_raw (le_bytes 8 v)"
definition put_bool :: "bool \<Rightarrow> writer \<Rightarrow> writer" where "put_bool v = put_u8 (of_flag v)"

definition put_word :: "u64 \<Rightarrow> writer \<Rightarrow> writer" where
  "put_word v w = put_raw (take (w_word_bytes w) (le_bytes 8 v)) w"

definition put_words :: "u64 list \<Rightarrow> writer \<Rightarrow> writer" where
  "put_words v w =
     (let w = put_u64 (of_nat (length v)) w; n = w_word_bytes w
      in if n = WORD_BYTES_32 then fold (\<lambda>x. put_raw (le_bytes 4 (ucast x :: u32))) v w
         else fold (\<lambda>x. put_raw (take n (le_bytes 8 x))) v w)"

definition put_speed :: "speed \<Rightarrow> writer \<Rightarrow> writer" where
  "put_speed s = put_u8 (speed_code s)"

text \<open>A net's level, \<open>src/part.rs\<close>.\<close>

datatype level = Low | High | Z | X

primrec level_code :: "level \<Rightarrow> u8" where
  "level_code Low = 0"
| "level_code High = 1"
| "level_code Z = 2"
| "level_code X = 3"

definition put_level :: "level \<Rightarrow> writer \<Rightarrow> writer" where
  "put_level l = put_u8 (level_code l)"

definition put_opt :: "('a \<Rightarrow> writer \<Rightarrow> writer) \<Rightarrow> 'a option \<Rightarrow> writer \<Rightarrow> writer" where
  "put_opt put v w =
     (let w = put_bool (v \<noteq> None) w in case v of Some x \<Rightarrow> put x w | None \<Rightarrow> w)"

definition put_bytes :: "u8 list \<Rightarrow> writer \<Rightarrow> writer" where
  "put_bytes v w = put_raw v (put_u64 (of_nat (length v)) w)"

definition put_u16s :: "u16 list \<Rightarrow> writer \<Rightarrow> writer" where
  "put_u16s v w = fold put_u16 v (put_u64 (of_nat (length v)) w)"

definition put_u32s :: "u32 list \<Rightarrow> writer \<Rightarrow> writer" where
  "put_u32s v w = fold put_u32 v (put_u64 (of_nat (length v)) w)"

definition put_u64s :: "u64 list \<Rightarrow> writer \<Rightarrow> writer" where
  "put_u64s v w = fold put_u64 v (put_u64 (of_nat (length v)) w)"

definition writer_finish :: "writer \<Rightarrow> u8 list" where
  "writer_finish w = w_out w"

section \<open>The reader\<close>

text \<open>What the error of \<open>bad\<close> says, a case for each message.\<close>

datatype ckpt_error =
    Ends_early nat nat
  | Bad_flag u8
  | Bad_speed u8
  | Bad_level u8
  | Bad_count nat nat
  | Left_over nat
  | Bad_width nat
  | Not_a_checkpoint
  | Bad_version u32
  | Bad_engine_name
  | Count_runs_off
  | Count_too_long
  | Literals_run_off
  | Run_past_body u64
  | Bad_value

record reader =
  r_data :: "u8 list"
  r_at :: nat
  r_word_bytes :: nat

type_synonym 'a rd = "reader \<Rightarrow> ckpt_error + 'a \<times> reader"

definition rd_return :: "'a \<Rightarrow> 'a rd" where
  "rd_return x r = Inr (x, r)"

definition rd_fail :: "ckpt_error \<Rightarrow> 'a rd" where
  "rd_fail e r = Inl e"

text \<open>Rust's \<open>?\<close>: the first error ends the load.\<close>

definition rd_bind :: "'a rd \<Rightarrow> ('a \<Rightarrow> 'b rd) \<Rightarrow> 'b rd" where
  "rd_bind m f r = (case m r of Inl e \<Rightarrow> Inl e | Inr (x, r) \<Rightarrow> f x r)"

definition reader_new :: "u8 list \<Rightarrow> reader" where
  "reader_new data = \<lparr>r_data = data, r_at = 0, r_word_bytes = WORD_BYTES_32\<rparr>"

definition reader_for_word_bits :: "u8 list \<Rightarrow> nat \<Rightarrow> reader" where
  "reader_for_word_bits data bits = \<lparr>r_data = data, r_at = 0, r_word_bytes = word_bytes bits\<rparr>"

definition reader_word_bits :: "reader \<Rightarrow> nat" where
  "reader_word_bits r = r_word_bytes r * 8"

definition get_take :: "nat \<Rightarrow> u8 list rd" where
  "get_take n r =
     (let e = r_at r + n
      in if e \<le> length (r_data r)
         then Inr (take n (drop (r_at r) (r_data r)), r\<lparr>r_at := e\<rparr>)
         else Inl (Ends_early n (r_at r)))"

definition get_u8 :: "u8 rd" where
  "get_u8 = rd_bind (get_take 1) (\<lambda>b. rd_return (b ! 0))"

definition get_u16 :: "u16 rd" where
  "get_u16 = rd_bind (get_take 2) (\<lambda>b. rd_return (from_le_bytes b))"

definition get_u32 :: "u32 rd" where
  "get_u32 = rd_bind (get_take 4) (\<lambda>b. rd_return (from_le_bytes b))"

definition get_u64 :: "u64 rd" where
  "get_u64 = rd_bind (get_take 8) (\<lambda>b. rd_return (from_le_bytes b))"

definition get_bool :: "bool rd" where
  "get_bool = rd_bind get_u8 (\<lambda>v.
     if v = 0 then rd_return False else if v = 1 then rd_return True else rd_fail (Bad_flag v))"

definition get_word :: "u64 rd" where
  "get_word r =
     rd_bind (get_take (r_word_bytes r))
       (\<lambda>b. rd_return (from_le_bytes (b @ replicate (8 - r_word_bytes r) 0))) r"

definition get_speed :: "speed rd" where
  "get_speed = rd_bind get_u8 (\<lambda>v.
     if v = 0 then rd_return ExtraSlow else if v = 1 then rd_return Slow
     else if v = 2 then rd_return Normal else if v = 3 then rd_return Fast
     else rd_fail (Bad_speed v))"

definition get_level :: "level rd" where
  "get_level = rd_bind get_u8 (\<lambda>v.
     if v = 0 then rd_return Low else if v = 1 then rd_return High
     else if v = 2 then rd_return Z else if v = 3 then rd_return X
     else rd_fail (Bad_level v))"

definition get_opt :: "'a rd \<Rightarrow> 'a option rd" where
  "get_opt get = rd_bind get_bool (\<lambda>b.
     if b then rd_bind get (\<lambda>x. rd_return (Some x)) else rd_return None)"

definition count_for :: "nat \<Rightarrow> nat rd" where
  "count_for slot = rd_bind get_u64 (\<lambda>n.
     if unat n \<noteq> slot then rd_fail (Bad_count (unat n) slot) else rd_return (unat n))"

fun chunks_exact :: "nat \<Rightarrow> nat \<Rightarrow> 'a list \<Rightarrow> 'a list list" where
  "chunks_exact 0 sz bs = []"
| "chunks_exact (Suc n) sz bs = take sz bs # chunks_exact n sz (drop sz bs)"

text \<open>The \<open>_into\<close> forms fill a slice of a given length; what they leave in it is their value.\<close>

definition get_words_into :: "nat \<Rightarrow> u64 list rd" where
  "get_words_into slot r =
     rd_bind (count_for slot) (\<lambda>n. let sz = r_word_bytes r in
       rd_bind (get_take (n * sz)) (\<lambda>bytes.
         rd_return (if sz = WORD_BYTES_32
           then map (\<lambda>b. ucast (from_le_bytes b :: u32)) (chunks_exact slot sz bytes)
           else map (\<lambda>b. from_le_bytes (b @ replicate (8 - sz) 0)) (chunks_exact slot sz bytes)))) r"

fun get_many :: "nat \<Rightarrow> 'a rd \<Rightarrow> 'a list rd" where
  "get_many 0 get = rd_return []"
| "get_many (Suc n) get = rd_bind get (\<lambda>x. rd_bind (get_many n get) (\<lambda>xs. rd_return (x # xs)))"

definition get_bytes :: "u8 list rd" where
  "get_bytes = rd_bind get_u64 (\<lambda>n. get_take (unat n))"

definition get_bytes_into :: "nat \<Rightarrow> u8 list rd" where
  "get_bytes_into slot = rd_bind (count_for slot) get_take"

definition get_u16s :: "u16 list rd" where
  "get_u16s = rd_bind get_u64 (\<lambda>n. get_many (unat n) get_u16)"

definition get_u16s_into :: "nat \<Rightarrow> u16 list rd" where
  "get_u16s_into slot = rd_bind (count_for slot) (\<lambda>_. get_many slot get_u16)"

definition get_u32s :: "u32 list rd" where
  "get_u32s = rd_bind get_u64 (\<lambda>n. get_many (unat n) get_u32)"

definition get_u32s_into :: "nat \<Rightarrow> u32 list rd" where
  "get_u32s_into slot = rd_bind (count_for slot) (\<lambda>_. get_many slot get_u32)"

definition get_u64s :: "u64 list rd" where
  "get_u64s = rd_bind get_u64 (\<lambda>n. get_many (unat n) get_u64)"

definition get_u64s_into :: "nat \<Rightarrow> u64 list rd" where
  "get_u64s_into slot = rd_bind (count_for slot) (\<lambda>_. get_many slot get_u64)"

definition reader_done :: "reader \<Rightarrow> ckpt_error + unit" where
  "reader_done r =
     (if length (r_data r) - r_at r = 0 then Inr () else Inl (Left_over (length (r_data r) - r_at r)))"

section \<open>What one operation writes another reads back\<close>

text \<open>
  \<open>codes n put get v\<close>: with words of \<open>n\<close> bytes, \<open>put\<close> appends bytes that depend on nothing else;
  \<open>get\<close>, before those bytes, gives \<open>v\<close> and is left after them, and before a proper prefix of
  them that ends the file gives an error.
\<close>

definition reader_at :: "u8 list \<Rightarrow> u8 list \<Rightarrow> nat \<Rightarrow> reader" where
  "reader_at pre rest n = \<lparr>r_data = pre @ rest, r_at = length pre, r_word_bytes = n\<rparr>"

definition reads_back :: "nat \<Rightarrow> u8 list \<Rightarrow> 'a rd \<Rightarrow> 'a \<Rightarrow> bool" where
  "reads_back n bs get v \<longleftrightarrow>
     (\<forall>pre post. get (reader_at pre (bs @ post) n) = Inr (v, reader_at (pre @ bs) post n)) \<and>
     (\<forall>pre. \<forall>j < length bs. \<exists>e. get (reader_at pre (take j bs) n) = Inl e)"

definition codes :: "nat \<Rightarrow> (writer \<Rightarrow> writer) \<Rightarrow> 'a rd \<Rightarrow> 'a \<Rightarrow> bool" where
  "codes n put get v \<longleftrightarrow>
     (\<exists>bs. (\<forall>w. w_word_bytes w = n \<longrightarrow> put w = put_raw bs w) \<and> reads_back n bs get v)"

named_theorems codes_intros \<open>fields that read back what they wrote\<close>

lemma put_raw_width [simp]: "w_word_bytes (put_raw bs w) = w_word_bytes w"
  by (simp add: put_raw_def)

lemma put_raw_append [simp]: "put_raw bs' (put_raw bs w) = put_raw (bs @ bs') w"
  by (simp add: put_raw_def)

lemma codesI:
  assumes "\<And>w. w_word_bytes w = n \<Longrightarrow> put w = put_raw bs w" and "reads_back n bs get v"
  shows "codes n put get v"
  using assms unfolding codes_def by blast

lemma reads_back_nil: "reads_back n [] (rd_return v) v"
  by (simp add: reads_back_def rd_return_def)

lemma reads_back_bind:
  assumes "reads_back n bs get v" "reads_back n bs' (get' v) v'"
  shows "reads_back n (bs @ bs') (rd_bind get get') v'"
proof -
  have got: "get (reader_at pre (bs @ post) n) = Inr (v, reader_at (pre @ bs) post n)" for pre post
    using assms(1) by (simp add: reads_back_def)
  have "\<exists>e. rd_bind get get' (reader_at pre (take j (bs @ bs')) n) = Inl e"
    if "j < length (bs @ bs')" for pre j
  proof (cases "j < length bs")
    case True
    then obtain e where "get (reader_at pre (take j bs) n) = Inl e"
      using assms(1) unfolding reads_back_def by blast
    then show ?thesis using True by (simp add: rd_bind_def)
  next
    case False
    then have "j - length bs < length bs'" using that by auto
    then obtain e where "get' v (reader_at (pre @ bs) (take (j - length bs) bs') n) = Inl e"
      using assms(2) unfolding reads_back_def by blast
    then show ?thesis using False by (simp add: rd_bind_def got)
  qed
  moreover have "rd_bind get get' (reader_at pre ((bs @ bs') @ post) n) =
      Inr (v', reader_at (pre @ bs @ bs') post n)" for pre post
    using assms(2) got [of pre "bs' @ post"] by (simp add: rd_bind_def reads_back_def)
  ultimately show ?thesis unfolding reads_back_def by blast
qed

lemma get_take_at: "get_take (length bs) (reader_at pre (bs @ post) n) = Inr (bs, reader_at (pre @ bs) post n)"
  by (simp add: get_take_def reader_at_def)

lemma reads_back_take: "reads_back n bs (get_take (length bs)) bs"
  by (auto simp: reads_back_def get_take_at) (simp add: get_take_def reader_at_def)

text \<open>A type's fields written one after the other, in the order a save lists them.\<close>

fun put_all :: "(writer \<Rightarrow> writer) list \<Rightarrow> writer \<Rightarrow> writer" where
  "put_all [] w = w"
| "put_all (p # ps) w = put_all ps (p w)"

lemma codes_nil [codes_intros]: "codes n (put_all []) (rd_return v) v"
  by (rule codesI [where bs = "[]"]) (simp_all add: put_raw_def reads_back_nil)

lemma codes_cons [codes_intros]:
  assumes "codes n put get v" "codes n (put_all ps) (get' v) v'"
  shows "codes n (put_all (put # ps)) (rd_bind get get') v'"
proof -
  obtain bs where bs: "\<forall>w. w_word_bytes w = n \<longrightarrow> put w = put_raw bs w" "reads_back n bs get v"
    using assms(1) unfolding codes_def by blast
  obtain bs' where bs': "\<forall>w. w_word_bytes w = n \<longrightarrow> put_all ps w = put_raw bs' w"
    "reads_back n bs' (get' v) v'"
    using assms(2) unfolding codes_def by blast
  show ?thesis
    by (rule codesI [where bs = "bs @ bs'"])
      (simp add: bs(1) bs'(1), rule reads_back_bind [where get' = get', OF bs(2) bs'(2)])
qed

lemma reads_back_then:
  assumes "reads_back n bs get v" and "get' v = rd_return v'"
  shows "reads_back n bs (rd_bind get get') v'"
  using reads_back_bind [OF assms(1), of "[]" get' v'] assms(2) by (simp add: reads_back_nil)

lemma codes_then:
  assumes "codes n put get v" and "get' v = rd_return v'"
  shows "codes n put (rd_bind get get') v'"
  using assms unfolding codes_def by (blast intro: reads_back_then)

lemma codes_raw: "codes n (put_raw bs) (get_take (length bs)) bs"
  by (rule codesI [where bs = bs]) (simp_all add: reads_back_take)

lemma codes_fixed:
  "length bs = k \<Longrightarrow> f bs = v \<Longrightarrow> codes n (put_raw bs) (rd_bind (get_take k) (\<lambda>b. rd_return (f b))) v"
  using codes_raw [of n bs] by (auto intro: codes_then)

lemma codes_u8 [codes_intros]: "codes n (put_u8 v) get_u8 v"
  unfolding put_u8_def get_u8_def by (rule codes_fixed) simp_all

lemma codes_u16 [codes_intros]: "codes n (put_u16 v) get_u16 v"
  unfolding put_u16_def get_u16_def by (rule codes_fixed) (simp_all add: from_le_le_bytes_full)

lemma codes_u32 [codes_intros]: "codes n (put_u32 v) get_u32 v"
  unfolding put_u32_def get_u32_def by (rule codes_fixed) (simp_all add: from_le_le_bytes_full)

lemma codes_u64 [codes_intros]: "codes n (put_u64 v) get_u64 v"
  unfolding put_u64_def get_u64_def by (rule codes_fixed) (simp_all add: from_le_le_bytes_full)

lemma codes_bool [codes_intros]: "codes n (put_bool v) get_bool v"
  unfolding put_bool_def get_bool_def by (rule codes_then [OF codes_u8]) (simp add: of_flag_def)

lemma codes_speed [codes_intros]: "codes n (put_speed v) get_speed v"
  unfolding put_speed_def get_speed_def by (rule codes_then [OF codes_u8]) (cases v; simp)

lemma codes_level [codes_intros]: "codes n (put_level v) get_level v"
  unfolding put_level_def get_level_def by (rule codes_then [OF codes_u8]) (cases v; simp)

lemma codes_opt [codes_intros]:
  assumes "\<And>x. v = Some x \<Longrightarrow> codes n (put x) get x"
  shows "codes n (put_opt put v) (get_opt get) v"
proof (cases v)
  case None
  have "codes n (put_all [put_bool False]) (get_opt get) v"
    unfolding get_opt_def None by (rule codes_cons [OF codes_bool]) (simp add: codes_nil)
  then show ?thesis by (simp add: put_opt_def None codes_def)
next
  case (Some x)
  have "codes n (put_all [put_bool True, put x]) (get_opt get) v"
    unfolding get_opt_def Some
    by (rule codes_cons [OF codes_bool])
      (simp del: put_all.simps, rule codes_cons [OF assms [OF Some] codes_nil])
  then show ?thesis by (simp add: put_opt_def Some codes_def)
qed

lemma fold_put: "fold put xs = put_all (map put xs)"
proof (rule ext)
  show "fold put xs w = put_all (map put xs) w" for w
    by (induction xs arbitrary: w) simp_all
qed

lemma codes_many:
  assumes "\<And>x. x \<in> set xs \<Longrightarrow> codes n (put x) get x"
  shows "codes n (fold put xs) (get_many (length xs) get) xs"
  unfolding fold_put using assms
proof (induction xs)
  case Nil
  show ?case unfolding list.map list.size get_many.simps by (rule codes_nil)
next
  case (Cons x xs)
  have tail: "codes n (put_all (map put xs)) (get_many (length xs) get) xs"
    using Cons by simp
  show ?case
    unfolding list.map length_Cons get_many.simps
    by (rule codes_cons [OF Cons.prems]) (simp, rule codes_then [OF tail], rule refl)
qed

lemma codes_counted:
  assumes "length xs < 2 ^ 64" "\<And>x. x \<in> set xs \<Longrightarrow> codes n (put x) get x"
  shows "codes n (\<lambda>w. fold put xs (put_u64 (of_nat (length xs)) w))
    (rd_bind get_u64 (\<lambda>k. get_many (unat k) get)) xs"
proof -
  have "codes n (put_all [put_u64 (of_nat (length xs)), fold put xs])
      (rd_bind get_u64 (\<lambda>k. get_many (unat k) get)) xs"
    by (rule codes_cons [OF codes_u64])
      (use codes_many [OF assms(2)] assms(1) in \<open>simp add: codes_def unat_of_nat_64\<close>)
  then show ?thesis by (simp add: codes_def)
qed

lemma codes_count_for:
  "k < 2 ^ 64 \<Longrightarrow> codes n (put_u64 (of_nat k)) (count_for k) k"
  unfolding count_for_def by (rule codes_then [OF codes_u64]) (simp add: unat_of_nat_64)

lemma codes_slot:
  assumes "length xs < 2 ^ 64" "\<And>x. x \<in> set xs \<Longrightarrow> codes n (put x) get x"
  shows "codes n (\<lambda>w. fold put xs (put_u64 (of_nat (length xs)) w))
    (rd_bind (count_for (length xs)) (\<lambda>_. get_many (length xs) get)) xs"
proof -
  have "codes n (put_all [put_u64 (of_nat (length xs)), fold put xs])
      (rd_bind (count_for (length xs)) (\<lambda>_. get_many (length xs) get)) xs"
    by (rule codes_cons [OF codes_count_for [OF assms(1)]])
      (use codes_many [OF assms(2)] in \<open>simp add: codes_def\<close>)
  then show ?thesis by (simp add: codes_def)
qed

lemma codes_u16s [codes_intros]: "length v < 2 ^ 64 \<Longrightarrow> codes n (put_u16s v) get_u16s v"
  unfolding put_u16s_def [abs_def] get_u16s_def by (rule codes_counted) (simp_all add: codes_u16)

lemma codes_u32s [codes_intros]: "length v < 2 ^ 64 \<Longrightarrow> codes n (put_u32s v) get_u32s v"
  unfolding put_u32s_def [abs_def] get_u32s_def by (rule codes_counted) (simp_all add: codes_u32)

lemma codes_u64s [codes_intros]: "length v < 2 ^ 64 \<Longrightarrow> codes n (put_u64s v) get_u64s v"
  unfolding put_u64s_def [abs_def] get_u64s_def by (rule codes_counted) (simp_all add: codes_u64)

lemma codes_u16s_into [codes_intros]:
  "length v < 2 ^ 64 \<Longrightarrow> length v = k \<Longrightarrow> codes n (put_u16s v) (get_u16s_into k) v"
  unfolding put_u16s_def [abs_def] get_u16s_into_def
  by (hypsubst, rule codes_slot) (simp_all add: codes_u16)

lemma codes_u32s_into [codes_intros]:
  "length v < 2 ^ 64 \<Longrightarrow> length v = k \<Longrightarrow> codes n (put_u32s v) (get_u32s_into k) v"
  unfolding put_u32s_def [abs_def] get_u32s_into_def
  by (hypsubst, rule codes_slot) (simp_all add: codes_u32)

lemma codes_u64s_into [codes_intros]:
  "length v < 2 ^ 64 \<Longrightarrow> length v = k \<Longrightarrow> codes n (put_u64s v) (get_u64s_into k) v"
  unfolding put_u64s_def [abs_def] get_u64s_into_def
  by (hypsubst, rule codes_slot) (simp_all add: codes_u64)

lemma codes_bytes [codes_intros]:
  assumes "length v < 2 ^ 64"
  shows "codes n (put_bytes v) get_bytes v"
proof -
  have "codes n (put_all [put_u64 (of_nat (length v)), put_raw v]) get_bytes v"
    unfolding get_bytes_def
    by (rule codes_cons [OF codes_u64])
      (use codes_raw [of n v] assms in \<open>simp add: codes_def unat_of_nat_64\<close>)
  then show ?thesis by (simp add: codes_def put_bytes_def)
qed

lemma codes_bytes_into [codes_intros]:
  assumes "length v < 2 ^ 64" "length v = k"
  shows "codes n (put_bytes v) (get_bytes_into k) v"
proof -
  have "codes n (put_all [put_u64 (of_nat (length v)), put_raw v]) (get_bytes_into k) v"
    unfolding get_bytes_into_def
    by (rule codes_cons [where v = k])
      (use codes_raw [of n v] codes_count_for [of k n] assms in \<open>simp_all add: codes_def\<close>)
  then show ?thesis by (simp add: codes_def put_bytes_def)
qed

section \<open>Words of the machine's width\<close>

lemma take_le_bytes: "n \<le> k \<Longrightarrow> take n (le_bytes k v) = le_bytes n v"
  by (simp add: le_bytes_def take_map)

lemma from_le_bytes_pad: "from_le_bytes (bs @ replicate k 0) = from_le_bytes bs"
  by (rule bit_word_eqI) (auto simp: bit_from_le_bytes nth_append)

lemma le_bytes_ucast:
  "8 * k \<le> LENGTH('b) \<Longrightarrow> le_bytes k (ucast (v :: 'a::len word) :: 'b::len word) = le_bytes k v"
  unfolding le_bytes_def
  by (rule map_cong [OF refl], rule bit_word_eqI) (auto simp: bit_simps)

lemma codes_word [codes_intros]:
  assumes "n \<le> 8" "v < 2 ^ (8 * n) \<or> n = 8"
  shows "codes n (put_word v) get_word v"
proof (rule codesI [where bs = "le_bytes n v"])
  show "put_word v w = put_raw (le_bytes n v) w" if "w_word_bytes w = n" for w
    using that assms by (simp add: put_word_def take_le_bytes)
  have v: "from_le_bytes (le_bytes n v) = v"
    using assms(2) by (intro from_le_le_bytes) (auto dest: word_less_exp_bit bit_imp_le_length)
  have "reads_back n (le_bytes n v) (get_take n) (le_bytes n v)"
    using reads_back_take [of n "le_bytes n v"] by simp
  then have "reads_back n (le_bytes n v)
      (rd_bind (get_take n) (\<lambda>b. rd_return (from_le_bytes (b @ replicate (8 - n) 0)))) v"
    by (rule reads_back_then) (simp add: from_le_bytes_pad v)
  then show "reads_back n (le_bytes n v) get_word v"
    by (simp add: reads_back_def get_word_def reader_at_def)
qed

lemma fold_put_raw: "fold (\<lambda>x. put_raw (f x)) xs w = put_raw (concat (map f xs)) w"
  by (induction xs arbitrary: w) (simp_all add: put_raw_def)

lemma chunks_concat:
  "(\<And>x. x \<in> set xs \<Longrightarrow> length (f x) = sz) \<Longrightarrow> chunks_exact (length xs) sz (concat (map f xs)) = map f xs"
  by (induction xs) simp_all

lemma put_words_raw:
  assumes "w_word_bytes w = n" "n \<le> 8"
  shows "put_words v w = put_raw (concat (map (le_bytes n) v)) (put_u64 (of_nat (length v)) w)"
proof -
  have "le_bytes 4 (ucast x :: u32) = le_bytes 4 x" for x :: u64
    by (rule le_bytes_ucast) simp
  then show ?thesis
    using assms by (simp add: put_words_def put_u64_def Let_def fold_put_raw take_le_bytes
        WORD_BYTES_32_def)
qed

lemma codes_words_into [codes_intros]:
  assumes "n = 4 \<or> n = 5" "length v < 2 ^ 64" "length v = k" "\<And>x. x \<in> set v \<Longrightarrow> x < 2 ^ (8 * n)"
  shows "codes n (put_words v) (get_words_into k) v"
proof -
  let ?bs = "concat (map (le_bytes n) v)"
  have len: "length ?bs = k * n"
    using assms(3) by (simp add: length_concat o_def sum_list_triv)
  have whole: "from_le_bytes (le_bytes n x) = x" if "x \<in> set v" for x :: u64
    by (rule from_le_le_bytes) (use assms(4) [OF that] in \<open>auto dest: word_less_exp_bit\<close>)
  have whole32: "ucast (from_le_bytes (le_bytes n x) :: u32) = x" if xv: "x \<in> set v" and n4: "n = 4" for x :: u64
  proof -
    have "le_bytes 4 x = le_bytes 4 (ucast x :: u32)" by (simp add: le_bytes_ucast)
    then have "(from_le_bytes (le_bytes n x) :: u32) = ucast x"
      using n4 by (simp add: from_le_le_bytes_full)
    then show ?thesis
      using assms(4) [OF xv] n4 word_less_exp_bit [of x 32] by (intro bit_word_eqI)
        (auto simp: bit_simps)
  qed
  have ch: "chunks_exact k n ?bs = map (le_bytes n) v"
    unfolding assms(3) [symmetric] by (rule chunks_concat) simp
  let ?get = "\<lambda>bytes. rd_return (if n = WORD_BYTES_32
    then map (\<lambda>b. ucast (from_le_bytes b :: u32)) (chunks_exact k n bytes)
    else map (\<lambda>b. from_le_bytes (b @ replicate (8 - n) 0)) (chunks_exact k n bytes))"
  have "?get ?bs = rd_return v"
    using whole whole32 unfolding ch
    by (auto simp: from_le_bytes_pad WORD_BYTES_32_def o_def map_idI)
  then have "codes n (put_raw ?bs) (rd_bind (get_take (length ?bs)) ?get) v"
    by (rule codes_then [OF codes_raw])
  then have "codes n (put_all [put_u64 (of_nat k), put_raw ?bs])
      (rd_bind (count_for k) (\<lambda>_. rd_bind (get_take (k * n)) ?get)) v"
    using assms(2,3) unfolding len
    by (intro codes_cons [OF codes_count_for]) (simp_all add: codes_def)
  moreover have "put_words v w = put_all [put_u64 (of_nat k), put_raw ?bs] w" if "w_word_bytes w = n" for w
    using that assms(1,3) by (auto simp: put_words_raw)
  moreover have "get_words_into k r = rd_bind (count_for k) (\<lambda>_. rd_bind (get_take (k * n)) ?get) r"
    if "r_word_bytes r = n" for r
    using that by (auto simp: get_words_into_def rd_bind_def count_for_def rd_fail_def rd_return_def
        Let_def split: sum.splits if_splits)
  ultimately show ?thesis by (simp add: codes_def reads_back_def reader_at_def)
qed

text \<open>A record's load, one field after the other.\<close>

lemma codes_end: "v = v' \<Longrightarrow> codes n (put_all []) (rd_return v) v'"
  by (simp only: codes_nil)

lemmas codes_step = codes_cons [OF codes_bool] codes_cons [OF codes_u8] codes_cons [OF codes_u16]
  codes_cons [OF codes_u32] codes_cons [OF codes_u64] codes_cons [OF codes_speed] codes_cons [OF codes_level]

lemma rd_bind_Inr:
  "rd_bind m f r = Inr (x, r') \<longleftrightarrow> (\<exists>y s. m r = Inr (y, s) \<and> f y s = Inr (x, r'))"
  by (auto simp: rd_bind_def split: sum.splits prod.splits)

lemma rd_return_Inr [simp]: "rd_return x r = Inr (y, r') \<longleftrightarrow> y = x \<and> r' = r"
  by (auto simp: rd_return_def)

lemma rd_fail_Inr [simp]: "rd_fail e r \<noteq> Inr z"
  by (simp add: rd_fail_def)

lemma length_get_many: "get_many n get r = Inr (xs, r') \<Longrightarrow> length xs = n"
  by (induction n arbitrary: r xs r') (auto simp: rd_bind_Inr)

lemma length_u32s_into: "get_u32s_into n r = Inr (xs, r') \<Longrightarrow> length xs = n"
  by (auto simp: get_u32s_into_def rd_bind_Inr dest: length_get_many)

section \<open>A type that saves and loads itself\<close>

text \<open>
  The interface every component with state has: \<open>save\<close> and \<open>load\<close> that code each other for the
  values that can occur, on a machine with words of \<open>width\<close> bytes.
\<close>

locale codec =
  fixes width :: nat
    and valid :: "'a \<Rightarrow> bool"
    and save :: "'a \<Rightarrow> writer \<Rightarrow> writer"
    and load :: "'a rd"
  assumes codes: "valid v \<Longrightarrow> codes width (save v) load v"
begin

text \<open>In the middle of a checkpoint: what was saved before and after makes no difference.\<close>

lemma resumes:
  assumes "valid v" "w_word_bytes w = width"
  shows "load (reader_at (w_out w) (drop (length (w_out w)) (w_out (save v w)) @ post) width) =
    Inr (v, reader_at (w_out (save v w)) post width)"
  using codes [OF assms(1)] assms(2) by (auto simp: codes_def reads_back_def put_raw_def)

text \<open>A whole body.\<close>

lemma resumes_whole:
  assumes "valid v" "w_word_bytes w = width" "w_out w = []"
  shows "\<exists>r. load \<lparr>r_data = writer_finish (save v w), r_at = 0, r_word_bytes = width\<rparr> = Inr (v, r) \<and>
    reader_done r = Inr ()"
proof -
  have "load (reader_at [] (w_out (save v w)) width) = Inr (v, reader_at (w_out (save v w)) [] width)"
    using resumes [OF assms(1,2), of "[]"] assms(3) by simp
  then show ?thesis by (simp add: reader_at_def writer_finish_def reader_done_def)
qed

lemma cut_short:
  assumes "valid v" "w_word_bytes w = width" "w_out w = []" "j < length (writer_finish (save v w))"
  shows "\<exists>e. load \<lparr>r_data = take j (writer_finish (save v w)), r_at = 0, r_word_bytes = width\<rparr> = Inl e"
proof -
  obtain bs where bs: "save v w = put_raw bs w" "reads_back width bs load v"
    using codes [OF assms(1)] assms(2) unfolding codes_def by blast
  have "\<exists>e. load (reader_at [] (take j bs) width) = Inl e"
    using bs assms(3,4) by (simp add: reads_back_def writer_finish_def put_raw_def)
  then show ?thesis using bs assms(3) by (simp add: reader_at_def writer_finish_def put_raw_def)
qed

text \<open>Two values never save the same bytes.\<close>

lemma save_inject:
  assumes "valid v" "valid v'" "w_word_bytes w = width" "w_out w = []" "save v w = save v' w"
  shows "v = v'"
proof -
  obtain r where r: "load \<lparr>r_data = writer_finish (save v w), r_at = 0, r_word_bytes = width\<rparr> = Inr (v, r)"
    using resumes_whole [OF assms(1,3,4)] by blast
  obtain r' where "load \<lparr>r_data = writer_finish (save v' w), r_at = 0, r_word_bytes = width\<rparr> = Inr (v', r')"
    using resumes_whole [OF assms(2,3,4)] by blast
  then show ?thesis unfolding assms(5) [symmetric] r by simp
qed

lemma codes_option: "pred_option valid v \<Longrightarrow> codes width (put_opt save v) (get_opt load) v"
  by (rule codes_opt) (auto intro: codes)

lemma codes_list:
  "length vs < 2 ^ 64 \<Longrightarrow> (\<And>v. v \<in> set vs \<Longrightarrow> valid v) \<Longrightarrow>
     codes width (\<lambda>w. fold save vs (put_u64 (of_nat (length vs)) w))
       (rd_bind get_u64 (\<lambda>k. get_many (unat k) load)) vs"
  by (rule codes_counted) (auto intro: codes)

end

interpretation u8: codec n "\<lambda>_. True" put_u8 get_u8 for n
  by unfold_locales (rule codes_u8)

interpretation u16: codec n "\<lambda>_. True" put_u16 get_u16 for n
  by unfold_locales (rule codes_u16)

interpretation u32: codec n "\<lambda>_. True" put_u32 get_u32 for n
  by unfold_locales (rule codes_u32)

interpretation u64: codec n "\<lambda>_. True" put_u64 get_u64 for n
  by unfold_locales (rule codes_u64)

interpretation bool: codec n "\<lambda>_. True" put_bool get_bool for n
  by unfold_locales (rule codes_bool)

interpretation speed: codec n "\<lambda>_. True" put_speed get_speed for n
  by unfold_locales (rule codes_speed)

interpretation level: codec n "\<lambda>_. True" put_level get_level for n
  by unfold_locales (rule codes_level)

interpretation u64s: codec n "\<lambda>v. length v < 2 ^ 64" put_u64s get_u64s for n
  by unfold_locales (rule codes_u64s)

text \<open>The main memory's words, on a 32-bit and on a 40-bit machine.\<close>

definition words_fit :: "nat \<Rightarrow> nat \<Rightarrow> u64 list \<Rightarrow> bool" where
  "words_fit n k v \<longleftrightarrow> length v = k \<and> k < 2 ^ 64 \<and> (\<forall>x \<in> set v. x < 2 ^ (8 * n))"

interpretation words32: codec 4 "words_fit 4 k" put_words "get_words_into k" for k
  by unfold_locales (rule codes_words_into; simp add: words_fit_def)

interpretation words40: codec 5 "words_fit 5 k" put_words "get_words_into k" for k
  by unfold_locales (rule codes_words_into; simp add: words_fit_def)

text \<open>
  A memory survives a checkpoint at the machine's width. Words that fit 40 bits (32 bits), written
  by a writer set to that width, are read back by a reader set to it into a memory of the same
  length, word for word, with no byte left over; and the file cut short anywhere is refused.
\<close>

theorem words_resume:
  assumes "bits \<in> {32, 40}" "length v < 2 ^ 64" "\<forall>x \<in> set v. x < 2 ^ bits"
  defines "file \<equiv> writer_finish (put_words v (set_word_bits bits writer_new))"
  shows "(\<exists>r. get_words_into (length v) (reader_for_word_bits file bits) = Inr (v, r) \<and> reader_done r = Inr ()) \<and>
    (j < length file \<longrightarrow> (\<exists>e. get_words_into (length v) (reader_for_word_bits (take j file) bits) = Inl e))"
proof -
  have w: "word_bytes 32 = 4" "word_bytes 40 = 5" by (simp_all add: word_bytes_def div_ceil_def)
  let ?w = "set_word_bits bits writer_new"
  have o: "w_out ?w = []" by (simp add: set_word_bits_def writer_new_def)
  consider "bits = 32" | "bits = 40" using assms(1) by auto
  then show ?thesis
  proof cases
    case 1
    then have "words_fit 4 (length v) v" "w_word_bytes ?w = 4"
      using assms(2,3) by (simp_all add: words_fit_def set_word_bits_def w)
    then show ?thesis
      using words32.resumes_whole [OF _ _ o] words32.cut_short [OF _ _ o, of "length v" v j] 1
      unfolding file_def by (auto simp: reader_for_word_bits_def w)
  next
    case 2
    then have "words_fit 5 (length v) v" "w_word_bytes ?w = 5"
      using assms(2,3) by (simp_all add: words_fit_def set_word_bits_def w)
    then show ?thesis
      using words40.resumes_whole [OF _ _ o] words40.cut_short [OF _ _ o, of "length v" v j] 2
      unfolding file_def by (auto simp: reader_for_word_bits_def w)
  qed
qed

lemma words_resume_witness:
  "let file = writer_finish (put_words [0xff00000001, 3] (set_word_bits 40 writer_new))
   in (\<exists>r. get_words_into (length [0xff00000001, 3 :: u64]) (reader_for_word_bits file 40) = Inr ([0xff00000001, 3], r) \<and> reader_done r = Inr ()) \<and>
      (\<exists>e. get_words_into (length [0xff00000001, 3 :: u64]) (reader_for_word_bits (take 9 file) 40) = Inl e)"
  using words_resume [of 40 "[0xff00000001, 3]" 9]
  by (simp add: Let_def writer_finish_def put_words_def put_u64_def put_raw_def set_word_bits_def
      writer_new_def word_bytes_def div_ceil_def WORD_BYTES_32_def)

end
