(* ===== verification/Checkpoint.thy ===== *)
theory Checkpoint
  imports Codec
begin

text \<open>
  The checkpoint file, \<open>src/checkpoint.rs\<close> from \<open>write\<close> on: the header, and the body packed as
  runs of zeros and literal bytes behind LEB128 counts. The lemmas show that unpacking undoes packing
  for every body the format allows, that a whole file reads back as it was written, and that a
  corrupt count can never make the reader ask for more room than a body can need.
\<close>

section \<open>Counts\<close>

function varint :: "u64 \<Rightarrow> u8 list" where
  "varint v =
     (let byte = ucast (v AND 0x7f); v = drop_bit 7 v
      in if v = 0 then [byte] else (byte OR 0x80) # varint v)"
  by auto

lemma drop_bit_less: "drop_bit 7 v \<noteq> 0 \<Longrightarrow> unat (drop_bit 7 v) < unat (v :: u64)"
proof -
  assume a: "drop_bit 7 v \<noteq> 0"
  have "unat (drop_bit 7 v) = unat v div 2 ^ 7"
    by (simp add: drop_bit_eq_div unat_div)
  moreover have "0 < unat v" using a by (auto simp: unat_gt_0)
  ultimately show ?thesis by (simp add: div_less_dividend)
qed

termination varint
  by (relation "measure unat") (simp_all add: drop_bit_less)

declare varint.simps [simp del]

fun unvarint_loop :: "nat list \<Rightarrow> u8 list \<Rightarrow> nat \<Rightarrow> u64 \<Rightarrow> ckpt_error + u64 \<times> nat" where
  "unvarint_loop [] data at v = Inl Count_too_long"
| "unvarint_loop (shift # shifts) data at v =
     (if at < length data
      then let byte = data ! at; v = v OR push_bit shift (ucast (byte AND 0x7f))
           in if byte AND 0x80 = 0 then Inr (v, at + 1) else unvarint_loop shifts data (at + 1) v
      else Inl Count_runs_off)"

definition unvarint :: "u8 list \<Rightarrow> nat \<Rightarrow> ckpt_error + u64 \<times> nat" where
  "unvarint data at = unvarint_loop (map ((*) 7) [0..<10]) data at 0"

section \<open>Packing\<close>

definition MIN_ZERO_RUN :: nat where "MIN_ZERO_RUN = 4"

definition zero_run :: "u8 list \<Rightarrow> nat" where
  "zero_run bs = length (takeWhile (\<lambda>b. b = 0) bs)"

lemma zero_run_pos: "zero_run (0 # bs) \<noteq> 0"
  by (simp add: zero_run_def)

text \<open>How far \<open>pack\<close>'s inner loop moves from the start of a run of literals.\<close>

function literal_run :: "u8 list \<Rightarrow> nat" where
  "literal_run raw =
     (if raw = [] then 0
      else if raw ! 0 \<noteq> 0 then 1 + literal_run (drop 1 raw)
      else let run = zero_run raw
           in if MIN_ZERO_RUN \<le> run then 0 else run + literal_run (drop run raw))"
  by auto

termination literal_run
  by (relation "measure length") (auto simp: zero_run_def neq_Nil_conv)

declare literal_run.simps [simp del]

lemma literal_run_le: "literal_run raw \<le> length raw"
proof (induction raw rule: literal_run.induct)
  case (1 raw)
  have "zero_run raw \<le> length raw" by (simp add: zero_run_def length_takeWhile_le)
  then show ?case
    using 1 by (cases raw) (subst literal_run.simps, auto simp: Let_def)+
qed

lemma literal_run_pos:
  assumes "raw \<noteq> []" "zero_run raw = 0"
  shows "0 < literal_run raw"
proof -
  have "raw ! 0 \<noteq> 0" using assms by (cases raw) (auto simp: zero_run_def)
  then show ?thesis using assms(1) by (subst literal_run.simps) simp
qed

lemma zero_run_drop: "zero_run (drop (zero_run raw) raw) = 0"
proof -
  have "drop (zero_run raw) raw = dropWhile (\<lambda>b. b = 0) raw"
    by (simp add: zero_run_def dropWhile_eq_drop)
  then show ?thesis
    using hd_dropWhile [of "\<lambda>b. b = 0" raw]
    by (cases "dropWhile (\<lambda>b. b = 0) raw") (auto simp: zero_run_def)
qed

lemma pack_moves:
  assumes "raw \<noteq> []"
  shows "length raw - (literal_run (drop (zero_run raw) raw) + zero_run raw) < length raw"
proof -
  have "0 < literal_run (drop (zero_run raw) raw) + zero_run raw"
    using zero_run_drop [of raw] literal_run_pos [of "drop (zero_run raw) raw"] assms
    by (cases "zero_run raw = 0") auto
  then show ?thesis using assms by (intro diff_less) simp_all
qed

function pack :: "u8 list \<Rightarrow> u8 list" where
  "pack raw =
     (if raw = [] then []
      else let zeros = zero_run raw; start = drop zeros raw; literals = literal_run start
           in varint (of_nat zeros) @ varint (of_nat literals) @ take literals start @
              pack (drop literals start))"
  by auto

termination pack
  by (relation "measure length") (simp_all add: pack_moves)

declare pack.simps [simp del]

definition MAX_BODY :: nat where "MAX_BODY = 2 ^ 32"

lemma unvarint_loop_moves: "unvarint_loop shifts data at v = Inr (w, at') \<Longrightarrow> at < at'"
  by (induction shifts data at v rule: unvarint_loop.induct)
    (fastforce simp: Let_def split: if_splits dest: Suc_lessD)+

lemma unvarint_moves: "unvarint data at = Inr (w, at') \<Longrightarrow> at < at'"
  unfolding unvarint_def by (rule unvarint_loop_moves)

function unpack_from :: "u8 list \<Rightarrow> nat \<Rightarrow> u8 list \<Rightarrow> ckpt_error + u8 list" where
  "unpack_from packed at out =
     (if at < length packed
      then case unvarint packed at of
             Inl e \<Rightarrow> Inl e
           | Inr (zeros, at) \<Rightarrow>
               (case unvarint packed at of
                  Inl e \<Rightarrow> Inl e
                | Inr (literals, at) \<Rightarrow>
                    if length packed < at + unat literals then Inl Literals_run_off
                    else if MAX_BODY - length out < unat zeros then Inl (Run_past_body zeros)
                    else unpack_from packed (at + unat literals)
                           (out @ replicate (unat zeros) 0 @ take (unat literals) (drop at packed)))
      else Inr out)"
  by auto

termination unpack_from
  by (relation "measure (\<lambda>(packed, at, out). length packed - at)")
    (auto dest!: unvarint_moves)

declare unpack_from.simps [simp del]

definition unpack :: "u8 list \<Rightarrow> ckpt_error + u8 list" where
  "unpack packed = unpack_from packed 0 []"

section \<open>Unpacking undoes packing\<close>

lemma and_7f: "(0x7f :: 'a::len word) = mask 7" by (simp add: mask_eq_exp_minus_1)

lemma bit_128: "bit (128 :: 'a::semiring_bit_operations) n \<longleftrightarrow> possible_bit TYPE('a) 7 \<and> n = 7"
proof -
  have "(128 :: 'a) = 2 ^ 7" by simp
  then show ?thesis by (simp only: bit_exp_iff) auto
qed

lemma and_80: "b AND 0x80 = 0 \<longleftrightarrow> \<not> bit (b :: u8) 7"
  unfolding bit_eq_iff [of "b AND 0x80"] bit_and_iff bit_128 by (auto dest: spec [of _ 7])

lemma low_byte_bits [simp]:
  "\<not> bit (ucast (v AND 0x7f :: u64) :: u8) 7"
  "bit (ucast (v AND 0x7f :: u64) OR 0x80 :: u8) 7"
  "ucast ((ucast (v AND 0x7f :: u64) :: u8) AND 0x7f) = v AND 0x7f"
  "ucast ((ucast (v AND 0x7f :: u64) OR 0x80 :: u8) AND 0x7f) = v AND 0x7f"
proof -
  show "\<not> bit (ucast (v AND 0x7f :: u64) :: u8) 7" by (simp add: and_7f bit_simps)
  show "bit (ucast (v AND 0x7f :: u64) OR 0x80 :: u8) 7" by (simp add: bit_or_iff bit_128)
  show "ucast ((ucast (v AND 0x7f :: u64) :: u8) AND 0x7f) = v AND 0x7f"
    by (rule bit_word_eqI) (auto simp: and_7f bit_simps)
  show "ucast ((ucast (v AND 0x7f :: u64) OR 0x80 :: u8) AND 0x7f) = v AND 0x7f"
    by (rule bit_word_eqI) (auto simp: and_7f bit_simps bit_128)
qed

lemma varint_shifts:
  "push_bit k (v AND 0x7f) OR push_bit (k + 7) (drop_bit 7 v) = push_bit k (v :: u64)"
proof (rule bit_word_eqI)
  fix n
  show "bit (push_bit k (v AND 0x7f) OR push_bit (k + 7) (drop_bit 7 v)) n = bit (push_bit k v) n"
    by (cases "n < k + 7") (auto simp: and_7f bit_simps)
qed

lemma unvarint_loop_varint:
  assumes "i \<le> 9" "\<And>n. bit v n \<Longrightarrow> 7 * i + n < 64"
  shows "unvarint_loop (map ((*) 7) [i..<10]) (pre @ varint v @ post) (length pre) acc =
    Inr (acc OR push_bit (7 * i) v, length (pre @ varint v))"
  using assms
proof (induction v arbitrary: i pre acc rule: varint.induct)
  case (1 v)
  have shifts: "map ((*) 7) [i..<10] = 7 * i # map ((*) 7) [Suc i..<10]"
    using "1.prems"(1) by (simp add: upt_conv_Cons)
  show ?case
  proof (cases "drop_bit 7 v = 0")
    case True
    then have "push_bit (7 * i) (v AND 0x7f) = push_bit (7 * i) v"
      using varint_shifts [of "7 * i" v] by simp
    then show ?thesis
      using True by (simp add: varint.simps [of v] shifts Let_def and_80 del: upt_Suc)
  next
    case False
    then obtain n where n: "bit v (7 + n)"
      by (auto simp: bit_eq_iff bit_drop_bit_eq)
    then have i: "Suc i \<le> 9" using "1.prems"(2) [of "7 + n"] by simp
    have v: "7 * Suc i + k < 64" if "bit (drop_bit 7 v) k" for k
      using that "1.prems"(2) [of "7 + k"] by (simp add: bit_drop_bit_eq)
    let ?b = "ucast (v AND 0x7f) OR 0x80 :: u8" and ?acc = "acc OR push_bit (7 * i) (v AND 0x7f)"
    have "unvarint_loop (map ((*) 7) [i..<10]) (pre @ varint v @ post) (length pre) acc =
        unvarint_loop (map ((*) 7) [Suc i..<10]) ((pre @ [?b]) @ varint (drop_bit 7 v) @ post)
          (length (pre @ [?b])) ?acc"
      using False by (simp add: varint.simps [of v] shifts Let_def and_80 nth_append del: upt_Suc)
    also have "\<dots> = Inr (?acc OR push_bit (7 * Suc i) (drop_bit 7 v),
        length ((pre @ [?b]) @ varint (drop_bit 7 v)))"
      by (rule "1.IH") (use False i v in auto)
    also have "?acc OR push_bit (7 * Suc i) (drop_bit 7 v) = acc OR push_bit (7 * i) v"
      using varint_shifts [of "7 * i" v] by (simp add: or.assoc add.commute)
    finally show ?thesis using False by (simp add: varint.simps [of v] Let_def)
  qed
qed

lemma unvarint_varint: "unvarint (pre @ varint v @ post) (length pre) = Inr (v, length (pre @ varint v))"
proof -
  have "7 * 0 + n < 64" if "bit v n" for n using bit_imp_le_length [OF that] by simp
  then show ?thesis
    using unvarint_loop_varint [of 0 v pre post 0] unfolding unvarint_def by (simp del: upt_Suc)
qed

lemma varint_not_nil [simp]: "varint v \<noteq> []"
  by (simp add: varint.simps Let_def)

lemma take_zero_run: "take (zero_run raw) raw = replicate (zero_run raw) 0"
  unfolding zero_run_def takeWhile_eq_take [symmetric]
  by (rule replicate_eqI) (auto dest: set_takeWhileD)

lemma unpack_from_pack:
  assumes "length out + length raw \<le> MAX_BODY"
  shows "unpack_from (pre @ pack raw) (length pre) out = Inr (out @ raw)"
  using assms
proof (induction raw arbitrary: pre out rule: pack.induct)
  case (1 raw)
  show ?case
  proof (cases "raw = []")
    case True
    then show ?thesis by (simp add: pack.simps unpack_from.simps)
  next
    case False
    define zeros where "zeros = zero_run raw"
    define start where "start = drop zeros raw"
    define lits where "lits = literal_run start"
    define z l where "z = varint (of_nat zeros)" and "l = varint (of_nat lits)"
    have zl: "zeros \<le> length raw" "lits \<le> length start"
      using length_takeWhile_le [of _ raw] literal_run_le [of start]
      by (simp_all add: zeros_def zero_run_def lits_def)
    then have ll: "length start + zeros = length raw" by (simp add: start_def)
    have sz: "unat (of_nat zeros :: u64) = zeros" "unat (of_nat lits :: u64) = lits"
      using zl ll "1.prems" by (simp_all add: unat_of_nat_64 MAX_BODY_def)
    have p: "pack raw = z @ l @ take lits start @ pack (drop lits start)"
      using False by (subst pack.simps) (simp add: Let_def zeros_def start_def lits_def z_def l_def)
    have raw: "raw = replicate zeros 0 @ take lits start @ drop lits start"
      using take_zero_run [of raw] by (metis append_take_drop_id zeros_def start_def)
    let ?pk = "pre @ pack raw" and ?out = "out @ replicate zeros 0 @ take lits start"
    have "unvarint ?pk (length pre) = Inr (of_nat zeros, length (pre @ z))"
      unfolding p z_def by (rule unvarint_varint)
    moreover have "unvarint ?pk (length (pre @ z)) = Inr (of_nat lits, length ((pre @ z) @ l))"
      using unvarint_varint [of "pre @ z" "of_nat lits"] unfolding p l_def by simp
    moreover have "length pre < length ?pk" by (simp add: p z_def)
    moreover have "take lits (drop (length ((pre @ z) @ l)) ?pk) = take lits start"
      using zl by (simp add: p)
    moreover have "length ((pre @ z) @ l) + lits \<le> length ?pk" using zl by (simp add: p)
    moreover have "zeros \<le> MAX_BODY - length out" using "1.prems" zl by simp
    ultimately have "unpack_from ?pk (length pre) out = unpack_from ?pk (length ((pre @ z) @ l) + lits) ?out"
      by (subst unpack_from.simps) (simp add: sz)
    also have "\<dots> = unpack_from ((pre @ z @ l @ take lits start) @ pack (drop lits start))
        (length (pre @ z @ l @ take lits start)) ?out"
      using zl by (simp add: p min_absorb2 add.assoc)
    also have "\<dots> = Inr (?out @ drop lits start)"
      using "1.prems" zl ll unfolding lits_def start_def zeros_def
      by (intro "1.IH") (use False in auto)
    also have "?out @ drop lits start = out @ raw" by (simp only: append_assoc raw [symmetric])
    finally show ?thesis .
  qed
qed

text \<open>
  A packed body unpacks to itself. For every body the format allows, four gigabytes, the runs of
  zeros and literals that \<open>pack\<close> cuts it into are put together again by \<open>unpack\<close>, whatever the
  body holds.
\<close>

theorem unpack_pack:
  assumes "length raw \<le> MAX_BODY"
  shows "unpack (pack raw) = Inr raw"
  using unpack_from_pack [of "[]" raw "[]"] assms by (simp add: unpack_def)

lemma unpack_pack_witness: "unpack (pack [0, 0, 0, 0, 0, 7, 0, 0, 9, 0]) = Inr [0, 0, 0, 0, 0, 7, 0, 0, 9, 0]"
  by (rule unpack_pack) (simp add: MAX_BODY_def)

section \<open>A corrupt file\<close>

lemma unpack_from_bound:
  assumes "unpack_from packed at out = Inr raw" "length out \<le> MAX_BODY + at" "at \<le> length packed"
  shows "length raw \<le> MAX_BODY + length packed"
  using assms
proof (induction packed at out rule: unpack_from.induct)
  case (1 packed at out)
  show ?case
  proof (cases "at < length packed")
    case False
    then show ?thesis using "1.prems" by (simp add: unpack_from.simps)
  next
    case True
    obtain zeros at1 where u1: "unvarint packed at = Inr (zeros, at1)"
      using "1.prems"(1) True by (subst (asm) unpack_from.simps) (auto split: sum.splits)
    obtain lits at2 where u2: "unvarint packed at1 = Inr (lits, at2)"
      using "1.prems"(1) True u1 by (subst (asm) unpack_from.simps) (auto split: sum.splits)
    have fits: "\<not> length packed < at2 + unat lits" "\<not> MAX_BODY - length out < unat zeros"
      using "1.prems"(1) True u1 u2 by (subst (asm) (1) unpack_from.simps; auto split: if_splits)+
    let ?out = "out @ replicate (unat zeros) 0 @ take (unat lits) (drop at2 packed)"
    have "unpack_from packed (at2 + unat lits) ?out = Inr raw"
      using "1.prems"(1) True u1 u2 fits by (subst (asm) unpack_from.simps) simp
    moreover have "length ?out \<le> MAX_BODY + (at2 + unat lits)"
      using fits "1.prems"(2) unvarint_moves [OF u1] unvarint_moves [OF u2] by auto
    ultimately show ?thesis
      using "1.IH" [OF True u1 refl u2 refl fits] fits by auto
  qed
qed

text \<open>
  What a corrupt checkpoint can cost is bounded. Whatever bytes \<open>unpack\<close> is given, if it returns a
  body then the body is no longer than the largest one the format allows plus the file itself: no
  count makes it resize past that.
\<close>

theorem unpack_bounded:
  assumes "unpack packed = Inr raw"
  shows "length raw \<le> MAX_BODY + length packed"
  using unpack_from_bound [of packed 0 "[]" raw] assms by (simp add: unpack_def)

lemma unpack_bounded_witness: "length [0, 5 :: u8] \<le> MAX_BODY + length [1, 1, 5 :: u8]"
proof (rule unpack_bounded)
  show "unpack [1, 1, 5] = Inr [0, 5]"
    by (simp add: unpack_def unpack_from.simps unvarint_def upt_rec MAX_BODY_def Let_def)
qed

section \<open>The file\<close>

text \<open>The bytes of \<open>muir checkpoint\<close> and a newline.\<close>

definition MAGIC :: "u8 list" where
  "MAGIC = [0x6d, 0x75, 0x69, 0x72, 0x20, 0x63, 0x68, 0x65, 0x63, 0x6b, 0x70, 0x6f, 0x69, 0x6e, 0x74, 0x0a]"

definition VERSION :: u32 where "VERSION = 49"
definition VERSION_40 :: u32 where "VERSION_40 = 50"

record checkpoint =
  ck_version :: u32
  ck_word_bits :: nat
  ck_engine :: "u8 list"
  ck_memory_boards :: nat
  ck_body :: "u8 list"

definition checkpoint_reader :: "checkpoint \<Rightarrow> reader" where
  "checkpoint_reader c = reader_for_word_bits (ck_body c) (ck_word_bits c)"

text \<open>A \<open>str\<close> is its bytes; \<open>from_utf8\<close> of the standard library refuses the ones that are not.\<close>

definition between :: "u8 \<Rightarrow> u8 \<Rightarrow> u8 \<Rightarrow> bool" where
  "between lo b hi \<longleftrightarrow> lo \<le> b \<and> b \<le> hi"

fun valid_utf8 :: "u8 list \<Rightarrow> bool" where
  "valid_utf8 [] = True"
| "valid_utf8 (a # bs) =
     (if a < 0x80 then valid_utf8 bs
      else case bs of
        [] \<Rightarrow> False
      | b # cs \<Rightarrow>
          if between 0xc2 a 0xdf then between 0x80 b 0xbf \<and> valid_utf8 cs
          else case cs of
            [] \<Rightarrow> False
          | c # ds \<Rightarrow>
              if a = 0xe0 then between 0xa0 b 0xbf \<and> between 0x80 c 0xbf \<and> valid_utf8 ds
              else if a = 0xed then between 0x80 b 0x9f \<and> between 0x80 c 0xbf \<and> valid_utf8 ds
              else if between 0xe1 a 0xef then between 0x80 b 0xbf \<and> between 0x80 c 0xbf \<and> valid_utf8 ds
              else case ds of
                [] \<Rightarrow> False
              | d # es \<Rightarrow>
                  (if a = 0xf0 then between 0x90 b 0xbf
                   else if a = 0xf4 then between 0x80 b 0x8f
                   else between 0xf1 a 0xf3 \<and> between 0x80 b 0xbf) \<and>
                  between 0x80 c 0xbf \<and> between 0x80 d 0xbf \<and> valid_utf8 es)"

text \<open>What \<open>write\<close> puts in the file at the path it is given.\<close>

definition checkpoint_write :: "u8 list \<Rightarrow> nat \<Rightarrow> nat \<Rightarrow> u8 list \<Rightarrow> ckpt_error + u8 list" where
  "checkpoint_write engine memory_boards word_bits body =
     (let file = (\<lambda>version.
        MAGIC @ le_bytes 4 version @ [of_nat (length engine)] @ engine @
        le_bytes 4 (of_nat memory_boards :: u32) @ pack body)
      in if word_bits = 32 then Inr (file VERSION)
         else if word_bits = 40 then Inr (file VERSION_40)
         else Inl (Bad_width word_bits))"

text \<open>What \<open>read\<close> makes of the file's bytes.\<close>

definition checkpoint_body :: "u32 \<Rightarrow> nat \<Rightarrow> checkpoint rd" where
  "checkpoint_body version word_bits =
     rd_bind get_u8 (\<lambda>n. rd_bind (get_take (unat n)) (\<lambda>engine.
       if \<not> valid_utf8 engine then rd_fail Bad_engine_name
       else rd_bind get_u32 (\<lambda>memory_boards r.
         case unpack (drop (r_at r) (r_data r)) of
           Inl e \<Rightarrow> Inl e
         | Inr body \<Rightarrow> rd_return \<lparr>ck_version = version, ck_word_bits = word_bits, ck_engine = engine,
             ck_memory_boards = unat memory_boards, ck_body = body\<rparr> r)))"

definition checkpoint_read :: "u8 list \<Rightarrow> ckpt_error + checkpoint" where
  "checkpoint_read file =
     (let r = reader_new file
      in case get_take (length MAGIC) r of
           Inl _ \<Rightarrow> Inl Not_a_checkpoint
         | Inr (magic, r) \<Rightarrow>
             if magic \<noteq> MAGIC then Inl Not_a_checkpoint
             else map_sum id fst
               (rd_bind get_u32 (\<lambda>version.
                 if version = VERSION then checkpoint_body version 32
                 else if version = VERSION_40 then checkpoint_body version 40
                 else rd_fail (Bad_version version)) r))"

lemma rd_bind_back:
  assumes "reads_back n bs get v"
  shows "rd_bind get get' (reader_at pre (bs @ post) n) = get' v (reader_at (pre @ bs) post n)"
  using assms by (simp add: rd_bind_def reads_back_def)

lemma reader_at_rest: "drop (r_at (reader_at pre rest n)) (r_data (reader_at pre rest n)) = rest"
  by (simp add: reader_at_def)

lemma reads_back_u8: "reads_back n [v] get_u8 v"
  unfolding get_u8_def using reads_back_take [of n "[v]"] by (auto intro: reads_back_then)

lemma reads_back_u32: "reads_back n (le_bytes 4 v) get_u32 v"
  unfolding get_u32_def using reads_back_take [of n "le_bytes 4 v"]
  by (auto intro: reads_back_then simp: from_le_le_bytes_full)

text \<open>
  C11: a checkpoint file reads back as it was written: the engine's name, the memory boards, the word
  width by the version number, and the body, for a name of at most 255 bytes, boards that fit 32 bits and a
  body within the format's bound. No width but 32 and 40 is written at all.
\<close>

theorem checkpoint_read_write:
  assumes "word_bits \<in> {32, 40}" "length engine < 2 ^ 8" "valid_utf8 engine" "memory_boards < 2 ^ 32"
    and "length body \<le> MAX_BODY"
  shows "\<exists>file. checkpoint_write engine memory_boards word_bits body = Inr file \<and>
    checkpoint_read file = Inr \<lparr>ck_version = (if word_bits = 32 then VERSION else VERSION_40),
      ck_word_bits = word_bits, ck_engine = engine, ck_memory_boards = memory_boards, ck_body = body\<rparr>"
proof -
  define version where "version = (if word_bits = 32 then VERSION else VERSION_40)"
  define len :: u8 where "len = of_nat (length engine)"
  define boards :: u32 where "boards = of_nat memory_boards"
  define rest where "rest = [len] @ engine @ le_bytes 4 boards @ pack body"
  let ?file = "MAGIC @ le_bytes 4 version @ rest"
  have len: "unat len = length engine" using assms(2) by (simp add: len_def unat_of_nat)
  have boards: "unat boards = memory_boards" using assms(4) by (simp add: boards_def unat_of_nat)
  let ?ck = "\<lparr>ck_version = version, ck_word_bits = word_bits, ck_engine = engine,
    ck_memory_boards = memory_boards, ck_body = body\<rparr>"
  have body: "map_sum id fst (checkpoint_body version word_bits (reader_at pre rest n)) = Inr ?ck" for pre n
    unfolding checkpoint_body_def rest_def rd_bind_back [OF reads_back_u8] len
      rd_bind_back [OF reads_back_take]
    by (simp only: assms(3) not_True_eq_False if_False rd_bind_back [OF reads_back_u32] boards)
      (simp add: reader_at_rest unpack_from_pack [of "[]" body "[]", simplified] assms(5) unpack_def
        rd_return_def del: append_assoc)
  have "reader_new ?file = reader_at [] (MAGIC @ (le_bytes 4 version @ rest)) WORD_BYTES_32"
    by (simp add: reader_new_def reader_at_def)
  moreover have "version \<noteq> VERSION \<Longrightarrow> version = VERSION_40 \<and> word_bits = 40"
    "version = VERSION \<Longrightarrow> word_bits = 32"
    using assms(1) by (auto simp: version_def VERSION_def VERSION_40_def split: if_splits)
  ultimately have "checkpoint_read ?file = Inr ?ck"
    unfolding checkpoint_read_def Let_def
    using body by (auto simp: get_take_at rd_bind_back [OF reads_back_u32])
  moreover have "checkpoint_write engine memory_boards word_bits body = Inr ?file"
    using assms(1) by (auto simp: checkpoint_write_def Let_def version_def rest_def len_def boards_def)
  ultimately show ?thesis unfolding version_def by blast
qed

lemma checkpoint_read_write_witness:
  "\<exists>file. checkpoint_write [0x72, 0x74, 0x6c] 3 40 [1, 0, 0] = Inr file \<and>
    checkpoint_read file = Inr \<lparr>ck_version = (if (40 :: nat) = 32 then VERSION else VERSION_40),
      ck_word_bits = 40, ck_engine = [0x72, 0x74, 0x6c], ck_memory_boards = 3, ck_body = [1, 0, 0]\<rparr>"
  by (rule checkpoint_read_write) (simp_all add: MAX_BODY_def)

end
