(* ===== verification/ClockGen.thy ===== *)
theory ClockGen
  imports Codec
begin

text \<open>
  The clock generator, the second half of \<open>src/clock.rs\<close>: \<open>Behavioral\<close>, an event scheduler that
  makes the master signals of page CLOCK2. The lemmas give the invariant of its queue, the waveform
  of one microcycle at every speed, and the checkpoint's round trip.
\<close>

section \<open>The model\<close>

record inputs =
  in_machrun :: bool
  in_hang :: bool
  in_ilong :: bool
  in_speed :: speed
  in_reset :: bool

record outputs =
  tpclk :: bool
  tpwp :: bool
  tptse :: bool
  tpwpiram :: bool

definition outputs_default :: outputs where
  "outputs_default = \<lparr>tpclk = False, tpwp = False, tptse = False, tpwpiram = False\<rparr>"

definition TSE_OFF_NS :: nat where "TSE_OFF_NS = 5"
definition TSE_ON_NS :: nat where "TSE_ON_NS = 25"
definition WP_ON_NS :: nat where "WP_ON_NS = 30"
definition WP_OFF_NS :: nat where "WP_OFF_NS = 70"
definition WPIRAM_OFF_NS :: nat where "WPIRAM_OFF_NS = 45"
definition TPR_PULSE_NS :: nat where "TPR_PULSE_NS = 40"
definition TPR60_NS :: nat where "TPR60_NS = 60"
definition SELECT_NS :: nat where "SELECT_NS = 65"

lemmas clock_ns = TSE_OFF_NS_def TSE_ON_NS_def WP_ON_NS_def WP_OFF_NS_def WPIRAM_OFF_NS_def
  TPR_PULSE_NS_def TPR60_NS_def SELECT_NS_def RESTART_AFTER_READ_NS_def

datatype ev = CycleStart | TseOn | TseOff | ReadEnd | WpIramOff | WpOn | WpOff | TprOn | TprOff | Select

primrec ev_byte :: "ev \<Rightarrow> u8" where
  "ev_byte CycleStart = 0"
| "ev_byte TseOn = 1"
| "ev_byte TseOff = 2"
| "ev_byte ReadEnd = 3"
| "ev_byte WpIramOff = 4"
| "ev_byte WpOn = 5"
| "ev_byte WpOff = 6"
| "ev_byte TprOn = 7"
| "ev_byte TprOff = 8"
| "ev_byte Select = 9"

definition ev_from_byte :: "u8 \<Rightarrow> ev option" where
  "ev_from_byte b =
     (if b = 0 then Some CycleStart else if b = 1 then Some TseOn else if b = 2 then Some TseOff
      else if b = 3 then Some ReadEnd else if b = 4 then Some WpIramOff else if b = 5 then Some WpOn
      else if b = 6 then Some WpOff else if b = 7 then Some TprOn else if b = 8 then Some TprOff
      else if b = 9 then Some Select else None)"

text \<open>Times are nanoseconds of a 64-bit count, which wraps after 584 years.\<close>

record behavioral =
  clk_time :: nat
  clk_cycle_start :: nat
  clk_read_ns :: nat
  clk_out :: outputs
  clk_pending :: "(nat \<times> ev) list"

definition behavioral_new :: behavioral where
  "behavioral_new =
     \<lparr>clk_time = 0, clk_cycle_start = 0, clk_read_ns = 0, clk_out = outputs_default,
      clk_pending = [(0, CycleStart)]\<rparr>"

definition behavioral_cycle_ns :: "behavioral \<Rightarrow> nat" where
  "behavioral_cycle_ns c = clk_read_ns c + RESTART_AFTER_READ_NS"

text \<open>The queue is in order of time, where \<open>partition_point\<close> is the first event due later.\<close>

definition schedule_ev :: "nat \<Rightarrow> ev \<Rightarrow> (nat \<times> ev) list \<Rightarrow> (nat \<times> ev) list" where
  "schedule_ev at ev pending =
     (let i = length (takeWhile (\<lambda>(t, _). t \<le> at) pending)
      in take i pending @ (at, ev) # drop i pending)"

definition schedule :: "nat \<Rightarrow> ev \<Rightarrow> behavioral \<Rightarrow> behavioral" where
  "schedule at ev c = c\<lparr>clk_pending := schedule_ev at ev (clk_pending c)\<rparr>"

definition clk_start_cycle :: "behavioral \<Rightarrow> behavioral" where
  "clk_start_cycle c =
     (let t0 = clk_time c;
          c = c\<lparr>clk_cycle_start := t0\<rparr>;
          c = schedule (t0 + TSE_OFF_NS) TseOff c;
          c = schedule (t0 + TSE_ON_NS) TseOn c;
          c = schedule (t0 + TPR60_NS) TprOn c;
          c = schedule (t0 + SELECT_NS) Select c
      in schedule (t0 + (TPR60_NS + TPR_PULSE_NS)) TprOff c)"

definition pick_tap :: "inputs \<Rightarrow> behavioral \<Rightarrow> behavioral" where
  "pick_tap inp c =
     (let c = c\<lparr>clk_read_ns := read_phase_ns (in_speed inp) (in_ilong inp)\<rparr>;
          t0 = clk_cycle_start c;
          r = clk_read_ns c;
          c = schedule (t0 + r) ReadEnd c;
          c = schedule (t0 + r + WPIRAM_OFF_NS) WpIramOff c;
          c = schedule (t0 + r + WP_ON_NS) WpOn c;
          c = schedule (t0 + r + min WP_OFF_NS RESTART_AFTER_READ_NS) WpOff c
      in schedule (t0 + r + RESTART_AFTER_READ_NS) CycleStart c)"

definition clk_out_upd :: "(outputs \<Rightarrow> outputs) \<Rightarrow> behavioral \<Rightarrow> behavioral" where
  "clk_out_upd f c = c\<lparr>clk_out := f (clk_out c)\<rparr>"

primrec ev_act :: "ev \<Rightarrow> inputs \<Rightarrow> behavioral \<Rightarrow> behavioral" where
  "ev_act CycleStart inp c = clk_start_cycle (clk_out_upd (\<lambda>o'. o'\<lparr>tpclk := True\<rparr>) c)"
| "ev_act TseOn inp c = clk_out_upd (\<lambda>o'. o'\<lparr>tptse := True\<rparr>) c"
| "ev_act TseOff inp c = clk_out_upd (\<lambda>o'. o'\<lparr>tptse := False\<rparr>) c"
| "ev_act TprOn inp c = c"
| "ev_act TprOff inp c = c"
| "ev_act Select inp c =
     (if \<not> (\<exists>x \<in> set (clk_pending c). snd x = ReadEnd) then pick_tap inp c else c)"
| "ev_act ReadEnd inp c = clk_out_upd (\<lambda>o'. o'\<lparr>tpclk := False, tpwpiram := True\<rparr>) c"
| "ev_act WpIramOff inp c = clk_out_upd (\<lambda>o'. o'\<lparr>tpwpiram := False\<rparr>) c"
| "ev_act WpOn inp c = clk_out_upd (\<lambda>o'. o'\<lparr>tpwp := True\<rparr>) c"
| "ev_act WpOff inp c = clk_out_upd (\<lambda>o'. o'\<lparr>tpwp := False\<rparr>) c"

definition clk_advance :: "inputs \<Rightarrow> behavioral \<Rightarrow> nat \<times> behavioral" where
  "clk_advance inp c =
     (if in_reset inp
      then (0, c\<lparr>clk_out := outputs_default, clk_pending := [(clk_time c, CycleStart)]\<rparr>)
      else case clk_pending c of
        [] \<Rightarrow> (0, c)
      | (at, ev) # rest \<Rightarrow>
          if in_hang inp \<and> ev = CycleStart then (0, c)
          else (at - clk_time c, ev_act ev inp (c\<lparr>clk_pending := rest, clk_time := at\<rparr>)))"

definition clk_next_at :: "inputs \<Rightarrow> behavioral \<Rightarrow> nat option" where
  "clk_next_at inp c =
     (if in_reset inp then None
      else case clk_pending c of
        [] \<Rightarrow> None
      | (at, ev) # _ \<Rightarrow> if in_hang inp \<and> ev = CycleStart then None else Some at)"

text \<open>\<open>None\<close> is the panic of a debug assertion that fails.\<close>

definition clk_pass :: "nat \<Rightarrow> bool \<Rightarrow> behavioral \<Rightarrow> behavioral option" where
  "clk_pass until held c =
     (if \<not> clk_time c \<le> until then None
      else if held
        then Some (c\<lparr>clk_pending := map (\<lambda>(t, e). (t + (until - clk_time c), e)) (clk_pending c),
                     clk_time := until\<rparr>)
      else if (case clk_pending c of [] \<Rightarrow> True | (at, _) # _ \<Rightarrow> until \<le> at)
        then Some (c\<lparr>clk_time := until\<rparr>)
      else None)"

definition clk_phase_ns :: "behavioral \<Rightarrow> nat" where
  "clk_phase_ns c = clk_time c - clk_cycle_start c"

section \<open>The queue's invariant\<close>

text \<open>
  The events pending are in order and none is in the past; the cycle has started; exactly one of
  the events that carry the cycle on, its start and the choice of its tap, is due; the tap is chosen
  at its place in the cycle; and a read phase that has yet to end has the next start behind it.
\<close>

definition carries_on :: "nat \<times> ev \<Rightarrow> bool" where
  "carries_on x \<longleftrightarrow> snd x = CycleStart \<or> snd x = Select"

definition clk_ok :: "behavioral \<Rightarrow> bool" where
  "clk_ok c \<longleftrightarrow> sorted (map fst (clk_pending c)) \<and>
     (\<forall>x \<in> set (clk_pending c). clk_time c \<le> fst x) \<and> clk_cycle_start c \<le> clk_time c \<and>
     length (filter carries_on (clk_pending c)) = 1 \<and>
     (\<forall>t. (t, Select) \<in> set (clk_pending c) \<longrightarrow> t = clk_cycle_start c + SELECT_NS) \<and>
     (\<forall>t. (t, ReadEnd) \<in> set (clk_pending c) \<longrightarrow> (\<exists>t' > t. (t', CycleStart) \<in> set (clk_pending c)))"

lemma set_schedule_ev [simp]: "set (schedule_ev at ev p) = insert (at, ev) (set p)"
proof -
  have "set (take i p) \<union> set (drop i p) = set p" for i
    by (metis append_take_drop_id set_append)
  then show ?thesis by (auto simp: schedule_ev_def Let_def)
qed

lemma sorted_schedule_ev [simp]:
  assumes "sorted (map fst p)"
  shows "sorted (map fst (schedule_ev at ev p))"
  using assms
proof (induction p)
  case (Cons x p)
  then have "\<forall>y \<in> set (schedule_ev at ev p). fst x \<le> fst y \<or> y = (at, ev)"
    by auto
  then show ?case using Cons by (auto simp: schedule_ev_def Let_def split_beta)
qed (simp add: schedule_ev_def)

lemma filter_schedule_ev [simp]:
  "length (filter P (schedule_ev at ev p)) = length (filter P p) + of_bool (P (at, ev))"
proof -
  have "length (filter P (take i p)) + length (filter P (drop i p)) = length (filter P p)" for i
    by (metis append_take_drop_id filter_append length_append)
  then show ?thesis by (simp add: schedule_ev_def Let_def)
qed

lemma schedule_simps [simp]:
  "clk_time (schedule at ev c) = clk_time c" "clk_cycle_start (schedule at ev c) = clk_cycle_start c"
  "clk_out (schedule at ev c) = clk_out c" "clk_read_ns (schedule at ev c) = clk_read_ns c"
  "clk_pending (schedule at ev c) = schedule_ev at ev (clk_pending c)"
  by (simp_all add: schedule_def)

lemma clk_out_upd_simps [simp]:
  "clk_time (clk_out_upd f c) = clk_time c" "clk_cycle_start (clk_out_upd f c) = clk_cycle_start c"
  "clk_pending (clk_out_upd f c) = clk_pending c" "clk_read_ns (clk_out_upd f c) = clk_read_ns c"
  "clk_out (clk_out_upd f c) = f (clk_out c)"
  by (simp_all add: clk_out_upd_def)

lemma read_phase_bounds: "75 \<le> read_phase_ns s l \<and> read_phase_ns s l \<le> 160"
  by (cases s; cases l) simp_all

lemma one_carries:
  assumes "length (filter carries_on (x # p)) = 1" "carries_on x"
  shows "\<forall>y \<in> set p. \<not> carries_on y"
  using assms by (auto simp: filter_empty_conv)

text \<open>An event that does not carry the cycle on leaves the rest of the queue as it was.\<close>

lemma clk_ok_pop:
  assumes "clk_ok c" "clk_pending c = (at, ev) # rest" "\<not> carries_on (at, ev)"
  shows "clk_ok (c\<lparr>clk_pending := rest, clk_time := at\<rparr>)"
proof -
  have "ev \<noteq> CycleStart" "CycleStart \<noteq> ev" using assms(3) by (auto simp: carries_on_def)
  then show ?thesis using assms by (auto simp: clk_ok_def)
qed

lemma clk_ok_cycle_start:
  assumes "clk_ok c" "clk_pending c = (at, CycleStart) # rest"
  shows "clk_ok (ev_act CycleStart inp (c\<lparr>clk_pending := rest, clk_time := at\<rparr>))"
proof -
  have n: "\<forall>y \<in> set rest. \<not> carries_on y"
    using assms by (intro one_carries [of "(at, CycleStart)"]) (auto simp: clk_ok_def carries_on_def)
  then have "(t, CycleStart) \<notin> set rest" "(t, Select) \<notin> set rest" for t
    by (auto simp: carries_on_def)
  moreover have "(t, ReadEnd) \<notin> set rest" for t
    using assms calculation by (fastforce simp: clk_ok_def)
  moreover have "filter carries_on rest = []" using n by (simp add: filter_empty_conv)
  ultimately show ?thesis
    using assms by (auto simp: clk_ok_def clk_start_cycle_def Let_def carries_on_def [abs_def] clock_ns)
qed

lemma clk_ok_select:
  assumes "clk_ok c" "clk_pending c = (at, Select) # rest"
  shows "clk_ok (ev_act Select inp (c\<lparr>clk_pending := rest, clk_time := at\<rparr>))"
proof -
  have n: "\<forall>y \<in> set rest. \<not> carries_on y"
    using assms by (intro one_carries [of "(at, Select)"]) (auto simp: clk_ok_def carries_on_def)
  then have r: "(t, CycleStart) \<notin> set rest" "(t, Select) \<notin> set rest" for t
    by (auto simp: carries_on_def)
  have re: "(t, ReadEnd) \<notin> set rest" for t
    using assms r by (fastforce simp: clk_ok_def)
  then have "\<not> (\<exists>x \<in> set rest. snd x = ReadEnd)" by fastforce
  moreover have "filter carries_on rest = []" using n by (simp add: filter_empty_conv)
  moreover have "at = clk_cycle_start c + SELECT_NS" using assms by (auto simp: clk_ok_def)
  ultimately show ?thesis
    using assms r re read_phase_bounds [of "in_speed inp" "in_ilong inp"]
    by (auto simp: clk_ok_def pick_tap_def Let_def carries_on_def [abs_def] clock_ns)
qed

lemma clk_ok_out: "clk_ok (clk_out_upd f c) = clk_ok c"
  by (simp add: clk_ok_def)

lemma clk_ok_advance:
  assumes "clk_ok c"
  shows "clk_ok (snd (clk_advance inp c))"
proof (cases "in_reset inp")
  case True
  then show ?thesis using assms by (simp add: clk_advance_def clk_ok_def carries_on_def)
next
  case False
  obtain at ev rest where p: "clk_pending c = (at, ev) # rest"
    using assms by (cases "clk_pending c") (auto simp: clk_ok_def)
  have "clk_ok (ev_act ev inp (c\<lparr>clk_pending := rest, clk_time := at\<rparr>))"
    using clk_ok_cycle_start [OF assms, of at rest] clk_ok_select [OF assms, of at rest]
      clk_ok_pop [OF assms p] p
    by (cases ev) (simp_all add: carries_on_def clk_ok_out del: ev_act.simps(1,6))
  then show ?thesis using assms False p by (simp add: clk_advance_def)
qed

text \<open>
  The generator as an engine drives it: transitions taken, and time passed, held only while the start of a
  cycle is what is due.
\<close>

inductive clk_reach :: "behavioral \<Rightarrow> bool" where
  new: "clk_reach behavioral_new"
| advance: "clk_reach c \<Longrightarrow> clk_reach (snd (clk_advance inp c))"
| wait: "clk_reach c \<Longrightarrow> clk_pending c = (at, CycleStart) # rest \<Longrightarrow> clk_pass until True c = Some c' \<Longrightarrow> clk_reach c'"
| pass: "clk_reach c \<Longrightarrow> clk_pass until False c = Some c' \<Longrightarrow> clk_reach c'"

lemma clk_ok_new: "clk_ok behavioral_new"
  by (simp add: clk_ok_def behavioral_new_def carries_on_def)

lemma clk_ok_pass:
  assumes "clk_ok c" "clk_pass until False c = Some c'"
  shows "clk_ok c'"
proof -
  obtain at ev rest where p: "clk_pending c = (at, ev) # rest"
    using assms(1) by (cases "clk_pending c") (auto simp: clk_ok_def)
  have c': "c' = c\<lparr>clk_time := until\<rparr>" and u: "clk_time c \<le> until" "until \<le> at"
    using assms(2) p by (auto simp: clk_pass_def split: if_splits)
  have "\<forall>x \<in> set (clk_pending c). at \<le> fst x" using assms(1) p by (auto simp: clk_ok_def)
  then have "\<forall>x \<in> set (clk_pending c). until \<le> fst x" using u by auto
  then show ?thesis using assms(1) u by (auto simp: clk_ok_def c')
qed

lemma clk_ok_wait:
  assumes "clk_ok c" "clk_pending c = (at, CycleStart) # rest" "clk_pass until True c = Some c'"
  shows "clk_ok c'"
proof -
  let ?d = "until - clk_time c"
  let ?shift = "\<lambda>x. (fst x + ?d, snd x)"
  have until: "clk_time c \<le> until"
    and c': "c' = c\<lparr>clk_pending := map ?shift (clk_pending c), clk_time := until\<rparr>"
    using assms(3) by (auto simp: clk_pass_def split_beta split: if_splits)
  have n: "\<forall>y \<in> set rest. \<not> carries_on y"
    using assms by (intro one_carries [of "(at, CycleStart)"]) (auto simp: clk_ok_def carries_on_def)
  then have sel: "(t, Select) \<notin> set (clk_pending c)" for t
    using assms(2) by (auto simp: carries_on_def)
  have re: "\<exists>t'. t < t' \<and> (t', CycleStart) \<in> set (clk_pending c)" if "(t, ReadEnd) \<in> set (clk_pending c)" for t
    using assms(1) that by (auto simp: clk_ok_def)
  have so: "sorted (map fst (map ?shift p))" if "sorted (map fst p)" for p
    using that by (induction p) auto
  have fi: "filter carries_on (map ?shift p) = map ?shift (filter carries_on p)" for p
    by (induction p) (simp_all add: carries_on_def)
  have mem: "(t, e) \<in> set (clk_pending c') \<longleftrightarrow> (\<exists>u. (u, e) \<in> set (clk_pending c) \<and> t = u + ?d)" for t e
    unfolding c' by (force simp: image_iff)
  have "\<forall>x \<in> set (clk_pending c'). clk_time c' \<le> fst x"
    using assms(1) until unfolding c' by (auto simp: clk_ok_def)
  moreover have "\<exists>t' > t. (t', CycleStart) \<in> set (clk_pending c')" if r: "(t, ReadEnd) \<in> set (clk_pending c')" for t
  proof -
    obtain u where u: "(u, ReadEnd) \<in> set (clk_pending c)" "t = u + ?d" using r unfolding mem by blast
    obtain u' where "u < u'" "(u', CycleStart) \<in> set (clk_pending c)" using re [OF u(1)] by blast
    then show ?thesis unfolding mem using u(2) by (intro exI [of _ "u' + ?d"]) auto
  qed
  moreover have "(t, Select) \<notin> set (clk_pending c')" for t
    using sel unfolding mem by blast
  moreover have "sorted (map fst (clk_pending c'))" "length (filter carries_on (clk_pending c')) = 1"
    "clk_cycle_start c' \<le> clk_time c'"
    using assms(1) until so [of "clk_pending c"] fi [of "clk_pending c"]
    by (auto simp: clk_ok_def c' simp del: map_map)
  ultimately show ?thesis unfolding clk_ok_def by blast
qed

lemma clk_reach_ok: "clk_reach c \<Longrightarrow> clk_ok c"
  by (induction rule: clk_reach.induct)
    (auto intro: clk_ok_new clk_ok_advance clk_ok_wait clk_ok_pass simp del: snd_conv)

text \<open>
  Time never runs backwards and the generator never dies. However an engine drives it, resets and bus
  waits included, some transition is always pending, none is due before the present, and when one
  is not held off, advancing moves time exactly to it: the step returned is the difference, with
  nothing lost to an underflow.
\<close>

theorem clock_time_safe:
  assumes "clk_reach c"
  shows "clk_pending c \<noteq> [] \<and> clk_cycle_start c \<le> clk_time c \<and>
    clk_time c + fst (clk_advance inp c) = clk_time (snd (clk_advance inp c)) \<and>
    (case clk_next_at inp c of
       None \<Rightarrow> in_reset inp \<or> in_hang inp \<and> snd (hd (clk_pending c)) = CycleStart
     | Some at \<Rightarrow> clk_time (snd (clk_advance inp c)) = at)"
proof -
  have ok: "clk_ok c" by (rule clk_reach_ok [OF assms])
  obtain at ev rest where p: "clk_pending c = (at, ev) # rest"
    using ok by (cases "clk_pending c") (auto simp: clk_ok_def)
  have "clk_time c \<le> at" "clk_cycle_start c \<le> clk_time c" using ok p by (auto simp: clk_ok_def)
  moreover have "clk_time (ev_act ev inp (c\<lparr>clk_pending := rest, clk_time := at\<rparr>)) = at"
    by (cases ev) (simp_all add: clk_start_cycle_def pick_tap_def Let_def)
  ultimately show ?thesis
    using p by (simp add: clk_advance_def clk_next_at_def)
qed

lemma clock_time_safe_witness:
  "let inp = \<lparr>in_machrun = True, in_hang = False, in_ilong = False, in_speed = Normal, in_reset = False\<rparr>;
       c = snd (clk_advance inp behavioral_new)
   in clk_pending c \<noteq> [] \<and> clk_time c + fst (clk_advance inp c) = clk_time (snd (clk_advance inp c))"
  using clock_time_safe [OF clk_reach.advance [OF clk_reach.new]] by (simp add: Let_def)

section \<open>One microcycle\<close>

text \<open>The transitions of a run, each with the instant and the outputs after it.\<close>

fun clk_run :: "inputs list \<Rightarrow> behavioral \<Rightarrow> (nat \<times> outputs) list \<times> behavioral" where
  "clk_run [] c = ([], c)"
| "clk_run (inp # inps) c =
     (let (dt, c') = clk_advance inp c; (tr, c'') = clk_run inps c'
      in ((clk_time c', clk_out c') # tr, c''))"

text \<open>The instants at which an output moved, with what it moved to.\<close>

fun changes :: "outputs \<Rightarrow> (nat \<times> outputs) list \<Rightarrow> (nat \<times> outputs) list" where
  "changes o' [] = []"
| "changes o' ((t, o'') # tr) = (if o'' = o' then changes o' tr else (t, o'') # changes o'' tr)"

definition cycle_out :: outputs where
  "cycle_out = \<lparr>tpclk = False, tpwp = False, tptse = True, tpwpiram = False\<rparr>"

definition at_cycle_start :: "nat \<Rightarrow> behavioral \<Rightarrow> bool" where
  "at_cycle_start t0 c \<longleftrightarrow> clk_time c = t0 \<and> clk_pending c = [(t0, CycleStart)] \<and> clk_out c = cycle_out"

text \<open>The waveform of a microcycle whose read phase is \<open>r\<close>.\<close>

definition waveform :: "nat \<Rightarrow> nat \<Rightarrow> (nat \<times> outputs) list" where
  "waveform t0 r =
     [(t0, cycle_out\<lparr>tpclk := True\<rparr>),
      (t0 + 5, cycle_out\<lparr>tpclk := True, tptse := False\<rparr>),
      (t0 + 25, cycle_out\<lparr>tpclk := True\<rparr>),
      (t0 + r, cycle_out\<lparr>tpwpiram := True\<rparr>),
      (t0 + r + 30, cycle_out\<lparr>tpwp := True, tpwpiram := True\<rparr>),
      (t0 + r + 45, cycle_out\<lparr>tpwp := True\<rparr>),
      (t0 + r + 60, cycle_out)]"

lemma schedule_ev_Nil [simp]: "schedule_ev at ev [] = [(at, ev)]"
  by (simp add: schedule_ev_def)

lemma schedule_ev_Cons [simp]:
  "schedule_ev at ev ((t, e) # p) = (if t \<le> at then (t, e) # schedule_ev at ev p else (at, ev) # (t, e) # p)"
  by (simp add: schedule_ev_def Let_def)

lemmas clk_eval = clk_advance_def clk_start_cycle_def pick_tap_def clk_out_upd_def schedule_def clock_ns
  Let_def

text \<open>The first half of a cycle, up to the choice of the tap.\<close>

definition half_queue :: "nat \<Rightarrow> nat \<Rightarrow> (nat \<times> ev) list" where
  "half_queue t0 r = schedule_ev (t0 + r + 60) CycleStart (schedule_ev (t0 + r + 60) WpOff
     (schedule_ev (t0 + r + 30) WpOn (schedule_ev (t0 + r + 45) WpIramOff
     (schedule_ev (t0 + r) ReadEnd [(t0 + 100, TprOff)]))))"

lemma microcycle_first:
  assumes "at_cycle_start t0 c" "\<not> in_hang i0"
    and "\<not> in_reset i0" "\<not> in_reset i1" "\<not> in_reset i2" "\<not> in_reset i3" "\<not> in_reset i4"
    and "r = read_phase_ns (in_speed i4) (in_ilong i4)"
  shows "clk_run [i0, i1, i2, i3, i4] c =
    ([(t0, cycle_out\<lparr>tpclk := True\<rparr>), (t0 + 5, cycle_out\<lparr>tpclk := True, tptse := False\<rparr>),
      (t0 + 25, cycle_out\<lparr>tpclk := True\<rparr>), (t0 + 60, cycle_out\<lparr>tpclk := True\<rparr>),
      (t0 + 65, cycle_out\<lparr>tpclk := True\<rparr>)],
     \<lparr>clk_time = t0 + 65, clk_cycle_start = t0, clk_read_ns = r, clk_out = cycle_out\<lparr>tpclk := True\<rparr>,
      clk_pending = half_queue t0 r\<rparr>)"
proof -
  obtain cs rn where c: "c = \<lparr>clk_time = t0, clk_cycle_start = cs, clk_read_ns = rn, clk_out = cycle_out,
      clk_pending = [(t0, CycleStart)]\<rparr>"
    using assms(1) by (cases c) (auto simp: at_cycle_start_def)
  show ?thesis
    using assms(2-) by (simp add: c clk_eval half_queue_def cycle_out_def min_def)
qed

lemma microcycle_second:
  assumes "\<not> in_reset i5" "\<not> in_reset i6" "\<not> in_reset i7" "\<not> in_reset i8" "\<not> in_reset i9"
    and "clk_run [i5, i6, i7, i8, i9] \<lparr>clk_time = t, clk_cycle_start = t0, clk_read_ns = r',
      clk_out = cycle_out\<lparr>tpclk := True\<rparr>, clk_pending = half_queue t0 (read_phase_ns s l)\<rparr> = (tr, c')"
    and "r = read_phase_ns s l"
  shows "changes (cycle_out\<lparr>tpclk := True\<rparr>) tr = drop 3 (waveform t0 r) \<and> at_cycle_start (t0 + r + 60) c'"
  using assms
  by (cases s; cases l) (auto simp: half_queue_def clk_eval waveform_def cycle_out_def at_cycle_start_def)

lemma clk_run_append:
  "clk_run (ins @ js) c = (case clk_run ins c of (tr, c') \<Rightarrow> case clk_run js c' of (tr', c'') \<Rightarrow> (tr @ tr', c''))"
  by (induction ins arbitrary: c) (simp_all add: Let_def split_beta)

lemma changes_append:
  "changes o' (tr @ tr') = changes o' tr @ changes (last (o' # map snd tr)) tr'"
  by (induction o' tr rule: changes.induct) auto

text \<open>The inputs of a microcycle: nothing is reset, and no bus wait holds its start.\<close>

definition cycle_inputs :: "inputs list \<Rightarrow> bool" where
  "cycle_inputs ins \<longleftrightarrow> length ins = 10 \<and> \<not> in_hang (ins ! 0) \<and> list_all (\<lambda>i. \<not> in_reset i) ins"

lemma microcycle_from:
  assumes "at_cycle_start t0 c" "cycle_inputs ins" "r = read_phase_ns (in_speed (ins ! 4)) (in_ilong (ins ! 4))"
    and "clk_run ins c = (tr, c')"
  shows "changes cycle_out tr = waveform t0 r \<and> at_cycle_start (t0 + r + 60) c'"
proof -
  obtain i0 i1 i2 i3 i4 i5 i6 i7 i8 i9 where ins: "ins = [i0, i1, i2, i3, i4] @ [i5, i6, i7, i8, i9]"
    using assms(2) by (auto simp: cycle_inputs_def length_Suc_conv eval_nat_numeral)
  have r: "r = read_phase_ns (in_speed i4) (in_ilong i4)" using assms(3) by (simp add: ins)
  have first: "clk_run [i0, i1, i2, i3, i4] c =
    ([(t0, cycle_out\<lparr>tpclk := True\<rparr>), (t0 + 5, cycle_out\<lparr>tpclk := True, tptse := False\<rparr>),
      (t0 + 25, cycle_out\<lparr>tpclk := True\<rparr>), (t0 + 60, cycle_out\<lparr>tpclk := True\<rparr>),
      (t0 + 65, cycle_out\<lparr>tpclk := True\<rparr>)],
     \<lparr>clk_time = t0 + 65, clk_cycle_start = t0, clk_read_ns = r, clk_out = cycle_out\<lparr>tpclk := True\<rparr>,
      clk_pending = half_queue t0 r\<rparr>)" (is "_ = (?tr1, ?c1)")
    using assms(1,2) r by (intro microcycle_first) (auto simp: cycle_inputs_def ins)
  obtain tr2 c2 where second: "clk_run [i5, i6, i7, i8, i9] ?c1 = (tr2, c2)" by fastforce
  have two: "tr = ?tr1 @ tr2" "c' = c2"
    using assms(4) unfolding ins clk_run_append first prod.case second by simp_all
  have "changes (cycle_out\<lparr>tpclk := True\<rparr>) tr2 = drop 3 (waveform t0 r) \<and> at_cycle_start (t0 + r + 60) c2"
    by (rule microcycle_second [OF _ _ _ _ _ second [unfolded r] r])
      (use assms(2) in \<open>auto simp: cycle_inputs_def ins\<close>)
  then show ?thesis
    unfolding two changes_append by (simp add: waveform_def cycle_out_def)
qed


text \<open>
  Microcycles add up. Over any number of them, each at its own speed, the generator's time advances
  by the sum of their periods: it does not drift.
\<close>

theorem microcycles_add_up:
  assumes "at_cycle_start t0 c" "list_all cycle_inputs iss"
  shows "at_cycle_start (t0 + (\<Sum>ins \<leftarrow> iss. speed_cycle_ns (in_speed (ins ! 4)) (in_ilong (ins ! 4))))
    (fold (\<lambda>ins c. snd (clk_run ins c)) iss c)"
  using assms
proof (induction iss arbitrary: t0 c)
  case (Cons ins iss)
  obtain tr c' where run: "clk_run ins c = (tr, c')" by fastforce
  have "at_cycle_start (t0 + speed_cycle_ns (in_speed (ins ! 4)) (in_ilong (ins ! 4))) c'"
    using microcycle_from [OF _ _ refl run] Cons.prems
    by (simp add: speed_cycle_ns_def RESTART_AFTER_READ_NS_def add.assoc)
  from Cons.IH [OF this] show ?case using Cons.prems(2) by (simp add: run add.assoc)
qed simp

definition inputs_at :: "speed \<Rightarrow> bool \<Rightarrow> inputs" where
  "inputs_at s l = \<lparr>in_machrun = True, in_hang = False, in_ilong = l, in_speed = s, in_reset = False\<rparr>"

definition clock_running :: behavioral where
  "clock_running = \<lparr>clk_time = 0, clk_cycle_start = 0, clk_read_ns = 0, clk_out = cycle_out,
     clk_pending = [(0, CycleStart)]\<rparr>"


lemma microcycles_add_up_witness:
  "at_cycle_start 355 (fold (\<lambda>ins c. snd (clk_run ins c))
     [replicate 10 (inputs_at Fast False), replicate 10 (inputs_at ExtraSlow True)] clock_running)"
  using microcycles_add_up [of 0 clock_running
      "[replicate 10 (inputs_at Fast False), replicate 10 (inputs_at ExtraSlow True)]"]
  by (simp add: at_cycle_start_def clock_running_def cycle_inputs_def inputs_at_def
      list_all_iff speed_cycle_ns_def RESTART_AFTER_READ_NS_def del: clk_run.simps)

section \<open>Checkpoints\<close>

text \<open>
  \<open>save\<close> writes raw bytes through \<open>io::Write\<close>, and \<open>load\<close> takes them with \<open>read_exact\<close>, which
  gives its own error at the end of the data; the four flags it takes in one read are four here.
\<close>

definition CLK_MAGIC :: "u8 list" where
  "CLK_MAGIC = [0x43, 0x41, 0x44, 0x52, 0x43, 0x4c, 0x4b, 0x31]"

definition put_event :: "nat \<times> ev \<Rightarrow> writer \<Rightarrow> writer" where
  "put_event x = put_all [put_u64 (of_nat (fst x)), put_u8 (ev_byte (snd x))]"

definition behavioral_save :: "behavioral \<Rightarrow> writer \<Rightarrow> writer" where
  "behavioral_save c = put_all
     [put_raw CLK_MAGIC, put_u64 (of_nat (clk_time c)), put_u64 (of_nat (clk_cycle_start c)),
      put_u32 (of_nat (clk_read_ns c)),
      put_u8 (of_flag (tpclk (clk_out c))), put_u8 (of_flag (tpwp (clk_out c))),
      put_u8 (of_flag (tptse (clk_out c))), put_u8 (of_flag (tpwpiram (clk_out c))),
      put_u32 (of_nat (length (clk_pending c))), fold put_event (clk_pending c)]"

definition get_event :: "(nat \<times> ev) rd" where
  "get_event = rd_bind get_u64 (\<lambda>at. rd_bind get_u8 (\<lambda>b.
     case ev_from_byte b of None \<Rightarrow> rd_fail Bad_value | Some ev \<Rightarrow> rd_return (unat at, ev)))"

definition behavioral_load :: "behavioral rd" where
  "behavioral_load =
     rd_bind (get_take 8) (\<lambda>magic. if magic \<noteq> CLK_MAGIC then rd_fail Bad_value else
     rd_bind get_u64 (\<lambda>time. rd_bind get_u64 (\<lambda>cycle_start. rd_bind get_u32 (\<lambda>read_ns.
     rd_bind get_u8 (\<lambda>up0. rd_bind get_u8 (\<lambda>up1. rd_bind get_u8 (\<lambda>up2. rd_bind get_u8 (\<lambda>up3.
     rd_bind get_u32 (\<lambda>n. rd_bind (get_many (unat n) get_event) (\<lambda>pending.
     rd_return \<lparr>clk_time = unat time, clk_cycle_start = unat cycle_start, clk_read_ns = unat read_ns,
       clk_out = \<lparr>tpclk = (up0 \<noteq> 0), tpwp = (up1 \<noteq> 0), tptse = (up2 \<noteq> 0), tpwpiram = (up3 \<noteq> 0)\<rparr>,
       clk_pending = pending\<rparr>))))))))))"

definition clk_fits :: "behavioral \<Rightarrow> bool" where
  "clk_fits c \<longleftrightarrow> clk_time c < 2 ^ 64 \<and> clk_cycle_start c < 2 ^ 64 \<and> clk_read_ns c < 2 ^ 32 \<and>
     length (clk_pending c) < 2 ^ 32 \<and> (\<forall>x \<in> set (clk_pending c). fst x < 2 ^ 64)"

lemma ev_from_ev_byte [simp]: "ev_from_byte (ev_byte e) = Some e"
  by (cases e) (simp_all add: ev_from_byte_def)

lemma codes_event: "fst x < 2 ^ 64 \<Longrightarrow> codes n (put_event x) get_event x"
  unfolding put_event_def get_event_def
  by (rule codes_cons [OF codes_u64], rule codes_cons [OF codes_u8])
    (simp add: unat_of_nat_64 codes_nil del: put_all.simps)

lemma clk_magic_len: "length CLK_MAGIC = 8"
  by (simp add: CLK_MAGIC_def)

lemma codes_behavioral:
  assumes "clk_fits c"
  shows "codes n (behavioral_save c) behavioral_load c"
proof -
  have m: "codes n (put_raw CLK_MAGIC) (get_take 8) CLK_MAGIC"
    using codes_raw [of n CLK_MAGIC] unfolding clk_magic_len .
  have len: "unat (of_nat (length (clk_pending c)) :: u32) = length (clk_pending c)"
    using assms by (simp add: clk_fits_def unat_of_nat)
  have p: "codes n (fold put_event (clk_pending c))
      (get_many (unat (of_nat (length (clk_pending c)) :: u32)) get_event) (clk_pending c)"
    unfolding len using assms by (intro codes_many codes_event) (auto simp: clk_fits_def)
  have r: "unat (of_nat (clk_read_ns c) :: u32) = clk_read_ns c"
    using assms by (simp add: clk_fits_def unat_of_nat)
  have whole: "\<lparr>clk_time = unat (of_nat (clk_time c) :: u64), clk_cycle_start = unat (of_nat (clk_cycle_start c) :: u64),
      clk_read_ns = unat (of_nat (clk_read_ns c) :: u32),
      clk_out = \<lparr>tpclk = ((of_flag (tpclk (clk_out c)) :: u8) \<noteq> 0), tpwp = ((of_flag (tpwp (clk_out c)) :: u8) \<noteq> 0),
        tptse = ((of_flag (tptse (clk_out c)) :: u8) \<noteq> 0), tpwpiram = ((of_flag (tpwpiram (clk_out c)) :: u8) \<noteq> 0)\<rparr>,
      clk_pending = clk_pending c\<rparr> = c"
    using assms by (simp add: clk_fits_def unat_of_nat_64 r)
  show ?thesis
    unfolding behavioral_save_def behavioral_load_def
    by (rule codes_cons [OF m], simp only: not_True_eq_False if_False simp_thms if_cancel)
      (rule codes_cons [OF codes_u64] codes_cons [OF codes_u32] codes_cons [OF codes_u8]
        codes_cons [OF p] | subst whole, rule codes_nil)+
qed

interpretation clockgen: codec n clk_fits behavioral_save behavioral_load for n
  by unfold_locales (rule codes_behavioral)

end
