(* ===== verification/Spy.thy ===== *)
theory Spy
  imports Codec
begin

text \<open>
  The diagnostic bus and its registers, \<open>src/spy.rs\<close>: which register a Unibus address selects, the
  mode, clock control and OPC control registers, the debug instruction register and the two flag
  words. The lemmas show that a flag word and its fields determine each other through the board's
  polarities, which writes alias, and that the debug register is put together a half at a time.
\<close>

section \<open>Addresses\<close>

definition SPY_BASE :: u32 where "SPY_BASE = 0x3ec00"

definition spy_register :: "u32 \<Rightarrow> u8 option" where
  "spy_register uaddr =
     (if SPY_BASE \<le> uaddr \<and> uaddr < SPY_BASE + 0x20 then Some (ucast (drop_bit 1 uaddr AND 0xf)) else None)"

definition SPY_IR_LOW :: u8 where "SPY_IR_LOW = 0"
definition SPY_IR_MED :: u8 where "SPY_IR_MED = 1"
definition SPY_IR_HIGH :: u8 where "SPY_IR_HIGH = 2"
definition SPY_OPC :: u8 where "SPY_OPC = 4"
definition SPY_PC :: u8 where "SPY_PC = 5"
definition SPY_OB_LOW :: u8 where "SPY_OB_LOW = 6"
definition SPY_OB_HIGH :: u8 where "SPY_OB_HIGH = 7"
definition SPY_FLAG_1 :: u8 where "SPY_FLAG_1 = 8"
definition SPY_FLAG_2 :: u8 where "SPY_FLAG_2 = 9"
definition SPY_M_LOW :: u8 where "SPY_M_LOW = 10"
definition SPY_M_HIGH :: u8 where "SPY_M_HIGH = 11"
definition SPY_A_LOW :: u8 where "SPY_A_LOW = 12"
definition SPY_A_HIGH :: u8 where "SPY_A_HIGH = 13"
definition SPY_STAT_LOW :: u8 where "SPY_STAT_LOW = 14"
definition SPY_STAT_HIGH :: u8 where "SPY_STAT_HIGH = 15"
definition SPY_CLK :: u8 where "SPY_CLK = 3"
definition SPY_OPC_CONTROL :: u8 where "SPY_OPC_CONTROL = 4"
definition SPY_MODE :: u8 where "SPY_MODE = 5"
definition SPY_OPEN_READ :: u16 where "SPY_OPEN_READ = 0xffff"

lemmas spy_registers = SPY_IR_LOW_def SPY_IR_MED_def SPY_IR_HIGH_def SPY_OPC_def SPY_PC_def
  SPY_OB_LOW_def SPY_OB_HIGH_def SPY_FLAG_1_def SPY_FLAG_2_def SPY_M_LOW_def SPY_M_HIGH_def
  SPY_A_LOW_def SPY_A_HIGH_def SPY_STAT_LOW_def SPY_STAT_HIGH_def SPY_CLK_def
  SPY_OPC_CONTROL_def SPY_MODE_def

definition write_strobe :: "u8 \<Rightarrow> u8" where
  "write_strobe eadr = eadr AND 7"

section \<open>The writable registers\<close>

record mode =
  mode_speed0 :: bool
  mode_speed1 :: bool
  mode_errstop :: bool
  mode_stathenb :: bool
  mode_trapenb :: bool
  mode_prom_disable :: bool

definition mode_default :: mode where
  "mode_default = \<lparr>mode_speed0 = False, mode_speed1 = False, mode_errstop = False,
     mode_stathenb = False, mode_trapenb = False, mode_prom_disable = False\<rparr>"

definition MODE_RESET :: u16 where "MODE_RESET = push_bit 6 1"
definition MODE_BOOT :: u16 where "MODE_BOOT = push_bit 7 1"

definition mode_write :: "u16 \<Rightarrow> mode" where
  "mode_write spy =
     \<lparr>mode_speed0 = bit spy 0, mode_speed1 = bit spy 1, mode_errstop = bit spy 2,
      mode_stathenb = bit spy 3, mode_trapenb = bit spy 4, mode_prom_disable = bit spy 5\<rparr>"

record clock_control =
  clkc_run :: bool
  clkc_step :: bool
  clkc_nop11 :: bool
  clkc_idebug :: bool
  clkc_ldstat :: bool

definition clock_control_default :: clock_control where
  "clock_control_default = \<lparr>clkc_run = False, clkc_step = False, clkc_nop11 = False,
     clkc_idebug = False, clkc_ldstat = False\<rparr>"

definition clock_control_write :: "u16 \<Rightarrow> clock_control" where
  "clock_control_write spy =
     \<lparr>clkc_run = bit spy 0, clkc_step = bit spy 1, clkc_nop11 = bit spy 2,
      clkc_idebug = bit spy 3, clkc_ldstat = bit spy 4\<rparr>"

record opc_control =
  opcc_lpc_hold :: bool
  opcc_opcclk :: bool
  opcc_opcinh :: bool

definition opc_control_default :: opc_control where
  "opc_control_default = \<lparr>opcc_lpc_hold = False, opcc_opcclk = False, opcc_opcinh = False\<rparr>"

definition opc_control_write :: "u16 \<Rightarrow> opc_control" where
  "opc_control_write spy = \<lparr>opcc_lpc_hold = bit spy 0, opcc_opcclk = bit spy 1, opcc_opcinh = bit spy 2\<rparr>"

definition write_debug_ir :: "u64 \<Rightarrow> u8 \<Rightarrow> u16 \<Rightarrow> u64" where
  "write_debug_ir debug_ir half spy =
     (let shift = 16 * unat half
      in (debug_ir AND NOT (push_bit shift 0xffff)) OR push_bit shift (ucast spy))"

section \<open>The flag words\<close>

record flag1 =
  f1_wait :: bool
  f1_v1pe :: bool
  f1_v0pe :: bool
  f1_promdisable :: bool
  f1_stathalt :: bool
  f1_err :: bool
  f1_ssdone :: bool
  f1_srun :: bool
  f1_higherr :: bool
  f1_mempe :: bool
  f1_ipe :: bool
  f1_dpe :: bool
  f1_spe :: bool
  f1_pdlpe :: bool
  f1_mpe :: bool
  f1_ape :: bool

definition flag_byte :: "bool list \<Rightarrow> nat \<Rightarrow> u16" where
  "flag_byte bits t = fold (\<lambda>(k, b) w. w OR push_bit (t - k) (of_flag b)) (enumerate 0 bits) 0"

definition flag1_word :: "flag1 \<Rightarrow> u16" where
  "flag1_word f =
     flag_byte [\<not> f1_wait f, \<not> f1_v1pe f, \<not> f1_v0pe f, f1_promdisable f,
                \<not> f1_stathalt f, f1_err f, f1_ssdone f, f1_srun f] 15 OR
     flag_byte [f1_higherr f, f1_mempe f, f1_ipe f, f1_dpe f, f1_spe f, f1_pdlpe f, f1_mpe f, f1_ape f] 7"

definition flag1_of :: "u16 \<Rightarrow> flag1" where
  "flag1_of w =
     \<lparr>f1_wait = (\<not> bit w 15), f1_v1pe = (\<not> bit w 14), f1_v0pe = (\<not> bit w 13), f1_promdisable = bit w 12,
      f1_stathalt = (\<not> bit w 11), f1_err = bit w 10, f1_ssdone = bit w 9, f1_srun = bit w 8,
      f1_higherr = bit w 7, f1_mempe = bit w 6, f1_ipe = bit w 5, f1_dpe = bit w 4,
      f1_spe = bit w 3, f1_pdlpe = bit w 2, f1_mpe = bit w 1, f1_ape = bit w 0\<rparr>"

record flag2 =
  f2_wmapd :: bool
  f2_destspcd :: bool
  f2_iwrited :: bool
  f2_imodd :: bool
  f2_pdlwrited :: bool
  f2_spushd :: bool
  f2_ir48 :: bool
  f2_nop :: bool
  f2_vmaok :: bool
  f2_jcond :: bool
  f2_pcs1 :: bool
  f2_pcs0 :: bool

definition FLAG2_OPEN :: u16 where "FLAG2_OPEN = 0xc0c0"

definition flag2_word :: "flag2 \<Rightarrow> u16" where
  "flag2_word f =
     FLAG2_OPEN OR push_bit 13 (of_flag (f2_wmapd f)) OR push_bit 12 (of_flag (f2_destspcd f)) OR
     push_bit 11 (of_flag (f2_iwrited f)) OR push_bit 10 (of_flag (f2_imodd f)) OR
     push_bit 9 (of_flag (f2_pdlwrited f)) OR push_bit 8 (of_flag (f2_spushd f)) OR
     push_bit 5 (of_flag (f2_ir48 f)) OR push_bit 4 (of_flag (f2_nop f)) OR
     push_bit 3 (of_flag (\<not> f2_vmaok f)) OR push_bit 2 (of_flag (f2_jcond f)) OR
     push_bit 1 (of_flag (f2_pcs1 f)) OR of_flag (f2_pcs0 f)"

section \<open>Checkpoints\<close>

definition mode_save :: "mode \<Rightarrow> writer \<Rightarrow> writer" where
  "mode_save m = put_all
     [put_bool (mode_speed0 m), put_bool (mode_speed1 m), put_bool (mode_errstop m),
      put_bool (mode_stathenb m), put_bool (mode_trapenb m), put_bool (mode_prom_disable m)]"

definition mode_load :: "mode rd" where
  "mode_load =
     rd_bind get_bool (\<lambda>speed0. rd_bind get_bool (\<lambda>speed1. rd_bind get_bool (\<lambda>errstop.
     rd_bind get_bool (\<lambda>stathenb. rd_bind get_bool (\<lambda>trapenb. rd_bind get_bool (\<lambda>prom_disable.
     rd_return \<lparr>mode_speed0 = speed0, mode_speed1 = speed1, mode_errstop = errstop,
       mode_stathenb = stathenb, mode_trapenb = trapenb, mode_prom_disable = prom_disable\<rparr>))))))"

definition clock_control_save :: "clock_control \<Rightarrow> writer \<Rightarrow> writer" where
  "clock_control_save c = put_all
     [put_bool (clkc_run c), put_bool (clkc_step c), put_bool (clkc_nop11 c),
      put_bool (clkc_idebug c), put_bool (clkc_ldstat c)]"

definition clock_control_load :: "clock_control rd" where
  "clock_control_load =
     rd_bind get_bool (\<lambda>run. rd_bind get_bool (\<lambda>step. rd_bind get_bool (\<lambda>nop11.
     rd_bind get_bool (\<lambda>idebug. rd_bind get_bool (\<lambda>ldstat.
     rd_return \<lparr>clkc_run = run, clkc_step = step, clkc_nop11 = nop11, clkc_idebug = idebug,
       clkc_ldstat = ldstat\<rparr>)))))"

definition opc_control_save :: "opc_control \<Rightarrow> writer \<Rightarrow> writer" where
  "opc_control_save c = put_all [put_bool (opcc_lpc_hold c), put_bool (opcc_opcclk c), put_bool (opcc_opcinh c)]"

definition opc_control_load :: "opc_control rd" where
  "opc_control_load =
     rd_bind get_bool (\<lambda>lpc_hold. rd_bind get_bool (\<lambda>opcclk. rd_bind get_bool (\<lambda>opcinh.
     rd_return \<lparr>opcc_lpc_hold = lpc_hold, opcc_opcclk = opcclk, opcc_opcinh = opcinh\<rparr>)))"

lemma codes_mode [codes_intros]: "codes n (mode_save m) mode_load m"
  unfolding mode_save_def mode_load_def
  by (rule codes_step)+ (simp add: codes_end)

lemma codes_clock_control [codes_intros]: "codes n (clock_control_save c) clock_control_load c"
  unfolding clock_control_save_def clock_control_load_def
  by (rule codes_step)+ (simp add: codes_end)

lemma codes_opc_control [codes_intros]: "codes n (opc_control_save c) opc_control_load c"
  unfolding opc_control_save_def opc_control_load_def
  by (rule codes_step)+ (simp add: codes_end)

interpretation mode: codec n "\<lambda>_. True" mode_save mode_load for n
  by unfold_locales (rule codes_mode)

interpretation clock_control: codec n "\<lambda>_. True" clock_control_save clock_control_load for n
  by unfold_locales (rule codes_clock_control)

interpretation opc_control: codec n "\<lambda>_. True" opc_control_save opc_control_load for n
  by unfold_locales (rule codes_opc_control)

section \<open>What the words say\<close>

lemma bit_shifted_flag: "k < 16 \<Longrightarrow> bit (push_bit k (of_flag b) :: u16) n \<longleftrightarrow> b \<and> n = k"
  by (auto simp: bit_simps)

lemma flag_byte_8:
  "flag_byte [b0, b1, b2, b3, b4, b5, b6, b7] t =
     push_bit t (of_flag b0) OR push_bit (t - 1) (of_flag b1) OR push_bit (t - 2) (of_flag b2) OR
     push_bit (t - 3) (of_flag b3) OR push_bit (t - 4) (of_flag b4) OR push_bit (t - 5) (of_flag b5) OR
     push_bit (t - 6) (of_flag b6) OR push_bit (t - 7) (of_flag b7)"
  by (simp add: flag_byte_def or.assoc eval_nat_numeral)

lemma below_16: "n < 16 \<longleftrightarrow> n \<in> {0, 1, 2, 3, 4, 5, 6, 7, 8, 9, 10, 11, 12, 13, 14, 15 :: nat}"
  unfolding insert_iff empty_iff by presburger

lemma bit_doubled_flag: "bit (of_flag b * 2 :: u16) n \<longleftrightarrow> b \<and> n = 1"
  using bit_shifted_flag [of 1 b n] by simp

lemma bit_flag1_word:
  "bit (flag1_word f) 15 = (\<not> f1_wait f)" "bit (flag1_word f) 14 = (\<not> f1_v1pe f)"
  "bit (flag1_word f) 13 = (\<not> f1_v0pe f)" "bit (flag1_word f) 12 = f1_promdisable f"
  "bit (flag1_word f) 11 = (\<not> f1_stathalt f)" "bit (flag1_word f) 10 = f1_err f"
  "bit (flag1_word f) 9 = f1_ssdone f" "bit (flag1_word f) 8 = f1_srun f"
  "bit (flag1_word f) 7 = f1_higherr f" "bit (flag1_word f) 6 = f1_mempe f"
  "bit (flag1_word f) 5 = f1_ipe f" "bit (flag1_word f) 4 = f1_dpe f"
  "bit (flag1_word f) 3 = f1_spe f" "bit (flag1_word f) 2 = f1_pdlpe f"
  "bit (flag1_word f) 1 = f1_mpe f" "bit (flag1_word f) 0 = f1_ape f"
  unfolding flag1_word_def flag_byte_8 by (simp_all add: bit_or_iff bit_shifted_flag bit_doubled_flag)

text \<open>
  \<open>FLAG-1\<close> and its fields determine each other. What a console reads off the word is what the machine
  put there, through the board's polarities, and every one of the 65,536 words is some machine's: no bit is lost and none
  is shared.
\<close>

theorem flag1_bijection: "flag1_of (flag1_word f) = f \<and> flag1_word (flag1_of w) = w"
proof
  show "flag1_of (flag1_word f) = f" unfolding flag1_of_def bit_flag1_word by simp
  have "bit (flag1_word (flag1_of w)) n = bit w n" if "n < 16" for n
    using that unfolding below_16 insert_iff empty_iff
    by (elim disjE) (simp_all only: bit_flag1_word flag1_of_def flag1.simps not_not simp_thms)
  then show "flag1_word (flag1_of w) = w" by (intro bit_word_eqI) simp
qed

text \<open>
  The write strobe that a register number fires does not see \<open>EADR3\<close>. Over the block of Unibus
  addresses, the sixteen registers are the sixteen pairs of bytes in order, and two of them write
  the same register exactly when they are sixteen bytes apart.
\<close>

theorem spy_write_aliases:
  assumes "k < 16" "j < 16"
  shows "spy_register (SPY_BASE + 2 * of_nat k) = Some (of_nat k) \<and>
    spy_register (SPY_BASE + 2 * of_nat k + 1) = Some (of_nat k) \<and>
    (write_strobe (of_nat k) = write_strobe (of_nat j) \<longleftrightarrow> k mod 8 = j mod 8)"
proof -
  have "(of_nat k :: u8) AND 7 = of_nat (k mod 8)" for k
  proof -
    have "(7 :: u8) = mask 3" by (simp add: mask_eq_exp_minus_1)
    then have "(of_nat k :: u8) AND 7 = take_bit 3 (of_nat k)" by (simp only: take_bit_eq_mask)
    also have "\<dots> = of_nat (take_bit 3 k)" by (simp only: take_bit_of_nat)
    finally show ?thesis by (simp add: take_bit_eq_mod)
  qed
  moreover have "(of_nat (k mod 8) :: u8) = of_nat (j mod 8) \<longleftrightarrow> k mod 8 = j mod 8"
    by (simp add: word_of_nat_eq_iff take_bit_eq_mod)
  moreover have "spy_register (SPY_BASE + 2 * of_nat k) = Some (of_nat k)"
    "spy_register (SPY_BASE + 2 * of_nat k + 1) = Some (of_nat k)"
    using assms(1) unfolding below_16 by (auto simp: spy_register_def SPY_BASE_def)
  ultimately show ?thesis by (simp add: write_strobe_def)
qed

lemma spy_write_aliases_witness:
  "spy_register (SPY_BASE + 2 * of_nat 13) = Some (of_nat 13) \<and> write_strobe (of_nat 13) = write_strobe (of_nat 5)"
  using spy_write_aliases [of 13 5] by simp

lemma bit_write_debug_ir:
  assumes "half < 3"
  shows "bit (write_debug_ir ir half spy) n \<longleftrightarrow>
    (if 16 * unat half \<le> n \<and> n < 16 * unat half + 16 then bit spy (n - 16 * unat half) else bit ir n)"
proof -
  define s where "s = 16 * unat half"
  have s: "s + 16 \<le> 64" using assms by (simp add: s_def word_less_nat_alt)
  have f: "(0xffff :: u64) = mask 16" by (simp add: mask_eq_exp_minus_1)
  have m: "bit (push_bit s 0xffff :: u64) n \<longleftrightarrow> s \<le> n \<and> n < s + 16"
    unfolding f bit_push_bit_iff bit_mask_iff using s by auto
  have v: "bit (push_bit s (ucast spy) :: u64) n \<longleftrightarrow> s \<le> n \<and> bit spy (n - s)"
  proof
    assume "bit (push_bit s (ucast spy) :: u64) n"
    then show "s \<le> n \<and> bit spy (n - s)" by (simp add: bit_push_bit_iff bit_ucast_iff)
  next
    assume a: "s \<le> n \<and> bit spy (n - s)"
    then have "n - s < 16" using bit_imp_le_length by fastforce
    then show "bit (push_bit s (ucast spy) :: u64) n" using a s by (simp add: bit_push_bit_iff bit_ucast_iff)
  qed
  have "bit (write_debug_ir ir half spy) n \<longleftrightarrow>
      (bit ir n \<and> \<not> (s \<le> n \<and> n < s + 16)) \<or> (s \<le> n \<and> bit spy (n - s))"
    unfolding write_debug_ir_def Let_def s_def [symmetric] bit_or_iff bit_and_iff v
    using bit_imp_le_length [of ir n] by (auto simp: bit_not_iff m)
  then show ?thesis
    unfolding s_def [symmetric] using bit_imp_le_length [of spy "n - s"] by auto
qed

text \<open>
  The debug instruction register takes any instruction a half at a time. Writing the three halves of
  a 48-bit word, in any register the writes find, leaves that word in the low 48 bits and what was
  above it alone; and a half written twice keeps the second.
\<close>

theorem debug_ir_halves:
  "(let ir' = write_debug_ir (write_debug_ir (write_debug_ir ir 0 (ucast w)) 1 (ucast (drop_bit 16 w))) 2
        (ucast (drop_bit 32 w))
    in take_bit 48 ir' = take_bit 48 (w :: u64) \<and> drop_bit 48 ir' = drop_bit 48 ir) \<and>
   write_debug_ir (write_debug_ir ir 1 a) 1 b = write_debug_ir ir 1 b"
proof -
  note d = bit_write_debug_ir
  have "bit (write_debug_ir (write_debug_ir (write_debug_ir ir 0 (ucast w)) 1 (ucast (drop_bit 16 w))) 2
        (ucast (drop_bit 32 w))) n = (if n < 48 then bit w n else bit ir n)" for n
    by (auto simp: d bit_simps)
  then show ?thesis
    by (auto simp: Let_def bit_simps d intro!: bit_word_eqI)
qed

end
