(* ===== verification/Geometry.thy ===== *)
theory Geometry
  imports Prelude
begin

text \<open>
  What differs between the machines, the \<open>Geometry\<close> of \<open>src/machine.rs\<close>: the CADR's, and QUUX's at
  revisions 11, 12 and 13, with the masks and sizes read off it and the page of feature words that
  a QUUX lists them in.
\<close>

type_synonym mword = u64

definition IMEM_WORDS :: nat where "IMEM_WORDS = 16 * 1024"
definition PROM_WORDS :: nat where "PROM_WORDS = 1024"
definition QUUX_PROM_BASE :: u16 where "QUUX_PROM_BASE = 0x3c00"
definition MAIN_WORDS :: nat where "MAIN_WORDS = 2 * 1024 * 1024"
definition MAIN_WORDS_13 :: nat where "MAIN_WORDS_13 = 32 * 1024 * 1024"
definition MAX_MAIN_WORDS_13 :: nat where "MAX_MAIN_WORDS_13 = 64 * 1024 * 1024"
definition MAX_MEMORY_BOARDS :: nat where "MAX_MEMORY_BOARDS = 0x3c00 * 2 ^ 8 div 2 ^ 16"
definition PDL_WORDS :: nat where "PDL_WORDS = 16 * 1024"
definition L2_MAP_WORDS :: nat where "L2_MAP_WORDS = 4096"
definition L1_MAP_WORDS :: nat where "L1_MAP_WORDS = 8192"
definition DMEM_WORDS :: nat where "DMEM_WORDS = 4096"
definition LC_COUNTER :: u32 where "LC_COUNTER = 0x3ffffff"
definition LC_COUNTER_13 :: u32 where "LC_COUNTER_13 = push_bit 30 1 - 1"
definition LVMO_AT_POWER_ON :: u32 where "LVMO_AT_POWER_ON = push_bit 23 1 OR push_bit 22 1 OR 0x3fff"
definition REGISTER_PAGE_13 :: u32 where "REGISTER_PAGE_13 = 0xfffff00"
definition FEATURE_PAGE :: u32 where "FEATURE_PAGE = 0x3fff"
definition TIMERS_COUNT :: u32 where "TIMERS_COUNT = 3"
definition DISPATCH_ENTRIES :: nat where "DISPATCH_ENTRIES = 1024"

record geometry =
  word_bits :: nat
  l1_bits :: nat
  pdl_bits :: nat
  machine_id :: "u32 option"
  g_muldiv :: bool
  g_tick :: bool
  speed_bits :: bool
  old_word_while_written :: bool
  g_hangs :: bool
  prom_base :: "u16 option"
  g_unibus :: bool
  g_rtc :: bool
  g_file_device :: bool
  g_macro_dispatch :: bool

definition CADR :: geometry where
  "CADR = \<lparr>word_bits = 32, l1_bits = 5, pdl_bits = 10, machine_id = None, g_muldiv = False,
     g_tick = False, speed_bits = True, old_word_while_written = False, g_hangs = True,
     prom_base = None, g_unibus = True, g_rtc = False, g_file_device = False, g_macro_dispatch = False\<rparr>"

definition QUUX :: geometry where
  "QUUX = \<lparr>word_bits = 32, l1_bits = 6, pdl_bits = 14,
     machine_id = Some (push_bit 16 0x5155 OR push_bit 4 12 OR 4), g_muldiv = True, g_tick = True,
     speed_bits = False, old_word_while_written = True, g_hangs = False,
     prom_base = Some QUUX_PROM_BASE, g_unibus = False, g_rtc = True, g_file_device = True,
     g_macro_dispatch = True\<rparr>"

definition QUUX_11 :: geometry where
  "QUUX_11 = QUUX\<lparr>machine_id := Some (push_bit 16 0x5155 OR push_bit 4 11 OR 4), g_macro_dispatch := False\<rparr>"

definition QUUX_13 :: geometry where
  "QUUX_13 = QUUX\<lparr>word_bits := 40, l1_bits := 7,
     machine_id := Some (push_bit 16 0x5155 OR push_bit 4 13 OR 4)\<rparr>"

lemmas geometries = CADR_def QUUX_def QUUX_11_def QUUX_13_def

definition wide :: "geometry \<Rightarrow> bool" where
  "wide g \<longleftrightarrow> 32 < word_bits g"

definition l1_from_vma :: "geometry \<Rightarrow> u32 \<Rightarrow> u32" where
  "l1_from_vma g vma =
     (let low = drop_bit 27 vma AND 0x1f
      in if 5 < l1_bits g then low OR push_bit 5 (drop_bit 24 vma AND 1) else low)"

definition revision :: "geometry \<Rightarrow> u32 option" where
  "revision g = map_option (\<lambda>i. drop_bit 4 i AND 0xfff) (machine_id g)"

definition default_memory_boards :: "geometry \<Rightarrow> nat" where
  "default_memory_boards g = (if wide g then MAIN_WORDS_13 else MAIN_WORDS) div 2 ^ 16"

definition max_memory_boards :: "geometry \<Rightarrow> nat" where
  "max_memory_boards g = (if wide g then MAX_MAIN_WORDS_13 div 2 ^ 16 else MAX_MEMORY_BOARDS)"

text \<open>The bounds of the range, both ends included.\<close>

definition main_memory_mw :: "geometry \<Rightarrow> nat \<times> nat" where
  "main_memory_mw g = (1, max_memory_boards g div 2 ^ 4)"

definition word_mask :: "geometry \<Rightarrow> mword" where
  "word_mask g = push_bit (word_bits g) 1 - 1"

definition dmem_words :: "geometry \<Rightarrow> nat" where
  "dmem_words g = (if wide g then DMEM_WORDS else 2048)"

definition lc_counter :: "geometry \<Rightarrow> u32" where
  "lc_counter g = (if wide g then LC_COUNTER_13 else LC_COUNTER)"

definition lvmo_at_power_on :: "geometry \<Rightarrow> u32" where
  "lvmo_at_power_on g =
     (if wide g then push_bit 27 1 OR push_bit 26 1 OR 0x3ffff else LVMO_AT_POWER_ON)"

definition l1_mask :: "geometry \<Rightarrow> u32" where
  "l1_mask g = push_bit (l1_bits g) 1 - 1"

definition l2_index :: "geometry \<Rightarrow> u32 \<Rightarrow> u32 \<Rightarrow> nat" where
  "l2_index g l1 addr = unat (push_bit 5 (l1 AND l1_mask g) OR (drop_bit 8 addr AND 0x1f))"

definition pdl_mask :: "geometry \<Rightarrow> u16" where
  "pdl_mask g = push_bit (pdl_bits g) 1 - 1"

definition has_register_page :: "geometry \<Rightarrow> bool" where
  "has_register_page g \<longleftrightarrow> machine_id g \<noteq> None"

definition feature_word :: "geometry \<Rightarrow> u32 \<Rightarrow> u32 option" where
  "feature_word g phys =
     (case machine_id g of
        None \<Rightarrow> None
      | Some mid \<Rightarrow>
          let on_page = (if wide g then phys AND NOT 0xff = REGISTER_PAGE_13
                         else drop_bit 8 phys AND 0x3fff = FEATURE_PAGE);
              off = phys AND 0xff
          in if \<not> on_page then None
             else Some (if off = 0 then mid
               else if off = 1 then of_nat (l1_bits g)
               else if off = 2 then push_bit (l1_bits g) 32
               else if off = 3 then push_bit (pdl_bits g) 1
               else if off = 4 then of_nat IMEM_WORDS
               else if off = 5 then 1024
               else if off = 6 then of_nat (dmem_words g)
               else if off = 7 then of_flag (g_muldiv g) * 3
               else if off = 8 then of_flag (g_tick g)
               else if off = 0xc then of_flag (g_tick g)
               else if off = 0xd then of_flag (g_rtc g) OR push_bit 1 (of_flag (g_file_device g))
               else if off = 0xe then of_flag (g_tick g) * TIMERS_COUNT
               else if off = 0xf then of_flag (g_macro_dispatch g) * of_nat DISPATCH_ENTRIES
               else 0))"

section \<open>The machines there are\<close>

definition machines :: "geometry set" where
  "machines = {CADR, QUUX, QUUX_11, QUUX_13}"

lemma machines_cases:
  assumes "g \<in> machines"
  obtains "g = CADR" | "g = QUUX" | "g = QUUX_11" | "g = QUUX_13"
  using assms by (auto simp: machines_def)

lemma wide_simps [simp]: "\<not> wide CADR" "\<not> wide QUUX" "\<not> wide QUUX_11" "wide QUUX_13"
  by (simp_all add: wide_def geometries)

lemma narrow_bits: "g \<in> machines \<Longrightarrow> \<not> wide g \<Longrightarrow> word_bits g = 32 \<and> (l1_bits g = 5 \<or> l1_bits g = 6)"
  by (elim machines_cases) (simp_all add: geometries wide_def)

lemma wide_is_13: "g \<in> machines \<Longrightarrow> wide g \<Longrightarrow> g = QUUX_13"
  by (elim machines_cases) simp_all

lemma word_mask_mask: "g \<in> machines \<Longrightarrow> word_mask g = mask (word_bits g)"
  by (elim machines_cases) (simp_all add: word_mask_def geometries mask_eq_exp_minus_1)

lemma pdl_mask_mask: "g \<in> machines \<Longrightarrow> pdl_mask g = mask (pdl_bits g)"
  by (elim machines_cases) (simp_all add: pdl_mask_def geometries mask_eq_exp_minus_1)

lemma l1_mask_mask: "g \<in> machines \<Longrightarrow> l1_mask g = mask (l1_bits g)"
  by (elim machines_cases) (simp_all add: l1_mask_def geometries mask_eq_exp_minus_1)

end
