(* ===== verification/Vmap.thy ===== *)
theory Vmap
  imports Geometry
begin

text \<open>
  The two-level virtual memory map of \<open>src/machine.rs\<close>: \<open>translate\<close>, \<open>write_map\<close> and revision 13's
  pair. The arrays are functions of the index, which the code masks below their size; the lemmas
  show that it does. The locale states what a two-level map owes its users, a store seen by exactly the
  addresses that select its entry, and is interpreted on both geometries' maps.
\<close>

section \<open>The model\<close>

record vmap =
  vm_l1 :: "nat \<Rightarrow> u32"
  vm_l2 :: "nat \<Rightarrow> u32"

definition vmap_new :: vmap where
  "vmap_new = \<lparr>vm_l1 = (\<lambda>_. 0), vm_l2 = (\<lambda>_. 0)\<rparr>"

record translation =
  tr_physical :: u32
  tr_page :: u32
  tr_l1_data :: u32
  tr_l2_data :: u32
  tr_write_permitted :: bool
  tr_access_permitted :: bool

definition MAP_INVALID_BLOCK_13 :: u32 where "MAP_INVALID_BLOCK_13 = 0x7f"
definition MAP_LEVEL_2_13 :: u32 where "MAP_LEVEL_2_13 = push_bit 28 1 - 1"

definition map_level_2_index_13 :: "u32 \<Rightarrow> u32 \<Rightarrow> nat" where
  "map_level_2_index_13 l1 addr = unat (push_bit 5 (l1 AND 0x7f) OR (drop_bit 10 addr AND 0x1f))"

text \<open>The level-1 index of an address: \<open>VMA<23:13>\<close>, and \<open>VA<27:15>\<close> on revision 13.\<close>

definition l1_index :: "u32 \<Rightarrow> nat" where
  "l1_index vaddr = unat (drop_bit 13 vaddr AND 0x7ff)"

definition l1_index_13 :: "u32 \<Rightarrow> nat" where
  "l1_index_13 addr = unat (drop_bit 15 addr AND 0x1fff)"

definition map_level_1_13 :: "vmap \<Rightarrow> u32 \<Rightarrow> u32" where
  "map_level_1_13 m addr =
     (if drop_bit 28 addr \<noteq> 0 then MAP_INVALID_BLOCK_13
      else vm_l1 m (l1_index_13 addr) AND 0x7f)"

definition translate_13 :: "vmap \<Rightarrow> u32 \<Rightarrow> translation" where
  "translate_13 m vaddr =
     (let l1_data = map_level_1_13 m vaddr;
          l2_data = vm_l2 m (map_level_2_index_13 l1_data vaddr);
          page = l2_data AND 0x3ffff
      in \<lparr>tr_physical = push_bit 10 page OR (vaddr AND 0x3ff), tr_page = page, tr_l1_data = l1_data,
          tr_l2_data = l2_data, tr_write_permitted = bit l2_data 26, tr_access_permitted = bit l2_data 27\<rparr>)"

definition translate :: "geometry \<Rightarrow> vmap \<Rightarrow> u32 \<Rightarrow> translation" where
  "translate g m vaddr =
     (if wide g then translate_13 m vaddr
      else let vaddr = vaddr AND 0xffffff;
               l1_data = vm_l1 m (l1_index vaddr) AND l1_mask g;
               l2_data = vm_l2 m (l2_index g l1_data vaddr);
               page = l2_data AND 0x3fff
           in \<lparr>tr_physical = push_bit 8 page OR (vaddr AND 0xff), tr_page = page, tr_l1_data = l1_data,
               tr_l2_data = l2_data, tr_write_permitted = bit l2_data 22,
               tr_access_permitted = bit l2_data 23\<rparr>)"

definition set_l1 :: "nat \<Rightarrow> u32 \<Rightarrow> vmap \<Rightarrow> vmap" where
  "set_l1 i e m = m\<lparr>vm_l1 := (vm_l1 m)(i := e)\<rparr>"

definition set_l2 :: "nat \<Rightarrow> u32 \<Rightarrow> vmap \<Rightarrow> vmap" where
  "set_l2 i e m = m\<lparr>vm_l2 := (vm_l2 m)(i := e)\<rparr>"

definition write_map_13 :: "mword \<Rightarrow> u32 \<Rightarrow> vmap \<Rightarrow> vmap" where
  "write_map_13 vma addr m =
     (if drop_bit 28 addr \<noteq> 0 then m
      else if bit vma 29 then set_l1 (l1_index_13 addr) (ucast (drop_bit 32 vma) AND 0x7f) m
      else if bit vma 28
        then set_l2 (map_level_2_index_13 (map_level_1_13 m addr) addr) (ucast vma AND MAP_LEVEL_2_13) m
      else m)"

definition write_map :: "geometry \<Rightarrow> mword \<Rightarrow> mword \<Rightarrow> vmap \<Rightarrow> vmap" where
  "write_map g vma md m =
     (if wide g then write_map_13 vma (ucast md) m
      else let vma = ucast vma :: u32; md = ucast md :: u32; i = l1_index md;
               m = (if bit vma 26 then set_l1 i (l1_from_vma g vma) m else m)
           in if bit vma 25
              then let l1_data = (if bit vma 26 then 0 else vm_l1 m i)
                   in set_l2 (l2_index g l1_data md) (vma AND 0xffffff) m
              else m)"

section \<open>Indices\<close>

lemma and_mask_values:
  "(0x1f :: u32) = mask 5" "(0x7f :: u32) = mask 7" "(0x7ff :: u32) = mask 11" "(0x1fff :: u32) = mask 13"
  "(0xffffff :: u32) = mask 24" "(0xff :: u32) = mask 8" "(0x3ff :: u32) = mask 10"
  "(0x3fff :: u32) = mask 14" "(0x3ffff :: u32) = mask 18"
  by (simp_all add: mask_eq_exp_minus_1)

lemma l1_index_bound: "l1_index a < 2 ^ 11" "l1_index_13 a < L1_MAP_WORDS"
  unfolding l1_index_def l1_index_13_def and_mask_values
  using unat_and_mask_less [of 11 "drop_bit 13 a"] unat_and_mask_less [of 13 "drop_bit 15 a"]
  by (simp_all add: L1_MAP_WORDS_def)

text \<open>Two fields side by side, the lower five bits wide.\<close>

lemma fields_eq_iff:
  fixes x y x' y' :: u32
  assumes "\<And>n. bit x n \<Longrightarrow> n < 27" "\<And>n. bit x' n \<Longrightarrow> n < 27"
    and "\<And>n. bit y n \<Longrightarrow> n < 5" "\<And>n. bit y' n \<Longrightarrow> n < 5"
  shows "push_bit 5 x OR y = push_bit 5 x' OR y' \<longleftrightarrow> x = x' \<and> y = y'"
proof
  assume e: "push_bit 5 x OR y = push_bit 5 x' OR y'"
  have "bit x n = bit x' n" for n
    using arg_cong [OF e, of "\<lambda>w. bit w (n + 5)"] assms(1,2) [of n] assms(3,4) [of "n + 5"]
    by (cases "n < 27") (auto simp: bit_simps)
  moreover have "bit y n = bit y' n" for n
    using arg_cong [OF e, of "\<lambda>w. bit w n"] assms(3,4) [of n]
    by (cases "n < 5") (auto simp: bit_simps)
  ultimately show "x = x' \<and> y = y'" by (auto intro: bit_word_eqI)
qed simp

lemma bit_below: "k \<le> 32 \<Longrightarrow> bit (x AND mask k :: u32) n \<Longrightarrow> n < k"
  by (simp add: bit_simps)

lemma map_level_2_index_13_eq:
  "map_level_2_index_13 e a = map_level_2_index_13 e' a' \<longleftrightarrow>
     e AND 0x7f = e' AND 0x7f \<and> drop_bit 10 a AND 0x1f = drop_bit 10 a' AND 0x1f"
  unfolding map_level_2_index_13_def and_mask_values word_unat_eq_iff [symmetric]
  by (rule fields_eq_iff) (auto dest: bit_below [rotated])

lemma l2_index_eq:
  assumes "g \<in> machines"
  shows "l2_index g e a = l2_index g e' a' \<longleftrightarrow>
    e AND l1_mask g = e' AND l1_mask g \<and> drop_bit 8 a AND 0x1f = drop_bit 8 a' AND 0x1f"
proof -
  have "l1_bits g \<le> 7" using assms by (elim machines_cases) (simp_all add: geometries)
  then show ?thesis
    unfolding l2_index_def l1_mask_mask [OF assms] and_mask_values word_unat_eq_iff [symmetric]
    by (intro fields_eq_iff) (auto simp: bit_simps)
qed

lemma l2_index_bound:
  assumes "g \<in> machines"
  shows "l2_index g e a < L2_MAP_WORDS" "map_level_2_index_13 e a < L2_MAP_WORDS"
proof -
  have b: "push_bit 5 (x AND mask n) OR (y AND mask 5) < (2 ^ 12 :: u32)" if "n \<le> 7" for x y :: u32 and n
  proof -
    have "push_bit 5 (x AND mask n) OR (y AND mask 5) = (push_bit 5 (x AND mask n) OR (y AND mask 5)) AND mask 12"
      using that by (intro bit_word_eqI) (auto simp: bit_simps)
    moreover have "(push_bit 5 (x AND mask n) OR (y AND mask 5)) AND mask 12 < (2 ^ 12 :: u32)"
      by (rule word_and_mask_less) simp
    ultimately show ?thesis by argo
  qed
  have "l1_bits g \<le> 7" using assms by (elim machines_cases) (simp_all add: geometries)
  then show "l2_index g e a < L2_MAP_WORDS" "map_level_2_index_13 e a < L2_MAP_WORDS"
    unfolding l2_index_def map_level_2_index_13_def l1_mask_mask [OF assms] and_mask_values L2_MAP_WORDS_def
    using b [of "l1_bits g" e "drop_bit 8 a"] b [of 7 e "drop_bit 10 a"]
    by (simp_all add: word_less_nat_alt)
qed

section \<open>What a two-level map owes its users\<close>

text \<open>
  \<open>out\<close> is what level 1 gives for an address, \<open>key\<close> the bits of an entry that choose a block,
  \<open>off\<close> the place of an address in its block, \<open>live\<close> the addresses level 1 looks at at all.
\<close>

locale two_level_map =
  fixes i1 :: "u32 \<Rightarrow> nat" and i2 :: "u32 \<Rightarrow> u32 \<Rightarrow> nat"
    and out :: "vmap \<Rightarrow> u32 \<Rightarrow> u32" and key :: "u32 \<Rightarrow> u32" and off :: "u32 \<Rightarrow> u32"
    and live :: "u32 \<Rightarrow> bool"
  assumes index: "i2 e a = i2 e' a' \<longleftrightarrow> key e = key e' \<and> off a = off a'"
    and key_out: "key (out m a) = out m a"
    and out_level_2: "out (set_l2 i x m) a = out m a"
    and out_level_1: "live a \<Longrightarrow> out (set_l1 (i1 a) e m) b = (if live b \<and> i1 b = i1 a then key e else out m b)"
begin

lemma level_2_store:
  "vm_l2 (set_l2 (i2 e a) x m) (i2 (out m b) b) =
     (if out m b = key e \<and> off b = off a then x else vm_l2 m (i2 (out m b) b))"
  by (auto simp: set_l2_def index key_out)

lemma level_1_keeps: "vm_l2 (set_l1 i e m) = vm_l2 m"
  by (simp add: set_l1_def)

lemma level_2_here: "vm_l2 (set_l2 (i2 (out m a) a) x m) (i2 (out m a) a) = x"
  by (simp add: set_l2_def)

text \<open>A block loaded and then an entry in it, the two stores a page fault's handler makes.\<close>

lemma map_a_page:
  fixes m :: vmap and a e x :: u32
  assumes "live a"
  defines "m1 \<equiv> set_l1 (i1 a) e m"
  defines "m2 \<equiv> set_l2 (i2 (out m1 a) a) x m1"
  shows "out m2 a = key e \<and> vm_l2 m2 (i2 (out m2 a) a) = x"
  by (simp add: m2_def m1_def out_level_2 out_level_1 assms(1) level_2_here) (simp add: set_l2_def)

end

interpretation map_13: two_level_map l1_index_13 map_level_2_index_13 map_level_1_13
    "\<lambda>e. e AND 0x7f" "\<lambda>a. drop_bit 10 a AND 0x1f" "\<lambda>a. drop_bit 28 a = 0"
  by unfold_locales
    (auto simp: map_level_2_index_13_eq map_level_1_13_def set_l1_def set_l2_def and.assoc MAP_INVALID_BLOCK_13_def)

text \<open>The machines with 32-bit words share one map.\<close>

locale narrow_machine =
  fixes g :: geometry
  assumes machine: "g \<in> machines" and narrow: "\<not> wide g"

sublocale narrow_machine \<subseteq> two_level_map l1_index "l2_index g" "\<lambda>m a. vm_l1 m (l1_index a) AND l1_mask g"
    "\<lambda>e. e AND l1_mask g" "\<lambda>a. drop_bit 8 a AND 0x1f" "\<lambda>_. True"
  by unfold_locales (auto simp: l2_index_eq [OF machine] set_l1_def set_l2_def and.assoc)

interpretation cadr_map: narrow_machine CADR
  by unfold_locales (simp_all add: machines_def)

interpretation quux_map: narrow_machine QUUX
  by unfold_locales (simp_all add: machines_def)

interpretation quux_11_map: narrow_machine QUUX_11
  by unfold_locales (simp_all add: machines_def)

lemma l1_index_24: "l1_index (a AND 0xffffff) = l1_index a"
proof -
  have "drop_bit 13 (a AND mask 24) AND mask 11 = drop_bit 13 a AND (mask 11 :: u32)"
    by (rule bit_word_eqI) (auto simp: bit_simps)
  then show ?thesis unfolding l1_index_def and_mask_values by simp
qed

lemma l2_index_24: "l2_index g e (a AND 0xffffff) = l2_index g e a"
proof -
  have "drop_bit 8 (a AND mask 24) AND mask 5 = drop_bit 8 a AND (mask 5 :: u32)"
    by (rule bit_word_eqI) (auto simp: bit_simps)
  then show ?thesis unfolding l2_index_def and_mask_values by simp
qed

lemma bit_32: "bit (32 :: 'a::semiring_bit_operations) n \<longleftrightarrow> possible_bit TYPE('a) 5 \<and> n = 5"
proof -
  have "(32 :: 'a) = 2 ^ 5" by simp
  then show ?thesis by (simp only: bit_exp_iff) auto
qed

context narrow_machine begin

lemma translate_l1: "tr_l1_data (translate g m a) = vm_l1 m (l1_index a) AND l1_mask g"
  using narrow by (simp add: translate_def Let_def l1_index_24)

lemma translate_l2: "tr_l2_data (translate g m a) = vm_l2 m (l2_index g (tr_l1_data (translate g m a)) a)"
  using narrow by (simp add: translate_def Let_def l1_index_24 l2_index_24)

lemma l1_from_vma_fits: "l1_from_vma g vma AND l1_mask g = l1_from_vma g vma"
proof -
  have b: "l1_bits g = 5 \<or> l1_bits g = 6" using narrow_bits [OF machine narrow] by blast
  show ?thesis
    unfolding l1_mask_mask [OF machine] l1_from_vma_def Let_def and_mask_values
    using b by (intro bit_word_eqI) (auto simp: bit_simps bit_32)
qed

lemma store_translate:
  fixes m :: vmap and vma md :: mword and b :: u32
  defines "m' \<equiv> write_map g vma md m"
  shows "tr_l1_data (translate g m' b) =
      (if bit vma 26 \<and> l1_index b = l1_index (ucast md) then l1_from_vma g (ucast vma)
       else tr_l1_data (translate g m b)) \<and>
    tr_l2_data (translate g m' b) =
      (if bit vma 25 \<and> drop_bit 8 b AND 0x1f = drop_bit 8 (ucast md) AND 0x1f \<and>
          tr_l1_data (translate g m' b) = (if bit vma 26 then 0 else tr_l1_data (translate g m (ucast md)))
       then ucast vma AND 0xffffff
       else vm_l2 m (l2_index g (tr_l1_data (translate g m' b)) b))"
proof -
  let ?md = "ucast md :: u32" and ?vma = "ucast vma :: u32"
  let ?m1 = "if bit vma 26 then set_l1 (l1_index ?md) (l1_from_vma g ?vma) m else m"
  have bits: "bit ?vma 26 = bit vma 26" "bit ?vma 25 = bit vma 25" by (simp_all add: bit_simps)
  have m': "m' = (if bit vma 25
      then set_l2 (l2_index g (if bit vma 26 then 0 else vm_l1 m (l1_index ?md)) ?md) (?vma AND 0xffffff) ?m1
      else ?m1)"
    using narrow by (simp add: m'_def write_map_def Let_def bits set_l1_def)
  have l1: "tr_l1_data (translate g m' b) = vm_l1 ?m1 (l1_index b) AND l1_mask g"
    unfolding translate_l1 m' by (auto simp: set_l2_def)
  also have "\<dots> = (if bit vma 26 \<and> l1_index b = l1_index ?md then l1_from_vma g ?vma
      else tr_l1_data (translate g m b))"
    by (auto simp: set_l1_def translate_l1 l1_from_vma_fits)
  finally have one: "tr_l1_data (translate g m' b) =
      (if bit vma 26 \<and> l1_index b = l1_index ?md then l1_from_vma g ?vma else tr_l1_data (translate g m b))" .
  have "tr_l2_data (translate g m' b) = vm_l2 m' (l2_index g (vm_l1 ?m1 (l1_index b) AND l1_mask g) b)"
    unfolding translate_l2 [of m' b] l1 ..
  also have "\<dots> = (if bit vma 25 \<and> drop_bit 8 b AND 0x1f = drop_bit 8 ?md AND 0x1f \<and>
        vm_l1 ?m1 (l1_index b) AND l1_mask g = (if bit vma 26 then 0 else vm_l1 m (l1_index ?md)) AND l1_mask g
      then ?vma AND 0xffffff else vm_l2 m (l2_index g (vm_l1 ?m1 (l1_index b) AND l1_mask g) b))"
    unfolding m' using level_1_keeps
    by (cases "bit vma 25") (simp_all only: if_True if_False simp_thms level_2_store, auto)
  finally show ?thesis
    unfolding one [symmetric] l1 [symmetric] translate_l1 [of m ?md, symmetric] 
    using one by (auto simp: translate_l1)
qed

end

section \<open>The two maps\<close>

text \<open>
  C13: a map store on a 32-bit machine and every translation after it. With \<open>VMA<26>\<close> up the level-1 entry of
  \<open>MD\<close>'s region becomes the one \<open>VMA\<close> carries, and no other region's changes. With \<open>VMA<25>\<close> up
  one level-2 entry becomes \<open>VMA<23:0>\<close>: the one at \<open>MD\<close>'s place in the block its region names,
  or in block 0 when both are up, so it is seen by exactly the addresses at that place in a region mapped
  to that block. All else is as it was.
\<close>

theorem write_map_translate:
  fixes m :: vmap and vma md :: mword and b :: u32
  assumes "g \<in> machines" "\<not> wide g"
  shows "let m' = write_map g vma md m; a = ucast md in
    tr_l1_data (translate g m' b) =
      (if bit vma 26 \<and> l1_index b = l1_index a then l1_from_vma g (ucast vma)
       else tr_l1_data (translate g m b)) \<and>
    tr_l2_data (translate g m' b) =
      (if bit vma 25 \<and> drop_bit 8 b AND 0x1f = drop_bit 8 a AND 0x1f \<and>
          tr_l1_data (translate g m' b) = (if bit vma 26 then 0 else tr_l1_data (translate g m a))
       then ucast vma AND 0xffffff
       else vm_l2 m (l2_index g (tr_l1_data (translate g m' b)) b))"
  using assms(1)
proof (cases rule: machines_cases)
  case 1
  then show ?thesis unfolding Let_def by (simp only: cadr_map.store_translate)
next
  case 2
  then show ?thesis unfolding Let_def by (simp only: quux_map.store_translate)
next
  case 3
  then show ?thesis unfolding Let_def by (simp only: quux_11_map.store_translate)
next
  case 4
  then show ?thesis using assms(2) by simp
qed

lemma write_map_translate_witness:
  "tr_l1_data (translate CADR (write_map CADR (push_bit 27 9 OR push_bit 26 1) 0x2345 vmap_new) 0x2001) = 9"
  using write_map_translate [where g = CADR and vma = "push_bit 27 9 OR push_bit 26 1" and md = "0x2345" and
      m = vmap_new and b = "0x2001"]
  by (simp add: machines_def Let_def l1_index_def l1_from_vma_def)

text \<open>
  Revision 13's map. A store at an address that fits 28 bits changes one entry: level 1's for the region with
  \<open>VMA<29>\<close>, else level 2's at the address's place in the block level 1 gives with \<open>VMA<28>\<close>.
  Addresses past 28 bits read the invalid block whatever the map holds, and a store at one changes
  nothing.
\<close>

theorem write_map_13_translate:
  "let m' = write_map QUUX_13 vma md m; a = ucast md; live = (\<lambda>a. drop_bit 28 a = 0) in
    (\<not> live b \<longrightarrow> tr_l1_data (translate QUUX_13 m b) = MAP_INVALID_BLOCK_13) \<and>
    (\<not> live a \<longrightarrow> m' = m) \<and>
    tr_l1_data (translate QUUX_13 m' b) =
      (if live a \<and> live b \<and> bit vma 29 \<and> l1_index_13 b = l1_index_13 a then ucast (drop_bit 32 vma) AND 0x7f
       else tr_l1_data (translate QUUX_13 m b)) \<and>
    tr_l2_data (translate QUUX_13 m' b) =
      (if live a \<and> \<not> bit vma 29 \<and> bit vma 28 \<and> drop_bit 10 b AND 0x1f = drop_bit 10 a AND 0x1f \<and>
          tr_l1_data (translate QUUX_13 m b) = tr_l1_data (translate QUUX_13 m a)
       then ucast vma AND MAP_LEVEL_2_13
       else vm_l2 m (map_level_2_index_13 (tr_l1_data (translate QUUX_13 m' b)) b))"
proof -
  have l1: "tr_l1_data (translate QUUX_13 m b) = map_level_1_13 m b" for m b
    by (simp add: translate_def translate_13_def Let_def)
  have l2: "tr_l2_data (translate QUUX_13 m b) = vm_l2 m (map_level_2_index_13 (map_level_1_13 m b) b)" for m b
    by (simp add: translate_def translate_13_def Let_def)
  have w: "write_map QUUX_13 vma md m = write_map_13 vma (ucast md) m"
    by (simp add: write_map_def)
  have "(drop_bit 28 b \<noteq> 0 \<longrightarrow> map_level_1_13 m b = MAP_INVALID_BLOCK_13)"
    by (simp add: map_level_1_13_def)
  then show ?thesis
    unfolding Let_def l1 l2 w write_map_13_def
    by (rule conjI) (cases "drop_bit 28 (ucast md :: u32) = 0"; cases "bit vma 29"; cases "bit vma 28";
      simp add: map_13.out_level_1 map_13.out_level_2 map_13.level_1_keeps map_13.level_2_store map_13.key_out)
qed

lemma write_map_13_translate_witness:
  "write_map QUUX_13 (push_bit 29 1) 0x10000000 vmap_new = vmap_new \<and>
    tr_l1_data (translate QUUX_13 vmap_new 0x10000000) = MAP_INVALID_BLOCK_13"
  using write_map_13_translate [where b = "0x10000000" and vma = "push_bit 29 1" and md = "0x10000000" and
      m = vmap_new]
  by (simp add: Let_def)

end
