(* ===== verification/MacroDispatch.thy ===== *)
theory MacroDispatch
  imports Codec Geometry
begin

text \<open>
  QUUX's MACRO-DISPATCH register and MACRO DISPATCH MEMORY, the fused return and the operand address:
  the module \<open>macro_dispatch\<close> and the type \<open>MacroDispatch\<close> of \<open>src/machine.rs\<close>. The lemmas give the
  invariant that keeps every access inside the memory, what a fused return takes, and the
  checkpoint's round trip.
\<close>

section \<open>The model\<close>

definition MD_ENABLE :: u32 where "MD_ENABLE = push_bit 31 1"
definition MD_REGISTER_BITS :: u32 where "MD_REGISTER_BITS = MD_ENABLE OR 0x1fffffff"
definition MD_ENTRIES :: nat where "MD_ENTRIES = 1024"
definition MD_ENTRY_BITS :: u32 where "MD_ENTRY_BITS = 0x3ffff"
definition MD_N :: u32 where "MD_N = push_bit 14 1"
definition MD_P :: u32 where "MD_P = push_bit 15 1"
definition MD_R :: u32 where "MD_R = push_bit 16 1"
definition MD_OPERAND :: u32 where "MD_OPERAND = push_bit 17 1"
definition INDEX_ROTATE :: nat where "INDEX_ROTATE = 32 - 6"
definition MD_LOCAL :: u32 where "MD_LOCAL = 5"
definition MD_ARG :: u32 where "MD_ARG = 6"
definition MD_BASE_BITS :: u32 where "MD_BASE_BITS = 0x3fff"
definition JUMP_RETURNS_FUSE :: bool where "JUMP_RETURNS_FUSE = True"

definition index_rotate :: "bool \<Rightarrow> nat" where
  "index_rotate w = (if w then 40 - 6 else INDEX_ROTATE)"

definition md_word :: "u16 \<Rightarrow> u16 \<Rightarrow> u8 \<Rightarrow> u32" where
  "md_word main localp ap =
     MD_ENABLE OR push_bit 24 (ucast ap AND 0x1f) OR push_bit 14 (ucast localp AND 0x3ff) OR
     (ucast main AND 0x3fff)"

definition md_main :: "u32 \<Rightarrow> u32" where "md_main r = r AND 0x3fff"

definition localp_address :: "u32 \<Rightarrow> nat" where
  "localp_address r = unat (drop_bit 14 r AND 0x3ff)"

definition ap_address :: "u32 \<Rightarrow> nat" where
  "ap_address r = unat (drop_bit 24 r AND 0x1f)"

record operand =
  op_arg :: bool
  op_delta :: u8

record fused =
  fu_handler :: u16
  fu_keep :: bool
  fu_operand :: "operand option"

definition md_operand :: "u32 \<Rightarrow> mword \<Rightarrow> nat \<Rightarrow> operand option" where
  "md_operand entry rotated rot =
     (let register = ucast rotated AND 7 :: u32
      in if entry AND MD_OPERAND \<noteq> 0 \<and> (register = MD_LOCAL \<or> register = MD_ARG)
         then Some \<lparr>op_arg = (register = MD_ARG), op_delta = ucast (drop_bit rot rotated) AND 0x3f\<rparr>
         else None)"

text \<open>The count \<open>fused\<close>, for a profile, is left out: it is kept in no checkpoint and nothing reads it.\<close>

record macro_dispatch =
  md_register :: u32
  md_index :: u16
  md_entries :: "u32 list"
  md_localp :: u32
  md_ap :: u32
  md_operand_armed :: "operand option"
  md_m31 :: "mword option"

definition md_default :: macro_dispatch where
  "md_default = \<lparr>md_register = 0, md_index = 0, md_entries = replicate MD_ENTRIES 0, md_localp = 0,
     md_ap = 0, md_operand_armed = None, md_m31 = None\<rparr>"

definition md_disable :: "macro_dispatch \<Rightarrow> macro_dispatch" where
  "md_disable d = d\<lparr>md_register := md_register d AND NOT MD_ENABLE\<rparr>"

definition md_reset :: "macro_dispatch \<Rightarrow> macro_dispatch" where
  "md_reset d = (md_disable d)\<lparr>md_operand_armed := None, md_m31 := None\<rparr>"

text \<open>\<open>None\<close> is the panic of an unreachable destination.\<close>

definition md_write :: "u32 \<Rightarrow> u32 \<Rightarrow> macro_dispatch \<Rightarrow> macro_dispatch option" where
  "md_write code data d =
     (if code = 5 then Some (d\<lparr>md_register := data AND MD_REGISTER_BITS\<rparr>)
      else if code = 6 then Some (d\<lparr>md_index := ucast (data AND (of_nat MD_ENTRIES - 1))\<rparr>)
      else if code = 7
        then Some (d\<lparr>md_entries := (md_entries d)[unat (md_index d) := data AND MD_ENTRY_BITS]\<rparr>)
      else None)"

definition md_a_written :: "nat \<Rightarrow> mword \<Rightarrow> macro_dispatch \<Rightarrow> macro_dispatch" where
  "md_a_written adr v d =
     (if adr = localp_address (md_register d) then d\<lparr>md_localp := ucast v AND MD_BASE_BITS\<rparr> else d)"

definition md_m_written :: "nat \<Rightarrow> mword \<Rightarrow> macro_dispatch \<Rightarrow> macro_dispatch" where
  "md_m_written adr v d =
     (if adr = ap_address (md_register d) then d\<lparr>md_ap := ucast v AND MD_BASE_BITS\<rparr> else d)"

definition operand_address :: "macro_dispatch \<Rightarrow> operand \<Rightarrow> u32" where
  "operand_address d op = (if op_arg op then md_ap d + 1 else md_localp d) + ucast (op_delta op)"

definition fused_return :: "macro_dispatch \<Rightarrow> u32 \<Rightarrow> mword \<Rightarrow> nat \<Rightarrow> fused option" where
  "fused_return d popped rotated rot =
     (if md_register d AND MD_ENABLE = 0 \<or> popped AND push_bit 14 1 = 0 \<or>
         popped AND 0x3fff \<noteq> md_main (md_register d)
      then None
      else let entry = md_entries d ! unat (rotated AND (of_nat MD_ENTRIES - 1))
           in if entry AND (MD_R OR MD_P) \<noteq> 0 then None
              else Some \<lparr>fu_handler = ucast (entry AND 0x3fff), fu_keep = (entry AND MD_N = 0),
                         fu_operand = md_operand entry rotated rot\<rparr>)"

definition operand_save :: "operand \<Rightarrow> writer \<Rightarrow> writer" where
  "operand_save op = put_all [put_bool (op_arg op), put_u8 (op_delta op)]"

definition operand_load :: "operand rd" where
  "operand_load = rd_bind get_bool (\<lambda>arg. rd_bind get_u8 (\<lambda>delta.
     rd_return \<lparr>op_arg = arg, op_delta = delta AND 0x3f\<rparr>))"

definition md_save :: "macro_dispatch \<Rightarrow> writer \<Rightarrow> writer" where
  "md_save d = put_all
     [put_u32 (md_register d), put_u16 (md_index d), put_u32s (md_entries d), put_u32 (md_localp d),
      put_u32 (md_ap d), put_opt operand_save (md_operand_armed d), put_opt put_word (md_m31 d)]"

definition md_load :: "macro_dispatch rd" where
  "md_load =
     rd_bind get_u32 (\<lambda>register. rd_bind get_u16 (\<lambda>index. rd_bind (get_u32s_into MD_ENTRIES) (\<lambda>entries.
     rd_bind get_u32 (\<lambda>localp. rd_bind get_u32 (\<lambda>ap. rd_bind (get_opt operand_load) (\<lambda>op.
     rd_bind (get_opt get_word) (\<lambda>m31.
       if MD_ENTRIES \<le> unat index then rd_fail Bad_value
       else rd_return \<lparr>md_register = register, md_index = index, md_entries = entries,
         md_localp = localp AND MD_BASE_BITS, md_ap = ap AND MD_BASE_BITS,
         md_operand_armed = op, md_m31 = m31\<rparr>)))))))"

section \<open>The invariant\<close>

text \<open>
  The index and the entries are inside the memory, whatever a checkpoint held; and what the machine itself
  writes stays within its fields.
\<close>

definition md_safe :: "macro_dispatch \<Rightarrow> bool" where
  "md_safe d \<longleftrightarrow> unat (md_index d) < MD_ENTRIES \<and> length (md_entries d) = MD_ENTRIES \<and>
     md_localp d AND MD_BASE_BITS = md_localp d \<and> md_ap d AND MD_BASE_BITS = md_ap d \<and>
     (\<forall>op. md_operand_armed d = Some op \<longrightarrow> op_delta op AND 0x3f = op_delta op)"

lemma entries_mask: "of_nat MD_ENTRIES - 1 = (mask 10 :: 'a::len word)"
  by (simp add: MD_ENTRIES_def mask_eq_exp_minus_1)

lemma entry_index_bound: "unat (w AND (of_nat MD_ENTRIES - 1) :: u64) < MD_ENTRIES"
  unfolding entries_mask using unat_and_mask_less [of 10 w] by (simp add: MD_ENTRIES_def)

lemma md_safe_default [step_inv]: "md_safe md_default"
  by (simp add: md_safe_def md_default_def MD_ENTRIES_def)

lemma md_safe_disable [step_inv]: "md_safe d \<Longrightarrow> md_safe (md_disable d)"
  by (simp add: md_safe_def md_disable_def)

lemma md_safe_reset [step_inv]: "md_safe d \<Longrightarrow> md_safe (md_reset d)"
  by (simp add: md_safe_def md_reset_def md_disable_def)

lemma md_safe_write [step_inv]:
  assumes "md_safe d" "md_write code data d = Some d'"
  shows "md_safe d'"
proof -
  have "unat (ucast (data AND (of_nat MD_ENTRIES - 1)) :: u16) < 2 ^ 10"
    unfolding entries_mask by (rule unat_ucast_less, rule unat_and_mask_less) simp
  then have "unat (ucast (data AND (of_nat MD_ENTRIES - 1)) :: u16) < MD_ENTRIES"
    unfolding MD_ENTRIES_def by simp
  then show ?thesis using assms by (auto simp: md_write_def md_safe_def split: if_splits)
qed

lemma md_safe_written [step_inv]:
  "md_safe d \<Longrightarrow> md_safe (md_a_written adr v d)" "md_safe d \<Longrightarrow> md_safe (md_m_written adr v d)"
  by (simp_all add: md_safe_def md_a_written_def md_m_written_def and.assoc)

lemma operand_fits: "md_operand entry rotated rot = Some op \<Longrightarrow> op_delta op AND 0x3f = op_delta op"
  by (auto simp: md_operand_def Let_def and.assoc split: if_splits)

text \<open>The operations as a sequence of steps, the way the engines and the datapath make them.\<close>

datatype md_op = Md_disable | Md_reset | Md_write u32 u32 | Md_a_written nat mword | Md_m_written nat mword

primrec md_apply :: "md_op \<Rightarrow> macro_dispatch \<Rightarrow> macro_dispatch option" where
  "md_apply Md_disable d = Some (md_disable d)"
| "md_apply Md_reset d = Some (md_reset d)"
| "md_apply (Md_write code data) d = md_write code data d"
| "md_apply (Md_a_written adr v) d = Some (md_a_written adr v d)"
| "md_apply (Md_m_written adr v) d = Some (md_m_written adr v d)"

fun md_run :: "md_op list \<Rightarrow> macro_dispatch \<Rightarrow> macro_dispatch option" where
  "md_run [] d = Some d"
| "md_run (op # ops) d = (case md_apply op d of None \<Rightarrow> None | Some d \<Rightarrow> md_run ops d)"

lemma md_safe_run: "md_safe d \<Longrightarrow> md_run ops d = Some d' \<Longrightarrow> md_safe d'"
proof (induction ops arbitrary: d)
  case (Cons op ops)
  then show ?case by (cases op) (auto intro: step_inv split: option.splits)
qed simp

section \<open>The fused return\<close>

lemma disable_bit: "bit (md_register (md_disable d)) n \<longleftrightarrow> bit (md_register d) n \<and> n \<noteq> 31"
  using bit_imp_le_length [of "md_register d" n]
  by (auto simp: md_disable_def MD_ENABLE_def bit_and_iff bit_not_iff and_bit_set bit_push_bit_iff bit_1_iff
      simp del: push_bit_of_1)

lemma fused_off: "\<not> bit (md_register d) 31 \<Longrightarrow> fused_return d popped rotated rot = None"
  using and_bit_set [of "md_register d" 31] by (simp add: fused_return_def MD_ENABLE_def del: push_bit_of_1)

lemma register_simps [simp]:
  "md_register (md_reset d) = md_register (md_disable d)"
  "md_register (md_a_written adr v d) = md_register d" "md_register (md_m_written adr v d) = md_register d"
  by (simp_all add: md_reset_def md_a_written_def md_m_written_def)

lemma md_apply_off:
  assumes "\<not> bit (md_register d) 31" "\<And>data. op \<noteq> Md_write 5 data" "md_apply op d = Some e"
  shows "\<not> bit (md_register e) 31"
proof (cases op)
  case (Md_write code data)
  then have "md_register e = md_register d"
    using assms(2,3) by (auto simp: md_write_def split: if_splits)
  then show ?thesis using assms(1) by simp
qed (use assms disable_bit [of d 31] in auto)

lemma md_run_off:
  assumes "\<not> bit (md_register d) 31" "\<forall>data. Md_write 5 data \<notin> set ops" "md_run ops d = Some d'"
  shows "\<not> bit (md_register d') 31"
  using assms
proof (induction ops arbitrary: d)
  case (Cons op ops)
  obtain e where e: "md_apply op d = Some e" "md_run ops e = Some d'"
    using Cons.prems(3) by (auto split: option.splits)
  have "\<not> bit (md_register e) 31"
    using Cons.prems(1,2) e(1) by (intro md_apply_off [of d op e]) auto
  then show ?case using Cons.IH Cons.prems(2) e(2) by auto
qed simp

text \<open>
  No microcode runs on the entries another one left. From a reset, or from the clearing that every
  control-store write makes, no return is ever fused, whatever else is written, until destination
  5 writes the register again; and every access on the way stays inside the memory.
\<close>

theorem fused_return_needs_enable:
  assumes "md_safe d" "\<forall>data. Md_write 5 data \<notin> set ops" "md_run ops (md_disable d) = Some d'"
  shows "fused_return d' popped rotated rot = None \<and> fused_return (md_reset d) popped rotated rot = None \<and>
    md_safe d'"
proof -
  have off: "\<not> bit (md_register (md_disable d)) 31" by (simp add: disable_bit)
  have "fused_return d' popped rotated rot = None"
    by (rule fused_off, rule md_run_off [OF off assms(2,3)])
  moreover have "fused_return (md_reset d) popped rotated rot = None"
    by (rule fused_off) (simp add: off)
  moreover have "md_safe d'" by (rule md_safe_run [OF md_safe_disable [OF assms(1)] assms(3)])
  ultimately show ?thesis by blast
qed

lemma fused_return_needs_enable_witness:
  "let d = md_default\<lparr>md_register := 0x80000123\<rparr>
   in fused_return (the (md_run [Md_write 6 7, Md_write 7 0x55, Md_a_written 4 9] (md_disable d))) 0x4123 7 26 = None"
  using fused_return_needs_enable [of "md_default\<lparr>md_register := 0x80000123\<rparr>"
      "[Md_write 6 7, Md_write 7 0x55, Md_a_written 4 9]" _ "0x4123" 7 26]
  by (simp add: md_write_def md_disable_def md_safe_def md_default_def MD_ENTRIES_def Let_def)

text \<open>
  What a fused return takes. A return is fused exactly when the register is enabled, the popped word
  is marked and names the main loop, and the entry for the halfword has R and P clear; the handler
  is then a control-store address, and an operand address is the base plus the halfword's delta
  exactly, with no carry out of fifteen bits.
\<close>

theorem fused_return_taken:
  assumes "md_safe d"
  defines "e rotated \<equiv> md_entries d ! (unat rotated mod MD_ENTRIES)"
  shows "(fused_return d popped rotated rot \<noteq> None \<longleftrightarrow>
      bit (md_register d) 31 \<and> bit popped 14 \<and> popped AND 0x3fff = md_register d AND 0x3fff \<and>
      \<not> bit (e rotated) 15 \<and> \<not> bit (e rotated) 16) \<and>
    (case fused_return d popped rotated rot of None \<Rightarrow> True
     | Some f \<Rightarrow> fu_handler f < 2 ^ 14 \<and> (fu_keep f \<longleftrightarrow> \<not> bit (e rotated) 14) \<and>
         (case fu_operand f of None \<Rightarrow> True
          | Some op \<Rightarrow> unat (operand_address d op) =
              (if op_arg op then unat (md_ap d) + 1 else unat (md_localp d)) + unat (op_delta op) \<and>
              unat (operand_address d op) < 2 ^ 14 + 2 ^ 6))"
proof -
  have ix: "unat (rotated AND (of_nat MD_ENTRIES - 1)) = unat rotated mod MD_ENTRIES"
    unfolding entries_mask unat_and_mask_mod by (simp add: MD_ENTRIES_def)
  have rp: "w AND (MD_R OR MD_P) = 0 \<longleftrightarrow> \<not> bit w 15 \<and> \<not> bit w 16" for w
    unfolding MD_R_def MD_P_def bit.conj_disj_distrib or_eq_0_iff and_bit_set by blast
  have n: "w AND MD_N = 0 \<longleftrightarrow> \<not> bit w 14" for w by (simp only: MD_N_def and_bit_set)
  have en: "w AND MD_ENABLE = 0 \<longleftrightarrow> \<not> bit w 31" for w by (simp only: MD_ENABLE_def and_bit_set)
  have m: "(0x3fff :: u32) = mask 14" "(0x3f :: u8) = mask 6" by (simp_all add: mask_eq_exp_minus_1)
  have h: "ucast (w AND 0x3fff :: u32) < (2 ^ 14 :: u16)" for w
    unfolding m using unat_ucast_less [OF unat_and_mask_less [of 14 w], where 'b = 16]
    by (subst word_less_exp_iff_unat) simp_all
  have b: "unat (md_ap d) < 2 ^ 14" "unat (md_localp d) < 2 ^ 14"
    using assms(1) unat_and_mask_less [of 14 "md_ap d"] unat_and_mask_less [of 14 "md_localp d"]
    by (simp_all only: md_safe_def MD_BASE_BITS_def m) simp_all
  have a: "unat (operand_address d op) =
      (if op_arg op then unat (md_ap d) + 1 else unat (md_localp d)) + unat (op_delta op) \<and>
      unat (operand_address d op) < 2 ^ 14 + 2 ^ 6" if "op_delta op AND 0x3f = op_delta op" for op
  proof -
    have "unat (op_delta op AND mask 6) < 2 ^ 6" by (rule unat_and_mask_less) simp
    then have dl: "unat (op_delta op) < 2 ^ 6" using that by (simp only: m)
    then have "unat (ucast (op_delta op) :: u32) = unat (op_delta op)"
      by (simp add: unsigned_ucast_eq take_bit_nat_eq_self_iff)
    then show ?thesis
      using b dl by (auto simp: operand_address_def unat_word_ariths)
  qed
  have "fused_return d popped rotated rot =
      (if bit (md_register d) 31 \<and> bit popped 14 \<and> popped AND 0x3fff = md_register d AND 0x3fff \<and>
          \<not> bit (e rotated) 15 \<and> \<not> bit (e rotated) 16
       then Some \<lparr>fu_handler = ucast (e rotated AND 0x3fff), fu_keep = (\<not> bit (e rotated) 14),
         fu_operand = md_operand (e rotated) rotated rot\<rparr>
       else None)"
    unfolding fused_return_def ix e_def Let_def rp n en and_bit_set md_main_def by auto
  moreover have "case md_operand (e rotated) rotated rot of None \<Rightarrow> True
      | Some op \<Rightarrow> unat (operand_address d op) =
          (if op_arg op then unat (md_ap d) + 1 else unat (md_localp d)) + unat (op_delta op) \<and>
          unat (operand_address d op) < 2 ^ 14 + 2 ^ 6"
    by (rule option.split [THEN iffD2]) (use a [OF operand_fits] in blast)
  ultimately show ?thesis using h [of "e rotated"] by simp
qed

lemma fused_return_taken_witness:
  "let d = md_default\<lparr>md_register := 0x80000123, md_entries := replicate MD_ENTRIES 0x20055, md_localp := 7\<rparr>;
       f = fused_return d 0x4123 5 26
   in f \<noteq> None \<and> fu_handler (the f) < 2 ^ 14"
  using fused_return_taken [of "md_default\<lparr>md_register := 0x80000123,
      md_entries := replicate MD_ENTRIES 0x20055, md_localp := 7\<rparr>" "0x4123" 5 26]
  by (auto simp: md_safe_def md_default_def MD_ENTRIES_def MD_BASE_BITS_def Let_def bit_numeral_word_iff
      split: option.splits)

section \<open>Checkpoints\<close>

lemma codes_operand:
  assumes "op_delta op AND 0x3f = op_delta op"
  shows "codes n (operand_save op) operand_load op"
  unfolding operand_save_def operand_load_def
  by (rule codes_step)+ (simp add: codes_end assms)

text \<open>On a machine with words of \<open>n\<close> bytes.\<close>

definition md_fits :: "nat \<Rightarrow> macro_dispatch \<Rightarrow> bool" where
  "md_fits n d \<longleftrightarrow> md_safe d \<and> n \<le> 8 \<and> (\<forall>v. md_m31 d = Some v \<longrightarrow> v < 2 ^ (8 * n) \<or> n = 8)"

lemma codes_md:
  assumes "md_fits n d"
  shows "codes n (md_save d) md_load d"
proof -
  have s: "md_safe d" and fits: "n \<le> 8" "\<And>v. md_m31 d = Some v \<Longrightarrow> v < 2 ^ (8 * n) \<or> n = 8"
    using assms by (auto simp: md_fits_def)
  have e: "codes n (put_u32s (md_entries d)) (get_u32s_into MD_ENTRIES) (md_entries d)"
    using s by (intro codes_u32s_into) (simp_all add: md_safe_def MD_ENTRIES_def)
  have o: "codes n (put_opt operand_save (md_operand_armed d)) (get_opt operand_load) (md_operand_armed d)"
    using s by (intro codes_opt codes_operand) (simp add: md_safe_def)
  have m: "codes n (put_opt put_word (md_m31 d)) (get_opt get_word) (md_m31 d)"
    using fits by (intro codes_opt codes_word) auto
  show ?thesis
    unfolding md_save_def md_load_def
    by (rule codes_step codes_cons [OF e] codes_cons [OF o] codes_cons [OF m])+
      (use s in \<open>simp add: codes_end md_safe_def not_le [symmetric]\<close>)
qed

interpretation macro_dispatch: codec n "md_fits n" md_save md_load for n
  by unfold_locales (rule codes_md)

text \<open>
  No checkpoint can break the register. Whatever bytes a file holds, if they load at all then the index
  is inside the memory, the memory has all its entries, and the base copies and an armed
  operand's delta are within their bits; an index past ten bits is refused.
\<close>

theorem md_load_safe:
  assumes "md_load r = Inr (d, r')"
  shows "md_safe d"
proof -
  have "op_delta op AND 0x3f = op_delta op" if "get_opt operand_load s = Inr (Some op, s')" for op s s'
    using that by (auto simp: get_opt_def operand_load_def rd_bind_Inr and.assoc split: if_splits)
  then show ?thesis
    using assms
    by (auto simp: md_load_def rd_bind_Inr md_safe_def and.assoc dest!: length_u32s_into split: if_splits)
qed

lemma md_load_safe_witness:
  "md_safe (fst (projr (md_load \<lparr>r_data = writer_finish (md_save md_default writer_new), r_at = 0, r_word_bytes = 4\<rparr>)))"
proof -
  have "md_fits 4 md_default" by (simp add: md_fits_def md_safe_default) (simp add: md_default_def)
  then obtain r where "md_load \<lparr>r_data = writer_finish (md_save md_default writer_new), r_at = 0,
      r_word_bytes = 4\<rparr> = Inr (md_default, r)"
    using macro_dispatch.resumes_whole [of 4 md_default writer_new]
    by (auto simp: writer_new_def WORD_BYTES_32_def)
  then show ?thesis using md_load_safe by auto
qed

end
