(* ===== verification/Timers.thy ===== *)
theory Timers
  imports Codec
begin

text \<open>
  QUUX's clocks, from \<open>src/machine.rs\<close>: the real-time clock \<open>Rtc\<close>, the interval timers \<open>IntervalTimer\<close>
  and \<open>Timers\<close>. A timer keeps one deadline; its specification says when its flag is up from the
  history of writes alone, as a rise on the start's grid that no clear has taken down, and
  the lemmas show that the deadline implements it under every sequence of writes.
\<close>

section \<open>The real-time clock\<close>

datatype rtc = Host | Counted (rtc_start: u32) (rtc_base_ns: u64)

text \<open>The host's clock at the read, in seconds since 1970, is the argument \<open>host\<close>.\<close>

definition rtc_seconds :: "u64 \<Rightarrow> rtc \<Rightarrow> u64 \<Rightarrow> u32" where
  "rtc_seconds host r ns =
     (let s = (case r of
          Host \<Rightarrow> host
        | Counted start base_ns \<Rightarrow>
            ucast start + (if base_ns \<le> ns then ns - base_ns else 0) div 1000000000)
      in ucast (min s 0xffffffff))"

definition rtc_save :: "rtc \<Rightarrow> writer \<Rightarrow> writer" where
  "rtc_save r = put_opt (\<lambda>(start, base_ns). put_all [put_u32 start, put_u64 base_ns])
     (case r of Host \<Rightarrow> None | Counted start base_ns \<Rightarrow> Some (start, base_ns))"

definition rtc_load :: "rtc rd" where
  "rtc_load = rd_bind get_bool (\<lambda>b.
     if b then rd_bind get_u32 (\<lambda>start. rd_bind get_u64 (\<lambda>base_ns. rd_return (Counted start base_ns)))
     else rd_return Host)"

section \<open>The interval timers\<close>

text \<open>\<open>u64::MAX\<close>, a deadline that never comes.\<close>

definition NEVER :: nat where "NEVER = 2 ^ 64 - 1"

record interval_timer =
  it_on :: bool
  it_one_shot :: bool
  it_interrupt_enable :: bool
  it_period_us :: u32
  it_deadline_ns :: nat

definition IT_RESET :: interval_timer where
  "IT_RESET = \<lparr>it_on = False, it_one_shot = False, it_interrupt_enable = False, it_period_us = 0,
     it_deadline_ns = NEVER\<rparr>"

definition IT_ON :: u32 where "IT_ON = 1"
definition IT_FLAG :: u32 where "IT_FLAG = 2"
definition IT_ONE_SHOT :: u32 where "IT_ONE_SHOT = 4"
definition IT_INTERRUPT_ENABLE :: u32 where "IT_INTERRUPT_ENABLE = push_bit 8 1"

definition it_flag :: "interval_timer \<Rightarrow> nat \<Rightarrow> bool" where
  "it_flag t now \<longleftrightarrow> it_deadline_ns t \<le> now"

definition it_interrupt :: "interval_timer \<Rightarrow> nat \<Rightarrow> bool" where
  "it_interrupt t now \<longleftrightarrow> it_interrupt_enable t \<and> it_flag t now"

definition it_status :: "interval_timer \<Rightarrow> nat \<Rightarrow> u32" where
  "it_status t now =
     of_flag (it_on t) OR push_bit 1 (of_flag (it_flag t now)) OR push_bit 2 (of_flag (it_one_shot t)) OR
     (if it_interrupt_enable t then IT_INTERRUPT_ENABLE else 0)"

text \<open>A period in nanoseconds, and the sums of times, modulo \<open>2 ^ 64\<close>.\<close>

definition it_period_ns :: "u32 \<Rightarrow> nat" where
  "it_period_ns period_us = unat period_us * 1000"

definition it_after :: "nat \<Rightarrow> u32 \<Rightarrow> nat" where
  "it_after now period_us = (if period_us = 0 then NEVER else (now + it_period_ns period_us) mod 2 ^ 64)"

definition it_write_control :: "nat \<Rightarrow> u32 \<Rightarrow> interval_timer \<Rightarrow> interval_timer" where
  "it_write_control now v t =
     (let on = (v AND IT_ON \<noteq> 0);
          t = (if on \<and> \<not> it_on t
               then t\<lparr>it_one_shot := (v AND IT_ONE_SHOT \<noteq> 0), it_deadline_ns := it_after now (it_period_us t)\<rparr>
               else if v AND IT_FLAG \<noteq> 0 \<and> it_flag t now
               then t\<lparr>it_deadline_ns :=
                  (if it_one_shot t \<or> it_period_us t = 0 then NEVER
                   else let p = it_period_ns (it_period_us t)
                        in (it_deadline_ns t + (now - it_deadline_ns t) div p * p + p) mod 2 ^ 64)\<rparr>
               else t);
          t = (if \<not> on then t\<lparr>it_deadline_ns := NEVER\<rparr> else t)
      in t\<lparr>it_on := on, it_interrupt_enable := (v AND IT_INTERRUPT_ENABLE \<noteq> 0)\<rparr>)"

definition it_write_period :: "nat \<Rightarrow> u32 \<Rightarrow> interval_timer \<Rightarrow> interval_timer" where
  "it_write_period now v t =
     (let t = t\<lparr>it_period_us := v AND 0xffffff\<rparr>
      in if it_on t then t\<lparr>it_deadline_ns := it_after now (it_period_us t)\<rparr> else t)"

type_synonym timers = "interval_timer list"

definition TICK_PERIOD_US :: u32 where "TICK_PERIOD_US = 16667"
definition INTERRUPT_BITS :: "u32 list" where "INTERRUPT_BITS = [push_bit 0 1, push_bit 1 1, push_bit 2 1]"

definition timers_new :: timers where "timers_new = replicate 3 IT_RESET"

definition timers_interrupt_sources :: "timers \<Rightarrow> nat \<Rightarrow> u32" where
  "timers_interrupt_sources ts now =
     sum_list (map (\<lambda>k. INTERRUPT_BITS ! k) (filter (\<lambda>k. it_interrupt (ts ! k) now) [0..<3]))"

definition timers_pending :: "timers \<Rightarrow> nat \<Rightarrow> bool" where
  "timers_pending ts now \<longleftrightarrow> list_ex (\<lambda>t. it_interrupt t now) ts"

definition timers_word :: "u32 \<Rightarrow> (nat \<times> bool) option" where
  "timers_word w = (if 0x48 \<le> w \<and> w \<le> 0x4d then Some (unat ((w - 0x48) div 2), bit w 0) else None)"

definition timers_read :: "timers \<Rightarrow> u32 \<Rightarrow> nat \<Rightarrow> u32 option" where
  "timers_read ts w now =
     (case timers_word w of
        None \<Rightarrow> None
      | Some (k, period) \<Rightarrow>
          let t = ts ! k in Some (if period then it_period_us t else it_status t now))"

text \<open>The timers after the write, and whether the word is a timer's.\<close>

definition timers_write :: "u32 \<Rightarrow> u32 \<Rightarrow> nat \<Rightarrow> timers \<Rightarrow> timers \<times> bool" where
  "timers_write w v now ts =
     (case timers_word w of
        None \<Rightarrow> (ts, False)
      | Some (k, period) \<Rightarrow>
          (ts[k := (if period then it_write_period now v (ts ! k) else it_write_control now v (ts ! k))], True))"

definition timers_microseconds :: "nat \<Rightarrow> u32" where
  "timers_microseconds now = of_nat (now div 1000)"

definition it_save :: "interval_timer \<Rightarrow> writer \<Rightarrow> writer" where
  "it_save t = put_all
     [put_bool (it_on t), put_bool (it_one_shot t), put_bool (it_interrupt_enable t),
      put_u32 (it_period_us t), put_u64 (of_nat (it_deadline_ns t))]"

definition it_load :: "interval_timer rd" where
  "it_load =
     rd_bind get_bool (\<lambda>on. rd_bind get_bool (\<lambda>one_shot. rd_bind get_bool (\<lambda>interrupt_enable.
     rd_bind get_u32 (\<lambda>period_us. rd_bind get_u64 (\<lambda>deadline_ns.
     rd_return \<lparr>it_on = on, it_one_shot = one_shot, it_interrupt_enable = interrupt_enable,
       it_period_us = period_us, it_deadline_ns = unat deadline_ns\<rparr>)))))"

definition timers_save :: "timers \<Rightarrow> writer \<Rightarrow> writer" where
  "timers_save = fold it_save"

definition timers_load :: "timers rd" where
  "timers_load = get_many 3 it_load"

section \<open>When a timer's flag is up\<close>

text \<open>
  The specification keeps the history that matters: when the timer was last started and when its
  flag was last cleared. A rise is a boundary of the start's grid, the first one only for a
  one-shot; the flag is up when a rise has come since the last clear.
\<close>

record timer_spec =
  sp_on :: bool
  sp_one_shot :: bool
  sp_period :: nat
  sp_start :: nat
  sp_cleared :: nat

definition spec_reset :: timer_spec where
  "spec_reset = \<lparr>sp_on = False, sp_one_shot = False, sp_period = 0, sp_start = 0, sp_cleared = 0\<rparr>"

definition spec_flag :: "timer_spec \<Rightarrow> nat \<Rightarrow> bool" where
  "spec_flag s now \<longleftrightarrow> sp_on s \<and> 0 < sp_period s \<and>
     (\<exists>k \<ge> 1. (sp_one_shot s \<longrightarrow> k = 1) \<and> sp_cleared s < sp_start s + k * sp_period s \<and>
        sp_start s + k * sp_period s \<le> now)"

definition spec_start :: "nat \<Rightarrow> timer_spec \<Rightarrow> timer_spec" where
  "spec_start now s = s\<lparr>sp_start := now, sp_cleared := now\<rparr>"

definition spec_control :: "nat \<Rightarrow> u32 \<Rightarrow> timer_spec \<Rightarrow> timer_spec" where
  "spec_control now v s =
     (let s = (if bit v 0 \<and> \<not> sp_on s then spec_start now (s\<lparr>sp_one_shot := bit v 2\<rparr>)
               else if bit v 1 then s\<lparr>sp_cleared := now\<rparr> else s)
      in s\<lparr>sp_on := bit v 0\<rparr>)"

definition spec_period :: "nat \<Rightarrow> u32 \<Rightarrow> timer_spec \<Rightarrow> timer_spec" where
  "spec_period now v s =
     (let s = s\<lparr>sp_period := (unat v mod 2 ^ 24) * 1000\<rparr> in if sp_on s then spec_start now s else s)"

text \<open>The deadline a history calls for.\<close>

definition next_rise :: "timer_spec \<Rightarrow> nat" where
  "next_rise s =
     (if \<not> sp_on s \<or> sp_period s = 0 then NEVER
      else if sp_one_shot s
        then (if sp_cleared s < sp_start s + sp_period s then sp_start s + sp_period s else NEVER)
      else sp_start s + ((sp_cleared s - sp_start s) div sp_period s + 1) * sp_period s)"

lemma grid_next:
  fixes c p st :: nat
  assumes "0 < p" "st \<le> c"
  shows "c < st + ((c - st) div p + 1) * p" "st + (c - st) div p * p \<le> c"
proof -
  define q r where "q = (c - st) div p" and "r = (c - st) mod p"
  have "c - st = q * p + r" "r < p" using assms(1) by (simp_all add: q_def r_def)
  then have c: "c = st + q * p + r" "r < p" using assms(2) by simp_all
  show "c < st + ((c - st) div p + 1) * p" "st + (c - st) div p * p \<le> c"
    unfolding q_def [symmetric] using c by (simp_all add: algebra_simps)
qed

lemma spec_flag_iff:
  assumes "sp_start s \<le> sp_cleared s" "now < NEVER"
  shows "spec_flag s now \<longleftrightarrow> next_rise s \<le> now"
proof (cases "sp_on s \<and> 0 < sp_period s")
  case False
  then show ?thesis using assms(2) by (auto simp: spec_flag_def next_rise_def)
next
  case True
  let ?p = "sp_period s" and ?st = "sp_start s" and ?c = "sp_cleared s"
  show ?thesis
  proof (cases "sp_one_shot s")
    case one: True
    then show ?thesis using True assms(2) by (auto simp: spec_flag_def next_rise_def intro: exI [of _ 1])
  next
    case False
    have n: "next_rise s = ?st + ((?c - ?st) div ?p + 1) * ?p"
      using True False by (simp add: next_rise_def)
    have "(?c - ?st) div ?p + 1 \<le> k" if "?c < ?st + k * ?p" for k
    proof -
      have "(?c - ?st) div ?p * ?p < k * ?p"
        using grid_next(2) [of ?p ?st ?c] True assms(1) that by linarith
      then have "(?c - ?st) div ?p < k" by simp
      then show ?thesis by simp
    qed
    then have "next_rise s \<le> ?st + k * ?p" if "?c < ?st + k * ?p" for k
      unfolding n using mult_le_mono1 [of "(?c - ?st) div ?p + 1" k ?p] that by simp
    moreover have "?c < next_rise s"
      unfolding n using grid_next(1) [of ?p ?st ?c] True assms(1) by simp
    ultimately show ?thesis
      using True False n unfolding spec_flag_def
      by (auto intro!: exI [of _ "(?c - ?st) div ?p + 1"] elim: order_trans [rotated])
  qed
qed

text \<open>The timer keeps what its history calls for.\<close>

definition keeps :: "nat \<Rightarrow> interval_timer \<Rightarrow> timer_spec \<Rightarrow> bool" where
  "keeps now t s \<longleftrightarrow> it_on t = sp_on s \<and> (sp_on s \<longrightarrow> it_one_shot t = sp_one_shot s) \<and>
     it_period_ns (it_period_us t) = sp_period s \<and> unat (it_period_us t) < 2 ^ 24 \<and>
     it_deadline_ns t = next_rise s \<and> sp_start s \<le> sp_cleared s \<and> sp_cleared s \<le> now"

text \<open>Times that leave room for the longest period, so that no sum of times wraps.\<close>

definition in_time :: "nat \<Rightarrow> bool" where
  "in_time now \<longleftrightarrow> now + 2 ^ 24 * 1000 < NEVER"

lemma keeps_reset: "keeps 0 IT_RESET spec_reset"
  by (simp add: keeps_def IT_RESET_def spec_reset_def next_rise_def it_period_ns_def)

lemma keeps_flag: "keeps now t s \<Longrightarrow> now \<le> now' \<Longrightarrow> in_time now' \<Longrightarrow> it_flag t now' = spec_flag s now'"
  by (subst spec_flag_iff) (auto simp: keeps_def it_flag_def in_time_def)

lemma and_flags: "v AND IT_ON \<noteq> 0 \<longleftrightarrow> bit v 0" "v AND IT_FLAG \<noteq> 0 \<longleftrightarrow> bit v 1" "v AND IT_ONE_SHOT \<noteq> 0 \<longleftrightarrow> bit v 2"
  using and_bit_set [of v 0] and_bit_set [of v 1] and_bit_set [of v 2]
  by (simp_all add: IT_ON_def IT_FLAG_def IT_ONE_SHOT_def)

lemma it_after_exact:
  assumes "in_time now" "unat p < 2 ^ 24"
  shows "it_after now p = (if it_period_ns p = 0 then NEVER else now + it_period_ns p)"
  using assms by (auto simp: it_after_def it_period_ns_def in_time_def NEVER_def unat_eq_0)

text \<open>A clear moves the deadline to the first boundary after it.\<close>

lemma next_rise_clear:
  assumes "sp_on s" "sp_start s \<le> sp_cleared s" "sp_cleared s \<le> now" "now < NEVER"
  shows "next_rise (s\<lparr>sp_cleared := now\<rparr>) =
    (if next_rise s \<le> now
     then (if sp_one_shot s \<or> sp_period s = 0 then NEVER
           else next_rise s + (now - next_rise s) div sp_period s * sp_period s + sp_period s)
     else next_rise s)"
proof (cases "sp_one_shot s \<or> sp_period s = 0")
  case True
  then show ?thesis using assms by (auto simp: next_rise_def)
next
  case False
  let ?p = "sp_period s" and ?st = "sp_start s" and ?c = "sp_cleared s"
  define m where "m = (?c - ?st) div ?p"
  have n: "next_rise s = ?st + (m + 1) * ?p" using False assms(1) by (simp add: next_rise_def m_def)
  have n': "next_rise (s\<lparr>sp_cleared := now\<rparr>) = ?st + ((now - ?st) div ?p + 1) * ?p"
    using False assms(1) by (simp add: next_rise_def)
  show ?thesis
  proof (cases "next_rise s \<le> now")
    case le: True
    then obtain d where d: "now = ?st + (m + 1) * ?p + d" unfolding n using le_Suc_ex by blast
    have dd: "now - next_rise s = d" unfolding n by (simp add: d)
    have e: "(now - ?st) div ?p = m + 1 + d div ?p"
      using div_mult_self1 [of ?p d "m + 1"] False by (simp add: d add.commute)
    show ?thesis using le False unfolding n' e dd by (simp add: n algebra_simps)
  next
    case False': False
    have "m * ?p \<le> now - ?st" "now - ?st < (m + 1) * ?p"
      using grid_next(2) [of ?p ?st ?c] False False' assms unfolding n m_def by auto
    then have "(now - ?st) div ?p = m" using False by (intro div_nat_eqI) (simp_all add: algebra_simps)
    then show ?thesis using False' unfolding n' n by simp
  qed
qed

lemma keeps_control:
  assumes "keeps now0 t s" "now0 \<le> now" "in_time now"
  shows "keeps now (it_write_control now v t) (spec_control now v s)"
proof -
  have never: "now < NEVER" using assms(3) by (simp add: in_time_def)
  have k: "it_on t = sp_on s" "sp_on s \<Longrightarrow> it_one_shot t = sp_one_shot s"
    "it_period_ns (it_period_us t) = sp_period s" "unat (it_period_us t) < 2 ^ 24"
    "it_deadline_ns t = next_rise s" "sp_start s \<le> sp_cleared s" "sp_cleared s \<le> now"
    using assms(1,2) by (auto simp: keeps_def)
  have p0: "it_period_us t = 0 \<longleftrightarrow> sp_period s = 0"
    unfolding k(3) [symmetric] it_period_ns_def by (simp add: unat_eq_0)
  show ?thesis
  proof (cases "bit v 0")
    case off: False
    then show ?thesis
      using k by (auto simp: keeps_def it_write_control_def spec_control_def Let_def and_flags
          next_rise_def spec_start_def split: if_splits)
  next
    case on: True
    show ?thesis
    proof (cases "sp_on s")
      case False
      then show ?thesis
        using on k p0 it_after_exact [OF assms(3) k(4)]
        by (auto simp: keeps_def it_write_control_def spec_control_def Let_def and_flags
            next_rise_def spec_start_def)
    next
      case True
      have wrap: "(next_rise s + (now - next_rise s) div sp_period s * sp_period s + sp_period s) mod 2 ^ 64 =
          next_rise s + (now - next_rise s) div sp_period s * sp_period s + sp_period s"
        if "next_rise s \<le> now" "0 < sp_period s"
      proof -
        have "(now - next_rise s) div sp_period s * sp_period s \<le> now - next_rise s"
          by (rule div_times_less_eq_dividend)
        then have "next_rise s + (now - next_rise s) div sp_period s * sp_period s + sp_period s \<le> now + sp_period s"
          using that by linarith
        moreover have "sp_period s < 2 ^ 24 * 1000"
          using k(4) unfolding k(3) [symmetric] it_period_ns_def by simp
        ultimately show ?thesis using assms(3) by (simp add: in_time_def NEVER_def)
      qed
      have sc: "spec_control now v s = (if bit v 1 then s\<lparr>sp_cleared := now\<rparr> else s)"
        using on True by (cases s) (simp add: spec_control_def Let_def)
      have ic: "it_deadline_ns (it_write_control now v t) =
          (if bit v 1 then next_rise (s\<lparr>sp_cleared := now\<rparr>) else next_rise s)"
        using on True k p0 wrap next_rise_clear [OF True k(6,7) never]
        by (simp add: it_write_control_def Let_def and_flags it_flag_def)
      have "it_on (it_write_control now v t)" "it_one_shot (it_write_control now v t) = it_one_shot t"
        "it_period_us (it_write_control now v t) = it_period_us t"
        using on True k by (simp_all add: it_write_control_def Let_def and_flags)
      then show ?thesis
        using True k unfolding keeps_def sc ic by simp
    qed
  qed
qed

lemma keeps_period:
  assumes "keeps now0 t s" "now0 \<le> now" "in_time now"
  shows "keeps now (it_write_period now v t) (spec_period now v s)"
proof -
  have m: "(0xffffff :: u32) = mask 24" by (simp add: mask_eq_exp_minus_1)
  have p: "unat (v AND 0xffffff) = unat v mod 2 ^ 24" unfolding m by (rule unat_and_mask_mod)
  then have lt: "unat (v AND 0xffffff) < 2 ^ 24" by simp
  show ?thesis
    using assms it_after_exact [OF assms(3) lt]
    by (auto simp: keeps_def it_write_period_def spec_period_def Let_def spec_start_def next_rise_def
        it_period_ns_def p)
qed

section \<open>Every sequence of writes\<close>

datatype timer_op = Op_control nat u32 | Op_period nat u32

primrec op_time :: "timer_op \<Rightarrow> nat" where
  "op_time (Op_control now v) = now"
| "op_time (Op_period now v) = now"

text \<open>What any implementation of the timer has to keep, and what it then does.\<close>

locale timer_impl =
  fixes holds :: "nat \<Rightarrow> 't \<Rightarrow> timer_spec \<Rightarrow> bool"
    and control period :: "nat \<Rightarrow> u32 \<Rightarrow> 't \<Rightarrow> 't"
    and flag :: "'t \<Rightarrow> nat \<Rightarrow> bool"
  assumes control_holds: "holds now0 t s \<Longrightarrow> now0 \<le> now \<Longrightarrow> in_time now \<Longrightarrow>
      holds now (control now v t) (spec_control now v s)"
    and period_holds: "holds now0 t s \<Longrightarrow> now0 \<le> now \<Longrightarrow> in_time now \<Longrightarrow>
      holds now (period now v t) (spec_period now v s)"
    and flag_holds: "holds now0 t s \<Longrightarrow> now0 \<le> now \<Longrightarrow> in_time now \<Longrightarrow> flag t now = spec_flag s now"
begin

fun apply_op :: "timer_op \<Rightarrow> 't \<Rightarrow> 't" where
  "apply_op (Op_control now v) t = control now v t"
| "apply_op (Op_period now v) t = period now v t"

lemma run_holds:
  assumes "holds now0 t s" "sorted (now0 # map op_time ops @ [now])" "in_time now"
    and "\<And>op s. spec_op op s = (case op of Op_control n v \<Rightarrow> spec_control n v s | Op_period n v \<Rightarrow> spec_period n v s)"
  shows "flag (fold apply_op ops t) now = spec_flag (fold spec_op ops s) now"
  using assms
proof (induction ops arbitrary: now0 t s)
  case Nil
  then show ?case using flag_holds by auto
next
  case (Cons op ops)
  have "in_time (op_time op)" "now0 \<le> op_time op"
    using Cons.prems(2,3) by (auto simp: in_time_def)
  then have "holds (op_time op) (apply_op op t) (spec_op op s)"
    using Cons.prems(1,4) control_holds period_holds by (cases op) auto
  then show ?case using Cons.IH Cons.prems(2-4) by simp
qed

end

interpretation it: timer_impl keeps it_write_control it_write_period it_flag
  by unfold_locales (fact keeps_control keeps_period keeps_flag)+

definition it_apply :: "timer_op \<Rightarrow> interval_timer \<Rightarrow> interval_timer" where
  "it_apply op t = (case op of Op_control n v \<Rightarrow> it_write_control n v t | Op_period n v \<Rightarrow> it_write_period n v t)"

definition spec_apply :: "timer_op \<Rightarrow> timer_spec \<Rightarrow> timer_spec" where
  "spec_apply op s = (case op of Op_control n v \<Rightarrow> spec_control n v s | Op_period n v \<Rightarrow> spec_period n v s)"

text \<open>
  C14: a timer's deadline implements its history. After any writes of its two words, from the
  reset on, its flag is up at a later time exactly when a boundary of the grid that started at the
  last turn-on or period write has come since the last clear, the first boundary alone for a
  one-shot: rises merge while it is up, none is lost, and the grid does not slip.
\<close>

theorem timer_flag_by_history:
  assumes "sorted (map op_time ops @ [now])" "in_time now"
  shows "it_flag (fold it_apply ops IT_RESET) now = spec_flag (fold spec_apply ops spec_reset) now"
proof -
  have "it_apply = it.apply_op"
  proof (intro ext)
    show "it_apply op t = it.apply_op op t" for op t by (cases op) (simp_all add: it_apply_def)
  qed
  moreover have "sorted (0 # map op_time ops @ [now])" using assms(1) by simp
  ultimately show ?thesis
    using it.run_holds [OF keeps_reset _ assms(2), of ops spec_apply] by (simp add: spec_apply_def)
qed

lemma timer_flag_by_history_witness:
  "it_flag (fold it_apply [Op_period 5 3, Op_control 10 0x101, Op_control 3500 0x103] IT_RESET) 6100 =
   spec_flag (fold spec_apply [Op_period 5 3, Op_control 10 0x101, Op_control 3500 0x103] spec_reset) 6100"
  by (rule timer_flag_by_history) (simp_all add: in_time_def NEVER_def)

section \<open>The three of them on the register page\<close>

lemma timers_word_cases:
  assumes "k < 3"
  shows "timers_word (0x48 + 2 * of_nat k) = Some (k, False)" "timers_word (0x49 + 2 * of_nat k) = Some (k, True)"
proof -
  have "k = 0 \<or> k = 1 \<or> k = 2" using assms by auto
  then show "timers_word (0x48 + 2 * of_nat k) = Some (k, False)" "timers_word (0x49 + 2 * of_nat k) = Some (k, True)"
    by (auto simp: timers_word_def)
qed

lemma and_one_of_flag: "v AND IT_ON = of_flag (bit v 0)"
  by (simp add: IT_ON_def of_flag_def and_one_eq bit_0 odd_iff_mod_2_eq_one)

lemma it_status_bits:
  "bit (it_status t now) 0 = it_on t" "bit (it_status t now) 1 = it_flag t now"
  "bit (it_status t now) 2 = it_one_shot t" "bit (it_status t now) 8 = it_interrupt_enable t"
  by (auto simp: it_status_def IT_INTERRUPT_ENABLE_def of_flag_def bit_or_iff bit_simps)

lemma interrupt_source_bit:
  assumes "k < 3"
  shows "bit (timers_interrupt_sources ts now) k \<longleftrightarrow> it_interrupt (ts ! k) now"
proof -
  have u: "[0..<3] = [0, 1, 2 :: nat]" by (simp add: upt_rec)
  have "k = 0 \<or> k = 1 \<or> k = 2" using assms by auto
  then show ?thesis
    unfolding timers_interrupt_sources_def u
    by (cases "it_interrupt (ts ! 0) now"; cases "it_interrupt (ts ! 1) now"; cases "it_interrupt (ts ! 2) now")
      (auto simp: INTERRUPT_BITS_def)
qed

text \<open>
  The page's words are the timers'. Writing a timer's period word sets that timer's period, which reads back,
  and neither word of a timer reaches another; a word outside the six is refused and changes
  nothing; and each bit of the interrupt word is its timer's flag under its own enable.
\<close>

theorem timers_on_the_page:
  assumes "length ts = 3" "k < 3"
  shows "let (ts', ours) = timers_write (0x49 + 2 * of_nat k) v now ts;
             (ts'', ours') = timers_write (0x48 + 2 * of_nat k) v now ts
    in ours \<and> ours' \<and> timers_read ts' (0x49 + 2 * of_nat k) now' = Some (v AND 0xffffff) \<and>
       it_status (ts'' ! k) now AND IT_ON = v AND IT_ON \<and>
       (\<forall>j. j \<noteq> k \<longrightarrow> ts' ! j = ts ! j \<and> ts'' ! j = ts ! j) \<and>
       (bit (timers_interrupt_sources ts now) k \<longleftrightarrow> it_interrupt_enable (ts ! k) \<and> it_flag (ts ! k) now)"
  unfolding interrupt_source_bit [OF assms(2)] and_one_of_flag
  using assms
  by (simp add: timers_write_def timers_read_def timers_word_cases Let_def it_status_bits
      it_interrupt_def it_write_period_def it_write_control_def and_flags split_beta)

lemma timers_on_the_page_witness:
  "timers_read (fst (timers_write (0x49 + 2 * of_nat 1) 0x12345678 9 timers_new)) (0x49 + 2 * of_nat 1) 9 =
   Some (0x12345678 AND 0xffffff)"
  using timers_on_the_page [of timers_new 1 "0x12345678" 9 9] by (simp add: timers_new_def Let_def split_beta)

section \<open>The counted clock\<close>

text \<open>
  The counted real-time clock. It reads its start at its base and before, gains a second for each
  thousand million nanoseconds, never goes back, and holds at the last second of 32 bits rather than wrap.
\<close>

theorem rtc_counted:
  fixes ns d :: u64
  assumes "unat ns + unat d < 2 ^ 64"
  shows "unat (rtc_seconds host (Counted start base_ns) ns) =
      min (unat start + (unat ns - unat base_ns) div 1000000000) (2 ^ 32 - 1) \<and>
    rtc_seconds host (Counted start base_ns) ns \<le> rtc_seconds host (Counted start base_ns) (ns + d)"
proof -
  have s: "unat (rtc_seconds host (Counted start base_ns) ns) =
      min (unat start + (unat ns - unat base_ns) div 1000000000) (2 ^ 32 - 1)" for ns
  proof -
    define e where "e = (if base_ns \<le> ns then ns - base_ns else 0) div 1000000000"
    have e: "unat e = (unat ns - unat base_ns) div 1000000000"
      by (auto simp: e_def unat_div unat_sub word_le_nat_alt)
    have "unat e < 2 ^ 63" unfolding e using unsigned_less [where 'a=nat, of ns] by (simp add: div_less_iff_less_mult)
    moreover have "unat start < 2 ^ 32" using unsigned_less [where 'a=nat, of start] by simp
    moreover from this have "take_bit 64 (unat start) = unat start" by (simp add: take_bit_nat_eq_self)
    ultimately have sum: "unat (ucast start + e :: u64) = unat start + unat e"
      by (subst unat_add_exact) (simp_all add: unsigned_ucast_eq)
    have "unat (ucast (min (ucast start + e) 0xffffffff :: u64) :: u32) = min (unat start + unat e) (2 ^ 32 - 1)"
      using sum by (auto simp: min_def word_le_nat_alt unsigned_ucast_eq take_bit_nat_eq_self_iff)
    then show ?thesis by (simp add: rtc_seconds_def e_def [symmetric] e Let_def)
  qed
  have "unat (ns + d) = unat ns + unat d" using assms by (intro unat_add_exact) simp
  then have "(unat ns - unat base_ns) div 1000000000 \<le> (unat (ns + d) - unat base_ns) div 1000000000"
    by (intro div_le_mono) simp
  then have "min (unat start + (unat ns - unat base_ns) div 1000000000) (2 ^ 32 - 1)
      \<le> min (unat start + (unat (ns + d) - unat base_ns) div 1000000000) (2 ^ 32 - 1)"
    by (intro min.mono add_left_mono order_refl)
  then show ?thesis by (simp only: word_le_nat_alt s simp_thms)
qed

lemma rtc_counted_witness: "unat (rtc_seconds 7 (Counted 100 5) 3000000005) = 103"
  using rtc_counted [of "3000000005" 0 7 100 5] by simp

section \<open>Checkpoints\<close>

lemma codes_rtc [codes_intros]: "codes n (rtc_save r) rtc_load r"
proof (cases r)
  case Host
  have "codes n (put_all [put_bool False]) rtc_load Host"
    unfolding rtc_load_def by (rule codes_cons [OF codes_bool]) (simp add: codes_nil del: put_all.simps)
  then show ?thesis by (simp add: Host rtc_save_def put_opt_def codes_def)
next
  case (Counted start base_ns)
  have "codes n (put_all [put_bool True, put_u32 start, put_u64 base_ns]) rtc_load r"
    unfolding rtc_load_def Counted
    by (rule codes_cons [OF codes_bool], simp only: if_True, (rule codes_step)+) (simp add: codes_end)
  then show ?thesis by (simp add: Counted rtc_save_def put_opt_def codes_def)
qed

lemma codes_it: "it_deadline_ns t < 2 ^ 64 \<Longrightarrow> codes n (it_save t) it_load t"
  unfolding it_save_def it_load_def
  by (rule codes_step)+ (simp add: codes_end unat_of_nat_64)

definition timers_fit :: "timers \<Rightarrow> bool" where
  "timers_fit ts \<longleftrightarrow> length ts = 3 \<and> (\<forall>t \<in> set ts. it_deadline_ns t < 2 ^ 64)"

lemma codes_timers [codes_intros]: "timers_fit ts \<Longrightarrow> codes n (timers_save ts) timers_load ts"
  unfolding timers_save_def timers_load_def timers_fit_def
  using codes_many [of ts n it_save it_load] codes_it by force

interpretation rtc: codec n "\<lambda>_. True" rtc_save rtc_load for n
  by unfold_locales (rule codes_rtc)

interpretation timers: codec n timers_fit timers_save timers_load for n
  by unfold_locales (rule codes_timers)

end
