(* ===== verification/Cache.thy ===== *)
theory Cache
  imports Codec
begin

text \<open>
  QUUX's memory cache, \<open>src/cache.rs\<close>: the tags of a set-associative cache with least recently used
  replacement, its shape's check, and its checkpoint. The specification is the history of the lines
  read since the cache was last emptied; the sets are shown to hold the most recent distinct lines of it.
\<close>

section \<open>Shape and timing\<close>

record memory_timing =
  mt_read_ns :: u64
  mt_write_ns :: u64

definition ARTY_Z7_20 :: memory_timing where
  "ARTY_Z7_20 = \<lparr>mt_read_ns = 220, mt_write_ns = 120\<rparr>"

definition DE25_NANO :: memory_timing where
  "DE25_NANO = \<lparr>mt_read_ns = 380, mt_write_ns = 290\<rparr>"

definition MEMORY_NOMINAL :: memory_timing where
  "MEMORY_NOMINAL = DE25_NANO"

record cache_config =
  cc_words :: u32
  cc_line_words :: u32
  cc_ways :: u32
  cc_hit_ns :: u64
  cc_write_buffer :: bool

definition with_words :: "u32 \<Rightarrow> cache_config" where
  "with_words words =
     \<lparr>cc_words = words, cc_line_words = 4, cc_ways = 2, cc_hit_ns = 20, cc_write_buffer = True\<rparr>"

definition CACHE_QUUX :: cache_config where
  "CACHE_QUUX = with_words 4096"

text \<open>The standard library's \<open>is_power_of_two\<close>: one bit is set.\<close>

definition is_power_of_two :: "u32 \<Rightarrow> bool" where
  "is_power_of_two n \<longleftrightarrow> length (filter (bit n) [0..<32]) = 1"

datatype shape_error = Not_powers_of_two | Fewer_words_than_a_set

text \<open>The product is a \<open>u32\<close>'s, which wraps in a release build.\<close>

definition cc_check :: "cache_config \<Rightarrow> shape_error + unit" where
  "cc_check c =
     (if \<not> is_power_of_two (cc_words c) \<or> \<not> is_power_of_two (cc_line_words c) \<or> \<not> is_power_of_two (cc_ways c)
      then Inl Not_powers_of_two
      else if cc_words c < cc_line_words c * cc_ways c then Inl Fewer_words_than_a_set
      else Inr ())"

definition cc_sets :: "cache_config \<Rightarrow> u32" where
  "cc_sets c = cc_words c div cc_line_words c div cc_ways c"

section \<open>The cache\<close>

record cache =
  c_config :: cache_config
  c_sets :: "u32 list list"
  c_hits :: u64
  c_misses :: u64

definition cache_new :: "cache_config \<Rightarrow> cache" where
  "cache_new config =
     \<lparr>c_config = config, c_sets = replicate (unat (cc_sets config)) [], c_hits = 0, c_misses = 0\<rparr>"

definition set_of :: "cache \<Rightarrow> u32 \<Rightarrow> nat" where
  "set_of c line = unat (line mod cc_sets (c_config c))"

definition cache_line :: "cache \<Rightarrow> u32 \<Rightarrow> u32" where
  "cache_line c phys = phys div cc_line_words (c_config c)"

definition cache_read :: "u32 \<Rightarrow> cache \<Rightarrow> bool \<times> cache" where
  "cache_read phys c =
     (let line = cache_line c phys; ways = unat (cc_ways (c_config c)); set = set_of c line; s = c_sets c ! set
      in if line \<in> List.set s
         then (True, c\<lparr>c_sets := (c_sets c)[set := line # remove1 line s], c_hits := c_hits c + 1\<rparr>)
         else (False, c\<lparr>c_sets := (c_sets c)[set := take ways (line # s)], c_misses := c_misses c + 1\<rparr>))"

definition cache_holds :: "cache \<Rightarrow> u32 \<Rightarrow> bool" where
  "cache_holds c phys = (let line = cache_line c phys in line \<in> set (c_sets c ! set_of c line))"

definition invalidate :: "cache \<Rightarrow> cache" where
  "invalidate c = c\<lparr>c_sets := map (\<lambda>_. []) (c_sets c)\<rparr>"

definition put_set :: "u32 list \<Rightarrow> writer \<Rightarrow> writer" where
  "put_set s w = fold put_u32 s (put_u32 (of_nat (length s)) w)"

definition cache_save :: "cache \<Rightarrow> writer \<Rightarrow> writer" where
  "cache_save c = put_all
     [put_u32 (cc_words (c_config c)), put_u32 (cc_line_words (c_config c)), put_u32 (cc_ways (c_config c)),
      put_u64 (cc_hit_ns (c_config c)), put_bool (cc_write_buffer (c_config c)),
      put_u64 (c_hits c), put_u64 (c_misses c), fold put_set (c_sets c)]"

definition get_set :: "u32 \<Rightarrow> u32 list rd" where
  "get_set ways = rd_bind get_u32 (\<lambda>n.
     if ways < n then rd_fail Bad_value else get_many (unat n) get_u32)"

definition cache_load :: "cache rd" where
  "cache_load =
     rd_bind get_u32 (\<lambda>words. rd_bind get_u32 (\<lambda>line_words. rd_bind get_u32 (\<lambda>ways.
     rd_bind get_u64 (\<lambda>hit_ns. rd_bind get_bool (\<lambda>write_buffer.
       let config = \<lparr>cc_words = words, cc_line_words = line_words, cc_ways = ways, cc_hit_ns = hit_ns,
         cc_write_buffer = write_buffer\<rparr>
       in case cc_check config of Inl _ \<Rightarrow> rd_fail Bad_value
       | Inr _ \<Rightarrow>
         let c = cache_new config
         in rd_bind get_u64 (\<lambda>hits. rd_bind get_u64 (\<lambda>misses.
            rd_bind (get_many (length (c_sets c)) (get_set ways)) (\<lambda>sets.
              rd_return (c\<lparr>c_hits := hits, c_misses := misses, c_sets := sets\<rparr>)))))))))"

section \<open>The shape\<close>

lemma is_power_of_two_exp:
  assumes "is_power_of_two n"
  obtains k where "k < 32" "n = push_bit k 1" "unat n = 2 ^ k"
proof -
  obtain k where f: "filter (bit n) [0..<32] = [k]"
    using assms unfolding is_power_of_two_def One_nat_def length_Suc_conv by auto
  have k: "i < 32 \<and> bit n i \<longleftrightarrow> i = k" for i
    using arg_cong [OF f, of set] by auto
  have n: "n = push_bit k 1"
    by (rule bit_word_eqI) (use k in \<open>auto simp: bit_simps\<close>)
  moreover have "unat n = 2 ^ k"
    using k [of k] by (simp add: n push_bit_eq_mult unat_exp)
  ultimately show ?thesis using that k by blast
qed

text \<open>A configuration that passes the check, its line and ways not past 32 bits together.\<close>

definition shape_ok :: "cache_config \<Rightarrow> bool" where
  "shape_ok c \<longleftrightarrow> cc_check c = Inr () \<and> unat (cc_line_words c) * unat (cc_ways c) < 2 ^ 32"

lemma shape_ok_sets:
  assumes "shape_ok c"
  shows "unat (cc_sets c) * unat (cc_ways c) * unat (cc_line_words c) = unat (cc_words c)"
    and "0 < unat (cc_sets c)" and "0 < unat (cc_ways c)" and "0 < unat (cc_line_words c)"
proof -
  have p: "is_power_of_two (cc_words c)" "is_power_of_two (cc_line_words c)" "is_power_of_two (cc_ways c)"
    and le: "\<not> cc_words c < cc_line_words c * cc_ways c"
    using assms by (auto simp: shape_ok_def cc_check_def split: if_splits)
  obtain i j k where e: "unat (cc_words c) = 2 ^ i" "unat (cc_line_words c) = 2 ^ j" "unat (cc_ways c) = 2 ^ k"
    by (metis is_power_of_two_exp [OF p(1)] is_power_of_two_exp [OF p(2)] is_power_of_two_exp [OF p(3)])
  have "unat (cc_line_words c * cc_ways c) = 2 ^ (j + k)"
    using assms by (simp add: shape_ok_def unat_word_ariths e power_add)
  then have "(2::nat) ^ (j + k) \<le> 2 ^ i" using le by (simp add: word_less_nat_alt e)
  then have "j + k \<le> i" by simp
  then obtain d where i: "i = j + k + d" using le_Suc_ex by blast
  have s: "unat (cc_sets c) = 2 ^ d"
    by (simp add: cc_sets_def unat_div e i power_add)
  show "unat (cc_sets c) * unat (cc_ways c) * unat (cc_line_words c) = unat (cc_words c)"
    by (simp add: s e i power_add)
  show "0 < unat (cc_sets c)" "0 < unat (cc_ways c)" "0 < unat (cc_line_words c)"
    by (simp_all only: s e zero_less_power zero_less_numeral)
qed

text \<open>The check does not see the overflow: a shape whose set takes more words than the cache passes.\<close>

lemma cc_check_wraps:
  fixes c :: cache_config
  defines "c \<equiv> \<lparr>cc_words = 4096, cc_line_words = 0x10000, cc_ways = 0x10000, cc_hit_ns = 20, cc_write_buffer = True\<rparr>"
  shows "cc_check c = Inr () \<and> cc_sets c = 0 \<and> c_sets (cache_new c) = []"
proof -
  have "cc_check c = Inr ()" unfolding c_def by code_simp
  moreover have "cc_sets c = 0" unfolding c_def by code_simp
  ultimately show ?thesis by (simp add: cache_new_def)
qed

section \<open>Least recently used\<close>

text \<open>The distinct elements of a history, newest first, each at its newest place.\<close>

fun recency :: "'a list \<Rightarrow> 'a list" where
  "recency [] = []"
| "recency (x # xs) = x # removeAll x (recency xs)"

lemma set_recency [simp]: "set (recency h) = set h"
  by (induction h) auto

lemma distinct_recency [simp]: "distinct (recency h)"
  by (induction h) (auto simp: distinct_removeAll)

lemma take_removeAll_absent:
  "x \<notin> set (take (Suc w) xs) \<Longrightarrow> take w (removeAll x xs) = take w xs"
proof (induction xs arbitrary: w)
  case (Cons y ys)
  then show ?case by (cases w) auto
qed simp

lemma take_removeAll_present:
  assumes "distinct xs" "x \<in> set (take (Suc w) xs)"
  shows "take w (removeAll x xs) = remove1 x (take (Suc w) xs)"
  using assms
proof (induction xs arbitrary: w)
  case (Cons y ys)
  show ?case
  proof (cases "x = y")
    case True
    then show ?thesis using Cons.prems(1) by (simp add: removeAll_id)
  next
    case False
    then obtain v where "w = Suc v" using Cons.prems(2) by (cases w) auto
    then show ?thesis using Cons False by auto
  qed
qed simp

text \<open>What a set of \<open>w\<close> ways does with a line, on the most recent \<open>w\<close> of a history.\<close>

lemma recency_touch:
  assumes "0 < w"
  shows "take w (recency (x # h)) =
    (if x \<in> set (take w (recency h)) then x # remove1 x (take w (recency h)) else take w (x # take w (recency h)))"
proof -
  obtain v where w: "w = Suc v" using assms gr0_implies_Suc by blast
  show ?thesis
    by (simp add: w take_removeAll_absent take_removeAll_present)
qed

lemma takeWhile_removeAll: "P y \<Longrightarrow> takeWhile P (removeAll y xs) = removeAll y (takeWhile P xs)"
  by (induction xs) auto

lemma takeWhile_recency: "set (takeWhile P (recency h)) = set (takeWhile P h)"
proof (induction h)
  case (Cons y ys)
  then show ?case by (cases "P y") (auto simp: takeWhile_removeAll)
qed simp

lemma mem_take_iff:
  assumes "distinct xs"
  shows "x \<in> set (take w xs) \<longleftrightarrow> x \<in> set xs \<and> card (set (takeWhile ((\<noteq>) x) xs)) < w"
  using assms
proof (induction xs arbitrary: w)
  case Nil
  show ?case by simp
next
  case (Cons y ys)
  have 1: "y \<notin> set (takeWhile ((\<noteq>) x) ys)"
    using Cons.prems by (auto dest: set_takeWhileD)
  have 2: "takeWhile ((\<noteq>) x) (y # ys) = (if x = y then [] else y # takeWhile ((\<noteq>) x) ys)" by auto
  have 3: "card (set (y # takeWhile ((\<noteq>) x) ys)) = Suc (card (set (takeWhile ((\<noteq>) x) ys)))"
    using 1 by simp
  have IH: "x \<in> set (take w ys) \<longleftrightarrow> x \<in> set ys \<and> card (set (takeWhile ((\<noteq>) x) ys)) < w" for w
    using Cons by simp
  show ?case
  proof (cases "x = y")
    case True
    then show ?thesis unfolding 2 by (cases w) simp_all
  next
    case False
    then show ?thesis unfolding 2 using 3 IH by (cases w) simp_all
  qed
qed
lemma mem_recent_iff:
  "x \<in> set (take w (recency h)) \<longleftrightarrow> x \<in> set h \<and> card (set (takeWhile ((\<noteq>) x) h)) < w"
  by (simp add: mem_take_iff takeWhile_recency)

section \<open>The cache against its history\<close>

datatype cache_op = Read u32 | Invalidate

primrec cache_apply :: "cache_op \<Rightarrow> cache \<Rightarrow> cache" where
  "cache_apply (Read phys) c = snd (cache_read phys c)"
| "cache_apply Invalidate c = invalidate c"

text \<open>The lines read since the cache was last emptied, newest first.\<close>

definition lines_of :: "cache_config \<Rightarrow> u32 \<Rightarrow> u32" where
  "lines_of config phys = phys div cc_line_words config"

primrec history_apply :: "cache_config \<Rightarrow> cache_op \<Rightarrow> u32 list \<Rightarrow> u32 list" where
  "history_apply config (Read phys) h = lines_of config phys # h"
| "history_apply config Invalidate h = []"

definition in_set_of :: "cache_config \<Rightarrow> u32 \<Rightarrow> u32 list \<Rightarrow> u32 list" where
  "in_set_of config line h = filter (\<lambda>l. l mod cc_sets config = line mod cc_sets config) h"

text \<open>Set \<open>i\<close> holds its most recent lines.\<close>

definition lru :: "cache_config \<Rightarrow> u32 list \<Rightarrow> cache \<Rightarrow> bool" where
  "lru config h c \<longleftrightarrow> c_config c = config \<and> length (c_sets c) = unat (cc_sets config) \<and>
     (\<forall>i < length (c_sets c). c_sets c ! i =
       take (unat (cc_ways config)) (recency (filter (\<lambda>l. unat (l mod cc_sets config) = i) h)))"

lemma lru_new [step_inv]: "lru config [] (cache_new config)"
  by (simp add: lru_def cache_new_def)

lemma lru_invalidate [step_inv]: "lru config h c \<Longrightarrow> lru config [] (invalidate c)"
  by (simp add: lru_def invalidate_def)

lemma set_of_less:
  "shape_ok config \<Longrightarrow> lru config h c \<Longrightarrow> set_of c l < length (c_sets c)"
  using shape_ok_sets(2) [of config] by (simp add: lru_def set_of_def unat_mod)

lemma lru_read [step_inv]:
  assumes "shape_ok config" "lru config h c"
  shows "lru config (lines_of config phys # h) (snd (cache_read phys c))"
proof -
  let ?l = "cache_line c phys"
  let ?H = "\<lambda>i h. filter (\<lambda>l. unat (l mod cc_sets config) = i) h"
  have cfg: "c_config c = config" using assms(2) by (simp add: lru_def)
  have l: "lines_of config phys = ?l" by (simp add: lines_of_def cache_line_def cfg)
  have i: "unat (?l mod cc_sets config) = set_of c ?l" by (simp add: set_of_def cfg)
  have w: "0 < unat (cc_ways config)" by (rule shape_ok_sets(3) [OF assms(1)])
  have s: "c_sets c ! i = take (unat (cc_ways config)) (recency (?H i h))" if "i < length (c_sets c)" for i
    using assms(2) that by (simp add: lru_def)
  have new: "take (unat (cc_ways config)) (recency (?H (set_of c ?l) (?l # h))) =
      (let s = c_sets c ! set_of c ?l in if ?l \<in> set s then ?l # remove1 ?l s else take (unat (cc_ways config)) (?l # s))"
    using recency_touch [OF w, of ?l "?H (set_of c ?l) h"] s [OF set_of_less [OF assms, of ?l]]
    by (simp only: filter.simps i if_True refl Let_def)
  have same: "?H j (?l # h) = ?H j h" if "j \<noteq> set_of c ?l" for j using that by (simp add: i)
  have "c_sets (snd (cache_read phys c)) ! j = take (unat (cc_ways config)) (recency (?H j (?l # h)))"
    if "j < length (c_sets c)" for j
  proof (cases "j = set_of c ?l")
    case True
    then show ?thesis unfolding True new using that True by (simp add: cache_read_def Let_def cfg)
  next
    case False
    then show ?thesis unfolding same [OF False] using s [OF that] by (auto simp: cache_read_def Let_def)
  qed
  then show ?thesis using assms(2) by (simp add: lru_def l) (auto simp: cache_read_def Let_def)
qed

lemma lru_apply: "shape_ok config \<Longrightarrow> lru config h c \<Longrightarrow> lru config (history_apply config p h) (cache_apply p c)"
  by (cases p) (simp_all add: lru_read lru_invalidate)

lemma lru_run:
  "shape_ok config \<Longrightarrow> lru config h c \<Longrightarrow> lru config (fold (history_apply config) ps h) (fold cache_apply ps c)"
  by (induction ps arbitrary: h c) (simp_all add: lru_apply)

lemma lru_holds:
  assumes "shape_ok config" "lru config h c"
  shows "cache_holds c phys \<longleftrightarrow>
    (let l = lines_of config phys; h = in_set_of config l h
     in l \<in> set h \<and> card (set (takeWhile ((\<noteq>) l) h)) < unat (cc_ways config))"
proof -
  have cfg: "c_config c = config" using assms(2) by (simp add: lru_def)
  have "c_sets c ! set_of c l = take (unat (cc_ways config)) (recency (in_set_of config l h))" for l
    using assms(2) set_of_less [OF assms, of l] by (simp add: lru_def in_set_of_def set_of_def cfg word_unat_eq_iff)
  then show ?thesis
    by (simp add: cache_holds_def Let_def cache_line_def cfg lines_of_def mem_recent_iff)
qed

lemma read_hits_iff_holds: "fst (cache_read phys c) = cache_holds c phys"
  by (simp add: cache_read_def cache_holds_def Let_def)

text \<open>
  C10: QUUX's cache is a least-recently-used cache. After any sequence of reads and invalidations of a cache of
  an allowed shape, a word is held exactly when its line was read since the last invalidation and fewer
  lines than a set has ways, of the same set, were read after it; that is also exactly when a read of
  it hits, and after the read it is held.
\<close>

theorem cache_is_lru:
  fixes ps :: "cache_op list"
  assumes "shape_ok config"
  defines "c \<equiv> fold cache_apply ps (cache_new config)"
  shows "let l = lines_of config phys; h = in_set_of config l (fold (history_apply config) ps [])
    in (cache_holds c phys \<longleftrightarrow> l \<in> set h \<and> card (set (takeWhile ((\<noteq>) l) h)) < unat (cc_ways config)) \<and>
       fst (cache_read phys c) = cache_holds c phys \<and> cache_holds (snd (cache_read phys c)) phys"
proof -
  have c: "lru config (fold (history_apply config) ps []) c"
    unfolding c_def by (rule lru_run [OF assms(1) lru_new])
  have "0 < unat (cc_ways config)" by (rule shape_ok_sets(3) [OF assms(1)])
  then have "cache_holds (snd (cache_read phys c)) phys"
    unfolding lru_holds [OF assms(1) lru_read [OF assms(1) c]] by (simp add: in_set_of_def Let_def)
  then show ?thesis
    unfolding Let_def read_hits_iff_holds lru_holds [OF assms(1) c, unfolded Let_def] by simp
qed

lemma shape_ok_QUUX: "shape_ok CACHE_QUUX"
proof -
  have "cc_check CACHE_QUUX = Inr ()" by code_simp
  then show ?thesis by (simp add: shape_ok_def CACHE_QUUX_def with_words_def)
qed

lemma cache_is_lru_witness:
  "cache_holds (fold cache_apply [Read 5, Read 2053, Read 4] (cache_new CACHE_QUUX)) 2055 \<and>
    \<not> cache_holds (fold cache_apply [Read 5, Read 2053, Read 4101] (cache_new CACHE_QUUX)) 7"
  using cache_is_lru [OF shape_ok_QUUX, where ps = "[Read 5, Read 2053, Read 4]" and phys = 2055]
    cache_is_lru [OF shape_ok_QUUX, where ps = "[Read 5, Read 2053, Read 4101]" and phys = 7]
  by (simp add: lines_of_def in_set_of_def cc_sets_def CACHE_QUUX_def with_words_def)

text \<open>
  A bigger cache with as many sets never does worse. Whatever the sequence of reads and invalidations,
  a word one cache holds is held by every cache of the same line and number of sets that has at least as
  many ways.
\<close>

theorem cache_more_ways:
  assumes "shape_ok a" "shape_ok b"
    and "cc_line_words a = cc_line_words b" "cc_sets a = cc_sets b" "unat (cc_ways a) \<le> unat (cc_ways b)"
    and "cache_holds (fold cache_apply ps (cache_new a)) phys"
  shows "cache_holds (fold cache_apply ps (cache_new b)) phys"
proof -
  have l: "lines_of a = lines_of b" by (rule ext) (simp add: lines_of_def assms(3))
  have "history_apply a p h = history_apply b p h" for p h by (cases p) (simp_all add: l)
  then have h: "fold (history_apply a) ps [] = fold (history_apply b) ps []"
    by (intro fold_cong) (auto intro: ext)
  show ?thesis
    using assms(5,6) unfolding lru_holds [OF assms(1) lru_run [OF assms(1) lru_new]]
      lru_holds [OF assms(2) lru_run [OF assms(2) lru_new]]
    by (simp add: h l in_set_of_def assms(4) Let_def)
qed

lemma cache_more_ways_witness:
  "cache_holds (fold cache_apply [Read 5] (cache_new (CACHE_QUUX\<lparr>cc_words := 8192, cc_ways := 4\<rparr>))) 5"
proof (rule cache_more_ways [OF shape_ok_QUUX])
  have "cc_check (CACHE_QUUX\<lparr>cc_words := 8192, cc_ways := 4\<rparr>) = Inr ()" by code_simp
  then show "shape_ok (CACHE_QUUX\<lparr>cc_words := 8192, cc_ways := 4\<rparr>)"
    by (simp add: shape_ok_def CACHE_QUUX_def with_words_def)
  show "cache_holds (fold cache_apply [Read 5] (cache_new CACHE_QUUX)) 5"
    unfolding lru_holds [OF shape_ok_QUUX lru_run [OF shape_ok_QUUX lru_new]]
    by (simp add: lines_of_def in_set_of_def cc_sets_def CACHE_QUUX_def with_words_def)
qed (simp_all add: cc_sets_def CACHE_QUUX_def with_words_def)

section \<open>Checkpoints\<close>

definition cache_fits :: "cache \<Rightarrow> bool" where
  "cache_fits c \<longleftrightarrow> cc_check (c_config c) = Inr () \<and> length (c_sets c) = unat (cc_sets (c_config c)) \<and>
     (\<forall>s \<in> set (c_sets c). length s \<le> unat (cc_ways (c_config c)))"

lemma codes_set:
  assumes "length s \<le> unat ways"
  shows "codes n (put_set s) (get_set ways) s"
proof -
  have len: "unat (of_nat (length s) :: u32) = length s"
    using assms unsigned_less [where 'a=nat, of ways] by (simp add: unat_of_nat)
  have "codes n (put_all [put_u32 (of_nat (length s)), fold put_u32 s]) (get_set ways) s"
    unfolding get_set_def
  proof (rule codes_cons [OF codes_u32])
    have "codes n (fold put_u32 s) (get_many (length s) get_u32) s"
      by (rule codes_many) (rule codes_u32)
    then show "codes n (put_all [fold put_u32 s]) (if ways < of_nat (length s) then rd_fail Bad_value
        else get_many (unat (of_nat (length s) :: u32)) get_u32) s"
      using assms by (simp add: len word_less_nat_alt codes_def)
  qed
  then show ?thesis by (simp add: codes_def put_set_def)
qed

lemma codes_sets:
  assumes "cache_fits c"
  shows "codes n (fold put_set (c_sets c))
    (get_many (length (c_sets (cache_new (c_config c)))) (get_set (cc_ways (c_config c)))) (c_sets c)"
proof -
  have "length (c_sets (cache_new (c_config c))) = length (c_sets c)"
    using assms by (simp add: cache_fits_def cache_new_def)
  then show ?thesis
    by (simp only:) (rule codes_many, rule codes_set, use assms in \<open>simp add: cache_fits_def\<close>)
qed

lemma codes_cache: "cache_fits c \<Longrightarrow> codes n (cache_save c) cache_load c"
proof -
  assume fits: "cache_fits c"
  have eta: "\<lparr>cc_words = cc_words k, cc_line_words = cc_line_words k, cc_ways = cc_ways k,
      cc_hit_ns = cc_hit_ns k, cc_write_buffer = cc_write_buffer k\<rparr> = k" for k
    by simp
  have ok: "cc_check (c_config c) = Inr ()" using fits by (simp add: cache_fits_def)
  have whole: "cache_new (c_config c)\<lparr>c_hits := c_hits c, c_misses := c_misses c, c_sets := c_sets c\<rparr> = c"
    by (simp add: cache_new_def)
  show ?thesis
    unfolding cache_save_def cache_load_def Let_def
    by ((rule codes_step)+, simp only: eta ok sum.case, (rule codes_step)+,
        rule codes_cons [OF codes_sets [OF fits]]) (simp only: whole codes_nil)
qed

interpretation cache: codec n cache_fits cache_save cache_load for n
  by unfold_locales (rule codes_cache)

text \<open>A cache in use fits, so it resumes.\<close>

lemma lru_fits: "shape_ok config \<Longrightarrow> lru config h c \<Longrightarrow> cache_fits c"
  by (auto simp: cache_fits_def lru_def shape_ok_def in_set_conv_nth)

lemma get_many_all:
  "get_many n get r = Inr (xs, r') \<Longrightarrow> (\<And>r x r'. get r = Inr (x, r') \<Longrightarrow> P x) \<Longrightarrow> \<forall>x \<in> set xs. P x"
  by (induction n arbitrary: r xs r') (auto simp: rd_bind_Inr)

text \<open>
  A cache resumes. A cache in use saved in a checkpoint loads back as it was, its counts and each set's order
  included; and whatever bytes a checkpoint holds, a load that succeeds gives a cache with a set for each
  the shape asks for and no set with more lines than its ways.
\<close>

theorem cache_resumes:
  fixes ps :: "cache_op list"
  assumes "shape_ok config"
  defines "c \<equiv> fold cache_apply ps (cache_new config)"
  shows "(\<exists>r. cache_load (reader_new (writer_finish (cache_save c writer_new))) = Inr (c, r) \<and> reader_done r = Inr ()) \<and>
    (cache_load any = Inr (c', rest) \<longrightarrow> cache_fits c')"
proof -
  have c: "lru config (fold (history_apply config) ps []) c"
    unfolding c_def by (rule lru_run [OF assms(1) lru_new])
  have short: "length s \<le> unat ways" if "get_set ways r = Inr (s, r')" for ways s r r'
    using that by (auto simp: get_set_def rd_bind_Inr not_less word_le_nat_alt dest!: length_get_many split: if_splits)
  have "cache_fits c'" if got: "cache_load any = Inr (c', rest)"
  proof -
    obtain a l w t b hits misses sets r0 r1
      where ok: "cc_check \<lparr>cc_words = a, cc_line_words = l, cc_ways = w, cc_hit_ns = t, cc_write_buffer = b\<rparr> = Inr ()"
      and many: "get_many (length (c_sets (cache_new \<lparr>cc_words = a, cc_line_words = l, cc_ways = w, cc_hit_ns = t, cc_write_buffer = b\<rparr>))) (get_set w) r0 = Inr (sets, r1)"
      and c': "c' = cache_new \<lparr>cc_words = a, cc_line_words = l, cc_ways = w, cc_hit_ns = t, cc_write_buffer = b\<rparr>\<lparr>c_hits := hits, c_misses := misses, c_sets := sets\<rparr>"
      using got by (auto simp: cache_load_def rd_bind_Inr Let_def case_check split: if_splits)
    have "\<forall>s \<in> set sets. length s \<le> unat w"
      by (rule get_many_all [OF many]) (rule short)
    then show ?thesis
      using length_get_many [OF many] by (simp add: cache_fits_def c' ok cache_new_def)
  qed
  then show ?thesis
    using cache.resumes_whole [OF lru_fits [OF assms(1) c], of writer_new 4]
    by (simp add: writer_new_def reader_new_def WORD_BYTES_32_def)
qed

lemma cache_resumes_witness:
  "\<exists>r. cache_load (reader_new (writer_finish (cache_save (fold cache_apply [Read 5] (cache_new CACHE_QUUX)) writer_new))) =
    Inr (fold cache_apply [Read 5] (cache_new CACHE_QUUX), r) \<and> reader_done r = Inr ()"
  using cache_resumes [OF shape_ok_QUUX, where ps = "[Read 5]"] by blast

end
