(* ===== verification/MemoryPort.thy ===== *)
theory MemoryPort
  imports Cache Vmap
begin

text \<open>
  QUUX's memory port, \<open>src/memory_port.rs\<close>: the processor's memory cycle through the cache, the write
  buffer and main memory's timing, the cache-only prefetch, and the checkpoint. The environment of the
  port, the engine and main memory, is a step relation over the port's own operations; on what it
  reaches, the prefetched word is the word the next fetch would read.
\<close>

section \<open>Who answers a cycle\<close>

text \<open>\<open>Responder\<close> and \<open>Ack\<close> of \<open>src/busint.rs\<close>.\<close>

datatype responder =
    Memory u8
  | Device
  | Interface
  | Unibus u32
  | Debug u8
  | MapBuffer
  | MapXbus u32
  | MapRefused
  | MapMd
  | NoXbus
  | NoUnibus

definition on_unibus :: "responder \<Rightarrow> bool" where
  "on_unibus r = (case r of Interface \<Rightarrow> True | Unibus _ \<Rightarrow> True | Debug _ \<Rightarrow> True | MapBuffer \<Rightarrow> True
     | MapXbus _ \<Rightarrow> True | MapRefused \<Rightarrow> True | MapMd \<Rightarrow> True | NoUnibus \<Rightarrow> True | _ \<Rightarrow> False)"

definition is_memory :: "responder \<Rightarrow> bool" where
  "is_memory r = (case r of Memory _ \<Rightarrow> True | _ \<Rightarrow> False)"

record ack =
  ack_timed_out :: bool
  ack_responder :: responder
  ack_at :: u64
  ack_loadmd_at :: u64
  ack_answered_at :: u64
  ack_cached :: bool

section \<open>The port\<close>

datatype reach = Line | Page

definition REACH_REVISION_12 :: reach where "REACH_REVISION_12 = Line"
definition REACH_REVISION_13 :: reach where "REACH_REVISION_13 = Page"

record prefetched =
  pf_vaddr :: u32
  pf_phys :: u32
  pf_word :: u64

datatype drop_cause = Lc_write | Store | Dma | Map_write | Bus_reset

primrec drop_index :: "drop_cause \<Rightarrow> nat" where
  "drop_index Lc_write = 0"
| "drop_index Store = 1"
| "drop_index Dma = 2"
| "drop_index Map_write = 3"
| "drop_index Bus_reset = 4"

record prefetch_counts =
  pc_fetches :: u64
  pc_same_line :: u64
  pc_next_line :: u64
  pc_page_end :: u64
  pc_not_held :: u64
  pc_dropped :: "u64 list"
  pc_used :: u64
  pc_refused :: "u64 list"

definition prefetch_counts_default :: prefetch_counts where
  "prefetch_counts_default = \<lparr>pc_fetches = 0, pc_same_line = 0, pc_next_line = 0, pc_page_end = 0,
     pc_not_held = 0, pc_dropped = replicate 5 0, pc_used = 0, pc_refused = replicate 2 0\<rparr>"

datatype port_state =
    Idle
  | Requested
  | Granted u64 u64 bool
  | Acked u64 u64 bool

record layout =
  ly_line_words :: u32
  ly_page_words :: u32
  ly_vaddr_mask :: u32
  ly_more_beats :: bool

definition LAYOUT_12 :: layout where
  "LAYOUT_12 = \<lparr>ly_line_words = 4, ly_page_words = 256, ly_vaddr_mask = 0x00ffffff, ly_more_beats = False\<rparr>"

definition LAYOUT_13 :: layout where
  "LAYOUT_13 = \<lparr>ly_line_words = 8, ly_page_words = 1024, ly_vaddr_mask = 0x0fffffff, ly_more_beats = True\<rparr>"

definition layout_of :: "geometry \<Rightarrow> layout" where
  "layout_of g = (if wide g then LAYOUT_13 else LAYOUT_12)"

definition layout_cache :: "layout \<Rightarrow> cache_config \<Rightarrow> cache_config" where
  "layout_cache ly config =
     (if ly = LAYOUT_13 then config\<lparr>cc_line_words := ly_line_words ly\<rparr> else config)"

record memory_port =
  p_state :: port_state
  p_write :: bool
  p_addr :: u32
  p_memory :: bool
  p_cache :: cache
  p_timing :: memory_timing
  memory_free_at :: u64
  buffer_free_at :: u64
  p_model :: timing_model
  p_prefetch :: "reach option"
  p_prefetched :: "prefetched option"
  fetch_vaddr :: "u32 option"
  p_counts :: prefetch_counts
  p_layout :: layout

definition with_layout :: "layout \<Rightarrow> memory_port" where
  "with_layout ly = \<lparr>p_state = Idle, p_write = False, p_addr = 0, p_memory = False,
     p_cache = cache_new (layout_cache ly CACHE_QUUX), p_timing = MEMORY_NOMINAL,
     memory_free_at = 0, buffer_free_at = 0, p_model = Sync 4 0, p_prefetch = None, p_prefetched = None,
     fetch_vaddr = None, p_counts = prefetch_counts_default, p_layout = ly\<rparr>"

definition port_new :: memory_port where
  "port_new = with_layout LAYOUT_12"

definition for_geometry :: "geometry \<Rightarrow> memory_port" where
  "for_geometry g =
     (if layout_of g = LAYOUT_13 then (with_layout LAYOUT_13)\<lparr>p_prefetch := Some REACH_REVISION_13\<rparr> else port_new)"

definition set_prefetch :: "reach option \<Rightarrow> memory_port \<Rightarrow> memory_port" where
  "set_prefetch pf p = p\<lparr>p_prefetch := pf, p_prefetched := None\<rparr>"

definition mark_fetch :: "u32 \<Rightarrow> memory_port \<Rightarrow> memory_port" where
  "mark_fetch vaddr p = p\<lparr>fetch_vaddr := Some (vaddr AND ly_vaddr_mask (p_layout p))\<rparr>"

definition drop_prefetched :: "drop_cause \<Rightarrow> memory_port \<Rightarrow> memory_port" where
  "drop_prefetched why p =
     (if p_prefetched p \<noteq> None
      then p\<lparr>p_prefetched := None,
             p_counts := p_counts p\<lparr>pc_dropped := (pc_dropped (p_counts p))
               [drop_index why := pc_dropped (p_counts p) ! drop_index why + 1]\<rparr>\<rparr>
      else p)"

text \<open>The standard library's \<open>is_multiple_of\<close>.\<close>

definition is_multiple_of :: "u32 \<Rightarrow> u32 \<Rightarrow> bool" where
  "is_multiple_of n k \<longleftrightarrow> n mod k = 0"

definition read_answered :: "u64 list \<Rightarrow> memory_port \<Rightarrow> memory_port" where
  "read_answered main p =
     (case fetch_vaddr p of None \<Rightarrow> p
      | Some vaddr \<Rightarrow>
        let p = p\<lparr>fetch_vaddr := None\<rparr>
        in case p_prefetch p of None \<Rightarrow> p
        | Some reach \<Rightarrow>
          if \<not> p_memory p \<or> p_write p then p
          else let p = p\<lparr>p_prefetched := None\<rparr>; c = p_counts p; c = c\<lparr>pc_fetches := pc_fetches c + 1\<rparr>;
                   nxt = p_addr p + 1; line = cc_line_words (c_config (p_cache p));
                   same_line = (\<not> is_multiple_of nxt line)
               in if is_multiple_of nxt (ly_page_words (p_layout p)) \<or> length main \<le> unat nxt
                  then p\<lparr>p_counts := c\<lparr>pc_page_end := pc_page_end c + 1\<rparr>\<rparr>
                  else if \<not> same_line \<and> (reach = Line \<or> \<not> cache_holds (p_cache p) nxt)
                  then p\<lparr>p_counts := c\<lparr>pc_not_held := pc_not_held c + 1\<rparr>\<rparr>
                  else p\<lparr>p_counts := (if same_line then c\<lparr>pc_same_line := pc_same_line c + 1\<rparr>
                                       else c\<lparr>pc_next_line := pc_next_line c + 1\<rparr>),
                         p_prefetched := Some \<lparr>pf_vaddr = (vaddr + 1) AND ly_vaddr_mask (p_layout p),
                           pf_phys = nxt, pf_word = main ! unat nxt\<rparr>\<rparr>)"

definition set_cache :: "cache_config \<Rightarrow> memory_port \<Rightarrow> memory_port" where
  "set_cache config p = p\<lparr>p_cache := cache_new (layout_cache (p_layout p) config)\<rparr>"

definition set_memory_timing :: "memory_timing \<Rightarrow> memory_port \<Rightarrow> memory_port" where
  "set_memory_timing t p = p\<lparr>p_timing := t\<rparr>"

definition invalidate_cache :: "memory_port \<Rightarrow> memory_port" where
  "invalidate_cache p = drop_prefetched Dma (p\<lparr>p_cache := invalidate (p_cache p)\<rparr>)"

definition keep_timing_model :: "timing_model \<Rightarrow> memory_port \<Rightarrow> memory_port" where
  "keep_timing_model m p = p\<lparr>p_model := m\<rparr>"

definition request_at :: "bool \<Rightarrow> u32 \<Rightarrow> memory_port \<Rightarrow> memory_port" where
  "request_at write phys p =
     (let p = p\<lparr>p_state := Requested, p_write := write, p_addr := phys, p_memory := False, fetch_vaddr := None\<rparr>
      in if write \<and> (case p_prefetched p of None \<Rightarrow> False | Some w \<Rightarrow> pf_phys w = phys)
         then drop_prefetched Store p else p)"

definition WINDOW_13 :: u32 where "WINDOW_13 = 0xfc00000"

definition fill_ns :: "memory_port \<Rightarrow> u64" where
  "fill_ns p =
     (let beats = (if \<not> ly_more_beats (p_layout p) then 0 else if WINDOW_13 \<le> p_addr p then 2 else 3)
      in mt_read_ns (p_timing p) + beats * 10)"

definition memory_cycle :: "u64 \<Rightarrow> memory_port \<Rightarrow> u64 \<times> memory_port" where
  "memory_cycle now p =
     (let hit_ns = cc_hit_ns (c_config (p_cache p));
          (hit, p) = (if p_write p then (False, p)
                      else let (hit, c) = cache_read (p_addr p) (p_cache p) in (hit, p\<lparr>p_cache := c\<rparr>))
      in if \<not> p_write p \<and> hit then (now + hit_ns, p)
         else let start = max now (memory_free_at p);
                  done = start + (if p_write p then mt_write_ns (p_timing p) else fill_ns p);
                  p = p\<lparr>memory_free_at := done\<rparr>
              in if p_write p \<and> cc_write_buffer (c_config (p_cache p))
                 then (max (now + hit_ns) (buffer_free_at p), p\<lparr>buffer_free_at := done\<rparr>)
                 else (done, p))"

definition mclk_edge :: "u64 \<Rightarrow> responder \<Rightarrow> memory_port \<Rightarrow> memory_port" where
  "mclk_edge now responder p =
     (if p_state p \<noteq> Requested then p
      else let p = p\<lparr>p_memory := is_memory responder\<rparr>
           in if p_memory p
              then let (at, p) = memory_cycle now p in p\<lparr>p_state := Granted at at False\<rparr>
              else if responder = Device
              then let cyc = of_nat (timing_cycle_ns (p_model p) Normal False)
                   in p\<lparr>p_state := Granted (now + cyc) now False\<rparr>
              else p\<lparr>p_state := Granted now now True\<rparr>)"

definition poll :: "u64 \<Rightarrow> responder \<Rightarrow> memory_port \<Rightarrow> ack option \<times> memory_port" where
  "poll now responder p =
     (let p = (case p_state p of
                 Granted ack answered timed_out \<Rightarrow> if ack \<le> now then p\<lparr>p_state := Acked ack answered timed_out\<rparr> else p
               | _ \<Rightarrow> p)
      in (case p_state p of
            Acked at answered timed_out \<Rightarrow>
              Some \<lparr>ack_timed_out = timed_out, ack_responder = responder, ack_at = at, ack_loadmd_at = at,
                ack_answered_at = answered, ack_cached = p_memory p\<rparr>
          | _ \<Rightarrow> None, p))"

definition granted :: "memory_port \<Rightarrow> bool" where
  "granted p = (case p_state p of Granted _ _ _ \<Rightarrow> True | Acked _ _ _ \<Rightarrow> True | _ \<Rightarrow> False)"

definition busy :: "memory_port \<Rightarrow> bool" where
  "busy p \<longleftrightarrow> p_state p \<noteq> Idle"

definition port_ack_at :: "memory_port \<Rightarrow> u64 option" where
  "port_ack_at p = (case p_state p of Granted a _ _ \<Rightarrow> Some a | Acked a _ _ \<Rightarrow> Some a | _ \<Rightarrow> None)"

definition answered_at :: "memory_port \<Rightarrow> u64 option" where
  "answered_at p = (case p_state p of Granted _ a _ \<Rightarrow> Some a | Acked _ a _ \<Rightarrow> Some a | _ \<Rightarrow> None)"

definition finish :: "memory_port \<Rightarrow> memory_port" where
  "finish p = p\<lparr>p_state := Idle\<rparr>"

section \<open>Checkpoint\<close>

definition put_state :: "port_state \<Rightarrow> writer \<Rightarrow> writer" where
  "put_state s = (case s of
     Idle \<Rightarrow> put_all [put_u8 0]
   | Requested \<Rightarrow> put_all [put_u8 1]
   | Granted a answered t \<Rightarrow> put_all [put_u8 2, put_u64 a, put_u64 answered, put_bool t]
   | Acked a answered t \<Rightarrow> put_all [put_u8 3, put_u64 a, put_u64 answered, put_bool t])"

definition get_state :: "port_state rd" where
  "get_state = rd_bind get_u8 (\<lambda>k.
     if k = 0 then rd_return Idle
     else if k = 1 then rd_return Requested
     else if k = 2 \<or> k = 3 then
       rd_bind get_u64 (\<lambda>a. rd_bind get_u64 (\<lambda>answered. rd_bind get_bool (\<lambda>t.
         rd_return (if k = 2 then Granted a answered t else Acked a answered t))))
     else rd_fail Bad_value)"

definition put_prefetched :: "prefetched \<Rightarrow> writer \<Rightarrow> writer" where
  "put_prefetched w = put_all [put_u32 (pf_vaddr w), put_u32 (pf_phys w), put_word (pf_word w)]"

definition get_prefetched :: "layout \<Rightarrow> prefetched rd" where
  "get_prefetched ly = rd_bind get_u32 (\<lambda>v. rd_bind get_u32 (\<lambda>phys. rd_bind get_word (\<lambda>w.
     rd_return \<lparr>pf_vaddr = v AND ly_vaddr_mask ly, pf_phys = phys, pf_word = w\<rparr>)))"

definition port_save :: "memory_port \<Rightarrow> writer \<Rightarrow> writer" where
  "port_save p = put_all
     [put_state (p_state p), put_bool (p_write p), put_u32 (p_addr p), put_bool (p_memory p), cache_save (p_cache p),
      put_u64 (mt_read_ns (p_timing p)), put_u64 (mt_write_ns (p_timing p)),
      put_u64 (memory_free_at p), put_u64 (buffer_free_at p),
      put_opt put_prefetched (p_prefetched p), put_opt put_u32 (fetch_vaddr p)]"

text \<open>What is not in a checkpoint stays the loading port's.\<close>

definition port_load :: "memory_port \<Rightarrow> memory_port rd" where
  "port_load p =
     rd_bind get_state (\<lambda>state. rd_bind get_bool (\<lambda>write. rd_bind get_u32 (\<lambda>addr. rd_bind get_bool (\<lambda>memory.
     rd_bind cache_load (\<lambda>cache. rd_bind get_u64 (\<lambda>read_ns. rd_bind get_u64 (\<lambda>write_ns.
     rd_bind get_u64 (\<lambda>mem_free. rd_bind get_u64 (\<lambda>buf_free.
     rd_bind (get_opt (get_prefetched (p_layout p))) (\<lambda>pf.
     rd_bind (get_opt (rd_bind get_u32 (\<lambda>v. rd_return (v AND ly_vaddr_mask (p_layout p))))) (\<lambda>fv.
       let p = p\<lparr>p_state := state, p_write := write, p_addr := addr, p_memory := memory, p_cache := cache,
                 p_timing := \<lparr>mt_read_ns = read_ns, mt_write_ns = write_ns\<rparr>,
                 memory_free_at := mem_free, buffer_free_at := buf_free\<rparr>
       in rd_return (if p_prefetch p \<noteq> None then p\<lparr>p_prefetched := pf, fetch_vaddr := fv\<rparr> else p))))))))))))"

text \<open>A port in use, and the loading port as its engine has fitted it.\<close>

definition port_fits :: "nat \<Rightarrow> memory_port \<Rightarrow> bool" where
  "port_fits n p \<longleftrightarrow> cache_fits (p_cache p) \<and> n \<le> 8 \<and>
     (case p_prefetched p of None \<Rightarrow> True
      | Some w \<Rightarrow> pf_vaddr w AND ly_vaddr_mask (p_layout p) = pf_vaddr w \<and> (pf_word w < 2 ^ (8 * n) \<or> n = 8)) \<and>
     (case fetch_vaddr p of None \<Rightarrow> True | Some v \<Rightarrow> v AND ly_vaddr_mask (p_layout p) = v)"

definition fitted_as :: "memory_port \<Rightarrow> memory_port \<Rightarrow> bool" where
  "fitted_as q p \<longleftrightarrow> p_model q = p_model p \<and> p_prefetch q = p_prefetch p \<and> p_layout q = p_layout p \<and>
     p_counts q = p_counts p \<and>
     (p_prefetch p = None \<longrightarrow> p_prefetched q = p_prefetched p \<and> fetch_vaddr q = fetch_vaddr p)"

lemma codes_state [codes_intros]: "codes n (put_state s) get_state s"
proof (cases s)
  case Idle
  have "codes n (put_all [put_u8 0]) get_state s"
    unfolding get_state_def Idle by (rule codes_cons [OF codes_u8]) (simp add: codes_end del: put_all.simps)
  then show ?thesis by (simp add: put_state_def Idle)
next
  case Requested
  have "codes n (put_all [put_u8 1]) get_state s"
    unfolding get_state_def Requested by (rule codes_cons [OF codes_u8]) (simp add: codes_end del: put_all.simps)
  then show ?thesis by (simp add: put_state_def Requested)
next
  case (Granted a b c)
  have "codes n (put_all [put_u8 2, put_u64 a, put_u64 b, put_bool c]) get_state s"
    unfolding get_state_def Granted
    by (rule codes_cons [OF codes_u8], simp del: put_all.simps, (rule codes_step)+) (simp add: codes_end del: put_all.simps)
  then show ?thesis by (simp add: put_state_def Granted)
next
  case (Acked a b c)
  have "codes n (put_all [put_u8 3, put_u64 a, put_u64 b, put_bool c]) get_state s"
    unfolding get_state_def Acked
    by (rule codes_cons [OF codes_u8], simp del: put_all.simps, (rule codes_step)+) (simp add: codes_end del: put_all.simps)
  then show ?thesis by (simp add: put_state_def Acked)
qed

lemma codes_prefetched:
  assumes "n \<le> 8" "pf_vaddr w AND ly_vaddr_mask ly = pf_vaddr w" "pf_word w < 2 ^ (8 * n) \<or> n = 8"
  shows "codes n (put_prefetched w) (get_prefetched ly) w"
  unfolding put_prefetched_def get_prefetched_def
  by ((rule codes_step)+, rule codes_cons [OF codes_word [OF assms(1,3)]]) (simp add: codes_end assms(2) del: put_all.simps)

lemma codes_port:
  assumes "port_fits n p" "fitted_as q p"
  shows "codes n (port_save p) (port_load q) p"
proof -
  have ly: "p_layout q = p_layout p" using assms(2) by (simp add: fitted_as_def)
  have c: "codes n (cache_save (p_cache p)) cache_load (p_cache p)"
    using assms(1) by (intro codes_cache) (simp add: port_fits_def)
  have w: "codes n (put_opt put_prefetched (p_prefetched p)) (get_opt (get_prefetched (p_layout p))) (p_prefetched p)"
    using assms(1) by (intro codes_opt codes_prefetched) (auto simp: port_fits_def)
  have "codes n (put_u32 v) (rd_bind get_u32 (\<lambda>v. rd_return (v AND ly_vaddr_mask (p_layout p)))) v"
    if "fetch_vaddr p = Some v" for v
    using assms(1) that by (intro codes_then [OF codes_u32]) (simp add: port_fits_def)
  then have v: "codes n (put_opt put_u32 (fetch_vaddr p))
      (get_opt (rd_bind get_u32 (\<lambda>v. rd_return (v AND ly_vaddr_mask (p_layout p))))) (fetch_vaddr p)"
    by (rule codes_opt)
  have whole: "(let q = q\<lparr>p_state := p_state p, p_write := p_write p, p_addr := p_addr p, p_memory := p_memory p,
        p_cache := p_cache p, p_timing := \<lparr>mt_read_ns = mt_read_ns (p_timing p), mt_write_ns = mt_write_ns (p_timing p)\<rparr>,
        memory_free_at := memory_free_at p, buffer_free_at := buffer_free_at p\<rparr>
      in if p_prefetch q \<noteq> None then q\<lparr>p_prefetched := p_prefetched p, fetch_vaddr := fetch_vaddr p\<rparr> else q) = p"
    using assms(2) by (cases q, cases p) (simp add: fitted_as_def Let_def)
  show ?thesis
    unfolding port_save_def port_load_def ly
    by (rule codes_cons [OF codes_state], (rule codes_step)+, rule codes_cons [OF c], (rule codes_step)+,
        rule codes_cons [OF w], rule codes_cons [OF v])
      (use whole in \<open>simp only: Let_def codes_nil\<close>)
qed

interpretation port: codec n "\<lambda>p. port_fits n p \<and> fitted_as q p" port_save "port_load q" for n q
  by unfold_locales (blast intro: codes_port)

section \<open>Main memory's part of a cycle\<close>

text \<open>How long main memory takes over the cycle the port has, when it takes part.\<close>

definition operation_ns :: "memory_port \<Rightarrow> u64" where
  "operation_ns p = (if p_write p then mt_write_ns (p_timing p) else fill_ns p)"

lemma cache_read_config [simp]: "c_config (snd (cache_read phys c)) = c_config c"
  by (simp add: cache_read_def Let_def)

lemma max_word_unat: "unat (max a b :: 'a::len word) = max (unat a) (unat b)"
  by (simp add: max_def word_le_nat_alt)

text \<open>A read that hits takes the hit time and leaves main memory alone.\<close>

lemma memory_cycle_hit:
  assumes "\<not> p_write p" "cache_holds (p_cache p) (p_addr p)"
  shows "memory_cycle now p =
    (now + cc_hit_ns (c_config (p_cache p)), p\<lparr>p_cache := snd (cache_read (p_addr p) (p_cache p))\<rparr>)"
proof -
  have "cache_read (p_addr p) (p_cache p) = (True, snd (cache_read (p_addr p) (p_cache p)))"
    using assms(2) read_hits_iff_holds [of "p_addr p" "p_cache p"] by (simp add: prod_eq_iff)
  then obtain c where "cache_read (p_addr p) (p_cache p) = (True, c)" by blast
  then show ?thesis using assms(1) by (simp add: memory_cycle_def Let_def)
qed

text \<open>Every other cycle is an operation of main memory, from when it is free.\<close>

lemma memory_cycle_operation:
  assumes "p_write p \<or> \<not> cache_holds (p_cache p) (p_addr p)"
  shows "memory_cycle now p = (let fin = max now (memory_free_at p) + operation_ns p in
     if p_write p \<and> cc_write_buffer (c_config (p_cache p))
     then (max (now + cc_hit_ns (c_config (p_cache p))) (buffer_free_at p),
           p\<lparr>memory_free_at := fin, buffer_free_at := fin\<rparr>)
     else if p_write p then (fin, p\<lparr>memory_free_at := fin\<rparr>)
     else (fin, p\<lparr>p_cache := snd (cache_read (p_addr p) (p_cache p)), memory_free_at := fin\<rparr>))"
proof (cases "p_write p")
  case True
  then show ?thesis by (simp add: memory_cycle_def Let_def operation_ns_def)
next
  case False
  then obtain c where "cache_read (p_addr p) (p_cache p) = (False, c)"
    using assms read_hits_iff_holds [of "p_addr p" "p_cache p"] by (cases "cache_read (p_addr p) (p_cache p)") simp
  then show ?thesis using False by (simp add: memory_cycle_def Let_def operation_ns_def fill_ns_def)
qed

lemma memory_cycle_frame [simp]:
  "p_state (snd (memory_cycle now p)) = p_state p" "p_write (snd (memory_cycle now p)) = p_write p"
  "p_addr (snd (memory_cycle now p)) = p_addr p" "p_memory (snd (memory_cycle now p)) = p_memory p"
  "p_prefetch (snd (memory_cycle now p)) = p_prefetch p"
  "p_prefetched (snd (memory_cycle now p)) = p_prefetched p"
  "fetch_vaddr (snd (memory_cycle now p)) = fetch_vaddr p"
  "p_layout (snd (memory_cycle now p)) = p_layout p"
  by (cases "\<not> p_write p \<and> cache_holds (p_cache p) (p_addr p)";
      simp add: memory_cycle_hit memory_cycle_operation Let_def)+

section \<open>The processor's cycle, from its request to its end\<close>

text \<open>When a cycle is acknowledged and answered, and whether it is given up.\<close>

definition cycle_answer :: "u64 \<Rightarrow> responder \<Rightarrow> memory_port \<Rightarrow> u64 \<times> u64 \<times> bool" where
  "cycle_answer now r p =
     (case r of
        Memory _ \<Rightarrow> let at = fst (memory_cycle now (p\<lparr>p_memory := True\<rparr>)) in (at, at, False)
      | Device \<Rightarrow> (now + of_nat (timing_cycle_ns (p_model p) Normal False), now, False)
      | _ \<Rightarrow> (now, now, True))"

lemma mclk_edge_granted:
  assumes "p_state p = Requested" "cycle_answer now r p = (at, answered, t)"
  shows "p_state (mclk_edge now r p) = Granted at answered t" "p_memory (mclk_edge now r p) = is_memory r"
  using assms by (cases r; simp add: mclk_edge_def cycle_answer_def is_memory_def Let_def split_beta)+

text \<open>
  The port's protocol. Once requested, a cycle is not answered before the processor's clock takes it; the edge
  that takes it fixes its answer, whatever edges follow; from the acknowledgement's time on, and not
  before, every poll reports the same acknowledgement; and the cycle ends only when the processor lets
  it go. A device register is answered a microcycle after the edge; an address nothing answers fails
  at the edge itself.
\<close>

theorem port_cycle:
  assumes "cycle_answer now r (request_at w phys p) = (at, answered, t)"
  defines "q \<equiv> mclk_edge now r (request_at w phys p)"
  shows "fst (poll now' r' (request_at w phys p)) = None \<and>
    mclk_edge now' r' q = q \<and> port_ack_at q = Some at \<and>
    fst (poll now' r' q) =
      (if at \<le> now' then Some \<lparr>ack_timed_out = t, ack_responder = r', ack_at = at, ack_loadmd_at = at,
         ack_answered_at = answered, ack_cached = is_memory r\<rparr> else None) \<and>
    fst (poll now'' r' (snd (poll now' r' q))) = fst (poll (max now' now'') r' q) \<and>
    busy (snd (poll now' r' q)) \<and> \<not> busy (finish q)"
proof -
  have req: "p_state (request_at w phys p) = Requested"
    by (simp add: request_at_def drop_prefetched_def Let_def)
  have q: "p_state q = Granted at answered t" "p_memory q = is_memory r"
    unfolding q_def using mclk_edge_granted [OF req assms(1)] .
  show ?thesis
    by (auto simp: poll_def req q port_ack_at_def mclk_edge_def busy_def finish_def max_def)
qed

lemma port_cycle_witness:
  "fst (poll 140 Device (mclk_edge 100 Device (request_at False 7 port_new))) \<noteq> None \<and>
   fst (poll 139 Device (mclk_edge 100 Device (request_at False 7 port_new))) = None"
proof -
  have c: "cycle_answer 100 Device (request_at False 7 port_new) = (140, 100, False)"
    by (simp add: cycle_answer_def request_at_def port_new_def with_layout_def GRID_NS_def)
  show ?thesis
    using port_cycle [OF c, of 140 Device 0] port_cycle [OF c, of 139 Device 0] by simp
qed

section \<open>The prefetched word is the word the next fetch would read\<close>

text \<open>
  The engine's use of the port, \<open>src/rtl.rs\<close>: main memory, the map from virtual to physical addresses, and
  whether a device has written main memory since the cache was last emptied. A map keeps a page's
  addresses together.
\<close>

record fetch_system =
  fs_port :: memory_port
  fs_main :: "u64 list"
  fs_map :: "u32 \<Rightarrow> u32"
  fs_dma :: bool

definition paged :: "layout \<Rightarrow> (u32 \<Rightarrow> u32) \<Rightarrow> bool" where
  "paged ly xl \<longleftrightarrow> (\<forall>v. v AND ly_vaddr_mask ly = v \<longrightarrow> \<not> is_multiple_of (xl v + 1) (ly_page_words ly) \<longrightarrow>
     xl ((v + 1) AND ly_vaddr_mask ly) = xl v + 1)"

definition engine_request :: "bool \<Rightarrow> u32 \<Rightarrow> u32 option \<Rightarrow> bool \<Rightarrow> memory_port \<Rightarrow> memory_port" where
  "engine_request w phys fetch dma p =
     (let p = (if dma then invalidate_cache p else p); p = request_at w phys p
      in case fetch of None \<Rightarrow> p | Some v \<Rightarrow> mark_fetch v p)"

inductive fs_step :: "fetch_system \<Rightarrow> fetch_system \<Rightarrow> bool" where
  request: "\<not> busy (fs_port s) \<Longrightarrow>
    (\<And>v. fetch = Some v \<Longrightarrow> \<not> w \<and> phys = fs_map s (v AND ly_vaddr_mask (p_layout (fs_port s)))) \<Longrightarrow>
    fs_step s (s\<lparr>fs_port := engine_request w phys fetch (fs_dma s) (fs_port s), fs_dma := False\<rparr>)"
| edge: "fs_step s (s\<lparr>fs_port := mclk_edge now r (fs_port s)\<rparr>)"
| polled: "fs_step s (s\<lparr>fs_port := snd (poll now r (fs_port s))\<rparr>)"
| stored: "busy (fs_port s) \<Longrightarrow> p_write (fs_port s) \<Longrightarrow>
    fs_step s (s\<lparr>fs_main := (fs_main s)[unat (p_addr (fs_port s)) := x]\<rparr>)"
| answered: "fs_step s (s\<lparr>fs_port := read_answered (fs_main s) (fs_port s)\<rparr>)"
| finished: "fs_step s (s\<lparr>fs_port := finish (fs_port s)\<rparr>)"
| dma: "length main = length (fs_main s) \<Longrightarrow> fs_step s (s\<lparr>fs_main := main, fs_dma := True\<rparr>)"
| map_write: "fetch_vaddr (fs_port s) = None \<Longrightarrow> paged (p_layout (fs_port s)) xl \<Longrightarrow>
    fs_step s (s\<lparr>fs_map := xl, fs_port := drop_prefetched Map_write (fs_port s)\<rparr>)"
| dropped: "fs_step s (s\<lparr>fs_port := drop_prefetched why (fs_port s)\<rparr>)"

inductive fs_reach :: "fetch_system \<Rightarrow> bool" where
  start: "paged (layout_of g) xl \<Longrightarrow>
    fs_reach \<lparr>fs_port = set_prefetch reach (for_geometry g), fs_main = main, fs_map = xl, fs_dma = False\<rparr>"
| step: "fs_reach s \<Longrightarrow> fs_step s s' \<Longrightarrow> fs_reach s'"

definition fetch_inv :: "fetch_system \<Rightarrow> bool" where
  "fetch_inv s \<longleftrightarrow> (let p = fs_port s; ly = p_layout p; main = fs_main s in
     paged ly (fs_map s) \<and>
     (\<forall>v. fetch_vaddr p = Some v \<longrightarrow> \<not> p_write p \<and> v AND ly_vaddr_mask ly = v \<and> p_addr p = fs_map s v) \<and>
     (\<forall>w. p_prefetched p = Some w \<longrightarrow>
        unat (pf_phys w) < length main \<and> fs_map s (pf_vaddr w) = pf_phys w \<and>
        (busy p \<and> p_write p \<longrightarrow> pf_phys w \<noteq> p_addr p) \<and>
        (\<not> fs_dma s \<longrightarrow> pf_word w = main ! unat (pf_phys w))))"

lemma drop_prefetched_frame [simp]:
  "p_prefetched (drop_prefetched c p) = None" "fetch_vaddr (drop_prefetched c p) = fetch_vaddr p"
  "p_layout (drop_prefetched c p) = p_layout p" "p_write (drop_prefetched c p) = p_write p"
  "p_addr (drop_prefetched c p) = p_addr p" "p_state (drop_prefetched c p) = p_state p"
  by (simp_all add: drop_prefetched_def)

lemma mclk_edge_frame [simp]:
  "p_prefetched (mclk_edge now r p) = p_prefetched p" "fetch_vaddr (mclk_edge now r p) = fetch_vaddr p"
  "p_layout (mclk_edge now r p) = p_layout p" "p_write (mclk_edge now r p) = p_write p"
  "p_addr (mclk_edge now r p) = p_addr p" "busy (mclk_edge now r p) = busy p"
  by (simp_all add: mclk_edge_def Let_def split_beta busy_def)

lemma poll_frame [simp]:
  "p_prefetched (snd (poll now r p)) = p_prefetched p" "fetch_vaddr (snd (poll now r p)) = fetch_vaddr p"
  "p_layout (snd (poll now r p)) = p_layout p" "p_write (snd (poll now r p)) = p_write p"
  "p_addr (snd (poll now r p)) = p_addr p" "busy (snd (poll now r p)) = busy p"
  by (auto simp: poll_def Let_def busy_def split: port_state.splits)

lemma finish_frame [simp]:
  "p_prefetched (finish p) = p_prefetched p" "fetch_vaddr (finish p) = fetch_vaddr p"
  "p_layout (finish p) = p_layout p" "p_write (finish p) = p_write p" "p_addr (finish p) = p_addr p"
  "\<not> busy (finish p)"
  by (simp_all add: finish_def busy_def)

lemma read_answered_frame [simp]:
  "p_layout (read_answered main p) = p_layout p" "p_write (read_answered main p) = p_write p"
  "p_addr (read_answered main p) = p_addr p" "busy (read_answered main p) = busy p"
  "fetch_vaddr (read_answered main p) = None"
  by (simp_all add: read_answered_def Let_def busy_def split: option.splits)

text \<open>What an answered read leaves in the buffer: what it held, nothing, or the next word.\<close>

lemma read_answered_takes:
  assumes "p_prefetched (read_answered main p) = Some w"
  shows "p_prefetched p = Some w \<or>
    (\<exists>v. fetch_vaddr p = Some v \<and> \<not> p_write p \<and> \<not> is_multiple_of (p_addr p + 1) (ly_page_words (p_layout p)) \<and>
      unat (p_addr p + 1) < length main \<and>
      w = \<lparr>pf_vaddr = (v + 1) AND ly_vaddr_mask (p_layout p), pf_phys = p_addr p + 1,
           pf_word = main ! unat (p_addr p + 1)\<rparr>)"
  using assms by (auto simp: read_answered_def Let_def not_le split: option.splits if_splits)

lemma engine_request_takes:
  "p_write (engine_request w phys f d p) = w" "p_addr (engine_request w phys f d p) = phys"
  "p_layout (engine_request w phys f d p) = p_layout p"
  "fetch_vaddr (engine_request w phys f d p) = map_option (\<lambda>v. v AND ly_vaddr_mask (p_layout p)) f"
  "p_prefetched (engine_request w phys f d p) = Some x \<Longrightarrow>
     \<not> d \<and> p_prefetched p = Some x \<and> (w \<longrightarrow> pf_phys x \<noteq> phys)"
  by (auto simp: engine_request_def request_at_def invalidate_cache_def mark_fetch_def Let_def
      split: option.splits if_splits)

lemma paged_start:
  "paged (layout_of g) xl \<Longrightarrow>
    fetch_inv \<lparr>fs_port = set_prefetch reach (for_geometry g), fs_main = main, fs_map = xl, fs_dma = False\<rparr>"
  by (auto simp: fetch_inv_def Let_def set_prefetch_def for_geometry_def layout_of_def port_new_def with_layout_def
      split: if_splits)

lemma fetch_inv_step: "fs_step s s' \<Longrightarrow> fetch_inv s \<Longrightarrow> fetch_inv s'"
proof (induction rule: fs_step.induct)
  case (request s fetch w phys)
  then show ?case
    by (auto simp: fetch_inv_def Let_def engine_request_takes(1-4) dest!: engine_request_takes(5))
next
  case (edge s now r)
  then show ?case by (simp add: fetch_inv_def Let_def)
next
  case (polled s now r)
  then show ?case by (simp add: fetch_inv_def Let_def)
next
  case (stored s x)
  then show ?case
    by (auto simp: fetch_inv_def Let_def) (metis nth_list_update_neq word_unat_eq_iff)
next
  case (answered s)
  then show ?case
    by (auto simp: fetch_inv_def Let_def paged_def dest!: read_answered_takes)
next
  case (finished s)
  then show ?case by (simp add: fetch_inv_def Let_def)
next
  case (dma main s)
  then show ?case by (simp add: fetch_inv_def Let_def)
next
  case (map_write s xl)
  then show ?case by (simp add: fetch_inv_def Let_def)
next
  case (dropped s why)
  then show ?case by (simp add: fetch_inv_def Let_def)
qed

lemma fetch_inv_reach: "fs_reach s \<Longrightarrow> fetch_inv s"
  by (induction rule: fs_reach.induct) (blast intro: paged_start fetch_inv_step)+

section \<open>The machine's map keeps a page's addresses together\<close>

lemma split_page: "unat v = 2 ^ n * unat (drop_bit n v) + unat (v AND mask n)" for v :: u32
  by (simp only: unat_drop_bit unat_and_mask_mod mult_div_mod_eq)

lemma unat_mask_page: "n < 32 \<Longrightarrow> unat (mask n :: u32) = 2 ^ n - 1"
  by (simp add: mask_eq_exp_minus_1 unat_exp unat_sub_if')

lemma next_in_page:
  fixes v :: u32
  assumes "n < 32" "v AND mask n \<noteq> mask n"
  shows "(v + 1) AND mask n = (v AND mask n) + 1" "drop_bit n (v + 1) = drop_bit n v"
proof -
  define r q where "r = unat (v AND mask n)" and "q = unat (drop_bit n v)"
  have v: "unat v = 2 ^ n * q + r" unfolding r_def q_def by (rule split_page)
  have "r < 2 ^ n" using unat_and_mask_less [of n v] assms(1) by (simp add: r_def)
  moreover have "r \<noteq> 2 ^ n - 1" using assms unat_mask_page by (metis r_def word_unat_eq_iff)
  ultimately have r: "r + 1 < 2 ^ n" by linarith
  have "unat v \<noteq> 2 ^ 32 - 1"
  proof
    assume "unat v = 2 ^ 32 - 1"
    then have "v = - 1" by (simp add: word_unat_eq_iff unsigned_minus_1_eq_mask mask_eq_exp_minus_1)
    then show False using assms(2) by simp
  qed
  then have s: "unat (v + 1) = 2 ^ n * q + (r + 1)"
    using unsigned_less [where 'a=nat, of v] v by (subst unat_add_exact) simp_all
  have "r + 1 < 2 ^ 32" using r power_increasing [of n 32 "2::nat"] assms(1) by simp
  then have "unat ((v AND mask n) + 1) = r + 1"
    by (subst unat_add_exact) (simp_all add: r_def)
  moreover have "unat ((v + 1) AND mask n) = r + 1"
    unfolding unat_and_mask_mod s using r by simp
  ultimately show "(v + 1) AND mask n = (v AND mask n) + 1" by (simp add: word_unat_eq_iff)
  have "unat (drop_bit n (v + 1)) = q" unfolding unat_drop_bit s using r by (simp del: add_Suc_right One_nat_def add_Suc)
  then show "drop_bit n (v + 1) = drop_bit n v" by (simp add: word_unat_eq_iff q_def)
qed

lemma page_parts: "push_bit n (drop_bit n y) OR (y AND mask n) = (y :: u32)"
  by (rule bit_word_eqI) (auto simp: bit_simps)

lemma page_next:
  fixes x v :: u32
  assumes "n < 32" "n \<le> k" "k < 32" "v AND mask k = v" "x AND mask n = v AND mask n"
    and "\<not> is_multiple_of (x + 1) (2 ^ n)"
  defines "w \<equiv> (v + 1) AND mask k"
  shows "drop_bit n w = drop_bit n v" "x + 1 = push_bit n (drop_bit n x) OR (w AND mask n)"
proof -
  have low: "v AND mask n \<noteq> mask n"
  proof
    assume f: "v AND mask n = mask n"
    have "unat x mod 2 ^ n = 2 ^ n - 1"
      using unat_and_mask_mod [of x n] unfolding assms(5) f unat_mask_page [OF assms(1)] by simp
    then have "(unat x + 1) mod 2 ^ n = 0"
      by (metis mod_Suc_eq Suc_eq_plus1 Suc_pred' zero_less_power zero_less_numeral mod_self)
    then have "unat (x + 1) mod 2 ^ n = 0"
      using assms(1) mod_mod_cancel [OF le_imp_power_dvd [of n 32 "2 :: nat"], of "unat x + 1"]
      by (simp add: unat_word_ariths)
    then have "is_multiple_of (x + 1) (2 ^ n)"
      using assms(1) by (simp add: is_multiple_of_def word_unat_eq_iff unat_mod unat_exp)
    then show False using assms(6) by simp
  qed
  note v = next_in_page [OF assms(1) low]
  have xl: "x AND mask n \<noteq> mask n" using low assms(5) by simp
  note x = next_in_page [OF assms(1) xl]
  have w: "w = v + 1"
  proof (rule bit_word_eqI)
    fix i
    assume "i < LENGTH(32)"
    have "bit (v + 1) i \<Longrightarrow> i < k"
    proof -
      assume b: "bit (v + 1) i"
      show "i < k"
      proof (cases "n \<le> i")
        case True
        then have "bit (drop_bit n (v + 1)) (i - n)" using b by (simp add: bit_simps)
        then have "bit (v AND mask k) i" using True v(2) assms(4) by (simp add: bit_simps)
        then show ?thesis by (simp add: bit_simps)
      qed (use assms(2) in simp)
    qed
    then show "bit w i \<longleftrightarrow> bit (v + 1) i" using assms(3) by (auto simp: w_def bit_simps)
  qed
  show "drop_bit n w = drop_bit n v" by (simp only: w v(2))
  show "x + 1 = push_bit n (drop_bit n x) OR (w AND mask n)"
    using x v(1) assms(5) by (metis w page_parts)
qed

lemma paged_by_parts:
  assumes "n < 32" "n \<le> k" "k < 32" "ly_page_words ly = 2 ^ n" "ly_vaddr_mask ly = mask k"
    and "\<And>v. xl v = push_bit n (frame (drop_bit n v)) OR (v AND mask n)"
  shows "paged ly xl"
  unfolding paged_def
proof (intro allI impI)
  fix v
  assume v: "v AND ly_vaddr_mask ly = v" and m: "\<not> is_multiple_of (xl v + 1) (ly_page_words ly)"
  have low: "xl v AND mask n = v AND mask n" and high: "drop_bit n (xl v) = take_bit (32 - n) (frame (drop_bit n v))"
    unfolding assms(6) by (rule bit_word_eqI; auto simp: bit_simps)+
  note p = page_next [OF assms(1,2,3) v [unfolded assms(5)] low m [unfolded assms(4)]]
  show "xl ((v + 1) AND ly_vaddr_mask ly) = xl v + 1"
    unfolding assms(5) p(2) high assms(6) [of "(v + 1) AND mask k"] p(1)
    by (rule bit_word_eqI) (auto simp: bit_simps)
qed

text \<open>The frame of a page, as the two maps give it.\<close>

lemma paged_translate:
  assumes "g \<in> machines"
  shows "paged (layout_of g) (\<lambda>v. tr_physical (translate g m v))"
proof (cases "wide g")
  case True
  have blk: "drop_bit 28 v = drop_bit 18 (drop_bit 10 v)" "drop_bit 15 v = drop_bit 5 (drop_bit 10 v)" for v :: u32
    by (simp_all add: drop_bit_drop_bit)
  define l1 where "l1 = (\<lambda>b :: u32. if drop_bit 18 b \<noteq> 0 then MAP_INVALID_BLOCK_13
      else vm_l1 m (unat (drop_bit 5 b AND 0x1fff)) AND 0x7f)"
  define frame where "frame = (\<lambda>b :: u32. vm_l2 m (unat (push_bit 5 (l1 b AND 0x7f) OR (b AND 0x1f))) AND 0x3ffff)"
  have "tr_physical (translate g m v) = push_bit 10 (frame (drop_bit 10 v)) OR (v AND 0x3ff)" for v
    using True unfolding translate_def translate_13_def frame_def l1_def
      map_level_1_13_def map_level_2_index_13_def l1_index_13_def blk by (simp only: if_True Let_def translation.simps)
  then show ?thesis
    by (intro paged_by_parts [where n = 10 and k = 28 and frame = frame])
      (simp_all add: True layout_of_def LAYOUT_13_def mask_eq_exp_minus_1)
next
  case False
  have blk: "drop_bit 13 v = drop_bit 5 (drop_bit 8 v)" for v :: u32
    by (simp add: drop_bit_drop_bit)
  define l1 where "l1 = (\<lambda>b :: u32. vm_l1 m (unat (drop_bit 5 b AND 0x7ff)) AND l1_mask g)"
  define frame where "frame = (\<lambda>b :: u32. vm_l2 m (unat (push_bit 5 (l1 b AND l1_mask g) OR (b AND 0x1f))) AND 0x3fff)"
  have "tr_physical (translate g m v) = push_bit 8 (frame (drop_bit 8 v)) OR (v AND mask 8)" for v
  proof -
    have low: "(v AND 0xffffff) AND 0xff = v AND mask 8"
      unfolding and_mask_values by (rule bit_word_eqI) (auto simp: bit_simps)
    have "tr_physical (translate g m v) = push_bit 8 (vm_l2 m (l2_index g (vm_l1 m (l1_index v) AND l1_mask g) v) AND 0x3fff) OR (v AND mask 8)"
      using False by (simp add: translate_def Let_def l1_index_24 l2_index_24 low)
    also have "\<dots> = push_bit 8 (frame (drop_bit 8 v)) OR (v AND mask 8)"
      unfolding frame_def l1_def l1_index_def l2_index_def blk by simp
    finally show ?thesis .
  qed
  then show ?thesis
    by (intro paged_by_parts [where n = 8 and k = 24 and frame = frame])
      (simp_all add: False layout_of_def LAYOUT_12_def mask_eq_exp_minus_1)
qed

text \<open>
  C1: the prefetched word is the word the next fetch would read. Whatever the engine does with the port and main
  memory, reads, stores through the port, devices' writes, map writes, cycles given up, a word the buffer
  holds while no device's write is waiting to empty the cache has a virtual address that the map takes to
  its physical address, within main memory, and is what main memory holds there.
\<close>

theorem prefetch_coherent:
  assumes "fs_reach s" "\<not> fs_dma s" "p_prefetched (fs_port s) = Some w"
  shows "fs_map s (pf_vaddr w) = pf_phys w \<and> unat (pf_phys w) < length (fs_main s) \<and>
    pf_word w = fs_main s ! unat (pf_phys w)"
  using fetch_inv_reach [OF assms(1)] assms(2,3) by (auto simp: fetch_inv_def Let_def)

lemma prefetch_coherent_witness:
  "\<exists>s. fs_reach s \<and> p_prefetched (fs_port s) = Some \<lparr>pf_vaddr = 1, pf_phys = 1, pf_word = 20\<rparr> \<and>
    fs_map s 1 = 1 \<and> fs_main s ! 1 = 20"
proof -
  let ?p0 = "set_prefetch (Some Line) (for_geometry QUUX)"
  let ?p1 = "engine_request False 0 (Some 0) False ?p0"
  let ?p2 = "mclk_edge 0 (Memory 0) ?p1"
  let ?p3 = "read_answered [10, 20] ?p2"
  let ?s = "\<lambda>p. \<lparr>fs_port = p, fs_main = [10, 20], fs_map = \<lambda>v. v, fs_dma = False\<rparr>"
  have paged: "paged (layout_of QUUX) (\<lambda>v. v)"
    by (rule paged_by_parts [where n = 8 and k = 24 and frame = "\<lambda>b. b"])
      (simp_all only: page_parts, simp_all add: layout_of_def LAYOUT_12_def mask_eq_exp_minus_1)
  have "fs_reach (?s ?p0)" by (rule fs_reach.start [OF paged])
  moreover have "fs_step (?s ?p0) (?s ?p1)"
    using fs_step.request [of "?s ?p0" "Some 0" False 0]
    by (simp add: set_prefetch_def for_geometry_def layout_of_def port_new_def with_layout_def busy_def
        LAYOUT_12_def LAYOUT_13_def)
  moreover have "fs_step (?s ?p1) (?s ?p2)"
    using fs_step.edge [of "?s ?p1"] by simp
  moreover have "fs_step (?s ?p2) (?s ?p3)"
    using fs_step.answered [of "?s ?p2"] by simp
  ultimately have "fs_reach (?s ?p3)" by (blast intro: fs_reach.step)
  moreover have "p_prefetched ?p3 = Some \<lparr>pf_vaddr = 1, pf_phys = 1, pf_word = 20\<rparr>"
    by (simp add: read_answered_def mclk_edge_def engine_request_def request_at_def mark_fetch_def set_prefetch_def
        for_geometry_def layout_of_def port_new_def with_layout_def LAYOUT_12_def LAYOUT_13_def layout_cache_def
        is_memory_def is_multiple_of_def memory_cycle_def cache_read_def cache_new_def cache_line_def set_of_def
        cc_sets_def CACHE_QUUX_def with_words_def Let_def)
  ultimately show ?thesis
    using prefetch_coherent [of "?s ?p3" "\<lparr>pf_vaddr = 1, pf_phys = 1, pf_word = 20\<rparr>"] by auto
qed

section \<open>No access waits for more than one write\<close>

text \<open>
  The times of the port in use: the processor's clock never goes back, an edge takes the request there is,
  and a request is let go once its acknowledgement has come, \<open>seen\<close> the time of the latest of these. The
  times stay below what 64 bits hold.
\<close>

definition in_time :: "u64 \<Rightarrow> memory_port \<Rightarrow> bool" where
  "in_time now p \<longleftrightarrow> unat now + 2 * unat (mt_write_ns (p_timing p)) + unat (mt_read_ns (p_timing p)) + 30 +
     unat (cc_hit_ns (c_config (p_cache p))) < 2 ^ 64"

inductive served :: "memory_port \<Rightarrow> u64 \<Rightarrow> bool" where
  power_on: "served (set_memory_timing t (set_cache c (set_prefetch r (for_geometry g)))) 0"
| asked: "served p seen \<Longrightarrow> \<not> busy p \<Longrightarrow> served (engine_request w phys fetch dma p) seen"
| edged: "served p seen \<Longrightarrow> seen \<le> now \<Longrightarrow> in_time now p \<Longrightarrow> served (mclk_edge now r p) now"
| polled: "served p seen \<Longrightarrow> seen \<le> now \<Longrightarrow> served (snd (poll now r p)) now"
| read_in: "served p seen \<Longrightarrow> served (read_answered main p) seen"
| let_go: "served p seen \<Longrightarrow> port_ack_at p = Some at \<Longrightarrow> at \<le> now \<Longrightarrow> seen \<le> now \<Longrightarrow> served (finish p) now"

text \<open>
  What the history keeps: beyond the latest time seen main memory owes at most the one write in the buffer,
  and nothing where there is no buffer.
\<close>

definition seen_to :: "memory_port \<Rightarrow> u64 \<Rightarrow> nat" where
  "seen_to p seen = max (unat seen) (case port_ack_at p of None \<Rightarrow> 0 | Some a \<Rightarrow> unat a)"

definition owes_one_write :: "memory_port \<Rightarrow> u64 \<Rightarrow> bool" where
  "owes_one_write p seen \<longleftrightarrow> unat (memory_free_at p) \<le> seen_to p seen + unat (mt_write_ns (p_timing p)) \<and>
     (unat (memory_free_at p) \<le> seen_to p seen \<or>
      cc_write_buffer (c_config (p_cache p)) \<and> buffer_free_at p = memory_free_at p) \<and>
     buffer_free_at p \<le> memory_free_at p"

definition times_of :: "memory_port \<Rightarrow> u64 \<times> u64 \<times> memory_timing \<times> cache_config" where
  "times_of p = (memory_free_at p, buffer_free_at p, p_timing p, c_config (p_cache p))"

lemma owes_one_write_mono:
  assumes "owes_one_write p seen" "times_of q = times_of p" "seen_to p seen \<le> seen_to q seen'"
  shows "owes_one_write q seen'"
  using assms by (auto simp: owes_one_write_def times_of_def)

lemma invalidate_config [simp]: "c_config (invalidate c) = c_config c"
  by (simp add: invalidate_def)

lemma times_frame [simp]:
  "times_of (drop_prefetched why p) = times_of p" "times_of (request_at w phys p) = times_of p"
  "times_of (invalidate_cache p) = times_of p" "times_of (mark_fetch v p) = times_of p"
  "times_of (read_answered main p) = times_of p" "times_of (snd (poll now r p)) = times_of p"
  "times_of (finish p) = times_of p"
  by (auto simp: times_of_def drop_prefetched_def request_at_def invalidate_cache_def mark_fetch_def
    read_answered_def poll_def finish_def Let_def split: option.splits port_state.splits)

lemma times_engine_request [simp]: "times_of (engine_request w phys fetch dma p) = times_of p"
  by (simp add: engine_request_def Let_def split: option.splits)

lemma ack_frame [simp]:
  "port_ack_at (engine_request w phys fetch dma p) = None" "port_ack_at (request_at w phys p) = None"
  "port_ack_at (read_answered main p) = port_ack_at p" "port_ack_at (snd (poll now r p)) = port_ack_at p"
  "port_ack_at (finish p) = None"
  by (auto simp: port_ack_at_def engine_request_def request_at_def drop_prefetched_def mark_fetch_def
    read_answered_def poll_def finish_def Let_def split: option.splits port_state.splits)

text \<open>An edge that takes a main memory cycle.\<close>

definition fill_time :: "u32 \<Rightarrow> memory_port \<Rightarrow> nat" where
  "fill_time phys p = unat (mt_read_ns (p_timing p)) +
     (if \<not> ly_more_beats (p_layout p) then 0 else if phys < WINDOW_13 then 30 else 20)"

definition access_times :: "u64 \<Rightarrow> memory_port \<Rightarrow> nat \<times> nat" where
  "access_times now p =
     (let W = unat (mt_write_ns (p_timing p)); H = unat (cc_hit_ns (c_config (p_cache p)));
          start = max (unat now) (unat (memory_free_at p))
      in if p_write p \<and> cc_write_buffer (c_config (p_cache p))
         then (max (unat now + H) (unat (buffer_free_at p)), start + W)
         else if p_write p then (start + W, start + W)
         else if cache_holds (p_cache p) (p_addr p) then (unat now + H, unat (memory_free_at p))
         else (start + fill_time (p_addr p) p, start + fill_time (p_addr p) p))"

lemma memory_cycle_times:
  assumes "owes_one_write p seen" "port_ack_at p = None" "seen \<le> now" "in_time now p" "memory_cycle now p = (at, p')"
  shows "(unat at, unat (memory_free_at p')) = access_times now p"
    "buffer_free_at p' = (if p_write p \<and> cc_write_buffer (c_config (p_cache p)) then memory_free_at p' else buffer_free_at p)"
    "p_timing p' = p_timing p" "c_config (p_cache p') = c_config (p_cache p)"
proof -
  have free: "unat (memory_free_at p) \<le> unat now + unat (mt_write_ns (p_timing p))"
    using assms(1-3) by (simp add: owes_one_write_def seen_to_def word_le_nat_alt)
  have t: "unat (max now (memory_free_at p) + mt_write_ns (p_timing p)) =
      max (unat now) (unat (memory_free_at p)) + unat (mt_write_ns (p_timing p))"
    "unat (now + cc_hit_ns (c_config (p_cache p))) = unat now + unat (cc_hit_ns (c_config (p_cache p)))"
    using free assms(4) by (subst unat_add_exact; simp add: in_time_def max_word_unat)+
  have f: "unat (fill_ns p) = fill_time (p_addr p) p"
    using assms(4) by (auto simp: fill_ns_def fill_time_def unat_add_exact in_time_def Let_def)
  have r: "unat (max now (memory_free_at p) + fill_ns p) =
      max (unat now) (unat (memory_free_at p)) + fill_time (p_addr p) p"
  proof -
    have "max (unat now) (unat (memory_free_at p)) + fill_time (p_addr p) p < 2 ^ 64"
      using free assms(4) by (auto simp: in_time_def fill_time_def max_def)
    then show ?thesis by (subst unat_add_exact) (simp_all add: f max_word_unat)
  qed
  let ?b = "cc_write_buffer (c_config (p_cache p))"
  let ?fin = "max now (memory_free_at p) + operation_ns p"
  have fin: "unat ?fin = max (unat now) (unat (memory_free_at p)) +
      (if p_write p then unat (mt_write_ns (p_timing p)) else fill_time (p_addr p) p)"
    using t(1) r by (simp add: operation_ns_def)
  have "(unat at, unat (memory_free_at p')) = access_times now p \<and>
    buffer_free_at p' = (if p_write p \<and> ?b then memory_free_at p' else buffer_free_at p) \<and>
    p_timing p' = p_timing p \<and> c_config (p_cache p') = c_config (p_cache p)"
  proof (cases "p_write p \<or> \<not> cache_holds (p_cache p) (p_addr p)")
    case False
    then have "(at, p') = (now + cc_hit_ns (c_config (p_cache p)), p\<lparr>p_cache := snd (cache_read (p_addr p) (p_cache p))\<rparr>)"
      using assms(5) memory_cycle_hit [of p now] by simp
    then show ?thesis using False t(2) by (simp add: access_times_def Let_def)
  next
    case True
    have "(at, p') = (if p_write p \<and> ?b
       then (max (now + cc_hit_ns (c_config (p_cache p))) (buffer_free_at p),
             p\<lparr>memory_free_at := ?fin, buffer_free_at := ?fin\<rparr>)
       else if p_write p then (?fin, p\<lparr>memory_free_at := ?fin\<rparr>)
       else (?fin, p\<lparr>p_cache := snd (cache_read (p_addr p) (p_cache p)), memory_free_at := ?fin\<rparr>))"
      using assms(5) memory_cycle_operation [OF True, of now] by (simp add: Let_def)
    then show ?thesis using True t(2) fin
      by (cases "p_write p"; cases ?b) (simp_all add: access_times_def Let_def max_word_unat)
  qed
  then show "(unat at, unat (memory_free_at p')) = access_times now p"
    "buffer_free_at p' = (if p_write p \<and> ?b then memory_free_at p' else buffer_free_at p)"
    "p_timing p' = p_timing p" "c_config (p_cache p') = c_config (p_cache p)" by blast+
qed

lemma mclk_edge_memory:
  assumes "p_state p = Requested"
  shows "mclk_edge now (Memory k) p =
    (snd (memory_cycle now (p\<lparr>p_memory := True\<rparr>)))\<lparr>p_state :=
       Granted (fst (memory_cycle now (p\<lparr>p_memory := True\<rparr>))) (fst (memory_cycle now (p\<lparr>p_memory := True\<rparr>))) False\<rparr>"
  using assms by (simp add: mclk_edge_def is_memory_def Let_def split_beta)

lemma mclk_edge_else:
  "p_state p \<noteq> Requested \<or> \<not> is_memory r \<Longrightarrow> times_of (mclk_edge now r p) = times_of p"
  "p_state p \<noteq> Requested \<Longrightarrow> mclk_edge now r p = p"
  by (auto simp: mclk_edge_def times_of_def Let_def)

lemma owes_one_write_edge:
  assumes inv: "owes_one_write p seen" and now: "seen \<le> now" "in_time now p"
  shows "owes_one_write (mclk_edge now r p) now"
proof (cases "p_state p = Requested \<and> is_memory r")
  case False
  have "times_of (mclk_edge now r p) = times_of p" using False by (intro mclk_edge_else(1)) blast
  moreover have "seen_to p seen \<le> seen_to (mclk_edge now r p) now"
  proof (cases "p_state p = Requested")
    case True
    then show ?thesis using now(1) by (auto simp: seen_to_def port_ack_at_def word_le_nat_alt)
  next
    case False
    then show ?thesis using now(1) by (auto simp: seen_to_def mclk_edge_else(2) word_le_nat_alt)
  qed
  ultimately show ?thesis using owes_one_write_mono [OF inv] by blast
next
  case True
  let ?p = "p\<lparr>p_memory := True\<rparr>"
  obtain k where r: "r = Memory k" using True by (cases r) (auto simp: is_memory_def)
  obtain at p' where c: "memory_cycle now ?p = (at, p')" by fastforce
  have q: "mclk_edge now r p = p'\<lparr>p_state := Granted at at False\<rparr>"
    using True c by (simp add: r mclk_edge_memory)
  have ack: "port_ack_at ?p = None" using True by (simp add: port_ack_at_def)
  have i: "owes_one_write ?p seen" using ack
    by (intro owes_one_write_mono [OF inv]) (simp_all add: times_of_def seen_to_def port_ack_at_def True)
  have n: "in_time now ?p" using now(2) by (simp add: in_time_def)
  note t = memory_cycle_times [OF i ack now(1) n c]
  have f: "unat (memory_free_at p) \<le> unat now + unat (mt_write_ns (p_timing p))"
    "unat (memory_free_at p) \<le> unat now \<or> cc_write_buffer (c_config (p_cache p)) \<and> buffer_free_at p = memory_free_at p"
    "unat (buffer_free_at p) \<le> unat (memory_free_at p)"
    using i ack now(1) by (auto simp: owes_one_write_def seen_to_def word_le_nat_alt)
  have s: "seen_to (p'\<lparr>p_state := Granted at at False\<rparr>) now = max (unat now) (unat at)"
    by (simp add: seen_to_def port_ack_at_def)
  show ?thesis
    using t f
    by (auto simp: owes_one_write_def s access_times_def Let_def q word_le_nat_alt word_unat_eq_iff split: if_splits)
qed

lemma served_owes: "served p seen \<Longrightarrow> owes_one_write p seen"
proof (induction rule: served.induct)
  case (power_on t c r g)
  show ?case
    by (simp add: owes_one_write_def set_memory_timing_def set_cache_def set_prefetch_def for_geometry_def
      port_new_def with_layout_def)
next
  case (asked p seen w phys fetch dma)
  show ?case using asked(2) by (intro owes_one_write_mono [OF asked.IH])
    (auto simp: seen_to_def port_ack_at_def busy_def)
next
  case (edged p seen now r)
  show ?case by (rule owes_one_write_edge [OF edged.IH edged.hyps(2,3)])
next
  case (polled p seen now r)
  show ?case using polled.hyps(2) by (intro owes_one_write_mono [OF polled.IH])
    (auto simp: seen_to_def word_le_nat_alt split: option.splits)
next
  case (read_in p seen main)
  show ?case by (intro owes_one_write_mono [OF read_in.IH]) (auto simp: seen_to_def)
next
  case (let_go p seen at now)
  show ?case using let_go.hyps by (intro owes_one_write_mono [OF let_go.IH])
    (auto simp: seen_to_def word_le_nat_alt)
qed

text \<open>
  C20: no access of main memory waits for more than one write. Over any history of the port, its clock never
  going back, whatever cache, timing and prefetch it was set up with, an access taken at \<open>now\<close> is answered: a
  read that hits, after the hit time, main memory left alone; a read that misses, the fill time after
  main memory is free, which is at most one write's time from now, and main memory is then free at the
  answer; a buffered write, no earlier than the hit time and no later than that or one write's time, and
  main memory is kept for the write's time from when it is free; an unbuffered write, exactly the write's
  time from now, and with no write buffer a fill too starts at once. Operations of main memory so never
  overlap, and at most one write is owed when the processor goes on. A fill is the board's read time, and
  on the wide machine 20 ns more in the frame buffer window and 30 ns more elsewhere.
\<close>

theorem access_wait_bounded:
  fixes w :: bool and phys :: u32 and k :: u8
  assumes "served p seen" "\<not> busy p" "seen \<le> now" "in_time now p"
  defines "q \<equiv> mclk_edge now (Memory k) (request_at w phys p)" and "buffered \<equiv> cc_write_buffer (c_config (p_cache p))"
    and "N \<equiv> unat now" and "H \<equiv> unat (cc_hit_ns (c_config (p_cache p)))" and "W \<equiv> unat (mt_write_ns (p_timing p))"
    and "R \<equiv> unat (mt_read_ns (p_timing p)) + (if \<not> ly_more_beats (p_layout p) then 0 else if phys < WINDOW_13 then 30 else 20)"
    and "free \<equiv> unat (memory_free_at p)"
  shows "\<exists>at. port_ack_at q = Some at \<and> free \<le> N + W \<and> (\<not> buffered \<longrightarrow> free \<le> N) \<and>
    (if \<not> w \<and> cache_holds (p_cache p) phys then unat at = N + H \<and> unat (memory_free_at q) = free
     else if \<not> w then unat at = max N free + R \<and> unat (memory_free_at q) = unat at
     else if buffered then N + H \<le> unat at \<and> unat at \<le> N + max H W \<and> free \<le> unat at \<and>
       unat (memory_free_at q) = max N free + W
     else unat at = N + W \<and> unat (memory_free_at q) = unat at) \<and>
    unat (memory_free_at q) \<le> unat at + W"
proof -
  let ?p = "(request_at w phys p)\<lparr>p_memory := True\<rparr>"
  obtain at p' where c: "memory_cycle now ?p = (at, p')" by fastforce
  have tm: "times_of ?p = times_of p" using times_frame(2) [of w phys p] by (simp add: times_of_def)
  have ack: "port_ack_at ?p = None" by (simp add: port_ack_at_def request_at_def drop_prefetched_def Let_def)
  have "owes_one_write p seen" by (rule served_owes [OF assms(1)])
  then have i: "owes_one_write ?p seen" using ack tm assms(2)
    by (elim owes_one_write_mono) (auto simp: seen_to_def port_ack_at_def busy_def)
  have n: "in_time now ?p" using assms(4) tm by (simp add: in_time_def times_of_def)
  note t = memory_cycle_times [OF i ack assms(3) n c]
  have q: "q = p'\<lparr>p_state := Granted at at False\<rparr>"
    using c by (simp add: q_def mclk_edge_memory request_at_def drop_prefetched_def Let_def)
  have r: "p_write ?p = w" "p_addr ?p = phys" "p_cache ?p = p_cache p" "p_layout ?p = p_layout p"
    "memory_free_at ?p = memory_free_at p" "buffer_free_at ?p = buffer_free_at p" "p_timing ?p = p_timing p"
    by (simp_all add: request_at_def drop_prefetched_def Let_def)
  have f: "free \<le> N + W" "free \<le> N \<or> buffered \<and> buffer_free_at p = memory_free_at p" "unat (buffer_free_at p) \<le> free"
    using i ack assms(3) r
    by (auto simp: owes_one_write_def seen_to_def word_le_nat_alt free_def N_def W_def buffered_def)
  have "access_times now ?p =
      (if w \<and> buffered then (max (N + H) (unat (buffer_free_at p)), max N free + W)
       else if w then (max N free + W, max N free + W)
       else if cache_holds (p_cache p) phys then (N + H, free) else (max N free + R, max N free + R))"
    by (simp only: access_times_def fill_time_def r Let_def N_def H_def W_def R_def free_def buffered_def)
  then show ?thesis
    using t f r by (auto simp: q port_ack_at_def free_def buffered_def W_def split: if_splits)
qed

lemma access_wait_bounded_witness:
  "let p = finish (mclk_edge 100 (Memory 0) (engine_request True 5 None False
       (set_memory_timing DE25_NANO (set_cache CACHE_QUUX (set_prefetch None (for_geometry QUUX_13))))))
   in map_option unat (port_ack_at (mclk_edge 200 (Memory 0) (request_at False 9 p))) = Some 800"
proof -
  let ?o = "set_memory_timing DE25_NANO (set_cache CACHE_QUUX (set_prefetch None (for_geometry QUUX_13)))"
  let ?e = "mclk_edge 100 (Memory 0) (engine_request True 5 None False ?o)"
  note fitted = set_memory_timing_def set_cache_def set_prefetch_def for_geometry_def with_layout_def layout_of_def
    layout_cache_def LAYOUT_12_def LAYOUT_13_def geometries wide_def DE25_NANO_def CACHE_QUUX_def with_words_def
    engine_request_def request_at_def
  have up: "times_of ?o = (0, 0, DE25_NANO, CACHE_QUUX\<lparr>cc_line_words := 8\<rparr>)" "\<not> busy ?o" "p_layout ?o = LAYOUT_13"
    by (simp_all add: fitted times_of_def busy_def cache_new_def)
  have e: "times_of ?e = (390, 390, DE25_NANO, CACHE_QUUX\<lparr>cc_line_words := 8\<rparr>)" "port_ack_at ?e = Some 120"
    "p_layout ?e = LAYOUT_13"
    by (simp_all add: fitted times_of_def mclk_edge_def is_memory_def memory_cycle_def port_ack_at_def cache_new_def)
  have "served ?e 100"
    by (rule served.edged [OF served.asked [OF served.power_on up(2)]])
      (simp_all add: fitted in_time_def cache_new_def)
  then have s: "served (finish ?e) 130"
    by (rule served.let_go [OF _ e(2)]) simp_all
  have miss: "\<not> cache_holds (p_cache (finish ?e)) 9"
  proof -
    have "p_cache (finish ?e) = cache_new (CACHE_QUUX\<lparr>cc_line_words := 8\<rparr>)"
      by (simp add: finish_def fitted mclk_edge_def is_memory_def memory_cycle_def cache_new_def)
    moreover have "set_of (cache_new (CACHE_QUUX\<lparr>cc_line_words := 8\<rparr>)) 1 < unat (cc_sets (CACHE_QUUX\<lparr>cc_line_words := 8\<rparr>))"
      by (simp add: set_of_def cc_sets_def cache_new_def CACHE_QUUX_def with_words_def)
    ultimately show ?thesis
      by (simp add: cache_holds_def cache_line_def cache_new_def CACHE_QUUX_def with_words_def)
  qed
  have n: "in_time 200 (finish ?e)" "\<not> busy (finish ?e)" using e(1)
    by (simp_all add: in_time_def finish_def times_of_def busy_def DE25_NANO_def CACHE_QUUX_def with_words_def)
  show ?thesis
    using access_wait_bounded [OF s n(2) _ n(1), where w = False and phys = 9 and k = 0] miss e
    by (auto simp: finish_def times_of_def DE25_NANO_def LAYOUT_13_def WINDOW_13_def)
qed

end
