(* ===== verification/ChaosPacket.thy ===== *)
theory ChaosPacket
  imports Prelude
begin

text \<open>
  A Chaosnet packet, \<open>src/chaos/packet.rs\<close>: the software's header and data as a buffer of words, the
  interface's check word, the frame of bits on the cable, and the receiver's words back out of any
  run of bits. A packet comes back out of its buffer, a buffer out of its frame, and damage confined
  to one word of a frame never checks good.
\<close>

section \<open>Opcodes\<close>

definition MAX_DATA :: nat where "MAX_DATA = 488"

definition OP_RFC :: u8 where "OP_RFC = 1"
definition OP_OPN :: u8 where "OP_OPN = 2"
definition OP_CLS :: u8 where "OP_CLS = 3"
definition OP_FWD :: u8 where "OP_FWD = 4"
definition OP_ANS :: u8 where "OP_ANS = 5"
definition OP_SNS :: u8 where "OP_SNS = 6"
definition OP_STS :: u8 where "OP_STS = 7"
definition OP_RUT :: u8 where "OP_RUT = 8"
definition OP_LOS :: u8 where "OP_LOS = 9"
definition OP_LSN :: u8 where "OP_LSN = 10"
definition OP_MNT :: u8 where "OP_MNT = 11"
definition OP_EOF :: u8 where "OP_EOF = 12"
definition OP_UNC :: u8 where "OP_UNC = 13"
definition OP_BRD :: u8 where "OP_BRD = 14"
definition OP_DAT :: u8 where "OP_DAT = 128"
definition OP_DWD :: u8 where "OP_DWD = 192"

definition is_data :: "u8 \<Rightarrow> bool" where
  "is_data opc \<longleftrightarrow> OP_DAT \<le> opc"

definition is_controlled :: "u8 \<Rightarrow> bool" where
  "is_controlled opc \<longleftrightarrow> opc = OP_RFC \<or> opc = OP_OPN \<or> opc = OP_EOF \<or> is_data opc"

section \<open>The packet and its buffer\<close>

record packet =
  pk_opcode :: u8
  pk_forward :: u8
  pk_dest :: u16
  pk_dest_index :: u16
  pk_source :: u16
  pk_source_index :: u16
  pk_number :: u16
  pk_ack :: u16
  pk_data :: "u8 list"

text \<open>The data two bytes a word, the low byte first, \<open>chunks(2)\<close>.\<close>

fun data_words :: "u8 list \<Rightarrow> u16 list" where
  "data_words [] = []"
| "data_words [a] = [ucast a]"
| "data_words (a # b # bs) = (ucast a OR push_bit 8 (ucast b)) # data_words bs"

definition packet_words :: "packet \<Rightarrow> u16 list" where
  "packet_words p =
     [push_bit 8 (ucast (pk_opcode p)),
      push_bit 12 (ucast (pk_forward p)) OR (of_nat (length (pk_data p)) AND 0xfff),
      pk_dest p, pk_dest_index p, pk_source p, pk_source_index p, pk_number p, pk_ack p]
     @ data_words (pk_data p)"

definition to_buffer :: "packet \<Rightarrow> u16 \<Rightarrow> u16 list" where
  "to_buffer p cable_dest = packet_words p @ [cable_dest]"

datatype packet_error = Too_short nat | Wrong_length nat nat

definition word_bytes_le :: "u16 \<Rightarrow> u8 list" where
  "word_bytes_le w = [ucast w, ucast (drop_bit 8 w)]"

definition from_buffer :: "u16 list \<Rightarrow> packet_error + packet \<times> u16" where
  "from_buffer buffer =
     (if length buffer < 9 then Inl (Too_short (length buffer))
      else let count = unat (buffer ! 1 AND 0xfff); n = (count + 1) div 2
           in if length buffer \<noteq> 8 + n + 1 then Inl (Wrong_length count (length buffer))
              else let data = take count (concat (map word_bytes_le (take n (drop 8 buffer))))
                   in Inr (\<lparr>pk_opcode = ucast (drop_bit 8 (buffer ! 0)), pk_forward = ucast (drop_bit 12 (buffer ! 1)),
                            pk_dest = buffer ! 2, pk_dest_index = buffer ! 3, pk_source = buffer ! 4,
                            pk_source_index = buffer ! 5, pk_number = buffer ! 6, pk_ack = buffer ! 7,
                            pk_data = data\<rparr>, buffer ! (8 + n)))"

section \<open>The check word\<close>

text \<open>One bit into the register of the 9401, and a word, most significant bit first.\<close>

definition crc_bit :: "bool \<Rightarrow> u32 \<Rightarrow> u32" where
  "crc_bit d r =
     (let fb = (d \<noteq> bit r 15); nxt = push_bit 1 r AND 0xffff
      in if fb then nxt XOR (1 OR push_bit 2 1 OR push_bit 15 1) else nxt)"

definition crc_word :: "u16 \<Rightarrow> u32 \<Rightarrow> u32" where
  "crc_word w r = fold (\<lambda>k. crc_bit (bit w k)) (rev [0..<16]) r"

definition check_word :: "u16 list \<Rightarrow> u16" where
  "check_word ws = ucast (fold crc_word ws 0)"

section \<open>The frame\<close>

definition word_bits_msb :: "u16 \<Rightarrow> bool list" where
  "word_bits_msb w = map (bit w) (rev [0..<16])"

definition frame :: "u16 list \<Rightarrow> u16 \<Rightarrow> bool list" where
  "frame buffer source =
     (let sent = buffer @ [source]; sent = sent @ [check_word sent]
      in rev (concat (map word_bits_msb sent)) @ [False])"

definition wire_word :: "bool list \<Rightarrow> nat \<Rightarrow> u16" where
  "wire_word bits k = (\<Sum>i = 0..<16. push_bit i (of_flag (bits ! (k * 16 + i))))"

definition header_on_the_wire :: "bool list \<Rightarrow> (u16 \<times> u16) option" where
  "header_on_the_wire bits = (if 48 \<le> length bits then Some (wire_word bits 1, wire_word bits 2) else None)"

record framed =
  fr_buffer :: "u16 list"
  fr_source :: u16
  fr_check :: u16
  fr_check_ok :: bool

record received_bits =
  rx_framed :: framed
  rx_bits :: nat

fun bit_chunks :: "nat \<Rightarrow> bool list \<Rightarrow> bool list list" where
  "bit_chunks 0 bs = []"
| "bit_chunks (Suc n) bs = take 16 bs # bit_chunks n (drop 16 bs)"

definition word_of_msb :: "bool list \<Rightarrow> u16" where
  "word_of_msb c = fold (\<lambda>b w. push_bit 1 w OR of_flag b) c 0"

definition received :: "bool list \<Rightarrow> received_bits" where
  "received bits =
     (let count = length bits; n = (count + 15) div 16;
          bits = rev (bits @ replicate (n * 16 - count) False);
          ws = map word_of_msb (bit_chunks n bits);
          whole = (count mod 16 = 0 \<and> 3 \<le> n);
          (buffer, source, check) =
            (if n = 0 then ([], 0, 0) else if n = 1 then ([], 0, ws ! 0)
             else (take (n - 2) ws, ws ! (n - 2), ws ! (n - 1)));
          check_ok = (whole \<and> check_word (buffer @ [source]) = check)
      in \<lparr>rx_framed = \<lparr>fr_buffer = buffer, fr_source = source, fr_check = check, fr_check_ok = check_ok\<rparr>,
          rx_bits = count\<rparr>)"

datatype frame_error = Not_a_packet nat

definition unframe :: "bool list \<Rightarrow> frame_error + framed" where
  "unframe bits =
     (let bits = (if length bits mod 16 = 1 \<and> \<not> bits ! (length bits - 1) then butlast bits else bits)
      in if length bits mod 16 \<noteq> 0 \<or> length bits < 3 * 16 then Inl (Not_a_packet (length bits))
         else Inr (rx_framed (received bits)))"

definition unframe_any :: "bool list \<Rightarrow> received_bits" where
  "unframe_any bits =
     (let bits = (if bits \<noteq> [] \<and> \<not> last bits then butlast bits else bits) in received bits)"

section \<open>A packet comes back out of its buffer\<close>

lemma length_data_words: "length (data_words bs) = (length bs + 1) div 2"
  by (induction bs rule: data_words.induct) simp_all

lemma word_bytes_le_pair: "word_bytes_le (ucast a OR push_bit 8 (ucast b)) = [a, b]"
  unfolding word_bytes_le_def
  by (simp, intro conjI bit_word_eqI) (auto simp: bit_simps dest: bit_imp_le_length)

lemma word_bytes_le_one: "word_bytes_le (ucast a) = [a, 0]"
  unfolding word_bytes_le_def
  by (simp, intro conjI bit_word_eqI) (auto simp: bit_simps dest: bit_imp_le_length)

lemma bytes_data_words: "take (length bs) (concat (map word_bytes_le (data_words bs))) = bs"
  by (induction bs rule: data_words.induct) (simp_all add: word_bytes_le_pair word_bytes_le_one)

lemma mask_12: "(0xfff :: u16) = mask 12"
  by (simp add: mask_eq_exp_minus_1)

lemma count_word:
  assumes "n < 2 ^ 12" "f < 16"
  defines "w \<equiv> push_bit 12 (ucast f) OR (of_nat n AND 0xfff) :: u16"
  shows "unat (w AND 0xfff) = n" "ucast (drop_bit 12 w) = (f :: u8)"
proof -
  have "w AND 0xfff = of_nat n AND 0xfff"
    unfolding w_def mask_12 by (rule bit_word_eqI) (auto simp: bit_simps)
  then show "unat (w AND 0xfff) = n"
    using assms(1) unfolding mask_12 by (simp add: unat_and_mask_mod unat_of_nat take_bit_nat_eq_self)
  have "bit f i \<Longrightarrow> i < 4" for i
    using word_less_exp_bit [of f 4 i] assms(2) by simp
  then show "ucast (drop_bit 12 w) = f"
    unfolding w_def mask_12 by (intro bit_word_eqI) (auto simp: bit_simps)
qed

text \<open>
  A packet comes back out of its buffer. What the software writes for a packet, the header, the data two
  bytes a word and the cable destination, is read back as the same packet and destination, for a byte count
  and a forwarding count their fields hold.
\<close>

theorem from_to_buffer:
  assumes "length (pk_data p) < 2 ^ 12" "pk_forward p < 16"
  shows "from_buffer (to_buffer p cable_dest) = Inr (p, cable_dest)"
proof -
  let ?n = "(length (pk_data p) + 1) div 2"
  let ?w = "push_bit 12 (ucast (pk_forward p)) OR (of_nat (length (pk_data p)) AND 0xfff) :: u16"
  have opc: "(ucast (drop_bit 8 (push_bit 8 (ucast (pk_opcode p) :: u16))) :: u8) = pk_opcode p"
    by (rule bit_word_eqI) (auto simp: bit_simps)
  have len: "length (to_buffer p cable_dest) = 8 + ?n + 1"
    by (simp add: to_buffer_def packet_words_def length_data_words)
  have d: "take ?n (drop 8 (to_buffer p cable_dest)) = data_words (pk_data p)"
    by (simp add: to_buffer_def packet_words_def length_data_words)
  have last: "to_buffer p cable_dest ! (8 + ?n) = cable_dest"
    by (simp add: to_buffer_def packet_words_def length_data_words nth_append)
  have hd: "to_buffer p cable_dest ! 0 = push_bit 8 (ucast (pk_opcode p))" "to_buffer p cable_dest ! 1 = ?w"
    "to_buffer p cable_dest ! 2 = pk_dest p" "to_buffer p cable_dest ! 3 = pk_dest_index p"
    "to_buffer p cable_dest ! 4 = pk_source p" "to_buffer p cable_dest ! 5 = pk_source_index p"
    "to_buffer p cable_dest ! 6 = pk_number p" "to_buffer p cable_dest ! 7 = pk_ack p"
    by (simp_all add: to_buffer_def packet_words_def)
  show ?thesis
    unfolding from_buffer_def Let_def hd count_word [OF assms] len d last bytes_data_words opc
    by simp
qed

lemma from_to_buffer_witness:
  "from_buffer (to_buffer \<lparr>pk_opcode = OP_RFC, pk_forward = 0, pk_dest = 1584, pk_dest_index = 0, pk_source = 5,
      pk_source_index = 17, pk_number = 1, pk_ack = 0, pk_data = [84, 73, 77]\<rparr> 9) =
    Inr (\<lparr>pk_opcode = OP_RFC, pk_forward = 0, pk_dest = 1584, pk_dest_index = 0, pk_source = 5,
      pk_source_index = 17, pk_number = 1, pk_ack = 0, pk_data = [84, 73, 77]\<rparr>, 9)"
  by (rule from_to_buffer) simp_all

text \<open>
  Which buffers are packets. A buffer is refused exactly when it is too short for a header and a
  destination or its length is not the one its byte count asks for; an accepted packet's data is as long as
  its byte count says, and its fields fit the words they came from.
\<close>

theorem from_buffer_accepts:
  "(\<exists>p d. from_buffer b = Inr (p, d) \<and> length (pk_data p) = unat (b ! 1 AND 0xfff) \<and> pk_forward p < 16 \<and> d = last b) =
     (9 \<le> length b \<and> length b = 9 + (unat (b ! 1 AND 0xfff) + 1) div 2)"
proof -
  let ?count = "unat (b ! 1 AND 0xfff)" and ?n = "(unat (b ! 1 AND 0xfff) + 1) div 2"
  have f: "(ucast (drop_bit 12 w) :: u8) < 16" for w :: u16
  proof -
    have "(ucast (drop_bit 12 w) :: u8) = ucast (drop_bit 12 w) AND mask 4"
      by (rule bit_word_eqI) (auto simp: bit_simps dest: bit_imp_le_length)
    also have "\<dots> < 2 ^ 4" by (rule word_and_mask_less) simp
    finally show ?thesis by simp
  qed
  show ?thesis
  proof (cases "9 \<le> length b \<and> length b = 9 + ?n")
    case True
    have "length (concat (map word_bytes_le xs)) = 2 * length xs" for xs
      by (induction xs) (simp_all add: word_bytes_le_def)
    then have "length (take ?count (concat (map word_bytes_le (take ?n (drop 8 b))))) = ?count"
      using True by simp
    moreover have "b \<noteq> []" using True by fastforce
    then have "last b = b ! (8 + ?n)" using True last_conv_nth [of b] by simp
    ultimately show ?thesis using True f by (simp add: from_buffer_def Let_def)
  next
    case False
    then show ?thesis by (auto simp: from_buffer_def Let_def split: if_splits)
  qed
qed

section \<open>The check word is a shift register\<close>

definition crc_shift :: "u32 \<Rightarrow> u32" where
  "crc_shift r = (push_bit 1 r AND 0xffff) XOR (if bit r 15 then 0x8005 else 0)"

lemma mask_16: "(0xffff :: u32) = mask 16"
  by (simp add: mask_eq_exp_minus_1)

lemma shl_xor: "push_bit 1 (a XOR b) AND 0xffff = (push_bit 1 a AND 0xffff) XOR (push_bit 1 b AND 0xffff :: u32)"
  unfolding mask_16 by (rule bit_word_eqI) (auto simp: bit_simps)

lemma crc_bit_shift: "crc_bit d r = crc_shift (r XOR (if d then push_bit 15 1 else 0))"
proof -
  have b: "bit (r XOR push_bit 15 1) 15 \<longleftrightarrow> \<not> bit r 15" unfolding bit_xor_iff by (simp add: bit_push_bit_iff)
  have s: "push_bit 1 (r XOR push_bit 15 1) AND 0xffff = (push_bit 1 r AND 0xffff :: u32)"
    unfolding shl_xor by simp
  show ?thesis
    unfolding crc_bit_def crc_shift_def Let_def using s b by auto
qed

lemma crc_shift_xor: "crc_shift (a XOR b) = crc_shift a XOR crc_shift b"
  unfolding crc_shift_def shl_xor bit_xor_iff by (auto simp: xor.left_commute xor.commute xor.assoc)

lemma crc_shift_zero [simp]: "crc_shift 0 = 0"
  by (simp add: crc_shift_def)

text \<open>What sixteen bits hold.\<close>

definition reg16 :: "u32 \<Rightarrow> bool" where
  "reg16 r \<longleftrightarrow> (\<forall>n. bit r n \<longrightarrow> n < 16)"

lemma reg16_zero [simp]: "reg16 0"
  by (simp add: reg16_def)

lemma reg16_xor: "reg16 a \<Longrightarrow> reg16 b \<Longrightarrow> reg16 (a XOR b)"
  by (auto simp: reg16_def bit_xor_iff)

lemma reg16_ucast: "reg16 (ucast (w :: u16))"
  by (auto simp: reg16_def bit_ucast_iff intro: bit_imp_le_length [of w, simplified])

text \<open>The register never loses what it holds: bit 0 says whether the polynomial went in.\<close>

lemma crc_shift_nonzero:
  assumes "reg16 r" "crc_shift r = 0"
  shows "r = 0"
proof (rule bit_word_eqI)
  have n15: "\<not> bit r 15"
  proof
    assume "bit r 15"
    then have "crc_shift r = (push_bit 1 r AND mask 16) XOR 0x8005"
      by (simp add: crc_shift_def mask_16)
    moreover have "bit ((push_bit 1 r AND mask 16) XOR 0x8005 :: u32) 0"
      unfolding bit_xor_iff bit_and_iff bit_push_bit_iff by (simp add: bit_0)
    ultimately show False using assms(2) by simp
  qed
  fix n
  have z: "push_bit 1 r AND mask 16 = 0" using assms(2) n15 by (simp add: crc_shift_def mask_16)
  have "\<not> bit r n" if "n < 15" for n
    using arg_cong [OF z, of "\<lambda>w. bit w (n + 1)"] that
    unfolding bit_and_iff bit_push_bit_iff bit_mask_iff by simp
  moreover have "bit r n \<Longrightarrow> n < 16" using assms(1) by (simp add: reg16_def)
  ultimately show "bit r n = bit 0 n" using n15 by (cases "n = 15") auto
qed

lemma crc_shift_fits: "reg16 (crc_shift r)"
proof -
  have "bit (0x8005 :: u32) n \<Longrightarrow> n < 16" for n
    using word_less_exp_bit [of "0x8005 :: u32" 16 n] by simp
  then show ?thesis
    unfolding reg16_def crc_shift_def mask_16 bit_xor_iff bit_and_iff bit_mask_iff by (auto split: if_splits)
qed

lemma crc_pow_zero [simp]: "(crc_shift ^^ k) 0 = 0"
  by (induction k) simp_all

text \<open>A word goes in whole: sixteen shifts of the register with the word added.\<close>

lemma crc_pow_xor: "(crc_shift ^^ k) (a XOR b) = (crc_shift ^^ k) a XOR (crc_shift ^^ k) b"
  by (induction k) (simp_all add: crc_shift_xor)

lemma crc_pow_low:
  assumes "k \<le> 16" "\<And>i. bit a i \<Longrightarrow> i < 16 - k"
  shows "(crc_shift ^^ k) a = push_bit k a"
  using assms
proof (induction k)
  case (Suc k)
  have IH: "(crc_shift ^^ k) a = push_bit k a" using Suc.prems by (intro Suc.IH) force+
  have "\<not> bit (push_bit k a) 15" using Suc.prems(1) Suc.prems(2) [of "15 - k"] by (auto simp: bit_push_bit_iff)
  then have "crc_shift (push_bit k a) = push_bit (Suc k) a AND mask 16"
    by (simp add: crc_shift_def mask_16 push_bit_push_bit del: push_bit_Suc)
  also have "\<dots> = push_bit (Suc k) a"
    unfolding bit_eq_iff bit_and_iff bit_mask_iff bit_push_bit_iff using Suc.prems(2) by force
  finally show ?case by (simp add: IH)
qed simp

text \<open>What the register holds after the \<open>k\<close> highest bits of a word.\<close>

lemma crc_bits_shift:
  fixes w :: u16
  assumes "k \<le> 16"
  shows "fold (\<lambda>j. crc_bit (bit w j)) (take k (rev [0..<16])) r =
    (crc_shift ^^ k) (r XOR (ucast w AND NOT (mask (16 - k))))"
  using assms
proof (induction k)
  case 0
  have "(ucast w :: u32) AND NOT (mask 16) = 0"
    by (rule bit_word_eqI) (auto simp: bit_simps intro: bit_imp_le_length [of w, simplified])
  then show ?case by simp
next
  case (Suc k)
  let ?h = "\<lambda>k. ucast w AND NOT (mask (16 - k)) :: u32"
  let ?b = "if bit w (15 - k) then push_bit (15 - k) 1 else 0 :: u32"
  have t: "take (Suc k) (rev [0..<16]) = take k (rev [0..<16]) @ [15 - k]"
    using Suc.prems by (simp add: take_Suc_conv_app_nth rev_nth)
  have "(crc_shift ^^ k) ?b = (if bit w (15 - k) then push_bit 15 1 else 0)"
  proof (cases "bit w (15 - k)")
    case True
    have "(crc_shift ^^ k) (push_bit (15 - k) 1) = push_bit k (push_bit (15 - k) 1)"
      using Suc.prems by (intro crc_pow_low) (simp, simp only: bit_push_bit_iff bit_1_iff, linarith)
    then show ?thesis using True Suc.prems by (simp only: push_bit_push_bit if_True) simp
  qed simp
  moreover have "?h (Suc k) = ?h k XOR ?b"
  proof (rule bit_word_eqI)
    fix n
    consider "n < 15 - k" | "n = 15 - k" | "15 - k < n" by linarith
    then show "bit (?h (Suc k)) n = bit (?h k XOR ?b) n"
      using Suc.prems by cases (auto simp: bit_simps)
  qed
  ultimately show ?case
    using Suc by (simp add: t crc_bit_shift crc_pow_xor crc_shift_xor xor.assoc)
qed

lemma crc_word_shift: "crc_word w r = (crc_shift ^^ 16) (r XOR ucast w)"
  using crc_bits_shift [of 16 w r] by (simp add: crc_word_def)

lemma crc_pow_nonzero: "reg16 r \<Longrightarrow> (crc_shift ^^ k) r = 0 \<Longrightarrow> r = 0"
proof (induction k)
  case (Suc k)
  have "reg16 ((crc_shift ^^ k) r)" using Suc.prems(1) crc_shift_fits by (cases k) simp_all
  then have "(crc_shift ^^ k) r = 0" using Suc.prems(2) crc_shift_nonzero by simp
  then show ?case using Suc by simp
qed simp

lemma crc_word_fits: "reg16 (crc_word w r)"
  unfolding crc_word_shift by (simp only: numeral_eq_Suc funpow.simps o_apply crc_shift_fits)

text \<open>Two registers, and two words, stay apart.\<close>

lemma crc_word_inject:
  assumes "reg16 r" "reg16 r'" "crc_word w r = crc_word w' r'"
  shows "r XOR ucast w = r' XOR ucast w'"
proof -
  have "(crc_shift ^^ 16) ((r XOR ucast w) XOR (r' XOR ucast w')) = 0"
    using assms(3) unfolding crc_word_shift crc_pow_xor xor_eq_zero .
  then have "(r XOR ucast w) XOR (r' XOR ucast w') = 0"
    by (rule crc_pow_nonzero [rotated]) (intro reg16_xor reg16_ucast assms)
  then show ?thesis by (simp only: xor_eq_zero)
qed

lemma fold_crc_fits: "reg16 r \<Longrightarrow> reg16 (fold crc_word ws r)"
  by (induction ws arbitrary: r) (simp_all add: crc_word_fits)

lemma fold_crc_inject:
  "reg16 r \<Longrightarrow> reg16 r' \<Longrightarrow> fold crc_word ws r = fold crc_word ws r' \<Longrightarrow> r = r'"
proof (induction ws arbitrary: r r')
  case (Cons w ws)
  have "crc_word w r = crc_word w r'"
    by (rule Cons.IH) (use Cons.prems(3) in \<open>simp_all add: crc_word_fits\<close>)
  then have "r XOR ucast w = r' XOR ucast w" using Cons.prems by (intro crc_word_inject)
  then show ?case by (simp only: xor_cancel_right)
qed simp

lemma check_word_inject:
  assumes "check_word us = check_word vs"
  shows "fold crc_word us 0 = fold crc_word vs 0"
proof -
  let ?r = "fold crc_word us 0" and ?s = "fold crc_word vs 0"
  have f: "reg16 ?r" "reg16 ?s" by (simp_all add: fold_crc_fits)
  have low: "bit (ucast ?r :: u16) n = bit (ucast ?s :: u16) n" for n using assms by (simp add: check_word_def)
  have "n < 16 \<Longrightarrow> bit ?r n = bit ?s n" for n using low [of n] by (simp add: bit_ucast_iff)
  then show ?thesis
    using f unfolding reg16_def by (intro bit_word_eqI) blast
qed

text \<open>Words that differ in exactly one place have different check words.\<close>

lemma check_word_detects:
  assumes "w \<noteq> w'"
  shows "check_word (us @ w # vs) \<noteq> check_word (us @ w' # vs)"
proof
  assume "check_word (us @ w # vs) = check_word (us @ w' # vs)"
  then have "fold crc_word vs (crc_word w (fold crc_word us 0)) = fold crc_word vs (crc_word w' (fold crc_word us 0))"
    using check_word_inject [of "us @ w # vs" "us @ w' # vs"] by simp
  then have "crc_word w (fold crc_word us 0) = crc_word w' (fold crc_word us 0)"
    by (rule fold_crc_inject [rotated 2]) (rule crc_word_fits)+
  then have "fold crc_word us 0 XOR (ucast w :: u32) = fold crc_word us 0 XOR ucast w'"
    by (rule crc_word_inject [rotated 2]) (intro fold_crc_fits reg16_zero)+
  then have e: "(ucast w :: u32) = ucast w'" by (simp only: xor_cancel_left)
  have "n < 16 \<Longrightarrow> bit w n = bit w' n" for n
    using arg_cong [OF e, of "\<lambda>x. bit x n"] by (simp add: bit_ucast_iff)
  then have "w = w'" by (intro bit_word_eqI) simp
  then show False using assms by simp
qed

section \<open>A buffer comes back out of its frame\<close>

text \<open>Words on the cable, played out backwards, and the zero that follows.\<close>

definition played :: "u16 list \<Rightarrow> bool list" where
  "played ws = rev (concat (map word_bits_msb ws)) @ [False]"

lemma fold_msb:
  "fold (\<lambda>b w. push_bit 1 w OR of_flag b) (map (bit w) (rev [0..<n])) acc = push_bit n acc OR (w AND mask n)"
  for w acc :: u16
proof (induction n arbitrary: acc)
  case (Suc n)
  have "push_bit n (push_bit 1 acc OR of_flag (bit w n)) OR (w AND mask n) =
      push_bit (Suc n) acc OR (w AND mask (Suc n))"
    by (rule bit_word_eqI) (auto simp: bit_simps less_Suc_eq)
  then show ?case using Suc.IH by simp
qed simp

lemma word_of_msb_bits [simp]: "word_of_msb (word_bits_msb w) = w"
proof -
  have "word_of_msb (word_bits_msb w) = w AND mask 16"
    unfolding word_of_msb_def word_bits_msb_def fold_msb by simp
  also have "\<dots> = w" by (rule bit_word_eqI) (auto simp: bit_simps)
  finally show ?thesis .
qed

lemma length_word_bits [simp]: "length (word_bits_msb w) = 16"
  by (simp add: word_bits_msb_def)

lemma length_concat_bits: "length (concat (map word_bits_msb ws)) = 16 * length ws"
  by (induction ws) simp_all

lemma bit_chunks_words: "bit_chunks (length ws) (concat (map word_bits_msb ws)) = map word_bits_msb ws"
  by (induction ws) simp_all

lemma received_words:
  fixes ws :: "u16 list"
  assumes "3 \<le> length ws"
  defines "n \<equiv> length ws"
  shows "received (rev (concat (map word_bits_msb ws))) =
    \<lparr>rx_framed = \<lparr>fr_buffer = take (n - 2) ws, fr_source = ws ! (n - 2), fr_check = ws ! (n - 1),
        fr_check_ok = (check_word (take (n - 2) ws @ [ws ! (n - 2)]) = ws ! (n - 1))\<rparr>, rx_bits = 16 * n\<rparr>"
proof -
  have c: "(16 * n + 15) div 16 = n" by simp
  have w: "map word_of_msb (bit_chunks n (concat (map word_bits_msb ws))) = ws"
    by (simp add: n_def bit_chunks_words o_def)
  show ?thesis
    using assms(1) by (simp add: received_def Let_def length_concat_bits n_def [symmetric] c w)
qed

lemma unframe_any_played:
  "3 \<le> length ws \<Longrightarrow> unframe_any (played ws) = received (rev (concat (map word_bits_msb ws)))"
  by (simp add: unframe_any_def played_def Let_def)

lemma unframe_played:
  assumes "3 \<le> length ws"
  shows "unframe (played ws) = Inr (rx_framed (received (rev (concat (map word_bits_msb ws)))))"
proof -
  have "unframe (bs @ [False]) = Inr (rx_framed (received bs))" if "length bs = 16 * length ws" for bs
    using that assms by (simp add: unframe_def nth_append)
  then show ?thesis unfolding played_def by (simp add: length_concat_bits)
qed

lemma frame_played: "frame buffer source = played (buffer @ [source, check_word (buffer @ [source])])"
  by (simp add: frame_def played_def Let_def)

lemma concat_words_nth:
  "k < length ws \<Longrightarrow> i < 16 \<Longrightarrow> concat (map (\<lambda>w. map (bit w) [0..<16]) ws) ! (k * 16 + i) = bit (ws ! k) i"
proof (induction ws arbitrary: k)
  case (Cons w ws)
  then show ?case by (cases k) (simp_all add: nth_append)
qed simp

lemma played_nth:
  assumes "k < length ws" "i < 16"
  shows "played ws ! (k * 16 + i) = bit (rev ws ! k) i"
proof -
  have r: "rev (concat (map word_bits_msb ws)) = concat (map (\<lambda>w. map (bit w) [0..<16]) (rev ws))"
    by (simp add: rev_concat rev_map word_bits_msb_def o_def)
  have "k * 16 + i < 16 * length ws" using assms by linarith
  then show ?thesis
    using assms concat_words_nth [of k "rev ws" i]
    by (simp add: played_def r nth_append length_concat_bits [of ws, folded r] flip: r)
qed

lemma wire_word_played:
  assumes "k < length ws" "(k + 1) * 16 \<le> m"
  shows "wire_word (take m (played ws)) k = rev ws ! k"
proof -
  have "wire_word (take m (played ws)) k = (\<Sum>i = 0..<16. push_bit i (of_bool (bit (rev ws ! k) i)))"
    unfolding wire_word_def using assms
    by (intro sum.cong refl) (simp add: played_nth of_flag_def)
  also have "\<dots> = take_bit 16 (rev ws ! k)" by (rule take_bit_sum [symmetric])
  also have "\<dots> = rev ws ! k" by (rule bit_word_eqI) (auto simp: bit_simps)
  finally show ?thesis .
qed

text \<open>
  A buffer comes back out of its frame. The bits a transmitter puts on the cable for a buffer and its own
  address are taken back as that buffer and address with a good check; and a receiver that reads the
  addresses while the frame goes by has them right from the forty-eighth bit on.
\<close>

theorem frame_round_trip:
  assumes "buffer \<noteq> []" "48 \<le> m"
  shows "unframe (frame buffer source) =
      Inr \<lparr>fr_buffer = buffer, fr_source = source, fr_check = check_word (buffer @ [source]), fr_check_ok = True\<rparr> \<and>
    unframe_any (frame buffer source) =
      \<lparr>rx_framed = \<lparr>fr_buffer = buffer, fr_source = source, fr_check = check_word (buffer @ [source]), fr_check_ok = True\<rparr>,
       rx_bits = 16 * (length buffer + 2)\<rparr> \<and>
    header_on_the_wire (take m (frame buffer source)) = Some (source, last buffer)"
proof -
  let ?ws = "buffer @ [source, check_word (buffer @ [source])]"
  have n: "3 \<le> length ?ws" using assms(1) by (cases buffer) simp_all
  have r: "received (rev (concat (map word_bits_msb ?ws))) =
      \<lparr>rx_framed = \<lparr>fr_buffer = buffer, fr_source = source, fr_check = check_word (buffer @ [source]), fr_check_ok = True\<rparr>,
       rx_bits = 16 * (length buffer + 2)\<rparr>"
    using received_words [OF n] by (simp add: nth_append)
  have len: "length (played ?ws) = 16 * length ?ws + 1"
    by (simp only: played_def length_append length_rev length_concat_bits list.size)
  have "unframe (frame buffer source) = Inr (rx_framed (received (rev (concat (map word_bits_msb ?ws)))))"
    unfolding frame_played by (rule unframe_played [OF n])
  moreover have "header_on_the_wire (take m (frame buffer source)) = Some (source, last buffer)"
    unfolding header_on_the_wire_def frame_played using assms n len
    by (simp add: wire_word_played rev_nth nth_append last_conv_nth)
  ultimately show ?thesis using n r by (simp add: frame_played unframe_any_played)
qed

lemma frame_round_trip_witness:
  "unframe (frame [1, 2, 3] 9) =
    Inr \<lparr>fr_buffer = [1, 2, 3], fr_source = 9, fr_check = check_word [1, 2, 3, 9], fr_check_ok = True\<rparr>"
  using frame_round_trip [of "[1, 2, 3]" 48 9] by simp

text \<open>
  C34: damage to one word never checks good. A frame of which any bits of one word, the addresses and the check
  word included, were changed on the cable is taken as a whole packet whose check fails.
\<close>

theorem frame_damage_detected:
  fixes source :: u16
  assumes "buffer \<noteq> []" "i < length buffer + 2"
  defines "sent \<equiv> buffer @ [source, check_word (buffer @ [source])]"
  assumes "w \<noteq> sent ! i"
  shows "frame buffer source = played sent \<and> \<not> fr_check_ok (rx_framed (unframe_any (played (sent[i := w]))))"
proof -
  let ?b = "buffer @ [source]" and ?n = "length buffer"
  have n: "3 \<le> length (sent[i := w])"
    unfolding length_list_update using assms(1) by (cases buffer) (simp_all add: sent_def)
  have s: "sent = ?b @ [check_word ?b]" by (simp add: sent_def)
  have "check_word (take ?n (sent[i := w]) @ [sent[i := w] ! ?n]) \<noteq> sent[i := w] ! (?n + 1)"
  proof (cases "i = ?n + 1")
    case True
    then have "take ?n (sent[i := w]) @ [sent[i := w] ! ?n] = ?b" "sent[i := w] ! (?n + 1) = w" "sent ! i = check_word ?b"
      by (simp_all add: sent_def nth_append list_update_append)
    then show ?thesis using assms(4) by auto
  next
    case False
    then have i: "i < length ?b" using assms(2) by simp
    then have "take ?n (sent[i := w]) @ [sent[i := w] ! ?n] = ?b[i := w]" "sent[i := w] ! (?n + 1) = check_word ?b"
      "sent ! i = ?b ! i"
      unfolding s by (simp_all add: nth_append list_update_append split: nat.splits)
    moreover have "check_word (?b[i := w]) \<noteq> check_word ?b"
      using check_word_detects [of w "?b ! i" "take i ?b" "drop (Suc i) ?b"] i assms(4) calculation(3)
        id_take_nth_drop [OF i] upd_conv_take_nth_drop [OF i, of w] by (simp only: not_False_eq_True simp_thms)
    ultimately show ?thesis by auto
  qed
  then show ?thesis
    unfolding unframe_any_played [OF n] received_words [OF n] by (simp add: frame_played sent_def)
qed

lemma frame_damage_detected_witness:
  "\<not> fr_check_ok (rx_framed (unframe_any (played ([1, 2, 9, check_word [1, 2, 9]][1 := 3]))))"
  using frame_damage_detected [of "[1, 2]" 1 3 9] by simp

end
