(* ===== verification/ChaosWire.thy ===== *)
theory ChaosWire
  imports ChaosPacket
begin

text \<open>
  The Chaosnet cable's line code, \<open>src/chaos/wire.rs\<close>: the level changes of a run of bits, and the
  receiver that samples them back under its lockout and ends a packet on an idle line. Times are
  nanoseconds from the first edge, taken as \<open>nat\<close>; a frame is far below the \<open>u64\<close>'s range.
\<close>

section \<open>The code\<close>

definition CELL_NS :: nat where "CELL_NS = 250"
definition SAMPLE_NS :: nat where "SAMPLE_NS = 175"
definition LOCKOUT_NS :: nat where "LOCKOUT_NS = 170"
definition IDLE_NS :: nat where "IDLE_NS = 2 * CELL_NS + CELL_NS div 2"

fun encode_from :: "nat \<Rightarrow> bool \<Rightarrow> bool \<Rightarrow> bool list \<Rightarrow> (nat \<times> bool) list" where
  "encode_from k level prev [] = []"
| "encode_from k level prev (b # bs) =
     (let start = k * CELL_NS; level = (\<not> level)
      in (start, level) #
         (if b = prev then (start + CELL_NS div 2, \<not> level) # encode_from (k + 1) (\<not> level) b bs
          else encode_from (k + 1) level b bs))"

definition encode :: "bool list \<Rightarrow> (nat \<times> bool) list" where
  "encode bits = encode_from 0 False False bits"

section \<open>The receiver\<close>

record decoder =
  dc_level :: bool
  dc_cell :: "nat option"
  dc_sample :: "nat option"
  dc_bits :: "bool list"
  dc_last_edge :: "nat option"

definition decoder_new :: decoder where
  "decoder_new = \<lparr>dc_level = False, dc_cell = None, dc_sample = None, dc_bits = [], dc_last_edge = None\<rparr>"

definition dc_busy :: "decoder \<Rightarrow> bool" where
  "dc_busy d \<longleftrightarrow> dc_cell d \<noteq> None"

definition dc_edge :: "nat \<Rightarrow> bool \<Rightarrow> decoder \<Rightarrow> decoder" where
  "dc_edge t level d =
     (if level = dc_level d then d
      else let d = d\<lparr>dc_level := level, dc_last_edge := Some t\<rparr>
           in case dc_cell d of
                Some start \<Rightarrow> if t < start + LOCKOUT_NS then d
                              else d\<lparr>dc_cell := Some t, dc_sample := Some (t + SAMPLE_NS)\<rparr>
              | None \<Rightarrow> d\<lparr>dc_cell := Some t, dc_sample := Some (t + SAMPLE_NS)\<rparr>)"

definition next_due :: "decoder \<Rightarrow> nat option" where
  "next_due d =
     (let idle = (if dc_cell d \<noteq> None \<and> \<not> dc_level d then map_option (\<lambda>e. e + IDLE_NS) (dc_last_edge d) else None)
      in case dc_sample d of
           Some s \<Rightarrow> (case idle of Some i \<Rightarrow> Some (min s i) | None \<Rightarrow> Some s)
         | None \<Rightarrow> idle)"

definition dc_at :: "nat \<Rightarrow> decoder \<Rightarrow> bool list option \<times> decoder" where
  "dc_at t d =
     (let d = (case dc_sample d of
                 Some s \<Rightarrow> if s \<le> t then d\<lparr>dc_bits := dc_bits d @ [dc_level d], dc_sample := None\<rparr> else d
               | None \<Rightarrow> d)
      in case (dc_cell d, dc_last_edge d) of
           (Some _, Some e) \<Rightarrow>
             if e + IDLE_NS \<le> t \<and> \<not> dc_level d
             then (Some (dc_bits d), d\<lparr>dc_cell := None, dc_sample := None, dc_bits := []\<rparr>)
             else (None, d)
         | _ \<Rightarrow> (None, d))"

text \<open>How much a receiver still has to be told the time for.\<close>

definition pending :: "decoder \<Rightarrow> nat" where
  "pending d = (if dc_sample d = None then 0 else 1) + (if dc_cell d = None then 0 else 1)"

lemma dc_at_progress:
  assumes "next_due d = Some due" "due \<le> t"
  shows "pending (snd (dc_at t d)) < pending d"
  using assms
  by (auto simp: next_due_def dc_at_def pending_def Let_def split: option.splits if_splits)

definition deliver :: "bool list option \<Rightarrow> bool list list \<Rightarrow> bool list list" where
  "deliver p out = (case p of Some bits \<Rightarrow> out @ [bits] | None \<Rightarrow> out)"

text \<open>The samples and ends due up to the next change, and those after the last.\<close>

function drain_to :: "nat \<Rightarrow> decoder \<Rightarrow> bool list list \<Rightarrow> nat \<Rightarrow> decoder \<times> bool list list \<times> nat" where
  "drain_to at d out t =
     (case next_due d of
        Some due \<Rightarrow>
          if due \<le> at then let (p, d') = dc_at due d in drain_to at d' (deliver p out) due else (d, out, t)
      | None \<Rightarrow> (d, out, t))"
  by auto

termination drain_to
proof (relation "measure (\<lambda>(at, d, out, t). pending d)", goal_cases)
  case (2 at d out t due x p d')
  then show ?case using dc_at_progress [of d due due] by (metis in_measure case_prod_conv order_refl snd_conv)
qed simp

function drain_end :: "decoder \<Rightarrow> bool list list \<Rightarrow> nat \<Rightarrow> bool list list" where
  "drain_end d out t =
     (case next_due d of
        Some due \<Rightarrow> let t = max due t; (p, d') = dc_at t d in drain_end d' (deliver p out) t
      | None \<Rightarrow> out)"
  by auto

termination drain_end
proof (relation "measure (\<lambda>(d, out, t). pending d)", goal_cases)
  case (2 d out t due t' x p d')
  then show ?case using dc_at_progress [of d due t'] by (metis in_measure case_prod_conv max.cobounded1 snd_conv)
qed simp

declare drain_to.simps [simp del] drain_end.simps [simp del]

fun decode_from :: "(nat \<times> bool) list \<Rightarrow> decoder \<Rightarrow> bool list list \<Rightarrow> nat \<Rightarrow> bool list list" where
  "decode_from [] d out t = drain_end d out t"
| "decode_from ((at, level) # cs) d out t =
     (let (d, out, t) = drain_to at d out t; t = max t at in decode_from cs (dc_edge at level d) out t)"

definition decode :: "(nat \<times> bool) list \<Rightarrow> bool list list" where
  "decode changes = decode_from changes decoder_new [] 0"

section \<open>What is put on the cable is taken off it\<close>

text \<open>Inside a packet, before the cell \<open>k\<close>: the last cell's sample is still to be taken.\<close>

definition in_cell :: "nat \<Rightarrow> bool \<Rightarrow> nat \<Rightarrow> bool list \<Rightarrow> decoder" where
  "in_cell k b e bits = \<lparr>dc_level = b, dc_cell = Some (k * 250), dc_sample = Some (k * 250 + 175), dc_bits = bits,
     dc_last_edge = Some e\<rparr>"

definition sampled :: "nat \<Rightarrow> bool \<Rightarrow> nat \<Rightarrow> bool list \<Rightarrow> decoder" where
  "sampled k b e bits = \<lparr>dc_level = b, dc_cell = Some (k * 250), dc_sample = None, dc_bits = bits @ [b],
     dc_last_edge = Some e\<rparr>"

lemmas line_defs = CELL_NS_def SAMPLE_NS_def LOCKOUT_NS_def IDLE_NS_def in_cell_def sampled_def
  next_due_def dc_at_def dc_edge_def deliver_def

lemma drain_sampled:
  assumes "k * 250 \<le> e" "at \<le> Suc k * 250"
  shows "drain_to at (sampled k b e bits) out t = (sampled k b e bits, out, t)"
  using assms by (subst drain_to.simps) (simp add: line_defs)

lemma drain_in_cell:
  assumes "k * 250 \<le> e" "e \<le> k * 250 + 125"
  shows "drain_to (Suc k * 250) (in_cell k b e bits) out t = (sampled k b e bits, out, k * 250 + 175)"
proof -
  have "next_due (in_cell k b e bits) = Some (k * 250 + 175)"
    "dc_at (k * 250 + 175) (in_cell k b e bits) = (None, sampled k b e bits)"
    using assms by (simp_all add: line_defs)
  then show ?thesis
    using drain_sampled [OF assms(1)] by (subst drain_to.simps) (simp add: deliver_def)
qed

lemma drain_mid_cell: "drain_to (k * 250 + 125) (in_cell k b (k * 250) bits) out t = (in_cell k b (k * 250) bits, out, t)"
  by (subst drain_to.simps) (simp add: line_defs)

text \<open>One cell.\<close>

lemma decode_cell:
  assumes "k * 250 \<le> e" "e \<le> k * 250 + 125"
  shows "\<exists>e' t'. Suc k * 250 \<le> e' \<and> e' \<le> Suc k * 250 + 125 \<and>
    decode_from (encode_from (Suc k) prev prev (b # bs)) (in_cell k prev e bits) out t =
    decode_from (encode_from (Suc (Suc k)) b b bs) (in_cell (Suc k) b e' (bits @ [prev])) out t'"
proof -
  have open_cell: "dc_edge (Suc k * 250) (\<not> prev) (sampled k prev e bits) = in_cell (Suc k) (\<not> prev) (Suc k * 250) (bits @ [prev])"
    by (simp add: line_defs)
  have mid: "dc_edge (Suc k * 250 + 125) prev (in_cell (Suc k) (\<not> prev) (Suc k * 250) (bits @ [prev])) =
      in_cell (Suc k) prev (Suc k * 250 + 125) (bits @ [prev])"
    by (simp add: line_defs)
  show ?thesis
  proof (cases "b = prev")
    case True
    then show ?thesis
      using drain_in_cell [OF assms] drain_mid_cell [of "Suc k"] open_cell mid
      by (intro exI [of _ "Suc k * 250 + 125"] exI [of _ "max (max (k * 250 + 175) (Suc k * 250)) (Suc k * 250 + 125)"])
        (simp add: CELL_NS_def Let_def del: mult_Suc)
  next
    case False
    then have "b = (\<not> prev)" by simp
    then show ?thesis
      using drain_in_cell [OF assms] open_cell
      by (intro exI [of _ "Suc k * 250"] exI [of _ "max (k * 250 + 175) (Suc k * 250)"])
        (simp add: CELL_NS_def Let_def del: mult_Suc)
  qed
qed

text \<open>The rest of a packet, and the idle line after it.\<close>

lemma drain_end_low:
  assumes "k * 250 \<le> e" "e \<le> k * 250 + 125"
  shows "drain_end (in_cell k False e bits) out t = out @ [bits @ [False]]"
proof -
  define d0 where "d0 = \<lparr>dc_level = False, dc_cell = None, dc_sample = None, dc_bits = [], dc_last_edge = Some e\<rparr>"
  have stop: "drain_end d0 out t = out" for out t
    by (subst drain_end.simps) (simp add: d0_def next_due_def)
  have ends: "drain_end (sampled k False e bits) out t = out @ [bits @ [False]]" for t
    by (subst drain_end.simps) (simp add: line_defs stop [unfolded d0_def])
  show ?thesis
  proof (cases "e + 625 \<le> max (k * 250 + 175) t")
    case True
    then have "max (k * 250 + 175) t = t" "k * 250 + 175 \<le> t" "e + 625 \<le> t" using assms by auto
    then have "dc_at (max (k * 250 + 175) t) (in_cell k False e bits) = (Some (bits @ [False]), d0)"
      by (simp add: line_defs d0_def)
    moreover have "next_due (in_cell k False e bits) = Some (k * 250 + 175)"
      using assms by (simp add: line_defs)
    ultimately show ?thesis using stop by (subst drain_end.simps) (simp add: deliver_def)
  next
    case False
    then have "dc_at (max (k * 250 + 175) t) (in_cell k False e bits) = (None, sampled k False e bits)"
      by (simp add: line_defs)
    moreover have "next_due (in_cell k False e bits) = Some (k * 250 + 175)"
      using assms by (simp add: line_defs)
    ultimately show ?thesis using ends by (subst drain_end.simps) (simp add: deliver_def)
  qed
qed

lemma decode_rest:
  assumes "k * 250 \<le> e" "e \<le> k * 250 + 125" "\<not> last (prev # bs)"
  shows "decode_from (encode_from (Suc k) prev prev bs) (in_cell k prev e bits) out t = out @ [bits @ prev # bs]"
  using assms
proof (induction bs arbitrary: k prev e bits t)
  case Nil
  then show ?case using drain_end_low by simp
next
  case (Cons b bs)
  obtain e' t' where e': "Suc k * 250 \<le> e'" "e' \<le> Suc k * 250 + 125"
    and step: "decode_from (encode_from (Suc k) prev prev (b # bs)) (in_cell k prev e bits) out t =
      decode_from (encode_from (Suc (Suc k)) b b bs) (in_cell (Suc k) b e' (bits @ [prev])) out t'"
    using decode_cell [OF Cons.prems(1,2)] by blast
  have "\<not> last (b # bs)" using Cons.prems(3) by simp
  from Cons.IH [OF e' this] show ?case unfolding step by simp
qed

text \<open>
  The line code is read back. The level changes for any run of bits that ends in a zero, sampled by the
  receiver under its lockout, are delivered as exactly that run, once, when the line has gone idle.
\<close>

theorem decode_encode:
  assumes "bits \<noteq> []" "\<not> last bits"
  shows "decode (encode bits) = [bits]"
proof -
  obtain b bs where bits: "bits = b # bs" using assms(1) by (cases bits) simp_all
  have none: "drain_to at decoder_new [] t = (decoder_new, [], t)" for at t
    by (subst drain_to.simps) (simp add: decoder_new_def next_due_def)
  have first: "dc_edge 0 True decoder_new = in_cell 0 True 0 []"
    by (simp add: decoder_new_def line_defs)
  show ?thesis
  proof (cases b)
    case True
    then show ?thesis
      using decode_rest [of 0 0 True bs "[]" "[]"] assms(2)
      by (simp add: decode_def encode_def bits none first CELL_NS_def Let_def)
  next
    case False
    have "dc_edge 125 False (in_cell 0 True 0 []) = in_cell 0 False 125 []" by (simp add: line_defs)
    then show ?thesis
      using decode_rest [of 0 125 False bs "[]" "[]"] assms(2) False drain_mid_cell [of 0 True "[]" "[]"]
      by (simp add: decode_def encode_def bits none first CELL_NS_def Let_def)
  qed
qed

lemma decode_encode_witness: "decode (encode [True, True, False, True, False]) = [[True, True, False, True, False]]"
  by (rule decode_encode) simp_all

text \<open>
  C33: a packet goes over the cable. The one run of bits the cable's receiver delivers for a packet a board sends
  is taken as a whole packet with a good check, and its buffer gives the packet and the destination the
  software wrote, and its source is the sending board's.
\<close>

theorem packet_over_the_cable:
  fixes source cable_dest :: u16
  assumes "length (pk_data p) < 2 ^ 12" "pk_forward p < 16"
  defines "sent \<equiv> encode (frame (to_buffer p cable_dest) source)"
  shows "\<exists>bits. decode sent = [bits] \<and>
    (let f = rx_framed (unframe_any bits)
     in fr_check_ok f \<and> fr_source f = source \<and> from_buffer (fr_buffer f) = Inr (p, cable_dest))"
proof -
  have b: "to_buffer p cable_dest \<noteq> []" by (simp add: to_buffer_def)
  have "decode sent = [frame (to_buffer p cable_dest) source]"
    unfolding sent_def by (rule decode_encode) (simp_all add: frame_def Let_def)
  then show ?thesis
    using frame_round_trip [OF b order_refl] from_to_buffer [OF assms(1,2)] by (simp add: Let_def)
qed

lemma packet_over_the_cable_witness:
  "\<exists>bits. decode (encode (frame (to_buffer \<lparr>pk_opcode = OP_RFC, pk_forward = 0, pk_dest = 1584, pk_dest_index = 0,
      pk_source = 5, pk_source_index = 17, pk_number = 1, pk_ack = 0, pk_data = [84, 73, 77]\<rparr> 1584) 5)) = [bits]"
  using packet_over_the_cable [where p = "\<lparr>pk_opcode = OP_RFC, pk_forward = 0, pk_dest = 1584, pk_dest_index = 0,
      pk_source = 5, pk_source_index = 17, pk_number = 1, pk_ack = 0, pk_data = [84, 73, 77]\<rparr>", where cable_dest = 1584 and source = 5]
  by auto

end
