(* ===== verification/QuuxInput.thy ===== *)
theory QuuxInput
  imports Codec
begin

text \<open>
  QUUX's keyboard and mouse on the register page, \<open>src/quux_input.rs\<close>, with the boot word's decode of
  \<open>src/ioboard.rs\<close>. The keyboard is a bounded FIFO, refined to the sequence of the words pressed; the
  mouse keeps the sum of its motions in twelve bits.
\<close>

section \<open>A bounded queue\<close>

text \<open>What a user of a bounded queue relies on: a word put in is kept behind the others while there is room.\<close>

datatype 'a queue_op = Put 'a | Take

primrec queue_spec :: "nat \<Rightarrow> 'a queue_op \<Rightarrow> 'a list \<times> nat \<Rightarrow> 'a list \<times> nat" where
  "queue_spec cap (Put x) s = (if length (fst s) - snd s < cap then (fst s @ [x], snd s) else s)"
| "queue_spec cap Take s = (if snd s < length (fst s) then (fst s, snd s + 1) else s)"

locale bounded_queue =
  fixes cap :: nat
    and items :: "'q \<Rightarrow> 'a list"
    and put :: "'a \<Rightarrow> 'q \<Rightarrow> 'q"
    and take_one :: "'q \<Rightarrow> 'q"
  assumes items_put: "items (put x q) = (if length (items q) < cap then items q @ [x] else items q)"
    and items_take: "items (take_one q) = tl (items q)"
begin

text \<open>The queue is what was let in and not yet taken, in order.\<close>

lemma put_refines:
  assumes "items q = drop (snd s) (fst s)" "snd s \<le> length (fst s)"
  shows "items (put x q) = drop (snd (queue_spec cap (Put x) s)) (fst (queue_spec cap (Put x) s))"
    "snd (queue_spec cap (Put x) s) \<le> length (fst (queue_spec cap (Put x) s))"
  using assms by (simp_all add: items_put)

lemma take_refines:
  assumes "items q = drop (snd s) (fst s)" "snd s \<le> length (fst s)"
  shows "items (take_one q) = drop (snd (queue_spec cap Take s)) (fst (queue_spec cap Take s))"
    "snd (queue_spec cap Take s) \<le> length (fst (queue_spec cap Take s))"
  using assms by (auto simp: items_take tl_drop drop_Suc)

lemma put_within: "length (items q) \<le> cap \<Longrightarrow> length (items (put x q)) \<le> cap"
  by (simp add: items_put)

lemma take_within: "length (items q) \<le> cap \<Longrightarrow> length (items (take_one q)) \<le> cap"
  by (simp add: items_take)

end

section \<open>The model\<close>

definition FIFO_WORDS :: nat where "FIFO_WORDS = 64"
definition KBD_STATUS :: u32 where "KBD_STATUS = 0x50"
definition KBD_DATA :: u32 where "KBD_DATA = 0x51"
definition MOUSE :: u32 where "MOUSE = 0x52"
definition MOUSE_STATUS :: u32 where "MOUSE_STATUS = 0x53"
definition QI_ENABLE :: u32 where "QI_ENABLE = push_bit 8 1"

definition boot_word :: "u32 \<Rightarrow> bool" where
  "boot_word word \<longleftrightarrow> drop_bit 6 word AND 0xff = 0xf0"

record quux_input =
  qi_fifo :: "u32 list"
  qi_overflowed :: bool
  qi_kbd_enable :: bool
  qi_x :: u16
  qi_y :: u16
  qi_buttons :: u8
  qi_mouse_changed :: bool
  qi_mouse_enable :: bool
  qi_boot :: bool

definition quux_input_new :: quux_input where
  "quux_input_new = \<lparr>qi_fifo = [], qi_overflowed = False, qi_kbd_enable = False, qi_x = 0, qi_y = 0,
     qi_buttons = 0, qi_mouse_changed = False, qi_mouse_enable = False, qi_boot = False\<rparr>"

definition qi_pop :: "quux_input \<Rightarrow> quux_input" where
  "qi_pop q = q\<lparr>qi_fifo := tl (qi_fifo q)\<rparr>"

definition qi_read :: "u32 \<Rightarrow> quux_input \<Rightarrow> u32 option \<times> quux_input" where
  "qi_read word q =
     (if word = KBD_STATUS
      then (Some (of_flag (qi_fifo q \<noteq> []) OR push_bit 1 (of_flag (qi_overflowed q))
                  OR (if qi_kbd_enable q then QI_ENABLE else 0)), q)
      else if word = KBD_DATA
      then (Some ((case qi_fifo q of [] \<Rightarrow> 0 | k # _ \<Rightarrow> k) AND 0xffffff), qi_pop q)
      else if word = MOUSE
      then (Some (push_bit 16 (ucast (qi_y q)) OR push_bit 12 (ucast (qi_buttons q) AND 7) OR ucast (qi_x q)),
            q\<lparr>qi_mouse_changed := False\<rparr>)
      else if word = MOUSE_STATUS
      then (Some (of_flag (qi_mouse_changed q) OR (if qi_mouse_enable q then QI_ENABLE else 0)), q)
      else (None, q))"

definition qi_write :: "u32 \<Rightarrow> u32 \<Rightarrow> quux_input \<Rightarrow> bool \<times> quux_input" where
  "qi_write word v q =
     (if word = KBD_STATUS then (True, q\<lparr>qi_overflowed := False, qi_kbd_enable := (v AND QI_ENABLE \<noteq> 0)\<rparr>)
      else if word = MOUSE_STATUS then (True, q\<lparr>qi_mouse_enable := (v AND QI_ENABLE \<noteq> 0)\<rparr>)
      else if word = KBD_DATA \<or> word = MOUSE then (True, q)
      else (False, q))"

definition qi_interrupts :: "quux_input \<Rightarrow> u32" where
  "qi_interrupts q =
     push_bit 4 (of_flag (qi_kbd_enable q \<and> qi_fifo q \<noteq> [])) OR
     push_bit 5 (of_flag (qi_mouse_enable q \<and> qi_mouse_changed q))"

definition key_waiting :: "quux_input \<Rightarrow> bool" where
  "key_waiting q \<longleftrightarrow> qi_fifo q \<noteq> []"

definition take_boot :: "quux_input \<Rightarrow> bool \<times> quux_input" where
  "take_boot q = (qi_boot q, q\<lparr>qi_boot := False\<rparr>)"

definition takes_key :: "quux_input \<Rightarrow> bool" where
  "takes_key q \<longleftrightarrow> length (qi_fifo q) < FIFO_WORDS"

definition press :: "u32 \<Rightarrow> quux_input \<Rightarrow> quux_input" where
  "press word q =
     (let q = (if boot_word word then q\<lparr>qi_boot := True\<rparr> else q)
      in if length (qi_fifo q) < FIFO_WORDS then q\<lparr>qi_fifo := qi_fifo q @ [word]\<rparr>
         else q\<lparr>qi_overflowed := True\<rparr>)"

text \<open>The motion is an \<open>i32\<close>, added in 32 bits; \<open>rem_euclid\<close> is \<open>mod\<close>.\<close>

definition mouse_move :: "u32 \<Rightarrow> u32 \<Rightarrow> quux_input \<Rightarrow> quux_input" where
  "mouse_move dx dy q =
     (if dx \<noteq> 0 \<or> dy \<noteq> 0
      then q\<lparr>qi_x := word_of_int (sint (ucast (qi_x q) + dx) mod 4096),
             qi_y := word_of_int (sint (ucast (qi_y q) + dy) mod 4096), qi_mouse_changed := True\<rparr>
      else q)"

definition mouse_buttons :: "u8 \<Rightarrow> quux_input \<Rightarrow> quux_input" where
  "mouse_buttons held q =
     (let held = held AND 7
      in if held \<noteq> qi_buttons q then q\<lparr>qi_buttons := held, qi_mouse_changed := True\<rparr> else q)"

definition mouse_buttons_held :: "quux_input \<Rightarrow> u8" where
  "mouse_buttons_held q = qi_buttons q"

definition qi_save :: "quux_input \<Rightarrow> writer \<Rightarrow> writer" where
  "qi_save q = put_all
     [put_u32 (of_nat (length (qi_fifo q))), fold put_u32 (qi_fifo q), put_bool (qi_overflowed q),
      put_bool (qi_kbd_enable q), put_u16 (qi_x q), put_u16 (qi_y q), put_u8 (qi_buttons q),
      put_bool (qi_mouse_changed q), put_bool (qi_mouse_enable q)]"

definition qi_load :: "quux_input \<Rightarrow> quux_input rd" where
  "qi_load q = rd_bind get_u32 (\<lambda>n.
     if FIFO_WORDS < unat n then rd_fail Bad_value
     else rd_bind (get_many (unat n) get_u32) (\<lambda>fifo. rd_bind get_bool (\<lambda>overflowed. rd_bind get_bool (\<lambda>kbd_enable.
       rd_bind get_u16 (\<lambda>x. rd_bind get_u16 (\<lambda>y. rd_bind get_u8 (\<lambda>buttons. rd_bind get_bool (\<lambda>changed.
       rd_bind get_bool (\<lambda>mouse_enable.
         rd_return (q\<lparr>qi_fifo := fifo, qi_overflowed := overflowed, qi_kbd_enable := kbd_enable, qi_x := x, qi_y := y,
           qi_buttons := buttons, qi_mouse_changed := changed, qi_mouse_enable := mouse_enable\<rparr>))))))))))"

interpretation kbd: bounded_queue FIFO_WORDS qi_fifo press qi_pop
  by unfold_locales (simp_all add: press_def qi_pop_def Let_def)

section \<open>What the processor and the host do\<close>

datatype qi_op = Press u32 | Read u32 | Write u32 u32 | Move u32 u32 | Buttons u8 | Boot_taken

primrec qi_apply :: "qi_op \<Rightarrow> quux_input \<Rightarrow> quux_input" where
  "qi_apply (Press w) q = press w q"
| "qi_apply (Read w) q = snd (qi_read w q)"
| "qi_apply (Write w v) q = snd (qi_write w v q)"
| "qi_apply (Move dx dy) q = mouse_move dx dy q"
| "qi_apply (Buttons m) q = mouse_buttons m q"
| "qi_apply Boot_taken q = snd (take_boot q)"

text \<open>The words the keyboard has let in and how many of them were read, and whether one was lost since the flag
  was last cleared.\<close>

definition key_spec :: "qi_op \<Rightarrow> (u32 list \<times> nat) \<times> bool \<Rightarrow> (u32 list \<times> nat) \<times> bool" where
  "key_spec p s =
     (case p of
        Press w \<Rightarrow> (queue_spec FIFO_WORDS (Put w) (fst s),
                    snd s \<or> FIFO_WORDS \<le> length (fst (fst s)) - snd (fst s))
      | Read w \<Rightarrow> if w = KBD_DATA then (queue_spec FIFO_WORDS Take (fst s), snd s) else s
      | Write w v \<Rightarrow> if w = KBD_STATUS then (fst s, False) else s
      | _ \<Rightarrow> s)"

definition key_abs :: "(u32 list \<times> nat) \<times> bool \<Rightarrow> quux_input \<Rightarrow> bool" where
  "key_abs s q \<longleftrightarrow> qi_fifo q = drop (snd (fst s)) (fst (fst s)) \<and> snd (fst s) \<le> length (fst (fst s)) \<and>
     length (qi_fifo q) \<le> FIFO_WORDS \<and> qi_overflowed q = snd s"

lemmas page_words = KBD_STATUS_def KBD_DATA_def MOUSE_def MOUSE_STATUS_def

lemma key_abs_step: "key_abs s q \<Longrightarrow> key_abs (key_spec p s) (qi_apply p q)"
proof (cases p)
  case (Press w)
  assume a: "key_abs s q"
  have "qi_overflowed (press w q) = (qi_overflowed q \<or> FIFO_WORDS \<le> length (qi_fifo q))"
    by (simp add: press_def Let_def)
  then show ?thesis
    using a kbd.put_refines [of q "fst s" w] kbd.put_within [of q w]
    unfolding Press key_spec_def key_abs_def qi_op.case qi_apply.simps fst_conv snd_conv
    by (auto simp del: queue_spec.simps)
next
  case (Read w)
  assume a: "key_abs s q"
  show ?thesis
  proof (cases "w = KBD_DATA")
    case True
    have "qi_overflowed (qi_pop q) = qi_overflowed q" by (simp add: qi_pop_def)
    then show ?thesis
      using a kbd.take_refines [of q "fst s"] kbd.take_within [of q]
      by (auto simp: Read True key_spec_def key_abs_def qi_read_def page_words simp del: queue_spec.simps)
  next
    case False
    then show ?thesis using a by (auto simp: Read key_spec_def key_abs_def qi_read_def)
  qed
qed (auto simp: key_spec_def key_abs_def qi_write_def mouse_move_def mouse_buttons_def take_boot_def Let_def)

lemma key_abs_run: "key_abs s q \<Longrightarrow> key_abs (fold key_spec ps s) (fold qi_apply ps q)"
  by (induction ps arbitrary: s q) (simp_all add: key_abs_step)

text \<open>
  C35: the keyboard's FIFO. After any sequence of key words, reads and writes of the page, mouse motions and
  buttons, what the FIFO holds is the words it let in and that were not yet read, in the order they were
  pressed and never more than 64; the data register gives the oldest of them; and the overflow bit says
  whether a word was lost since the status was last written.
\<close>

theorem keyboard_in_order:
  fixes ps :: "qi_op list"
  defines "q \<equiv> fold qi_apply ps quux_input_new" and "s \<equiv> fold key_spec ps (([], 0), False)"
  shows "qi_fifo q = drop (snd (fst s)) (fst (fst s)) \<and> length (qi_fifo q) \<le> 64 \<and>
    fst (qi_read KBD_DATA q) =
      Some ((if snd (fst s) < length (fst (fst s)) then fst (fst s) ! snd (fst s) else 0) AND 0xffffff) \<and>
    fst (qi_read KBD_STATUS q) =
      Some (of_flag (snd (fst s) < length (fst (fst s))) OR push_bit 1 (of_flag (snd s)) OR
        (if qi_kbd_enable q then QI_ENABLE else 0))"
proof -
  have "key_abs s q"
    unfolding q_def s_def by (rule key_abs_run) (simp add: key_abs_def quux_input_new_def)
  then have a: "qi_fifo q = drop (snd (fst s)) (fst (fst s))" "length (qi_fifo q) \<le> 64" "qi_overflowed q = snd s"
    by (auto simp: key_abs_def FIFO_WORDS_def)
  have "(case drop n xs of [] \<Rightarrow> 0 | k # _ \<Rightarrow> k) = (if n < length xs then xs ! n else (0 :: u32))" for n xs
    by (cases "n < length xs") (simp_all add: Cons_nth_drop_Suc [symmetric])
  then show ?thesis using a by (simp add: qi_read_def page_words flip: not_less)
qed

text \<open>The sum of the motions, and the mouse's counts.\<close>

definition motion :: "qi_op \<Rightarrow> int \<times> int" where
  "motion p = (case p of Move dx dy \<Rightarrow> (sint dx, sint dy) | _ \<Rightarrow> (0, 0))"

lemma sint_add_mod: "sint (a + b :: u32) mod 4096 = (sint a + sint b) mod 4096"
proof -
  have "take_bit 12 (sint (a + b)) = take_bit 12 (sint a + sint b)"
    by (simp add: sint_word_ariths take_bit_signed_take_bit)
  then show ?thesis by (simp add: take_bit_eq_mod)
qed

definition counts :: "quux_input \<Rightarrow> int \<times> int" where
  "counts q = (uint (qi_x q), uint (qi_y q))"

lemma uint_count:
  fixes d :: u32
  assumes "uint (x :: u16) < 4096"
  shows "uint (word_of_int (sint (ucast x + d) mod 4096) :: u16) = (uint x + sint d) mod 4096"
proof -
  have "0 \<le> uint x" by simp
  then have "- 2147483648 \<le> uint x" by linarith
  then have "sint (ucast x :: u32) = uint x"
    using assms by (simp add: sint_uint signed_take_bit_int_eq_self_iff unsigned_ucast_eq take_bit_int_eq_self)
  moreover have "take_bit 16 (sint (ucast x + d) mod 4096) = sint (ucast x + d :: u32) mod 4096"
    by (rule take_bit_int_eq_self) (auto intro: order_less_le_trans [OF pos_mod_bound])
  ultimately show ?thesis by (simp add: uint_word_of_int_eq sint_add_mod)
qed

definition add_motion :: "qi_op \<Rightarrow> int \<times> int \<Rightarrow> int \<times> int" where
  "add_motion p s = (fst s + fst (motion p), snd s + snd (motion p))"

definition mouse_abs :: "int \<times> int \<Rightarrow> quux_input \<Rightarrow> bool" where
  "mouse_abs s q \<longleftrightarrow> counts q = (fst s mod 4096, snd s mod 4096)"

lemma mouse_abs_step:
  assumes "mouse_abs s q"
  shows "mouse_abs (add_motion p s) (qi_apply p q)"
proof (cases p)
  case (Move dx dy)
  have u: "uint (qi_x q) < 4096" "uint (qi_y q) < 4096"
    using assms by (simp_all add: mouse_abs_def counts_def)
  show ?thesis
  proof (cases "dx = 0 \<and> dy = 0")
    case False
    then show ?thesis
      using assms uint_count [OF u(1), of dx] uint_count [OF u(2), of dy]
      by (auto simp: Move mouse_abs_def counts_def add_motion_def motion_def mouse_move_def mod_add_left_eq)
  qed (use assms in \<open>simp add: Move mouse_abs_def counts_def add_motion_def motion_def mouse_move_def\<close>)
qed (use assms in \<open>auto simp: mouse_abs_def counts_def add_motion_def motion_def press_def qi_read_def qi_pop_def
    qi_write_def mouse_buttons_def take_boot_def Let_def\<close>)

text \<open>
  The mouse's counts. After any sequence of operations the two counts are the sums of the motions the host
  gave, of any size and sign, modulo 4096, and the mouse's word shows them beside the buttons.
\<close>

theorem mouse_counts_motion:
  fixes ps :: "qi_op list"
  defines "q \<equiv> fold qi_apply ps quux_input_new"
  shows "uint (qi_x q) = (\<Sum>p \<leftarrow> ps. fst (motion p)) mod 4096 \<and> uint (qi_y q) = (\<Sum>p \<leftarrow> ps. snd (motion p)) mod 4096 \<and>
    fst (qi_read MOUSE q) =
      Some (push_bit 16 (ucast (qi_y q)) OR push_bit 12 (ucast (qi_buttons q) AND 7) OR ucast (qi_x q))"
proof -
  have sum: "fold add_motion ps s =
      (fst s + (\<Sum>p \<leftarrow> ps. fst (motion p)), snd s + (\<Sum>p \<leftarrow> ps. snd (motion p)))" for s
    by (induction ps arbitrary: s) (simp_all add: add_motion_def)
  have "mouse_abs s q0 \<Longrightarrow> mouse_abs (fold add_motion ps s) (fold qi_apply ps q0)" for s q0
    by (induction ps arbitrary: s q0) (simp_all add: mouse_abs_step)
  from this [of "(0, 0)" quux_input_new] have "mouse_abs (fold add_motion ps (0, 0)) q"
    by (simp add: q_def mouse_abs_def counts_def quux_input_new_def)
  then show ?thesis by (simp add: sum mouse_abs_def counts_def qi_read_def page_words)
qed

section \<open>Checkpoint\<close>

lemma codes_qi:
  assumes "length (qi_fifo q) \<le> FIFO_WORDS" "qi_boot q0 = qi_boot q"
  shows "codes n (qi_save q) (qi_load q0) q"
proof -
  have len: "unat (of_nat (length (qi_fifo q)) :: u32) = length (qi_fifo q)"
    using assms(1) by (simp add: unat_of_nat FIFO_WORDS_def take_bit_nat_eq_self)
  have fifo: "codes n (fold put_u32 (qi_fifo q)) (get_many (length (qi_fifo q)) get_u32) (qi_fifo q)"
    by (rule codes_many) (rule codes_u32)
  have whole: "q0\<lparr>qi_fifo := qi_fifo q, qi_overflowed := qi_overflowed q, qi_kbd_enable := qi_kbd_enable q,
      qi_x := qi_x q, qi_y := qi_y q, qi_buttons := qi_buttons q, qi_mouse_changed := qi_mouse_changed q,
      qi_mouse_enable := qi_mouse_enable q\<rparr> = q"
    using assms(2) by (cases q, cases q0) simp
  have room: "(FIFO_WORDS < length (qi_fifo q)) = False" using assms(1) by simp
  show ?thesis
    unfolding qi_save_def qi_load_def
    by (rule codes_cons [OF codes_u32], simp only: len room if_False, rule codes_cons [OF fifo], (rule codes_step)+)
      (simp only: whole codes_nil)
qed

interpretation quux_input: codec n "\<lambda>q. length (qi_fifo q) \<le> FIFO_WORDS \<and> qi_boot q0 = qi_boot q" qi_save "qi_load q0" for n q0
  by unfold_locales (blast intro: codes_qi)

end
