(* ===== verification/DiskImage.thy ===== *)
theory DiskImage
  imports Codec
begin

text \<open>
  QUUX's disk file, \<open>src/disk_image.rs\<close>: raw, a fixed VHD or a dynamic VHD, and the disk of blocks over it.
  A host file is the list of its bytes; a read past its end fails, a write past it fills with zeros, and
  the host is taken to do what it is asked. A dynamic VHD is shown to be an array of sectors that its
  file always opens as.
\<close>

section \<open>The host's file\<close>

datatype disk_error =
    Io_end
  | Footer_checksum u32 u32
  | No_dynamic_header nat
  | Header_checksum u32 u32
  | Not_whole_sectors nat
  | Short_of_disk nat nat nat
  | Past_table_entry nat
  | Is_vhdx
  | Differencing
  | Unknown_type u32
  | Too_many_blocks nat

definition read_at :: "u8 list \<Rightarrow> nat \<Rightarrow> nat \<Rightarrow> disk_error + u8 list" where
  "read_at f at n = (if at + n \<le> length f then Inr (take n (drop at f)) else Inl Io_end)"

definition write_at :: "u8 list \<Rightarrow> nat \<Rightarrow> u8 list \<Rightarrow> u8 list" where
  "write_at f at bs = take at (f @ replicate (at - length f) 0) @ bs @ drop (at + length bs) f"

section \<open>The format\<close>

definition SECTOR :: nat where "SECTOR = 512"
definition BLOCK_WORDS :: nat where "BLOCK_WORDS = 256"
definition BLOCK_BYTES :: nat where "BLOCK_BYTES = BLOCK_WORDS * 4"
definition MAX_BLOCKS :: nat where "MAX_BLOCKS = 2 ^ 28"

datatype format = Raw | FixedVhd | DynamicVhd

definition COOKIE :: "u8 list" where "COOKIE = [0x63, 0x6f, 0x6e, 0x65, 0x63, 0x74, 0x69, 0x78]"
definition DYNAMIC_COOKIE :: "u8 list" where "DYNAMIC_COOKIE = [0x63, 0x78, 0x73, 0x70, 0x61, 0x72, 0x73, 0x65]"
definition VHDX_COOKIE :: "u8 list" where "VHDX_COOKIE = [0x76, 0x68, 0x64, 0x78, 0x66, 0x69, 0x6c, 0x65]"
definition FOOTER_CHECKSUM :: nat where "FOOTER_CHECKSUM = 64"
definition HEADER_CHECKSUM :: nat where "HEADER_CHECKSUM = 36"
definition UNALLOCATED :: u32 where "UNALLOCATED = 0xffffffff"

text \<open>\<open>from_be_bytes\<close> and \<open>to_be_bytes\<close>.\<close>

definition be32_of :: "u8 list \<Rightarrow> u32" where
  "be32_of bs = from_le_bytes (rev bs)"

definition be32_bytes :: "u32 \<Rightarrow> u8 list" where
  "be32_bytes v = rev (le_bytes 4 v)"

definition be32 :: "u8 list \<Rightarrow> nat \<Rightarrow> u32" where
  "be32 b at = be32_of (take 4 (drop at b))"

definition be64 :: "u8 list \<Rightarrow> nat \<Rightarrow> u64" where
  "be64 b at = from_le_bytes (rev (take 8 (drop at b)))"

definition checksum :: "u8 list \<Rightarrow> nat \<Rightarrow> u32" where
  "checksum b at =
     NOT (fold (\<lambda>(k, x) s. s + ucast x) (filter (\<lambda>(k, x). \<not> (at \<le> k \<and> k < at + 4)) (enumerate 0 b)) 0)"

definition vhd_footer :: "u8 list \<Rightarrow> disk_error + (u32 \<times> u64) option" where
  "vhd_footer b =
     (if take 8 b \<noteq> COOKIE then Inr None
      else let want = be32 b FOOTER_CHECKSUM; got = checksum b FOOTER_CHECKSUM
           in if want \<noteq> got then Inl (Footer_checksum want got) else Inr (Some (be32 b 60, be64 b 48)))"

section \<open>A dynamic VHD\<close>

record dynamic =
  dy_file :: "u8 list"
  dy_table :: "u32 list"
  dy_table_offset :: nat
  dy_block_bytes :: nat
  dy_bitmap_bytes :: nat
  dy_footer :: "u8 list"
  dy_end :: nat

definition next_multiple_of :: "nat \<Rightarrow> nat \<Rightarrow> nat" where
  "next_multiple_of n k = div_ceil n k * k"

definition dyn_open :: "u8 list \<Rightarrow> u8 list \<Rightarrow> nat \<Rightarrow> disk_error + dynamic" where
  "dyn_open file footer_bytes fin =
     (let at = unat (be64 footer_bytes 16)
      in case read_at file at 1024 of Inl e \<Rightarrow> Inl e
      | Inr h \<Rightarrow>
        if take 8 h \<noteq> DYNAMIC_COOKIE then Inl (No_dynamic_header at)
        else let want = be32 h HEADER_CHECKSUM; got = checksum h HEADER_CHECKSUM
        in if want \<noteq> got then Inl (Header_checksum want got)
        else let table_offset = unat (be64 h 16); entries = unat (be32 h 28); block_bytes = unat (be32 h 32)
        in if block_bytes = 0 \<or> block_bytes mod SECTOR \<noteq> 0 then Inl (Not_whole_sectors block_bytes)
        else let sz = unat (be64 footer_bytes 48)
        in if entries * block_bytes < sz then Inl (Short_of_disk entries block_bytes sz)
        else let bitmap_bytes = next_multiple_of (div_ceil (block_bytes div SECTOR) 8) SECTOR
        in case read_at file table_offset (entries * 4) of Inl e \<Rightarrow> Inl e
        | Inr raw \<Rightarrow>
          Inr \<lparr>dy_file = file, dy_table = map be32_of (chunks_exact entries 4 raw), dy_table_offset = table_offset,
            dy_block_bytes = block_bytes, dy_bitmap_bytes = bitmap_bytes, dy_footer = footer_bytes,
            dy_end = next_multiple_of fin SECTOR\<rparr>)"

definition locate :: "dynamic \<Rightarrow> nat \<Rightarrow> (nat \<times> nat) option" where
  "locate d at =
     (let k = at div dy_block_bytes d; entry = dy_table d ! k
      in if entry \<noteq> UNALLOCATED
         then Some (k, unat entry * SECTOR + dy_bitmap_bytes d + at mod dy_block_bytes d) else None)"

definition dyn_read :: "dynamic \<Rightarrow> nat \<Rightarrow> nat \<Rightarrow> disk_error + u8 list" where
  "dyn_read d at n =
     (case locate d at of Some (_, off) \<Rightarrow> read_at (dy_file d) off n | None \<Rightarrow> Inr (replicate n 0))"

text \<open>An error, if one ended the write, and the file as far as it got.\<close>

definition write_sector :: "nat \<Rightarrow> u8 list \<Rightarrow> dynamic \<Rightarrow> disk_error option \<times> dynamic" where
  "write_sector at buf d =
     (case locate d at of
        Some (k, off) \<Rightarrow>
          let f = write_at (dy_file d) off buf; sector = at mod dy_block_bytes d div SECTOR;
              bit_at = unat (dy_table d ! k) * SECTOR + sector div 8
          in (case read_at f bit_at 1 of Inl e \<Rightarrow> (Some e, d\<lparr>dy_file := f\<rparr>)
              | Inr byte \<Rightarrow>
                let b = drop_bit (sector mod 8) 0x80
                in (None, d\<lparr>dy_file := (if byte ! 0 AND b = 0 then write_at f bit_at [byte ! 0 OR b] else f)\<rparr>))
      | None \<Rightarrow>
          let k = at div dy_block_bytes d
          in if 2 ^ 32 \<le> dy_end d div SECTOR then (Some (Past_table_entry (dy_end d)), d)
             else let sector = of_nat (dy_end d div SECTOR) :: u32;
                      block = replicate (dy_bitmap_bytes d) 0xff @ replicate (dy_block_bytes d) 0;
                      into = dy_bitmap_bytes d + at mod dy_block_bytes d;
                      block = take into block @ buf @ drop (into + length buf) block;
                      f = write_at (dy_file d) (dy_end d) block;
                      fin = dy_end d + length block;
                      f = write_at f fin (dy_footer d);
                      f = write_at f (dy_table_offset d + 4 * k) (be32_bytes sector)
                  in (None, d\<lparr>dy_file := f, dy_table := (dy_table d)[k := sector], dy_end := fin\<rparr>))"

section \<open>The image\<close>

datatype image = Flat (flat_file: "u8 list") (flat_format: format) | Dynamic dynamic

definition image_open :: "u8 list \<Rightarrow> disk_error + image \<times> nat" where
  "image_open file =
     (let len = length file;
          first = (if 8 \<le> len then take 512 file @ replicate (512 - len) 0 else replicate 512 0)
      in if 8 \<le> len \<and> take 8 first = VHDX_COOKIE then Inl Is_vhdx
         else let trailing = (if SECTOR \<le> len then vhd_footer (drop (len - SECTOR) file) else Inr None)
         in case trailing of Inl e \<Rightarrow> Inl e
         | Inr found \<Rightarrow>
           let pick = (case found of
                 Some (kind, sz) \<Rightarrow> Inr (Some (kind, sz, drop (len - SECTOR) file, len - SECTOR))
               | None \<Rightarrow> (case vhd_footer first of Inl e \<Rightarrow> Inl e
                   | Inr copy \<Rightarrow> Inr (case copy of
                       Some (kind, sz) \<Rightarrow> if kind = 3 \<and> SECTOR \<le> len then Some (3, sz, first, len) else None
                     | None \<Rightarrow> None)))
           in case pick of Inl e \<Rightarrow> Inl e
           | Inr None \<Rightarrow> Inr (Flat file Raw, len)
           | Inr (Some (kind, sz, footer_bytes, fin)) \<Rightarrow>
             if kind = 2 then Inr (Flat file FixedVhd, unat sz)
             else if kind = 3 then
               (case dyn_open file footer_bytes fin of Inl e \<Rightarrow> Inl e | Inr d \<Rightarrow> Inr (Dynamic d, unat sz))
             else if kind = 4 then Inl Differencing
             else Inl (Unknown_type kind))"

definition image_format :: "image \<Rightarrow> format" where
  "image_format i = (case i of Flat _ fmt \<Rightarrow> fmt | Dynamic _ \<Rightarrow> DynamicVhd)"

definition image_read_block :: "u32 \<Rightarrow> image \<Rightarrow> disk_error + u8 list" where
  "image_read_block n i =
     (let at = unat n * BLOCK_BYTES
      in case i of
           Flat file _ \<Rightarrow> read_at file at BLOCK_BYTES
         | Dynamic d \<Rightarrow>
             (case dyn_read d at SECTOR of Inl e \<Rightarrow> Inl e
              | Inr a \<Rightarrow> (case dyn_read d (at + SECTOR) SECTOR of Inl e \<Rightarrow> Inl e | Inr b \<Rightarrow> Inr (a @ b))))"

definition image_write_block :: "u32 \<Rightarrow> u8 list \<Rightarrow> image \<Rightarrow> disk_error option \<times> image" where
  "image_write_block n b i =
     (let at = unat n * BLOCK_BYTES
      in case i of
           Flat file fmt \<Rightarrow> (None, Flat (write_at file at b) fmt)
         | Dynamic d \<Rightarrow>
             let (e, d) = write_sector at (take SECTOR b) d
             in if e \<noteq> None then (e, Dynamic d)
                else let (e, d) = write_sector (at + SECTOR) (drop SECTOR b) d in (e, Dynamic d))"

definition probe :: "u8 list \<Rightarrow> disk_error + format \<times> nat" where
  "probe file = (case image_open file of Inl e \<Rightarrow> Inl e | Inr (i, sz) \<Rightarrow> Inr (image_format i, sz))"

section \<open>The disk\<close>

text \<open>
  The written blocks, a \<open>HashMap\<close> from block numbers to words, as the association list sorted by block, the
  order a checkpoint writes it in.
\<close>

fun hm_insert :: "u32 \<Rightarrow> 'a \<Rightarrow> (u32 \<times> 'a) list \<Rightarrow> (u32 \<times> 'a) list" where
  "hm_insert k v [] = [(k, v)]"
| "hm_insert k v ((j, w) # m) =
     (if k < j then (k, v) # (j, w) # m else if k = j then (k, v) # m else (j, w) # hm_insert k v m)"

definition hm_remove :: "u32 \<Rightarrow> (u32 \<times> 'a) list \<Rightarrow> (u32 \<times> 'a) list" where
  "hm_remove k m = filter (\<lambda>(j, _). j \<noteq> k) m"

record disk =
  dk_blocks :: u32
  dk_image :: "image option"
  dk_writable :: bool
  dk_written :: "(u32 \<times> u32 list) list"

definition disk_open_with :: "u8 list \<Rightarrow> bool \<Rightarrow> disk_error + disk" where
  "disk_open_with file writable =
     (case image_open file of Inl e \<Rightarrow> Inl e
      | Inr (img, sz) \<Rightarrow>
        let blocks = sz div BLOCK_BYTES
        in if MAX_BLOCKS < blocks then Inl (Too_many_blocks blocks)
           else Inr \<lparr>dk_blocks = of_nat blocks, dk_image = Some img, dk_writable = writable, dk_written = []\<rparr>)"

definition disk_open :: "u8 list \<Rightarrow> disk_error + disk" where
  "disk_open file = disk_open_with file False"

definition disk_open_rw :: "u8 list \<Rightarrow> disk_error + disk" where
  "disk_open_rw file = disk_open_with file True"

definition disk_blank :: "u32 \<Rightarrow> disk" where
  "disk_blank blocks = \<lparr>dk_blocks = blocks, dk_image = None, dk_writable = False, dk_written = []\<rparr>"

definition disk_format :: "disk \<Rightarrow> format option" where
  "disk_format d = map_option image_format (dk_image d)"

definition written_blocks :: "disk \<Rightarrow> nat" where
  "written_blocks d = length (dk_written d)"

definition words_of_bytes :: "u8 list \<Rightarrow> u32 list" where
  "words_of_bytes b = map from_le_bytes (chunks_exact BLOCK_WORDS 4 b)"

definition bytes_of_words :: "u32 list \<Rightarrow> u8 list" where
  "bytes_of_words ws = concat (map (le_bytes 4) ws)"

definition file_block :: "u32 \<Rightarrow> disk \<Rightarrow> u32 list option" where
  "file_block n d =
     (case dk_image d of None \<Rightarrow> Some (replicate BLOCK_WORDS 0)
      | Some img \<Rightarrow> (case image_read_block n img of Inr b \<Rightarrow> Some (words_of_bytes b) | Inl _ \<Rightarrow> None))"

definition disk_read_block :: "u32 \<Rightarrow> disk \<Rightarrow> u32 list option" where
  "disk_read_block n d =
     (if dk_blocks d \<le> n then None
      else case map_of (dk_written d) n of Some b \<Rightarrow> Some b | None \<Rightarrow> file_block n d)"

definition disk_write_block :: "u32 \<Rightarrow> u32 list \<Rightarrow> disk \<Rightarrow> bool \<times> disk" where
  "disk_write_block n data d =
     (if dk_blocks d \<le> n then (False, d)
      else case (dk_writable d, dk_image d) of
             (True, Some img) \<Rightarrow>
               let (e, img) = image_write_block n (bytes_of_words data) img; d = d\<lparr>dk_image := Some img\<rparr>
               in if e \<noteq> None then (False, d) else (True, d\<lparr>dk_written := hm_remove n (dk_written d)\<rparr>)
           | _ \<Rightarrow>
               (True, if file_block n d = Some data then d\<lparr>dk_written := hm_remove n (dk_written d)\<rparr>
                      else d\<lparr>dk_written := hm_insert n data (dk_written d)\<rparr>))"

definition put_block :: "u32 \<times> u32 list \<Rightarrow> writer \<Rightarrow> writer" where
  "put_block kb = put_all [put_u32 (fst kb), put_u32s (snd kb)]"

definition disk_save :: "disk \<Rightarrow> writer \<Rightarrow> writer" where
  "disk_save d = put_all
     [put_u32 (dk_blocks d), put_u64 (of_nat (length (dk_written d))), fold put_block (dk_written d)]"

definition get_block :: "(u32 \<times> u32 list) rd" where
  "get_block = rd_bind get_u32 (\<lambda>at. rd_bind (get_u32s_into BLOCK_WORDS) (\<lambda>data. rd_return (at, data)))"

definition disk_load :: "disk \<Rightarrow> disk rd" where
  "disk_load d = rd_bind get_u32 (\<lambda>blocks.
     if blocks \<noteq> dk_blocks d then rd_fail Bad_value
     else rd_bind get_u64 (\<lambda>n.
       if ucast blocks < n then rd_fail Bad_value
       else rd_bind (get_many (unat n) get_block) (\<lambda>bs.
         rd_return (d\<lparr>dk_written := fold (\<lambda>(k, v). hm_insert k v) bs []\<rparr>))))"

section \<open>Bytes in a file\<close>

lemma length_write_at: "length (write_at f at bs) = max (length f) (at + length bs)"
  by (simp add: write_at_def)

text \<open>A span of a file, in the file or zeros past its end.\<close>

lemma nth_write_at:
  "i < length (write_at f at bs) \<Longrightarrow> write_at f at bs ! i =
    (if at \<le> i \<and> i < at + length bs then bs ! (i - at) else if i < length f then f ! i else 0)"
proof -
  obtain pre where pre: "pre = take at (f @ replicate (at - length f) 0)" "length pre = at" by simp
  have "i < at \<Longrightarrow> pre ! i = (if i < length f then f ! i else 0)" by (simp add: pre nth_append)
  then show "i < length (write_at f at bs) \<Longrightarrow> ?thesis"
    unfolding write_at_def pre(1) [symmetric] using pre(2) by (auto simp: nth_append)
qed

lemma read_at_eq:
  "read_at f at n = Inr bs \<longleftrightarrow> at + n \<le> length f \<and> length bs = n \<and> (\<forall>i < n. bs ! i = f ! (at + i))"
  by (auto simp: read_at_def list_eq_iff_nth_eq)

lemma read_at_ok: "(\<exists>bs. read_at f at n = Inr bs) \<longleftrightarrow> at + n \<le> length f"
  by (simp add: read_at_def)

text \<open>What was written is read back, and the rest is as it was.\<close>

lemma read_write_same: "length bs = n \<Longrightarrow> read_at (write_at f at bs) at n = Inr bs"
  by (simp add: read_at_eq length_write_at nth_write_at)

lemma read_write_within:
  assumes "at \<le> a" "a + n \<le> at + length bs"
  shows "read_at (write_at f at bs) a n = Inr (take n (drop (a - at) bs))"
  using assms by (auto simp: read_at_eq length_write_at nth_write_at)

lemma read_write_apart:
  assumes "a + n \<le> at \<or> at + length bs \<le> a" "a + n \<le> length f"
  shows "read_at (write_at f at bs) a n = read_at f a n"
proof -
  obtain x where x: "read_at f a n = Inr x" using assms(2) read_at_ok by blast
  have "read_at (write_at f at bs) a n = Inr x"
    using assms x by (auto simp: read_at_eq length_write_at nth_write_at)
  then show ?thesis using x by simp
qed

section \<open>A dynamic VHD is an array of sectors\<close>

definition start_of :: "dynamic \<Rightarrow> nat \<Rightarrow> nat" where
  "start_of d k = unat (dy_table d ! k) * SECTOR"

definition span :: "dynamic \<Rightarrow> nat" where
  "span d = dy_bitmap_bytes d + dy_block_bytes d"

definition allocated :: "dynamic \<Rightarrow> nat \<Rightarrow> bool" where
  "allocated d k \<longleftrightarrow> k < length (dy_table d) \<and> dy_table d ! k \<noteq> UNALLOCATED"

definition apart :: "nat \<Rightarrow> nat \<Rightarrow> nat \<Rightarrow> nat \<Rightarrow> bool" where
  "apart a n b m \<longleftrightarrow> a + n \<le> b \<or> b + m \<le> a"

definition header_at :: "dynamic \<Rightarrow> nat" where
  "header_at d = unat (be64 (dy_footer d) 16)"

text \<open>
  A dynamic VHD as its tools lay it out: its blocks apart from one another, from its header and from its table,
  all before where the next block goes; and its file opens as it is.
\<close>

definition vhd_ok :: "dynamic \<Rightarrow> bool" where
  "vhd_ok d \<longleftrightarrow>
     0 < dy_block_bytes d \<and> SECTOR dvd dy_block_bytes d \<and> SECTOR dvd dy_bitmap_bytes d \<and> SECTOR dvd dy_end d \<and>
     dy_block_bytes d div SECTOR \<le> 8 * dy_bitmap_bytes d \<and>
     (\<forall>k. allocated d k \<longrightarrow> start_of d k + span d \<le> dy_end d \<and> start_of d k + span d \<le> length (dy_file d) \<and>
        apart (start_of d k) (span d) (header_at d) 1024 \<and>
        apart (start_of d k) (span d) (dy_table_offset d) (4 * length (dy_table d)) \<and>
        (\<forall>j. allocated d j \<and> j \<noteq> k \<longrightarrow> apart (start_of d j) (span d) (start_of d k) (span d))) \<and>
     apart (header_at d) 1024 (dy_table_offset d) (4 * length (dy_table d)) \<and>
     header_at d + 1024 \<le> dy_end d \<and> dy_table_offset d + 4 * length (dy_table d) \<le> dy_end d \<and>
     dyn_open (dy_file d) (dy_footer d) (dy_end d) = Inr d"

text \<open>Sector \<open>s\<close> of the disk, and the sectors the table reaches.\<close>

definition sector_of :: "dynamic \<Rightarrow> nat \<Rightarrow> disk_error + u8 list" where
  "sector_of d s = dyn_read d (SECTOR * s) SECTOR"

definition has_sector :: "dynamic \<Rightarrow> nat \<Rightarrow> bool" where
  "has_sector d s \<longleftrightarrow> SECTOR * s div dy_block_bytes d < length (dy_table d)"

lemma chunks_nth: "i < n \<Longrightarrow> chunks_exact n sz bs ! i = take sz (drop (sz * i) bs)"
proof (induction n arbitrary: i bs)
  case (Suc n)
  then show ?case by (cases i) (simp_all add: add.commute)
qed simp

lemma length_chunks [simp]: "length (chunks_exact n sz bs) = n"
  by (induction n arbitrary: bs) simp_all

lemma table_entry:
  assumes "k < n" "length raw = 4 * n"
  shows "map be32_of (chunks_exact n 4 (take (4 * k) raw @ be32_bytes s @ drop (4 * k + 4) raw)) =
    (map be32_of (chunks_exact n 4 raw))[k := s]"
proof (rule nth_equalityI)
  fix i
  assume "i < length (map be32_of (chunks_exact n 4 (take (4 * k) raw @ be32_bytes s @ drop (4 * k + 4) raw)))"
  then have i: "i < n" by simp
  have len: "length (be32_bytes s) = 4" by (simp add: be32_bytes_def)
  have "be32_of (be32_bytes s) = s" by (simp add: be32_of_def be32_bytes_def from_le_le_bytes_full)
  moreover have "take 4 (drop (4 * i) (take (4 * k) raw @ be32_bytes s @ drop (4 * k + 4) raw)) =
      (if i = k then be32_bytes s else take 4 (drop (4 * i) raw))"
  proof -
    consider "i < k" | "i = k" | "k < i" by linarith
    then show ?thesis
    proof cases
      case 1
      then have "4 * i + 4 \<le> 4 * k" "4 * k \<le> length raw" "i \<noteq> k" using assms by simp_all
      then show ?thesis by (simp add: drop_take)
    next
      case 2
      then show ?thesis using assms len by simp
    next
      case 3
      then have "4 * i - 4 * k - 4 + (4 * k + 4) = 4 * i" by simp
      then show ?thesis using 3 assms len by (simp add: drop_append add.commute)
    qed
  qed
  ultimately show "map be32_of (chunks_exact n 4 (take (4 * k) raw @ be32_bytes s @ drop (4 * k + 4) raw)) ! i =
      (map be32_of (chunks_exact n 4 raw))[k := s] ! i"
    using i by (simp add: chunks_nth nth_list_update)
qed simp

lemma next_multiple_of_dvd: "k dvd n \<Longrightarrow> 0 < k \<Longrightarrow> next_multiple_of n k = n"
  by (auto simp: next_multiple_of_def div_ceil_def dvd_def)

text \<open>Opening reads the header and the table, and keeps what else it is given.\<close>

lemma dyn_open_moved:
  assumes "dyn_open f ft fin = Inr d"
    and "read_at f' (unat (be64 ft 16)) 1024 = read_at f (unat (be64 ft 16)) 1024"
    and "read_at f' (dy_table_offset d) (4 * length (dy_table d)) = Inr raw"
  shows "dyn_open f' ft fin' = Inr (d\<lparr>dy_file := f', dy_end := next_multiple_of fin' SECTOR,
    dy_table := map be32_of (chunks_exact (length (dy_table d)) 4 raw)\<rparr>)"
proof -
  obtain h where h: "read_at f (unat (be64 ft 16)) 1024 = Inr h"
    using assms(1) by (auto simp: dyn_open_def Let_def split: sum.splits)
  then show ?thesis
    using assms by (auto simp: dyn_open_def Let_def mult.commute split: sum.splits if_splits)
qed

lemma dyn_open_table:
  assumes "dyn_open f ft fin = Inr d"
  obtains raw where "read_at f (dy_table_offset d) (4 * length (dy_table d)) = Inr raw"
    "dy_table d = map be32_of (chunks_exact (length (dy_table d)) 4 raw)" "dy_footer d = ft"
    "dy_table_offset d + 4 * length (dy_table d) \<le> length f" "unat (be64 ft 16) + 1024 \<le> length f"
  using assms by (auto simp: dyn_open_def Let_def mult.commute read_at_def split: sum.splits if_splits)

text \<open>A sector the table reaches lies within the data of its block, and its bit within the bitmap.\<close>

lemma sector_in_block:
  assumes "vhd_ok d"
  shows "SECTOR * s mod dy_block_bytes d + SECTOR \<le> dy_block_bytes d"
    "SECTOR * s mod dy_block_bytes d div SECTOR div 8 < dy_bitmap_bytes d"
proof -
  obtain m where m: "dy_block_bytes d = SECTOR * m" using assms by (auto simp: vhd_ok_def dvd_def)
  then have pos: "0 < m" "m \<le> 8 * dy_bitmap_bytes d" using assms by (auto simp: vhd_ok_def SECTOR_def)
  have md: "SECTOR * s mod dy_block_bytes d = SECTOR * (s mod m)" by (simp add: m)
  have lt: "s mod m < m" using pos by simp
  then have "SECTOR * (s mod m + 1) \<le> SECTOR * m" by (intro mult_le_mono2) simp
  then show "SECTOR * s mod dy_block_bytes d + SECTOR \<le> dy_block_bytes d" by (simp add: md m)
  have "s mod m < 8 * dy_bitmap_bytes d" using lt pos by linarith
  then show "SECTOR * s mod dy_block_bytes d div SECTOR div 8 < dy_bitmap_bytes d"
    unfolding md by (simp add: SECTOR_def less_mult_imp_div_less mult.commute)
qed

lemma sectors_differ:
  assumes "s \<noteq> s'" "SECTOR * s div b = SECTOR * s' div b" "SECTOR dvd b"
  shows "apart (SECTOR * s mod b) SECTOR (SECTOR * s' mod b) SECTOR"
proof -
  obtain m where m: "b = SECTOR * m" using assms(3) by (auto simp: dvd_def)
  have "SECTOR * s mod b \<noteq> SECTOR * s' mod b"
    using assms by (metis SECTOR_def div_mult_mod_eq mult_cancel1 zero_neq_numeral)
  then have "s mod m \<noteq> s' mod m" by (auto simp: m)
  then show ?thesis by (auto simp: apart_def m SECTOR_def)
qed

lemma locate_some:
  assumes "vhd_ok d" "has_sector d s" "locate d (SECTOR * s) = Some (k, off)"
  shows "k = SECTOR * s div dy_block_bytes d" "allocated d k"
    "off = start_of d k + dy_bitmap_bytes d + SECTOR * s mod dy_block_bytes d"
    "off + SECTOR \<le> start_of d k + span d" "off + SECTOR \<le> length (dy_file d)"
proof -
  show k: "k = SECTOR * s div dy_block_bytes d" and al: "allocated d k"
    and off: "off = start_of d k + dy_bitmap_bytes d + SECTOR * s mod dy_block_bytes d"
    using assms(2,3) by (auto simp: locate_def Let_def allocated_def has_sector_def start_of_def split: if_splits)
  show fits: "off + SECTOR \<le> start_of d k + span d"
    using sector_in_block(1) [OF assms(1), of s] by (simp add: off span_def)
  have "start_of d k + span d \<le> length (dy_file d)" using assms(1) al by (simp add: vhd_ok_def)
  then show "off + SECTOR \<le> length (dy_file d)" using fits by simp
qed

lemma locate_none:
  assumes "locate d (SECTOR * s) = None"
  shows "dy_table d ! (SECTOR * s div dy_block_bytes d) = UNALLOCATED"
  using assms by (auto simp: locate_def Let_def split: if_splits)

text \<open>The data of another block, and of another sector of the same block, lie elsewhere.\<close>

lemma locate_apart:
  assumes "vhd_ok d" "has_sector d s" "locate d (SECTOR * s) = Some (k, off)"
    and "has_sector d s'" "locate d (SECTOR * s') = Some (k', off')" "s \<noteq> s'"
  shows "apart off' SECTOR off SECTOR"
    "off' + SECTOR \<le> start_of d k \<or> start_of d k + dy_bitmap_bytes d \<le> off'"
proof -
  note l = locate_some [OF assms(1-3)] and l' = locate_some [OF assms(1,4,5)]
  have same: "apart off' SECTOR off SECTOR \<and> start_of d k + dy_bitmap_bytes d \<le> off'" if "k' = k"
  proof -
    have "apart (SECTOR * s mod dy_block_bytes d) SECTOR (SECTOR * s' mod dy_block_bytes d) SECTOR"
      using assms(1,6) that l(1) l'(1) by (intro sectors_differ) (simp_all add: vhd_ok_def)
    then show ?thesis using l(3) l'(3) that by (auto simp: apart_def)
  qed
  have "apart (start_of d k') (span d) (start_of d k) (span d)" if "k' \<noteq> k"
    using assms(1) l(2) l'(2) that by (auto simp: vhd_ok_def)
  then have other: "apart off' SECTOR off SECTOR \<and>
      (off' + SECTOR \<le> start_of d k \<or> start_of d k + dy_bitmap_bytes d \<le> off')" if "k' \<noteq> k"
    using that l(3,4) l'(3,4) by (auto simp: apart_def span_def)
  show "apart off' SECTOR off SECTOR" using same other by blast
  show "off' + SECTOR \<le> start_of d k \<or> start_of d k + dy_bitmap_bytes d \<le> off'" using same other by blast
qed

text \<open>Data and bitmap bytes of a block may change; the disk opens as before.\<close>

lemma apart_read:
  assumes "\<And>i. i < length f \<Longrightarrow> i < at \<or> at + m \<le> i \<Longrightarrow> f' ! i = f ! i" "length f' = length f"
    and "apart at m a n" "a + n \<le> length f"
  shows "read_at f' a n = read_at f a n"
proof -
  obtain x where x: "read_at f a n = Inr x" using assms(4) read_at_ok by blast
  then have "read_at f' a n = Inr x" using assms by (auto simp: read_at_eq apart_def)
  then show ?thesis using x by simp
qed

lemma vhd_ok_data:
  assumes ok: "vhd_ok d" and k: "allocated d k" and len: "length f' = length (dy_file d)"
    and same: "\<And>i. i < length (dy_file d) \<Longrightarrow> i < start_of d k \<or> start_of d k + span d \<le> i \<Longrightarrow>
      f' ! i = dy_file d ! i"
  shows "vhd_ok (d\<lparr>dy_file := f'\<rparr>)"
proof -
  have opens: "dyn_open (dy_file d) (dy_footer d) (dy_end d) = Inr d" using ok by (simp add: vhd_ok_def)
  obtain raw where raw: "read_at (dy_file d) (dy_table_offset d) (4 * length (dy_table d)) = Inr raw"
    "dy_table d = map be32_of (chunks_exact (length (dy_table d)) 4 raw)"
    "dy_table_offset d + 4 * length (dy_table d) \<le> length (dy_file d)" "header_at d + 1024 \<le> length (dy_file d)"
    using dyn_open_table [OF opens] by (metis header_at_def)
  have ap: "apart (start_of d k) (span d) (header_at d) 1024"
    "apart (start_of d k) (span d) (dy_table_offset d) (4 * length (dy_table d))"
    using ok k by (simp_all add: vhd_ok_def)
  have "read_at f' (header_at d) 1024 = read_at (dy_file d) (header_at d) 1024"
    by (rule apart_read [OF same len ap(1) raw(4)])
  moreover have "read_at f' (dy_table_offset d) (4 * length (dy_table d)) = Inr raw"
    using apart_read [OF same len ap(2) raw(3)] raw(1) by simp
  ultimately have "dyn_open f' (dy_footer d) (dy_end d) =
      Inr (d\<lparr>dy_file := f', dy_end := next_multiple_of (dy_end d) SECTOR, dy_table := dy_table d\<rparr>)"
    using dyn_open_moved [OF opens] raw(2) by (metis header_at_def)
  moreover have "next_multiple_of (dy_end d) SECTOR = dy_end d"
    using ok by (simp add: vhd_ok_def next_multiple_of_dvd SECTOR_def)
  ultimately have "dyn_open f' (dy_footer d) (dy_end d) = Inr (d\<lparr>dy_file := f'\<rparr>)"
    by (cases d) simp
  then show ?thesis using ok
    by (simp add: vhd_ok_def allocated_def start_of_def span_def header_at_def len)
qed

lemma locate_file [simp]: "locate (d\<lparr>dy_file := f\<rparr>) at = locate d at"
  by (simp add: locate_def Let_def)

text \<open>A write to a block that is there.\<close>

lemma write_in_place:
  assumes ok: "vhd_ok d" and s: "has_sector d s" and loc: "locate d (SECTOR * s) = Some (k, off)"
    and buf: "length buf = SECTOR"
  shows "\<exists>f bit_at x. write_sector (SECTOR * s) buf d = (None, d\<lparr>dy_file := f\<rparr>) \<and>
    start_of d k \<le> bit_at \<and> bit_at < start_of d k + dy_bitmap_bytes d \<and>
    (f = write_at (dy_file d) off buf \<or> f = write_at (write_at (dy_file d) off buf) bit_at [x])"
proof -
  note l = locate_some [OF ok s loc]
  let ?b = "start_of d k + SECTOR * s mod dy_block_bytes d div SECTOR div 8"
  have b: "?b < start_of d k + dy_bitmap_bytes d" using sector_in_block(2) [OF ok] by simp
  have "start_of d k + span d \<le> length (dy_file d)" using ok l(2) by (simp add: vhd_ok_def)
  then have "?b + 1 \<le> length (write_at (dy_file d) off buf)"
    using b by (simp add: length_write_at span_def)
  then obtain byte where "read_at (write_at (dy_file d) off buf) ?b 1 = Inr byte" using read_at_ok by blast
  then show ?thesis using loc b
    by (intro exI [where x = "dy_file (snd (write_sector (SECTOR * s) buf d))"] exI [where x = ?b]
        exI [where x = "byte ! 0 OR drop_bit (SECTOR * s mod dy_block_bytes d div SECTOR mod 8) 0x80"])
      (simp add: write_sector_def Let_def start_of_def)
qed

lemma write_sector_in_place:
  assumes ok: "vhd_ok d" and s: "has_sector d s" and loc: "locate d (SECTOR * s) = Some (k, off)"
    and buf: "length buf = SECTOR"
  shows "\<exists>d'. write_sector (SECTOR * s) buf d = (None, d') \<and> vhd_ok d' \<and> dy_end d' \<le> dy_end d + span d \<and>
    dy_block_bytes d' = dy_block_bytes d \<and> length (dy_table d') = length (dy_table d) \<and>
    (\<forall>s'. has_sector d s' \<longrightarrow> sector_of d' s' = (if s' = s then Inr buf else sector_of d s'))"
proof -
  note l = locate_some [OF ok s loc]
  obtain f bit_at x where w: "write_sector (SECTOR * s) buf d = (None, d\<lparr>dy_file := f\<rparr>)"
    and b: "start_of d k \<le> bit_at" "bit_at < start_of d k + dy_bitmap_bytes d"
    and f: "f = write_at (dy_file d) off buf \<or> f = write_at (write_at (dy_file d) off buf) bit_at [x]"
    using write_in_place [OF assms] by blast
  have fit: "start_of d k + span d \<le> length (dy_file d)" using ok l(2) by (simp add: vhd_ok_def)
  have len1: "length (write_at (dy_file d) off buf) = length (dy_file d)"
    using l(5) buf by (simp add: length_write_at)
  have len: "length f = length (dy_file d)"
    using f len1 b fit by (auto simp: length_write_at span_def)
  have "f ! i = dy_file d ! i" if "i < length (dy_file d)" "i < start_of d k \<or> start_of d k + span d \<le> i" for i
  proof -
    have "\<not> (off \<le> i \<and> i < off + length buf)" "i \<noteq> bit_at" using that l(3,4) b buf by (auto simp: span_def)
    then show ?thesis using f that(1) len1 buf l(5) by (auto simp: nth_write_at length_write_at)
  qed
  from vhd_ok_data [OF ok l(2) len this] have ok': "vhd_ok (d\<lparr>dy_file := f\<rparr>)" .
  have reads: "read_at f a SECTOR = read_at (write_at (dy_file d) off buf) a SECTOR"
    if "a + SECTOR \<le> start_of d k \<or> start_of d k + dy_bitmap_bytes d \<le> a" "a + SECTOR \<le> length (dy_file d)" for a
    using f that b len1 by (auto intro!: read_write_apart)
  have at_s: "sector_of (d\<lparr>dy_file := f\<rparr>) s = Inr buf"
    using loc l(3,5) reads [of off] read_write_same [OF buf]
    by (simp add: sector_of_def dyn_read_def)
  have at_other: "sector_of (d\<lparr>dy_file := f\<rparr>) s' = sector_of d s'" if s': "has_sector d s'" "s' \<noteq> s" for s'
  proof (cases "locate d (SECTOR * s')")
    case (Some p)
    obtain k' off' where p: "p = (k', off')" by fastforce
    note l' = locate_some [OF ok s'(1) Some [unfolded p]]
      and a = locate_apart [OF ok s loc s'(1) Some [unfolded p] s'(2) [symmetric]]
    have "read_at (write_at (dy_file d) off buf) off' SECTOR = read_at (dy_file d) off' SECTOR"
      using a(1) l'(5) buf by (auto simp: apart_def intro!: read_write_apart)
    then have "read_at f off' SECTOR = read_at (dy_file d) off' SECTOR"
      using reads [OF a(2) l'(5)] by simp
    then show ?thesis using Some p by (simp add: sector_of_def dyn_read_def)
  qed (simp add: sector_of_def dyn_read_def)
  show ?thesis using w ok' at_s at_other by (intro exI [where x = "d\<lparr>dy_file := f\<rparr>"]) simp
qed

text \<open>A write to a block that is not there: the block goes at the end, then the footer, then its table entry.\<close>

definition fresh_block :: "dynamic \<Rightarrow> nat \<Rightarrow> u8 list \<Rightarrow> u8 list" where
  "fresh_block d into buf = take into (replicate (dy_bitmap_bytes d) 0xff @ replicate (dy_block_bytes d) 0) @ buf @
     drop (into + length buf) (replicate (dy_bitmap_bytes d) 0xff @ replicate (dy_block_bytes d) 0)"

lemma fresh_block_nth:
  assumes "dy_bitmap_bytes d \<le> into" "into + length buf \<le> span d"
  shows "length (fresh_block d into buf) = span d"
    "dy_bitmap_bytes d \<le> i \<Longrightarrow> i < span d \<Longrightarrow>
     fresh_block d into buf ! i = (if into \<le> i \<and> i < into + length buf then buf ! (i - into) else 0)"
  using assms by (auto simp: fresh_block_def span_def nth_append)

text \<open>The file after the three writes.\<close>

definition grown_file :: "dynamic \<Rightarrow> nat \<Rightarrow> u8 list \<Rightarrow> u8 list" where
  "grown_file d k block =
     write_at (write_at (write_at (dy_file d) (dy_end d) block) (dy_end d + length block) (dy_footer d))
       (dy_table_offset d + 4 * k) (be32_bytes (of_nat (dy_end d div SECTOR)))"

definition grown :: "dynamic \<Rightarrow> nat \<Rightarrow> u8 list \<Rightarrow> dynamic" where
  "grown d k block = d\<lparr>dy_file := grown_file d k block,
     dy_table := (dy_table d)[k := of_nat (dy_end d div SECTOR)], dy_end := dy_end d + length block\<rparr>"

lemma write_sector_grows:
  assumes "locate d at = None" "dy_end d div SECTOR < 2 ^ 32"
  shows "write_sector at buf d =
    (None, grown d (at div dy_block_bytes d) (fresh_block d (dy_bitmap_bytes d + at mod dy_block_bytes d) buf))"
  using assms unfolding write_sector_def grown_def grown_file_def fresh_block_def Let_def
  by (simp del: take_append drop_append length_append take_replicate drop_replicate)

lemma length_be32 [simp]: "length (be32_bytes v) = 4"
  by (simp add: be32_bytes_def)

text \<open>What lies before the end, apart from the entry, is as it was; what lies in the new block is the block.\<close>

lemma grown_file_before:
  assumes "a + n \<le> dy_end d" "apart a n (dy_table_offset d + 4 * k) 4" "a + n \<le> length (dy_file d)"
  shows "read_at (grown_file d k block) a n = read_at (dy_file d) a n"
  using assms unfolding grown_file_def apart_def
  by (simp add: read_write_apart length_write_at disj_commute)

lemma grown_file_block:
  assumes "dy_table_offset d + 4 * k + 4 \<le> dy_end d" "a + n \<le> length block"
  shows "read_at (grown_file d k block) (dy_end d + a) n = Inr (take n (drop a block))"
proof -
  have "read_at (grown_file d k block) (dy_end d + a) n =
      read_at (write_at (dy_file d) (dy_end d) block) (dy_end d + a) n"
    using assms unfolding grown_file_def by (simp add: read_write_apart length_write_at)
  then show ?thesis using assms by (simp add: read_write_within)
qed

lemma grown_file_table:
  assumes "dy_table_offset d + 4 * n \<le> dy_end d" "k < n"
    and raw: "read_at (dy_file d) (dy_table_offset d) (4 * n) = Inr raw"
  shows "read_at (grown_file d k block) (dy_table_offset d) (4 * n) =
    Inr (take (4 * k) raw @ be32_bytes (of_nat (dy_end d div SECTOR)) @ drop (4 * k + 4) raw)"
proof -
  let ?f = "write_at (write_at (dy_file d) (dy_end d) block) (dy_end d + length block) (dy_footer d)"
  have "read_at ?f (dy_table_offset d) (4 * n) = Inr raw"
    using assms(1) raw read_at_ok [of "dy_file d" "dy_table_offset d" "4 * n"]
    by (simp add: read_write_apart length_write_at)
  then have r: "dy_table_offset d + 4 * n \<le> length ?f" "length raw = 4 * n"
    "\<And>i. i < 4 * n \<Longrightarrow> raw ! i = ?f ! (dy_table_offset d + i)"
    unfolding read_at_eq by auto
  have k: "4 * k + 4 \<le> 4 * n" using assms(2) by simp
  define e where "e = be32_bytes (of_nat (dy_end d div SECTOR))"
  have e: "length e = 4" by (simp add: e_def)
  define g where "g = write_at ?f (dy_table_offset d + 4 * k) e"
  have g: "g = grown_file d k block" by (simp add: g_def e_def grown_file_def)
  have len: "dy_table_offset d + 4 * n \<le> length g" using r(1) unfolding g_def length_write_at by simp
  have "(take (4 * k) raw @ e @ drop (4 * k + 4) raw) ! i = g ! (dy_table_offset d + i)" if "i < 4 * n" for i
  proof -
    have "g ! (dy_table_offset d + i) = (if 4 * k \<le> i \<and> i < 4 * k + 4 then e ! (i - 4 * k) else raw ! i)"
      using that len r k e unfolding g_def by (subst nth_write_at) auto
    moreover have "i < 4 * k \<or> (4 * k \<le> i \<and> i < 4 * k + 4) \<or> (\<exists>j. i = 4 * k + 4 + j)"
      by (metis not_less less_eqE)
    ultimately show ?thesis using that r(2) k e by (auto simp: nth_append)
  qed
  then show ?thesis unfolding e_def [symmetric] g [symmetric] read_at_eq
    using len r(2) k e by simp
qed

text \<open>Room for the next block: its sector number is an entry, and not the mark of a block that is not there.\<close>

definition room :: "dynamic \<Rightarrow> bool" where
  "room d \<longleftrightarrow> dy_end d div SECTOR < 2 ^ 32 - 1"

lemma room_sector:
  assumes "vhd_ok d" "room d"
  shows "(of_nat (dy_end d div SECTOR) :: u32) \<noteq> UNALLOCATED"
    "unat (of_nat (dy_end d div SECTOR) :: u32) * SECTOR = dy_end d"
proof -
  have u: "unat (of_nat (dy_end d div SECTOR) :: u32) = dy_end d div SECTOR"
    using assms(2) by (simp add: room_def unat_of_nat take_bit_nat_eq_self)
  have "unat UNALLOCATED = 2 ^ 32 - 1" by (simp add: UNALLOCATED_def)
  then show "(of_nat (dy_end d div SECTOR) :: u32) \<noteq> UNALLOCATED"
    using u assms(2) by (metis room_def less_irrefl)
  have "SECTOR dvd dy_end d" using assms(1) by (simp add: vhd_ok_def)
  then show "unat (of_nat (dy_end d div SECTOR) :: u32) * SECTOR = dy_end d" unfolding u by simp
qed

lemma grown_ok:
  assumes ok: "vhd_ok d" and rm: "room d" and k: "k < length (dy_table d)" "dy_table d ! k = UNALLOCATED"
    and blk: "length block = span d"
  shows "vhd_ok (grown d k block)"
proof -
  let ?g = "grown d k block"
  have opens: "dyn_open (dy_file d) (dy_footer d) (dy_end d) = Inr d" using ok by (simp add: vhd_ok_def)
  obtain raw where raw: "read_at (dy_file d) (dy_table_offset d) (4 * length (dy_table d)) = Inr raw"
    "dy_table d = map be32_of (chunks_exact (length (dy_table d)) 4 raw)"
    "header_at d + 1024 \<le> length (dy_file d)"
    using dyn_open_table [OF opens] by (metis header_at_def)
  have lraw: "length raw = 4 * length (dy_table d)" using raw(1) by (simp add: read_at_eq)
  have ends: "header_at d + 1024 \<le> dy_end d" "dy_table_offset d + 4 * length (dy_table d) \<le> dy_end d"
    "apart (header_at d) 1024 (dy_table_offset d) (4 * length (dy_table d))" using ok by (simp_all add: vhd_ok_def)
  have "apart (header_at d) 1024 (dy_table_offset d + 4 * k) 4" using ends(3) k(1) by (auto simp: apart_def)
  note hd = grown_file_before [OF ends(1) this raw(3), of block]
  note tb = grown_file_table [OF ends(2) k(1) raw(1), of block]
  have "next_multiple_of (dy_end d + length block) SECTOR = dy_end d + length block"
    using ok by (auto simp: blk span_def vhd_ok_def SECTOR_def intro!: next_multiple_of_dvd dvd_add)
  then have "dyn_open (grown_file d k block) (dy_footer d) (dy_end d + length block) = Inr ?g"
    using dyn_open_moved [OF opens, folded header_at_def, OF hd tb] table_entry [OF k(1) lraw] raw(2)
    by (simp add: grown_def)
  moreover have st: "start_of ?g j = (if j = k then dy_end d else start_of d j)" for j
    using room_sector(2) [OF ok rm] k(1) by (simp add: start_of_def grown_def)
  moreover have al: "allocated ?g j \<longleftrightarrow> j = k \<or> allocated d j" for j
    using room_sector(1) [OF ok rm] k by (auto simp: allocated_def grown_def nth_list_update)
  moreover have nk: "\<not> allocated d k" using k by (simp add: allocated_def)
  moreover have "dy_end d + span d \<le> length (grown_file d k block)"
    by (simp add: grown_file_def length_write_at blk)
  moreover have "length (dy_file d) \<le> length (grown_file d k block)"
    by (simp add: grown_file_def length_write_at)
  moreover have "dy_table ?g = (dy_table d)[k := of_nat (dy_end d div SECTOR)]" "dy_footer ?g = dy_footer d"
    "dy_block_bytes ?g = dy_block_bytes d" "dy_bitmap_bytes ?g = dy_bitmap_bytes d" "dy_end ?g = dy_end d + span d"
    "dy_table_offset ?g = dy_table_offset d" "dy_file ?g = grown_file d k block" "header_at ?g = header_at d"
    by (simp_all add: grown_def blk header_at_def)
  moreover have "span ?g = span d" by (simp add: grown_def span_def)
  ultimately show ?thesis using ok ends blk unfolding vhd_ok_def
    by (auto simp: apart_def span_def)
qed

lemma write_sector_allocates:
  assumes ok: "vhd_ok d" and s: "has_sector d s" and loc: "locate d (SECTOR * s) = None"
    and buf: "length buf = SECTOR" and rm: "room d"
  shows "\<exists>d'. write_sector (SECTOR * s) buf d = (None, d') \<and> vhd_ok d' \<and> dy_end d' \<le> dy_end d + span d \<and>
    dy_block_bytes d' = dy_block_bytes d \<and> length (dy_table d') = length (dy_table d) \<and>
    (\<forall>s'. has_sector d s' \<longrightarrow> sector_of d' s' = (if s' = s then Inr buf else sector_of d s'))"
proof -
  define k where "k = SECTOR * s div dy_block_bytes d"
  define m where "m = SECTOR * s mod dy_block_bytes d"
  define block where "block = fresh_block d (dy_bitmap_bytes d + m) buf"
  let ?g = "grown d k block"
  have k: "k < length (dy_table d)" "dy_table d ! k = UNALLOCATED"
    using s locate_none [OF loc] by (simp_all add: k_def has_sector_def)
  have m: "dy_bitmap_bytes d + m + length buf \<le> span d"
    using sector_in_block(1) [OF ok, of s] buf by (simp add: m_def span_def)
  note blk = fresh_block_nth [OF _ m, folded block_def]
  have lblk: "length block = span d" using blk(1) by simp
  have ends: "dy_table_offset d + 4 * length (dy_table d) \<le> dy_end d" using ok by (simp add: vhd_ok_def)
  have kt: "dy_table_offset d + 4 * k + 4 \<le> dy_end d" using ends k(1) by simp
  have w: "write_sector (SECTOR * s) buf d = (None, ?g)"
    using write_sector_grows [OF loc] rm by (simp add: room_def k_def m_def block_def)
  have ok': "vhd_ok ?g" using grown_ok [OF ok rm k lblk] .
  have loc_g: "locate ?g (SECTOR * s') = (if SECTOR * s' div dy_block_bytes d = k
      then Some (k, dy_end d + dy_bitmap_bytes d + SECTOR * s' mod dy_block_bytes d)
      else locate d (SECTOR * s'))" for s'
    using room_sector [OF ok rm] k(1) by (simp add: locate_def Let_def grown_def)
  have sec: "sector_of ?g s' = (if s' = s then Inr buf else sector_of d s')" if s': "has_sector d s'" for s'
  proof (cases "SECTOR * s' div dy_block_bytes d = k")
    case True
    define m' where "m' = SECTOR * s' mod dy_block_bytes d"
    have fits: "dy_bitmap_bytes d + m' + SECTOR \<le> length block"
      using sector_in_block(1) [OF ok, of s'] by (simp add: m'_def span_def lblk)
    have "take SECTOR (drop (dy_bitmap_bytes d + m') block) = (if s' = s then buf else replicate SECTOR 0)"
    proof (rule nth_equalityI)
      fix i
      assume "i < length (take SECTOR (drop (dy_bitmap_bytes d + m') block))"
      then have i: "i < SECTOR" by simp
      have "s' \<noteq> s \<Longrightarrow> apart m SECTOR m' SECTOR"
        using sectors_differ [of s s' "dy_block_bytes d"] True ok by (auto simp: k_def m_def m'_def vhd_ok_def)
      then show "take SECTOR (drop (dy_bitmap_bytes d + m') block) ! i =
          (if s' = s then buf else replicate SECTOR 0) ! i"
        using i fits blk(2) [of "dy_bitmap_bytes d + m' + i"] buf lblk
        by (auto simp: apart_def m_def m'_def)
    qed (use fits buf in \<open>auto\<close>)
    then have "sector_of ?g s' = Inr (if s' = s then buf else replicate SECTOR 0)"
      using grown_file_block [OF kt fits] loc_g [of s'] True
      by (simp add: sector_of_def dyn_read_def m'_def grown_def add.assoc)
    moreover have "locate d (SECTOR * s') = None" using True k(2) by (simp add: locate_def Let_def)
    ultimately show ?thesis by (simp add: sector_of_def dyn_read_def)
  next
    case False
    then have ne: "s' \<noteq> s" by (auto simp: k_def)
    show ?thesis
    proof (cases "locate d (SECTOR * s')")
      case None
      then show ?thesis using ne False loc_g [of s'] by (simp add: sector_of_def dyn_read_def)
    next
      case (Some p)
      obtain k' off where p: "p = (k', off)" by fastforce
      note l = locate_some [OF ok s' Some [unfolded p]]
      have r: "start_of d k' + span d \<le> dy_end d"
        "apart (start_of d k') (span d) (dy_table_offset d) (4 * length (dy_table d))"
        using ok l(2) by (simp_all add: vhd_ok_def)
      then have "off + SECTOR \<le> dy_end d" "apart off SECTOR (dy_table_offset d + 4 * k) 4"
        using l(3,4) k(1) by (auto simp: apart_def)
      then show ?thesis using grown_file_before [OF _ _ l(5), of k block] Some p ne False loc_g [of s']
        by (simp add: sector_of_def dyn_read_def grown_def)
    qed
  qed
  show ?thesis using w ok' sec lblk by (intro exI [where x = ?g]) (simp add: grown_def)
qed

text \<open>Either way, only the sector written is changed.\<close>

lemma write_sector_array:
  assumes "vhd_ok d" "has_sector d s" "length buf = SECTOR" "room d"
  shows "\<exists>d'. write_sector (SECTOR * s) buf d = (None, d') \<and> vhd_ok d' \<and> dy_end d' \<le> dy_end d + span d \<and>
    dy_block_bytes d' = dy_block_bytes d \<and> length (dy_table d') = length (dy_table d) \<and>
    (\<forall>s'. has_sector d s' \<longrightarrow> sector_of d' s' = (if s' = s then Inr buf else sector_of d s'))"
proof (cases "locate d (SECTOR * s)")
  case None
  then show ?thesis using write_sector_allocates assms by blast
next
  case (Some p)
  then show ?thesis using write_sector_in_place [OF assms(1,2), of "fst p" "snd p"] assms(3) by simp
qed

text \<open>
  A whole file: the copy of the footer in its first sector, which no block, header or table lies in, and its footer, a
  dynamic disk's, in the sector where the next block goes, which is its last.
\<close>

definition vhd_file :: "dynamic \<Rightarrow> bool" where
  "vhd_file d \<longleftrightarrow> length (dy_file d) = dy_end d + SECTOR \<and> drop (dy_end d) (dy_file d) = dy_footer d \<and>
     vhd_footer (dy_footer d) = Inr (Some (3, be64 (dy_footer d) 48)) \<and> take 8 (dy_file d) \<noteq> VHDX_COOKIE \<and>
     SECTOR \<le> dy_table_offset d \<and> (\<forall>k. allocated d k \<longrightarrow> SECTOR \<le> start_of d k)"

lemma vhd_file_opens:
  assumes "vhd_ok d" "vhd_file d"
  shows "image_open (dy_file d) = Inr (Dynamic d, unat (be64 (dy_footer d) 48))"
proof -
  have f: "length (dy_file d) - SECTOR = dy_end d" "SECTOR \<le> length (dy_file d)" "8 \<le> length (dy_file d)"
    "drop (dy_end d) (dy_file d) = dy_footer d" "vhd_footer (dy_footer d) = Inr (Some (3, be64 (dy_footer d) 48))"
    using assms(2) by (simp_all add: vhd_file_def SECTOR_def)
  have "take 8 (take 512 (dy_file d) @ replicate (512 - length (dy_file d)) 0) = take 8 (dy_file d)" using f(3) by simp
  then have "take 8 (take 512 (dy_file d) @ replicate (512 - length (dy_file d)) 0) \<noteq> VHDX_COOKIE"
    using assms(2) by (simp add: vhd_file_def)
  moreover have "dyn_open (dy_file d) (dy_footer d) (dy_end d) = Inr d" using assms(1) by (simp add: vhd_ok_def)
  ultimately show ?thesis unfolding image_open_def Let_def using f by simp
qed

lemma drop_same:
  assumes "length f' = length f" "\<And>i. i < length f \<Longrightarrow> n \<le> i \<Longrightarrow> f' ! i = f ! i"
  shows "drop n f' = drop n (f :: u8 list)"
  using assms by (intro nth_equalityI) simp_all

lemma in_place_keeps_file:
  assumes ok: "vhd_ok d" and whole: "vhd_file d" and s: "has_sector d s" and loc: "locate d (SECTOR * s) = Some (k, off)"
    and buf: "length buf = SECTOR" and w: "write_sector (SECTOR * s) buf d = (None, d')"
  shows "vhd_file d' \<and> dy_footer d' = dy_footer d"
proof -
  note l = locate_some [OF ok s loc]
  obtain f bit_at x where d': "d' = d\<lparr>dy_file := f\<rparr>"
    and b: "start_of d k \<le> bit_at" "bit_at < start_of d k + dy_bitmap_bytes d"
    and f: "f = write_at (dy_file d) off buf \<or> f = write_at (write_at (dy_file d) off buf) bit_at [x]"
    using write_in_place [OF ok s loc buf] w by auto
  have fit: "start_of d k + span d \<le> dy_end d" "SECTOR \<le> start_of d k" "start_of d k + span d \<le> length (dy_file d)"
    using ok whole l(2) by (simp_all add: vhd_ok_def vhd_file_def)
  have len1: "length (write_at (dy_file d) off buf) = length (dy_file d)" using l(5) buf by (simp add: length_write_at)
  have len: "length f = length (dy_file d)" using f len1 b fit(3) by (auto simp: length_write_at span_def)
  have same: "f ! i = dy_file d ! i" if "i < length (dy_file d)" "i < start_of d k \<or> start_of d k + span d \<le> i" for i
  proof -
    have "\<not> (off \<le> i \<and> i < off + length buf)" "i \<noteq> bit_at" using that l(3,4) b buf by (auto simp: span_def)
    then show ?thesis using f that(1) len1 buf l(5) by (auto simp: nth_write_at length_write_at)
  qed
  have "drop (dy_end d) f = drop (dy_end d) (dy_file d)" by (rule drop_same [OF len]) (use same fit in auto)
  moreover have "take 8 f = take 8 (dy_file d)"
    by (rule nth_equalityI) (use same fit(2) len whole in \<open>auto simp: SECTOR_def vhd_file_def\<close>)
  ultimately show ?thesis using whole len unfolding d' by (simp add: vhd_file_def allocated_def start_of_def)
qed

lemma growth_keeps_file:
  assumes ok: "vhd_ok d" and whole: "vhd_file d" and s: "has_sector d s" and loc: "locate d (SECTOR * s) = None"
    and buf: "length buf = SECTOR" and rm: "room d" and w: "write_sector (SECTOR * s) buf d = (None, d')"
  shows "vhd_file d' \<and> dy_footer d' = dy_footer d"
proof -
  define k where "k = SECTOR * s div dy_block_bytes d"
  define block where "block = fresh_block d (dy_bitmap_bytes d + SECTOR * s mod dy_block_bytes d) buf"
  have k: "k < length (dy_table d)" using s by (simp add: k_def has_sector_def)
  have m: "dy_bitmap_bytes d + SECTOR * s mod dy_block_bytes d + length buf \<le> span d"
    using sector_in_block(1) [OF ok, of s] buf by (simp add: span_def)
  have blk: "length block = span d" using fresh_block_nth(1) [OF _ m] by (simp add: block_def)
  have d': "d' = grown d k block"
    using w write_sector_grows [OF loc] rm by (simp add: room_def k_def block_def)
  have ends: "dy_table_offset d + 4 * k + 4 \<le> dy_end d" "header_at d + 1024 \<le> dy_end d"
    using ok k by (auto simp: vhd_ok_def)
  have pos: "SECTOR \<le> span d" using ok by (auto simp: vhd_ok_def span_def intro: dvd_imp_le trans_le_add2)
  have foot: "length (dy_footer d) = SECTOR" using whole by (metis add_diff_cancel_left' length_drop vhd_file_def)
  let ?f = "write_at (write_at (dy_file d) (dy_end d) block) (dy_end d + length block) (dy_footer d)"
  let ?e = "be32_bytes (of_nat (dy_end d div SECTOR))"
  have g: "grown_file d k block = write_at ?f (dy_table_offset d + 4 * k) ?e" by (simp add: grown_file_def)
  have lf: "length ?f = dy_end d + span d + SECTOR" using whole foot blk pos by (simp add: length_write_at vhd_file_def)
  have lg: "length (grown_file d k block) = dy_end d + span d + SECTOR" using ends unfolding g by (subst length_write_at) (simp only: lf, simp)
  have ge: "grown_file d k block ! i = ?f ! i" if "i < length ?f" "i < dy_table_offset d + 4 * k \<or> dy_end d \<le> i" for i
    using that ends lg lf unfolding g by (subst nth_write_at) (auto simp: length_write_at)
  have "drop (dy_end d + span d) (grown_file d k block) = dy_footer d"
  proof (rule nth_equalityI)
    fix i
    assume "i < length (drop (dy_end d + span d) (grown_file d k block))"
    then have i: "i < SECTOR" using lg by simp
    then show "drop (dy_end d + span d) (grown_file d k block) ! i = dy_footer d ! i"
      using lf lg foot blk by (simp add: ge nth_write_at)
  qed (use lg foot in simp)
  moreover have "take 8 (grown_file d k block) = take 8 (dy_file d)"
  proof (rule nth_equalityI)
    fix i
    assume "i < length (take 8 (grown_file d k block))"
    then have i: "i < 8" "i < SECTOR" by (simp_all add: SECTOR_def)
    have "i < dy_end d" "i < dy_table_offset d + 4 * k" "i < length (dy_file d)"
      using i ends whole by (auto simp: vhd_file_def)
    then show "take 8 (grown_file d k block) ! i = take 8 (dy_file d) ! i"
      using i lf less_max_iff_disj [of i] by (simp add: ge) (auto simp: nth_write_at length_write_at)
  qed (use lg whole in \<open>simp add: vhd_file_def SECTOR_def\<close>)
  moreover have "start_of (grown d k block) j = (if j = k then dy_end d else start_of d j)" for j
    using room_sector(2) [OF ok rm] k by (simp add: start_of_def grown_def)
  moreover have "allocated (grown d k block) j \<Longrightarrow> j = k \<or> allocated d j" for j
    by (auto simp: allocated_def grown_def nth_list_update split: if_splits)
  moreover have "SECTOR \<le> dy_end d" using ends by (simp add: SECTOR_def)
  ultimately show ?thesis using whole lg blk unfolding d'
    by (auto simp: vhd_file_def grown_def)
qed

lemma write_keeps_file:
  assumes "vhd_ok d" "vhd_file d" "has_sector d s" "length buf = SECTOR" "room d" "write_sector (SECTOR * s) buf d = (None, d')"
  shows "vhd_file d' \<and> dy_footer d' = dy_footer d"
  using in_place_keeps_file [OF assms(1-3) _ assms(4,6)] growth_keeps_file [OF assms(1-3) _ assms(4,5,6)]
  by (cases "locate d (SECTOR * s)") auto

text \<open>
  C21: a dynamic VHD is an array of sectors. On a disk laid out as its tools lay it out, with room for a block,
  a write to a sector of the disk succeeds and changes that sector and no other, whether its block is there or is
  made by the write. And when the file is whole, its footer in its last sector, it stays so: the file the write
  leaves is opened from its bytes alone, its footer found at its end, as the disk the write left.
\<close>

theorem vhd_write_sector:
  assumes "vhd_ok d" "has_sector d s" "length buf = SECTOR" "room d"
  shows "\<exists>d'. write_sector (SECTOR * s) buf d = (None, d') \<and> vhd_ok d' \<and> dy_end d' \<le> dy_end d + span d \<and>
    dy_block_bytes d' = dy_block_bytes d \<and> length (dy_table d') = length (dy_table d) \<and>
    (\<forall>s'. has_sector d s' \<longrightarrow> sector_of d' s' = (if s' = s then Inr buf else sector_of d s')) \<and>
    (vhd_file d \<longrightarrow> vhd_file d' \<and> image_open (dy_file d) = Inr (Dynamic d, unat (be64 (dy_footer d) 48)) \<and>
      image_open (dy_file d') = Inr (Dynamic d', unat (be64 (dy_footer d) 48)))"
proof -
  obtain d' where d': "write_sector (SECTOR * s) buf d = (None, d')" "vhd_ok d'" "dy_end d' \<le> dy_end d + span d"
    "dy_block_bytes d' = dy_block_bytes d" "length (dy_table d') = length (dy_table d)"
    "\<forall>s'. has_sector d s' \<longrightarrow> sector_of d' s' = (if s' = s then Inr buf else sector_of d s')"
    using write_sector_array [OF assms] by blast
  have "vhd_file d \<Longrightarrow> vhd_file d' \<and> dy_footer d' = dy_footer d" using write_keeps_file [OF assms(1) _ assms(2-4) d'(1)] .
  then show ?thesis using d' vhd_file_opens [OF assms(1)] vhd_file_opens [OF d'(2)] by (intro exI [where x = d']) simp
qed


lemma checksum_split:
  assumes "length c = 4"
  shows "checksum (a @ c @ b) (length a) = NOT (sum_list (map ucast a) + sum_list (map ucast b))"
proof -
  have sum: "fold (\<lambda>(k, x) s. s + ucast x) xs v = v + sum_list (map (ucast \<circ> snd) xs)"
    for xs :: "(nat \<times> u8) list" and v :: u32
    by (induction xs arbitrary: v) (auto simp: add.assoc)
  have all: "filter (\<lambda>(k, x). \<not> (m \<le> k \<and> k < m + 4)) (enumerate j xs) = enumerate j xs"
    if "j + length xs \<le> m \<or> m + 4 \<le> j" for m j and xs :: "u8 list"
    using that by (auto simp: filter_id_conv in_set_enumerate_eq)
  have none: "filter (\<lambda>(k, x). \<not> (m \<le> k \<and> k < m + 4)) (enumerate m c) = []" for m
    using assms by (auto simp: filter_empty_conv in_set_enumerate_eq)
  have "filter (\<lambda>(k, x). \<not> (length a \<le> k \<and> k < length a + 4)) (enumerate 0 (a @ c @ b)) =
      enumerate 0 a @ enumerate (length a + 4) b"
    using all [of 0 a "length a"] all [of "length a + 4" b "length a"] none [of "length a"] assms
    by (simp add: enumerate_append_eq)
  moreover have "sum_list (map (ucast \<circ> snd) (enumerate j xs)) = (sum_list (map ucast xs) :: u32)"
    for j and xs :: "u8 list" by (simp add: map_map [symmetric] del: map_map)
  ultimately show ?thesis unfolding checksum_def by (simp add: sum)
qed

lemma from_le_zeros: "from_le_bytes (replicate n 0) = 0"
  by (induction n) simp_all

text \<open>A disk of one sector, its block not there: the footer's copy, the header, the table and the footer.\<close>

definition small_header :: "u8 list" where
  "small_header = DYNAMIC_COOKIE @ replicate 14 0 @ [6, 0] @ replicate 4 0 @ [0, 0, 0, 1] @ [0, 0, 2, 0] @
     [0xff, 0xff, 0xfc, 0x8d] @ replicate 984 0"

definition small_footer :: "u8 list" where
  "small_footer = COOKIE @ replicate 14 0 @ [2, 0] @ replicate 30 0 @ [2, 0] @ replicate 7 0 @ [3] @
     [0xff, 0xff, 0xfc, 0x9b] @ replicate 444 0"

definition small_vhd :: dynamic where
  "small_vhd = \<lparr>dy_file = small_footer @ small_header @ replicate 4 0xff @ replicate 508 0 @ small_footer,
     dy_table = [UNALLOCATED], dy_table_offset = 1536, dy_block_bytes = 512, dy_bitmap_bytes = 512,
     dy_footer = small_footer, dy_end = 2048\<rparr>"

lemma small_checksum: "checksum small_header HEADER_CHECKSUM = 0xfffffc8d" "checksum small_footer FOOTER_CHECKSUM = 0xfffffc9b"
proof -
  let ?a = "DYNAMIC_COOKIE @ replicate 14 0 @ [6, 0] @ replicate 4 0 @ [0, 0, 0, 1] @ [0, 0, 2, 0]"
  have "checksum (?a @ [0xff, 0xff, 0xfc, 0x8d] @ replicate 984 0) (length ?a) = 0xfffffc8d"
    by (subst checksum_split) (simp_all add: DYNAMIC_COOKIE_def sum_list_replicate)
  moreover have "length ?a = HEADER_CHECKSUM" by (simp add: DYNAMIC_COOKIE_def HEADER_CHECKSUM_def)
  moreover have "small_header = ?a @ [0xff, 0xff, 0xfc, 0x8d] @ replicate 984 0" by (simp add: small_header_def)
  ultimately show "checksum small_header HEADER_CHECKSUM = 0xfffffc8d" by metis
  let ?b = "COOKIE @ replicate 14 0 @ [2, 0] @ replicate 30 0 @ [2, 0] @ replicate 7 0 @ [3]"
  have "checksum (?b @ [0xff, 0xff, 0xfc, 0x9b] @ replicate 444 0) (length ?b) = 0xfffffc9b"
    by (subst checksum_split) (simp_all add: COOKIE_def sum_list_replicate)
  moreover have "length ?b = FOOTER_CHECKSUM" by (simp add: COOKIE_def FOOTER_CHECKSUM_def)
  moreover have "small_footer = ?b @ [0xff, 0xff, 0xfc, 0x9b] @ replicate 444 0" by (simp add: small_footer_def)
  ultimately show "checksum small_footer FOOTER_CHECKSUM = 0xfffffc9b" by metis
qed

lemma small_lengths: "length small_header = 1024" "length small_footer = 512"
  by (simp_all add: small_header_def small_footer_def DYNAMIC_COOKIE_def COOKIE_def)

lemma small_fields:
  "take 8 small_header = DYNAMIC_COOKIE" "be32 small_header HEADER_CHECKSUM = 0xfffffc8d" "be64 small_header 16 = 1536"
  "be32 small_header 28 = 1" "be32 small_header 32 = 512" "take 8 small_footer = COOKIE" "be64 small_footer 16 = 512"
  "be64 small_footer 48 = 512" "be32 small_footer 60 = 3" "be32 small_footer FOOTER_CHECKSUM = 0xfffffc9b"
  by (simp_all add: small_header_def small_footer_def DYNAMIC_COOKIE_def COOKIE_def HEADER_CHECKSUM_def FOOTER_CHECKSUM_def be32_def
      be64_def be32_of_def from_le_zeros)

lemma small_open: "dyn_open (dy_file small_vhd) small_footer 2048 = Inr small_vhd"
proof -
  have h: "read_at (dy_file small_vhd) 512 1024 = Inr small_header"
    by (simp add: read_at_def small_vhd_def small_lengths)
  have t: "read_at (dy_file small_vhd) 1536 4 = Inr (replicate 4 0xff)"
    by (simp add: read_at_def small_vhd_def small_lengths)
  have ones: "be32_of (replicate 4 0xff) = UNALLOCATED"
    by code_simp
  show ?thesis
    using h t by (simp add: dyn_open_def Let_def small_fields small_checksum SECTOR_def)
      (simp add: small_vhd_def next_multiple_of_def div_ceil_def ones)
qed

lemma small_ok: "vhd_ok small_vhd" "has_sector small_vhd 0" "room small_vhd" "vhd_file small_vhd"
proof -
  have al: "\<not> allocated small_vhd k" for k by (cases k) (simp_all add: allocated_def small_vhd_def)
  moreover have "header_at small_vhd = 512" by (simp add: header_at_def small_vhd_def small_fields)
  moreover have "dy_footer small_vhd = small_footer" by (simp add: small_vhd_def)
  ultimately show "vhd_ok small_vhd" unfolding vhd_ok_def using small_open
    by (simp add: apart_def) (simp add: small_vhd_def SECTOR_def)
  show "has_sector small_vhd 0" "room small_vhd"
    by (simp_all add: has_sector_def room_def small_vhd_def SECTOR_def)
  have "vhd_footer small_footer = Inr (Some (3, 512))" by (simp add: vhd_footer_def Let_def small_fields small_checksum)
  moreover have "take 8 (dy_file small_vhd) = COOKIE" using small_fields(6) by (simp add: small_vhd_def small_lengths)
  moreover have "length (dy_file small_vhd) = 2560" "drop 2048 (dy_file small_vhd) = small_footer"
    by (simp_all add: small_vhd_def small_lengths)
  ultimately show "vhd_file small_vhd" using al unfolding vhd_file_def
    by (simp add: small_fields SECTOR_def COOKIE_def VHDX_COOKIE_def) (simp add: small_vhd_def small_fields)
qed

lemma vhd_write_sector_witness:
  "\<exists>d'. write_sector (SECTOR * 0) (replicate SECTOR 7) small_vhd = (None, d') \<and>
     image_open (dy_file d') = Inr (Dynamic d', 512) \<and> sector_of d' 0 = Inr (replicate SECTOR 7)"
proof -
  have f: "be64 (dy_footer small_vhd) 48 = 512" by (simp add: small_vhd_def small_fields)
  show ?thesis
    using vhd_write_sector [OF small_ok(1,2) _ small_ok(3), of "replicate SECTOR 7"] small_ok(2,4) f by auto
qed

text \<open>
  An entry of the table is 32 bits, and all ones marks a block that is not there. A block at the last sector an
  entry can name is taken as written, and its table entry is the mark: what was written reads as zeros.
\<close>

theorem vhd_last_entry_lost:
  assumes "dy_end d div SECTOR = 2 ^ 32 - 1" "locate d at = None" "at div dy_block_bytes d < length (dy_table d)"
  shows "\<exists>d'. write_sector at buf d = (None, d') \<and> dyn_read d' at n = Inr (replicate n 0)"
proof -
  let ?d' = "grown d (at div dy_block_bytes d) (fresh_block d (dy_bitmap_bytes d + at mod dy_block_bytes d) buf)"
  have "of_nat (2 ^ 32 - 1) = UNALLOCATED" by (simp add: UNALLOCATED_def)
  then have "locate ?d' at = None" using assms(1,3) by (simp add: locate_def Let_def grown_def)
  then have "dyn_read ?d' at n = Inr (replicate n 0)" by (simp add: dyn_read_def)
  then show ?thesis using write_sector_grows [OF assms(2)] assms(1) by simp
qed

section \<open>A disk reads back what was written to it\<close>

definition image_ok :: "nat \<Rightarrow> image \<Rightarrow> bool" where
  "image_ok blocks i \<longleftrightarrow>
     (case i of Flat f _ \<Rightarrow> blocks * BLOCK_BYTES \<le> length f
      | Dynamic d \<Rightarrow> vhd_ok d \<and> (\<forall>n < blocks. has_sector d (2 * n) \<and> has_sector d (2 * n + 1)))"

text \<open>Room for the blocks a write can make: one for each of a disk block's sectors.\<close>

definition image_room :: "image \<Rightarrow> bool" where
  "image_room i \<longleftrightarrow>
     (case i of Flat _ _ \<Rightarrow> True | Dynamic d \<Rightarrow> (dy_end d + span d) div SECTOR < 2 ^ 32 - 1)"

definition disk_ok :: "disk \<Rightarrow> bool" where
  "disk_ok d \<longleftrightarrow>
     (case dk_image d of None \<Rightarrow> True | Some i \<Rightarrow> image_ok (unat (dk_blocks d)) i) \<and>
     sorted_wrt (<) (map fst (dk_written d)) \<and>
     (\<forall>(n, b) \<in> set (dk_written d). n < dk_blocks d \<and> length b = BLOCK_WORDS)"

lemma map_of_hm_insert: "map_of (hm_insert k v m) = (map_of m)(k \<mapsto> v)"
  by (induction k v m rule: hm_insert.induct) (auto simp: fun_eq_iff)

lemma map_of_hm_remove: "map_of (hm_remove k m) = (map_of m)(k := None)"
  by (induction m) (auto simp: hm_remove_def fun_eq_iff)

lemma set_hm_insert: "set (hm_insert k v m) \<subseteq> insert (k, v) (set m)"
  by (induction k v m rule: hm_insert.induct) auto

lemma sorted_hm_insert: "sorted_wrt (<) (map fst m) \<Longrightarrow> sorted_wrt (<) (map fst (hm_insert k v m))"
proof (induction k v m rule: hm_insert.induct)
  case (2 k v j w m)
  then show ?case using set_hm_insert [of k v m] by (fastforce dest: less_trans)
qed simp

lemma sorted_hm_remove: "sorted_wrt (<) (map fst m) \<Longrightarrow> sorted_wrt (<) (map fst (hm_remove k m))"
  by (induction m) (auto simp: hm_remove_def)

lemma length_bytes_of_words: "length (bytes_of_words ws) = 4 * length ws"
  by (induction ws) (simp_all add: bytes_of_words_def)

lemma words_of_bytes_of_words: "length ws = BLOCK_WORDS \<Longrightarrow> words_of_bytes (bytes_of_words ws) = ws"
proof -
  have "map from_le_bytes (chunks_exact (length ws) 4 (bytes_of_words ws)) = ws"
    by (induction ws) (simp_all add: bytes_of_words_def from_le_le_bytes_full)
  then show "length ws = BLOCK_WORDS \<Longrightarrow> ?thesis" by (simp add: words_of_bytes_def)
qed

lemma next_sector: "SECTOR * s + SECTOR = SECTOR * (s + 1)"
  by simp

lemma image_read_dynamic:
  "image_read_block n (Dynamic d) = (case sector_of d (2 * unat n) of Inl e \<Rightarrow> Inl e
     | Inr a \<Rightarrow> (case sector_of d (2 * unat n + 1) of Inl e \<Rightarrow> Inl e | Inr b \<Rightarrow> Inr (a @ b)))"
proof -
  have "unat n * BLOCK_BYTES = SECTOR * (2 * unat n)"
    by (simp add: BLOCK_BYTES_def BLOCK_WORDS_def SECTOR_def)
  then show ?thesis
    unfolding image_read_block_def sector_of_def Let_def image.case next_sector [symmetric] by (simp only:)
qed

lemma dyn_write_block:
  assumes "image_ok blocks (Dynamic v)" "image_room (Dynamic v)" "unat n < blocks" "length b = BLOCK_BYTES"
  shows "\<exists>i. image_write_block n b (Dynamic v) = (None, i) \<and> image_ok blocks i \<and>
    (\<forall>m. unat m < blocks \<longrightarrow> image_read_block m i = (if m = n then Inr b else image_read_block m (Dynamic v)))"
proof -
  have ok: "vhd_ok v" and secs: "\<And>m. m < blocks \<Longrightarrow> has_sector v (2 * m) \<and> has_sector v (2 * m + 1)"
    using assms(1) by (auto simp: image_ok_def)
  have rm: "dy_end v + span v < (2 ^ 32 - 1) * SECTOR"
    using assms(2) by (simp add: image_room_def div_less_iff_less_mult SECTOR_def)
  have len: "length (take SECTOR b) = SECTOR" "length (drop SECTOR b) = SECTOR"
    using assms(4) by (simp_all add: BLOCK_BYTES_def BLOCK_WORDS_def SECTOR_def)
  have at: "unat m * BLOCK_BYTES = SECTOR * (2 * unat m)"
    "unat m * BLOCK_BYTES + SECTOR = SECTOR * (2 * unat m + 1)" for m :: u32
    by (simp_all add: BLOCK_BYTES_def BLOCK_WORDS_def SECTOR_def)
  have "room v" using rm unfolding room_def by (simp add: div_less_iff_less_mult SECTOR_def)
  from write_sector_array [OF ok _ len(1) this, of "2 * unat n"] obtain v1 where
    w1: "write_sector (SECTOR * (2 * unat n)) (take SECTOR b) v = (None, v1)" "vhd_ok v1"
    and e1: "dy_end v1 \<le> dy_end v + span v" and s1: "has_sector v1 = has_sector v"
    and r1: "\<And>s. has_sector v s \<Longrightarrow>
      sector_of v1 s = (if s = 2 * unat n then Inr (take SECTOR b) else sector_of v s)"
    using secs [OF assms(3)] by (auto simp: has_sector_def fun_eq_iff)
  have "room v1" using rm e1 unfolding room_def by (simp add: div_less_iff_less_mult SECTOR_def)
  from write_sector_array [OF w1(2) _ len(2) this, of "2 * unat n + 1"] obtain v2 where
    w2: "write_sector (SECTOR * (2 * unat n + 1)) (drop SECTOR b) v1 = (None, v2)" "vhd_ok v2"
    and s2: "has_sector v2 = has_sector v"
    and r2: "\<And>s. has_sector v s \<Longrightarrow>
      sector_of v2 s = (if s = 2 * unat n + 1 then Inr (drop SECTOR b) else sector_of v1 s)"
    using secs [OF assms(3)] s1 by (auto simp: has_sector_def fun_eq_iff)
  have "image_write_block n b (Dynamic v) = (None, Dynamic v2)"
    using w1(1) w2(1) unfolding image_write_block_def
    by (simp add: Let_def at add.commute)
  moreover have "image_ok blocks (Dynamic v2)" using w2(2) s2 secs by (simp add: image_ok_def)
  moreover have "image_read_block m (Dynamic v2) = (if m = n then Inr b else image_read_block m (Dynamic v))"
    if "unat m < blocks" for m
  proof -
    have "sector_of v2 (2 * unat m) = (if m = n then Inr (take SECTOR b) else sector_of v (2 * unat m))"
      "sector_of v2 (2 * unat m + 1) = (if m = n then Inr (drop SECTOR b) else sector_of v (2 * unat m + 1))"
      using secs [OF that] secs [OF assms(3)] r1 r2
      by (simp_all add: word_unat_eq_iff double_not_eq_Suc_double Suc_double_not_eq_double)
    then show ?thesis by (cases "m = n") (simp_all add: image_read_dynamic del: One_nat_def split: sum.split)
  qed
  ultimately show ?thesis by blast
qed

lemma block_after: "m < n \<Longrightarrow> m * BLOCK_BYTES + BLOCK_BYTES \<le> n * BLOCK_BYTES"
  using mult_le_mono1 [of "m + 1" n BLOCK_BYTES] by simp

lemma flat_write_block:
  assumes "image_ok blocks (Flat f fmt)" "unat n < blocks" "length b = BLOCK_BYTES"
  shows "\<exists>i. image_write_block n b (Flat f fmt) = (None, i) \<and> image_ok blocks i \<and>
    (\<forall>m. unat m < blocks \<longrightarrow> image_read_block m i = (if m = n then Inr b else image_read_block m (Flat f fmt)))"
proof -
  let ?i = "Flat (write_at f (unat n * BLOCK_BYTES) b) fmt"
  have "image_read_block m ?i = (if m = n then Inr b else image_read_block m (Flat f fmt))" if m: "unat m < blocks" for m
  proof (cases "m = n")
    case True
    then show ?thesis by (simp add: image_read_block_def read_write_same assms(3))
  next
    case False
    then have "unat m < unat n \<or> unat n < unat m" by (simp add: word_unat_eq_iff linorder_neq_iff)
    then have "unat m * BLOCK_BYTES + BLOCK_BYTES \<le> unat n * BLOCK_BYTES \<or>
        unat n * BLOCK_BYTES + BLOCK_BYTES \<le> unat m * BLOCK_BYTES" using block_after by blast
    moreover have "unat m * BLOCK_BYTES + BLOCK_BYTES \<le> length f"
      using block_after [OF m] assms(1) by (simp add: image_ok_def)
    ultimately show ?thesis using False assms(3) by (auto simp: image_read_block_def intro!: read_write_apart)
  qed
  then show ?thesis using assms(1) by (auto simp: image_write_block_def image_ok_def length_write_at)
qed

lemma image_write_block_ok:
  assumes "image_ok blocks i" "image_room i" "unat n < blocks" "length b = BLOCK_BYTES"
  shows "\<exists>i'. image_write_block n b i = (None, i') \<and> image_ok blocks i' \<and>
    (\<forall>m. unat m < blocks \<longrightarrow> image_read_block m i' = (if m = n then Inr b else image_read_block m i))"
  using assms dyn_write_block flat_write_block by (cases i) blast+

lemma disk_ok_written:
  assumes "disk_ok d"
  shows "n < dk_blocks d \<Longrightarrow> length b = BLOCK_WORDS \<Longrightarrow> disk_ok (d\<lparr>dk_written := hm_insert n b (dk_written d)\<rparr>)"
    "disk_ok (d\<lparr>dk_written := hm_remove n (dk_written d)\<rparr>)"
proof -
  have "\<forall>x \<in> set (hm_remove n (dk_written d)). case x of (n, b) \<Rightarrow> n < dk_blocks d \<and> length b = BLOCK_WORDS"
    using assms by (auto simp: hm_remove_def disk_ok_def)
  then show "disk_ok (d\<lparr>dk_written := hm_remove n (dk_written d)\<rparr>)"
    using assms by (simp add: disk_ok_def sorted_hm_remove cong: option.case_cong)
  assume "n < dk_blocks d" "length b = BLOCK_WORDS"
  then have "\<forall>x \<in> set (hm_insert n b (dk_written d)). case x of (n, b) \<Rightarrow> n < dk_blocks d \<and> length b = BLOCK_WORDS"
    using set_hm_insert [of n b "dk_written d"] assms unfolding disk_ok_def by blast
  then show "disk_ok (d\<lparr>dk_written := hm_insert n b (dk_written d)\<rparr>)"
    using assms by (simp add: disk_ok_def sorted_hm_insert cong: option.case_cong)
qed

lemma file_block_written [simp]: "file_block m (d\<lparr>dk_written := w\<rparr>) = file_block m d"
  by (simp add: file_block_def)

text \<open>Writes that go into a dynamic VHD, which a full file can refuse.\<close>

definition dynamic_image :: "image \<Rightarrow> bool" where
  "dynamic_image i \<longleftrightarrow> (case i of Dynamic _ \<Rightarrow> True | Flat _ _ \<Rightarrow> False)"

definition in_dynamic :: "disk \<Rightarrow> bool" where
  "in_dynamic d \<longleftrightarrow> dk_writable d \<and> (case dk_image d of Some i \<Rightarrow> dynamic_image i | None \<Rightarrow> False)"

lemma image_write_dynamic: "image_write_block n b i = (e, i') \<Longrightarrow> dynamic_image i' = dynamic_image i"
  by (cases i) (auto simp: image_write_block_def Let_def dynamic_image_def split: prod.splits if_splits)

text \<open>A write within the disk, and the reads after it.\<close>

lemma disk_write:
  assumes ok: "disk_ok d" and n: "n < dk_blocks d" and data: "length data = BLOCK_WORDS"
    and room: "\<And>i. dk_image d = Some i \<Longrightarrow> dk_writable d \<Longrightarrow> image_room i"
  shows "\<exists>d'. disk_write_block n data d = (True, d') \<and> disk_ok d' \<and> dk_blocks d' = dk_blocks d \<and> in_dynamic d' = in_dynamic d \<and>
    (\<forall>m. disk_read_block m d' = (if m = n then Some data else disk_read_block m d))"
proof (cases "dk_writable d \<and> dk_image d \<noteq> None")
  case True
  then obtain i where i: "dk_writable d" "dk_image d = Some i" by blast
  have len: "length (bytes_of_words data) = BLOCK_BYTES"
    by (simp add: length_bytes_of_words data BLOCK_BYTES_def)
  have "image_ok (unat (dk_blocks d)) i" using ok i(2) by (simp add: disk_ok_def)
  from image_write_block_ok [OF this room [OF i(2,1)] _ len, of n] n obtain i' where
    i': "image_write_block n (bytes_of_words data) i = (None, i')" "image_ok (unat (dk_blocks d)) i'"
    "\<And>m. m < dk_blocks d \<Longrightarrow>
      image_read_block m i' = (if m = n then Inr (bytes_of_words data) else image_read_block m i)"
    by (auto simp: word_less_nat_alt)
  let ?d = "d\<lparr>dk_image := Some i', dk_written := hm_remove n (dk_written d)\<rparr>"
  have "disk_write_block n data d = (True, ?d)"
    using i i'(1) n by (simp add: disk_write_block_def Let_def not_le)
  moreover have "disk_ok ?d" using disk_ok_written(2) [OF ok, of n] i'(2) by (simp add: disk_ok_def)
  moreover have "disk_read_block m ?d = (if m = n then Some data else disk_read_block m d)" for m
    using i'(3) [of m] i(2) n words_of_bytes_of_words [OF data]
    by (auto simp: disk_read_block_def map_of_hm_remove file_block_def not_le split: option.splits sum.splits)
  moreover have "in_dynamic ?d = in_dynamic d"
    using image_write_dynamic [OF i'(1)] i by (simp add: in_dynamic_def)
  ultimately show ?thesis by (intro exI [where x = ?d]) simp
next
  case False
  let ?d = "if file_block n d = Some data then d\<lparr>dk_written := hm_remove n (dk_written d)\<rparr>
    else d\<lparr>dk_written := hm_insert n data (dk_written d)\<rparr>"
  have "disk_write_block n data d = (True, ?d)"
    using False n by (auto simp: disk_write_block_def not_le split: option.split bool.split)
  moreover have "disk_ok ?d" using disk_ok_written ok n data by simp
  moreover have "disk_read_block m ?d = (if m = n then Some data else disk_read_block m d)" for m
    using n by (auto simp: disk_read_block_def map_of_hm_remove map_of_hm_insert not_le split: option.splits)
  moreover have "in_dynamic ?d = in_dynamic d" by (simp add: in_dynamic_def)
  ultimately show ?thesis by (intro exI [where x = ?d]) simp
qed

text \<open>
  C22: a disk reads back what was written to it. A block within the disk is written, whether the write goes to
  the file, raw or VHD, or is kept over it; every read after it gives the words written for that block and
  what it gave before for any other.
\<close>

theorem disk_reads_what_was_written:
  assumes ok: "disk_ok d" and n: "n < dk_blocks d" and data: "length data = BLOCK_WORDS"
    and room: "\<And>i. dk_image d = Some i \<Longrightarrow> dk_writable d \<Longrightarrow> image_room i"
  shows "\<exists>d'. disk_write_block n data d = (True, d') \<and> disk_ok d' \<and> dk_blocks d' = dk_blocks d \<and>
    (\<forall>m. disk_read_block m d' = (if m = n then Some data else disk_read_block m d))"
  using disk_write [OF assms] by blast

lemma disk_reads_what_was_written_witness:
  "\<exists>d'. disk_write_block 3 (replicate BLOCK_WORDS 5) (disk_blank 8) = (True, d') \<and>
     disk_read_block 3 d' = Some (replicate BLOCK_WORDS 5) \<and> disk_read_block 4 d' = Some (replicate BLOCK_WORDS 0)"
proof -
  have "disk_ok (disk_blank 8)" "3 < dk_blocks (disk_blank 8)" "dk_image (disk_blank 8) = None"
    by (simp_all add: disk_ok_def disk_blank_def)
  then obtain d' where "disk_write_block 3 (replicate BLOCK_WORDS 5) (disk_blank 8) = (True, d')"
    "\<And>m. disk_read_block m d' = (if m = 3 then Some (replicate BLOCK_WORDS 5) else disk_read_block m (disk_blank 8))"
    using disk_reads_what_was_written [of "disk_blank 8" 3 "replicate BLOCK_WORDS 5"] by auto
  then show ?thesis by (auto simp: disk_read_block_def disk_blank_def file_block_def)
qed

section \<open>Checkpoint\<close>

lemma hm_insert_last: "\<forall>j \<in> set (map fst m). j < k \<Longrightarrow> hm_insert k v m = m @ [(k, v)]"
  by (induction k v m rule: hm_insert.induct) (auto dest: less_asym)

lemma hm_insert_all:
  "sorted_wrt (<) (map fst (m @ bs)) \<Longrightarrow> fold (\<lambda>(k, v). hm_insert k v) bs m = m @ bs"
proof (induction bs arbitrary: m)
  case (Cons b bs)
  then have "\<forall>j \<in> set (map fst m). j < fst b" by (auto simp: sorted_wrt_append)
  then have "hm_insert (fst b) (snd b) m = m @ [b]" by (simp add: hm_insert_last)
  then show ?case using Cons by (simp add: case_prod_beta)
qed simp

lemma written_within:
  assumes "disk_ok d"
  shows "length (dk_written d) \<le> unat (dk_blocks d)"
proof -
  have "distinct (map fst (dk_written d))"
    using assms by (auto simp: disk_ok_def distinct_conv_nth sorted_wrt_iff_nth_less) (metis less_irrefl linorder_neqE_nat)
  then have "length (dk_written d) = card (unat ` fst ` set (dk_written d))"
    using card_image [OF inj_on_subset [OF inj_unsigned subset_UNIV]]
    by (metis distinct_card length_map list.set_map)
  also have "\<dots> \<le> card {0 ..< unat (dk_blocks d)}"
    using assms by (intro card_mono) (auto simp: disk_ok_def word_less_nat_alt)
  finally show ?thesis by simp
qed

lemma codes_block: "length (snd b) = BLOCK_WORDS \<Longrightarrow> codes n (put_block b) get_block b"
  unfolding put_block_def get_block_def
  by (rule codes_cons [OF codes_u32], rule codes_cons [OF codes_u32s_into])
    (simp_all add: BLOCK_WORDS_def codes_end)

lemma codes_disk:
  assumes ok: "disk_ok d" and same: "d0\<lparr>dk_written := dk_written d\<rparr> = d"
  shows "codes n (disk_save d) (disk_load d0) d"
proof -
  have lt: "length (dk_written d) < 2 ^ 32"
    using written_within [OF ok] unsigned_less [where 'a=nat, of "dk_blocks d"] by simp
  then have len: "unat (of_nat (length (dk_written d)) :: u64) = length (dk_written d)"
    by (simp add: unat_of_nat take_bit_nat_eq_self)
  have blocks: "codes n (fold put_block (dk_written d)) (get_many (length (dk_written d)) get_block) (dk_written d)"
    using ok by (intro codes_many codes_block) (auto simp: disk_ok_def)
  have b: "(dk_blocks d \<noteq> dk_blocks d0) = False" using same by (metis select_convs(1) disk.surjective update_convs(4))
  have room: "((ucast (dk_blocks d) :: u64) < of_nat (length (dk_written d))) = False"
    using written_within [OF ok] len unsigned_less [where 'a=nat, of "dk_blocks d"]
    by (simp add: word_less_nat_alt unsigned_ucast_eq take_bit_nat_eq_self)
  have whole: "d0\<lparr>dk_written := fold (\<lambda>(k, v). hm_insert k v) (dk_written d) []\<rparr> = d"
    using hm_insert_all [of "[]" "dk_written d"] ok same by (simp add: disk_ok_def)
  show ?thesis
    unfolding disk_save_def disk_load_def
    by (rule codes_cons [OF codes_u32], simp only: b if_False, rule codes_cons [OF codes_u64],
        simp only: room len if_False, rule codes_cons [OF blocks]) (simp only: whole codes_nil)
qed

interpretation disk: codec n "\<lambda>d. disk_ok d \<and> d0\<lparr>dk_written := dk_written d\<rparr> = d" disk_save "disk_load d0" for n d0
  by unfold_locales (blast intro: codes_disk)

end
