(* ===== verification/BlockDisk.thy ===== *)
theory BlockDisk
  imports DiskImage
begin

text \<open>
  QUUX's block-disk, \<open>src/block_disk.rs\<close>: the four registers, the command list, and the transfers of blocks and
  of revision 13's pages between the disk and main memory, a list of 64-bit machine words. The loop over the
  command list ends because every entry moves the block number towards the disk's end.
\<close>

section \<open>Words of main memory\<close>

definition UNBOXED_TAG :: u64 where "UNBOXED_TAG = push_bit 32 5"

definition mw_low :: "u64 \<Rightarrow> u32" where "mw_low w = ucast w"
definition mw_of :: "u32 \<Rightarrow> u64" where "mw_of v = ucast v"

definition put_at :: "nat \<Rightarrow> 'a list \<Rightarrow> 'a list \<Rightarrow> 'a list" where
  "put_at at xs ys = take at ys @ xs @ drop (at + length xs) ys"

section \<open>The registers\<close>

definition REGS :: u32 where "REGS = 0x3fff80"
definition STATUS :: u32 where "STATUS = 0"
definition COMMAND :: u32 where "COMMAND = 0"
definition CLP :: u32 where "CLP = 1"
definition DA :: u32 where "DA = 2"
definition START :: u32 where "START = 3"
definition BLOCK_NS :: u64 where "BLOCK_NS = 100000"

record transfer =
  tr_write :: bool
  tr_block :: u32
  tr_page :: u32

record block_disk =
  bd_cmd :: u32
  bd_clp :: u32
  bd_da :: u32
  bd_last_memory_address :: u32
  bd_done_at :: u64
  bd_now :: u64
  bd_block_ns :: u64
  bd_past_end :: bool
  bd_nxm :: bool
  bd_bad_command :: bool
  bd_disk :: "disk option"
  bd_log :: "transfer list option"

definition block_disk_new :: "u64 \<Rightarrow> block_disk" where
  "block_disk_new block_ns =
     \<lparr>bd_cmd = 0, bd_clp = 0, bd_da = 0, bd_last_memory_address = 0, bd_done_at = 0, bd_now = 0,
      bd_block_ns = block_ns, bd_past_end = False, bd_nxm = False, bd_bad_command = False,
      bd_disk = None, bd_log = None\<rparr>"

definition bd_attach :: "disk \<Rightarrow> block_disk \<Rightarrow> block_disk" where
  "bd_attach d b = b\<lparr>bd_disk := Some d\<rparr>"

definition bd_advance :: "u64 \<Rightarrow> block_disk \<Rightarrow> block_disk" where
  "bd_advance now b = b\<lparr>bd_now := now\<rparr>"

definition not_active :: "block_disk \<Rightarrow> bool" where
  "not_active b \<longleftrightarrow> bd_done_at b \<le> bd_now b"

definition bd_error :: "block_disk \<Rightarrow> bool" where
  "bd_error b \<longleftrightarrow> bd_past_end b \<or> bd_nxm b \<or> bd_bad_command b"

definition bd_interrupt_at :: "u64 \<Rightarrow> block_disk \<Rightarrow> bool" where
  "bd_interrupt_at now b \<longleftrightarrow> bd_done_at b \<le> now \<and> bd_cmd b AND push_bit 11 1 \<noteq> 0"

definition bd_interrupt :: "block_disk \<Rightarrow> bool" where
  "bd_interrupt b = bd_interrupt_at (bd_now b) b"

definition bd_status :: "block_disk \<Rightarrow> u32" where
  "bd_status b =
     (if not_active b then 1 else 0) OR (if bd_interrupt b then push_bit 3 1 else 0) OR
     (if bd_disk b = None then push_bit 9 1 else 0) OR (if bd_error b then push_bit 13 1 else 0) OR
     (if bd_past_end b then push_bit 17 1 else 0) OR (if bd_nxm b then push_bit 20 1 else 0)"

definition bd_read :: "u32 \<Rightarrow> block_disk \<Rightarrow> u32" where
  "bd_read r b =
     (let r = r AND 3
      in if r = STATUS then bd_status b else if r = CLP then bd_last_memory_address b
         else if r = DA then bd_da b else 0)"

section \<open>The transfer\<close>

text \<open>What the three flags and the disk are when the list is done or a word of it fails.\<close>

definition bd_finish :: "disk \<Rightarrow> u64 \<Rightarrow> u32 \<Rightarrow> block_disk \<Rightarrow> block_disk" where
  "bd_finish d moved block b =
     b\<lparr>bd_da := block, bd_disk := Some d, bd_done_at := bd_now b + moved * bd_block_ns b\<rparr>"

definition bd_clear :: "block_disk \<Rightarrow> block_disk" where
  "bd_clear b = b\<lparr>bd_past_end := False, bd_nxm := False, bd_bad_command := False\<rparr>"

definition clp_at :: "u32 \<Rightarrow> u32 \<Rightarrow> u32" where
  "clp_at clp n = (clp AND NOT 0xffff) OR ((clp + n) AND 0xffff)"

text \<open>The block of an entry: whether it moved, and the disk and memory after it.\<close>

definition move_block :: "bool \<Rightarrow> nat \<Rightarrow> u32 \<Rightarrow> disk \<Rightarrow> u64 list \<Rightarrow> bool \<times> disk \<times> u64 list" where
  "move_block read page block d main =
     (if read then
        (case disk_read_block block d of
           Some b \<Rightarrow> (True, d, put_at page (map mw_of b) main)
         | None \<Rightarrow> (False, d, main))
      else let (ok, d) = disk_write_block block (map mw_low (take BLOCK_WORDS (drop page main))) d
           in (ok, d, main))"

lemma read_block_within: "disk_read_block n d = Some b \<Longrightarrow> n < dk_blocks d"
  by (auto simp: disk_read_block_def not_le split: if_splits)

lemma write_block_within: "disk_write_block n x d = (True, d') \<Longrightarrow> n < dk_blocks d"
  by (auto simp: disk_write_block_def not_le split: if_splits)

lemma write_block_blocks: "disk_write_block n x d = (ok, d') \<Longrightarrow> dk_blocks d' = dk_blocks d"
  by (auto simp: disk_write_block_def Let_def split: if_splits prod.splits bool.splits option.splits)

lemma move_block_within: "move_block read page n d m = (True, d', m') \<Longrightarrow> n < dk_blocks d \<and> dk_blocks d' = dk_blocks d"
  by (auto simp: move_block_def dest: read_block_within write_block_within write_block_blocks
      split: if_splits option.splits prod.splits)

lemma next_block:
  fixes n k :: u32
  shows "n < k \<Longrightarrow> unat (n + 1) = unat n + 1"
  using unsigned_less [where 'a=nat, of k] by (simp add: word_less_nat_alt unat_word_ariths)

lemma block_moves_on:
  fixes n k :: u32
  shows "n < k \<Longrightarrow> unat k - unat (n + 1) < unat k - unat n"
  using next_block [of n k] by (simp add: word_less_nat_alt diff_less_mono2)

definition bd_note :: "transfer list \<Rightarrow> block_disk \<Rightarrow> block_disk" where
  "bd_note ts b = b\<lparr>bd_log := map_option (\<lambda>l. l @ ts) (bd_log b)\<rparr>"

function start_loop ::
  "bool \<Rightarrow> disk \<Rightarrow> u64 list \<Rightarrow> u64 \<Rightarrow> u32 \<Rightarrow> u32 \<Rightarrow> block_disk \<Rightarrow> block_disk \<times> u64 list" where
  "start_loop read d main moved n block b =
     (let clp = clp_at (bd_clp b) n;
          b = b\<lparr>bd_last_memory_address := clp\<rparr>
      in if length main \<le> unat clp then (bd_finish d moved block (b\<lparr>bd_nxm := True\<rparr>), main)
         else let ccw = mw_low (main ! unat clp); page = unat (ccw AND 0x003fff00)
         in if length main < page + BLOCK_WORDS then (bd_finish d moved block (b\<lparr>bd_nxm := True\<rparr>), main)
         else case move_block read page block d main of (ok, d', main') \<Rightarrow>
           if \<not> ok then (bd_finish d' moved block (b\<lparr>bd_past_end := True\<rparr>), main')
           else let b = (bd_note [\<lparr>tr_write = \<not> read, tr_block = block, tr_page = of_nat page\<rparr>] b)
                          \<lparr>bd_last_memory_address := of_nat (page + BLOCK_WORDS - 1)\<rparr>
           in if ccw AND 1 = 0 then (bd_finish d' (moved + 1) block b, main')
              else start_loop read d' main' (moved + 1) (n + 1) (block + 1) b)"
  by pat_completeness auto
termination
  by (relation "measure (\<lambda>(_, d, _, _, _, block, _). unat (dk_blocks d) - unat block)")
    (auto dest!: move_block_within [OF sym] simp: block_moves_on)

declare start_loop.simps [simp del]

definition bd_start :: "block_disk \<Rightarrow> u64 list \<Rightarrow> block_disk \<times> u64 list" where
  "bd_start b main =
     (let b = bd_clear b; c = bd_cmd b AND 0xf
      in if c \<noteq> 0 \<and> c \<noteq> 9 then (b\<lparr>bd_bad_command := True\<rparr>, main)
         else case bd_disk b of None \<Rightarrow> (b, main)
              | Some d \<Rightarrow> start_loop (c = 0) d main 0 0 (bd_da b) (b\<lparr>bd_disk := None\<rparr>))"

definition bd_write :: "u32 \<Rightarrow> u32 \<Rightarrow> block_disk \<Rightarrow> u64 list \<Rightarrow> block_disk \<times> u64 list" where
  "bd_write r v b main =
     (let r = r AND 3
      in if r = COMMAND then (bd_clear (b\<lparr>bd_cmd := v\<rparr>), main)
         else if r = CLP then (b\<lparr>bd_clp := v\<rparr>, main)
         else if r = DA then (b\<lparr>bd_da := v AND 0x0fffffff\<rparr>, main)
         else bd_start b main)"

section \<open>Revision 13's pages\<close>

definition PAGE :: nat where "PAGE = 1024"

text \<open>The blocks of a page, first to last: the bytes, or the block that failed.\<close>

fun read_page :: "nat \<Rightarrow> u32 \<Rightarrow> disk \<Rightarrow> u32 + u8 list" where
  "read_page 0 block d = Inr []"
| "read_page (Suc k) block d =
     (case disk_read_block block d of None \<Rightarrow> Inl block
      | Some b \<Rightarrow> (case read_page k (block + 1) d of Inl f \<Rightarrow> Inl f | Inr bs \<Rightarrow> Inr (bytes_of_words b @ bs)))"

fun write_page :: "nat \<Rightarrow> u32 \<Rightarrow> u8 list \<Rightarrow> disk \<Rightarrow> u32 option \<times> disk" where
  "write_page 0 block bs d = (None, d)"
| "write_page (Suc k) block bs d =
     (case disk_write_block block (words_of_bytes (take 1024 bs)) d of (ok, d) \<Rightarrow>
       if \<not> ok then (Some block, d) else write_page k (block + 1) (drop 1024 bs) d)"

definition page_words :: "bool \<Rightarrow> u8 list \<Rightarrow> u64 list" where
  "page_words four buf =
     map (\<lambda>b. if four then UNBOXED_TAG OR ucast (from_le_bytes b :: u32)
              else fold (\<lambda>y x. push_bit 8 x OR ucast y) (rev b) 0)
       (chunks_exact PAGE (if four then 4 else 5) buf)"

definition page_bytes :: "bool \<Rightarrow> u64 list \<Rightarrow> u8 list" where
  "page_bytes four ws = concat (map (\<lambda>w. take (if four then 4 else 5) (le_bytes 8 w)) ws)"

definition blocks_a_page :: "bool \<Rightarrow> nat" where
  "blocks_a_page four = (if four then 4 else 5)"

definition move_page :: "bool \<Rightarrow> bool \<Rightarrow> nat \<Rightarrow> u32 \<Rightarrow> disk \<Rightarrow> u64 list \<Rightarrow> u32 option \<times> disk \<times> u64 list" where
  "move_page read four page block d main =
     (if read then
        (case read_page (blocks_a_page four) block d of
           Inl f \<Rightarrow> (Some f, d, main)
         | Inr buf \<Rightarrow> (None, d, put_at page (page_words four buf) main))
      else let (failed, d) = write_page (blocks_a_page four) block (page_bytes four (take PAGE (drop page main))) d
           in (failed, d, main))"

lemma read_page_within: "read_page (Suc k) n d = Inr bs \<Longrightarrow> unat n + Suc k \<le> unat (dk_blocks d)"
proof (induction k arbitrary: n bs)
  case 0
  then show ?case by (auto simp: word_less_nat_alt dest!: read_block_within split: option.splits)
next
  case (Suc k)
  from Suc.prems obtain b bs' where
    "disk_read_block n d = Some b" "read_page (Suc k) (n + 1) d = Inr bs'"
    by (simp only: read_page.simps(2) [of "Suc k"] split: option.splits sum.splits) blast
  then show ?case using Suc.IH [of "n + 1"] next_block [of n "dk_blocks d"] by (auto dest: read_block_within)
qed

lemma write_page_within:
  "write_page (Suc k) n bs d = (None, d') \<Longrightarrow> unat n + Suc k \<le> unat (dk_blocks d) \<and> dk_blocks d' = dk_blocks d"
proof (induction k arbitrary: n bs d)
  case 0
  then have "disk_write_block n (words_of_bytes (take 1024 bs)) d = (True, d')"
    by (auto split: prod.splits if_splits)
  then show ?case using write_block_within write_block_blocks by (fastforce simp: word_less_nat_alt)
next
  case (Suc k)
  from Suc.prems obtain d1 where
    d1: "disk_write_block n (words_of_bytes (take 1024 bs)) d = (True, d1)"
    "write_page (Suc k) (n + 1) (drop 1024 bs) d1 = (None, d')"
    by (simp only: write_page.simps(2) [of "Suc k"] split: prod.splits if_splits) auto
  then show ?case using Suc.IH [OF d1(2)] next_block [OF write_block_within [OF d1(1)]] write_block_blocks [OF d1(1)]
    by auto
qed

lemma move_page_within:
  assumes "move_page read four page n d m = (None, d', m')"
  shows "unat n + blocks_a_page four \<le> unat (dk_blocks d) \<and> dk_blocks d' = dk_blocks d"
proof -
  obtain k where k: "blocks_a_page four = Suc k" by (cases four) (simp_all add: blocks_a_page_def)
  show ?thesis using assms read_page_within [of k n d] write_page_within [of k n _ d]
    unfolding move_page_def k
    by (cases read) (auto simp del: read_page.simps write_page.simps split: sum.splits prod.splits)
qed

lemma page_end:
  fixes n k :: u32
  assumes "unat n + blocks_a_page four \<le> unat k"
  shows "unat (n + of_nat (blocks_a_page four)) = unat n + blocks_a_page four"
  using assms unsigned_less [where 'a=nat, of k]
  by (simp add: unat_word_ariths unat_of_nat take_bit_nat_eq_self blocks_a_page_def)

lemma page_moves_on:
  fixes n k :: u32
  assumes "unat n + blocks_a_page four \<le> unat k"
  shows "unat k - unat (n + of_nat (blocks_a_page four)) < unat k - unat n"
  unfolding page_end [OF assms] using assms by (simp add: blocks_a_page_def split: if_splits)

definition page_notes :: "bool \<Rightarrow> bool \<Rightarrow> u32 \<Rightarrow> nat \<Rightarrow> transfer list" where
  "page_notes read four block page =
     map (\<lambda>k. \<lparr>tr_write = \<not> read, tr_block = block + of_nat k, tr_page = of_nat page\<rparr>) [0 ..< blocks_a_page four]"

function start_40_loop ::
  "bool \<Rightarrow> bool \<Rightarrow> disk \<Rightarrow> u64 list \<Rightarrow> u64 \<Rightarrow> u32 \<Rightarrow> u32 \<Rightarrow> block_disk \<Rightarrow> block_disk \<times> u64 list" where
  "start_40_loop read four d main moved n block b =
     (let clp = clp_at (bd_clp b) n;
          b = b\<lparr>bd_last_memory_address := clp\<rparr>
      in if length main \<le> unat clp then (bd_finish d moved block (b\<lparr>bd_nxm := True\<rparr>), main)
         else let ccw = main ! unat clp; page = unat (ccw AND 0x0ffffc00)
         in if length main < page + PAGE then (bd_finish d moved block (b\<lparr>bd_nxm := True\<rparr>), main)
         else case move_page read four page block d main of (failed, d', main') \<Rightarrow>
           (case failed of
              Some at \<Rightarrow> (bd_finish d' (moved + ucast (at - block)) at (b\<lparr>bd_past_end := True\<rparr>), main')
            | None \<Rightarrow>
                let b = (bd_note (page_notes read four block page) b)
                          \<lparr>bd_last_memory_address := of_nat (page + PAGE - 1)\<rparr>;
                    moved = moved + of_nat (blocks_a_page four); last = block + of_nat (blocks_a_page four) - 1
                in if ccw AND 1 = 0 then (bd_finish d' moved last b, main')
                   else start_40_loop read four d' main' moved (n + 1) (last + 1) b))"
  by pat_completeness auto
termination
  by (relation "measure (\<lambda>(_, _, d, _, _, _, block, _). unat (dk_blocks d) - unat block)")
    (auto dest!: move_page_within [OF sym] simp: page_moves_on)

declare start_40_loop.simps [simp del]

definition bd_start_40 :: "block_disk \<Rightarrow> u64 list \<Rightarrow> block_disk \<times> u64 list" where
  "bd_start_40 b main =
     (let b = bd_clear b; c = bd_cmd b AND 0xf
      in if c \<noteq> 0 \<and> c \<noteq> 9 then (b\<lparr>bd_bad_command := True\<rparr>, main)
         else let four = (bd_cmd b AND push_bit 12 1 \<noteq> 0)
         in case bd_disk b of None \<Rightarrow> (b, main)
            | Some d \<Rightarrow> start_40_loop (c = 0) four d main 0 0 (bd_da b) (b\<lparr>bd_disk := None\<rparr>))"

definition bd_write_40 :: "u32 \<Rightarrow> u32 \<Rightarrow> block_disk \<Rightarrow> u64 list \<Rightarrow> block_disk \<times> u64 list" where
  "bd_write_40 r v b main =
     (if r AND 3 = START then bd_start_40 b main
      else if r AND 3 = CLP then (b\<lparr>bd_clp := v AND 0x0fffffff\<rparr>, main)
      else bd_write r v b main)"

definition bd_xbus_init :: "block_disk \<Rightarrow> block_disk" where
  "bd_xbus_init b =
     b\<lparr>bd_cmd := 0, bd_past_end := False, bd_nxm := False, bd_bad_command := False, bd_done_at := bd_now b\<rparr>"

definition bd_save :: "block_disk \<Rightarrow> writer \<Rightarrow> writer" where
  "bd_save b = put_all
     [put_u32 (bd_cmd b), put_u32 (bd_clp b), put_u32 (bd_da b), put_u32 (bd_last_memory_address b),
      put_u64 (bd_done_at b), put_u64 (bd_now b), put_u64 (bd_block_ns b),
      put_bool (bd_past_end b), put_bool (bd_nxm b), put_bool (bd_bad_command b),
      put_opt disk_save (bd_disk b)]"

definition bd_load_disk :: "disk option \<Rightarrow> disk option rd" where
  "bd_load_disk disk = rd_bind get_bool (\<lambda>has_disk.
     case (has_disk, disk) of
       (True, Some d) \<Rightarrow> rd_bind (disk_load d) (\<lambda>d. rd_return (Some d))
     | (False, None) \<Rightarrow> rd_return None
     | _ \<Rightarrow> rd_fail Bad_value)"

definition bd_load :: "block_disk \<Rightarrow> block_disk rd" where
  "bd_load b =
     rd_bind get_u32 (\<lambda>cmd. rd_bind get_u32 (\<lambda>clp. rd_bind get_u32 (\<lambda>da. rd_bind get_u32 (\<lambda>last.
     rd_bind get_u64 (\<lambda>done_at. rd_bind get_u64 (\<lambda>now. rd_bind get_u64 (\<lambda>block_ns.
     rd_bind get_bool (\<lambda>past_end. rd_bind get_bool (\<lambda>nxm. rd_bind get_bool (\<lambda>bad_command.
     rd_bind (bd_load_disk (bd_disk b)) (\<lambda>d.
     rd_return (b\<lparr>bd_cmd := cmd, bd_clp := clp, bd_da := da, bd_last_memory_address := last,
       bd_done_at := done_at, bd_now := now, bd_block_ns := block_ns, bd_past_end := past_end, bd_nxm := nxm,
       bd_bad_command := bad_command, bd_disk := d\<rparr>))))))))))))"

section \<open>What START moves\<close>

text \<open>Every block of a disk can be read.\<close>

lemma length_read_at: "read_at f at n = Inr b \<Longrightarrow> length b = n"
  by (simp add: read_at_eq)

lemma image_reads:
  assumes "image_ok blocks i" "unat n < blocks"
  shows "\<exists>b. image_read_block n i = Inr b"
proof (cases i)
  case (Flat f fmt)
  then have "unat n * BLOCK_BYTES + BLOCK_BYTES \<le> length f"
    using block_after [OF assms(2)] assms(1) by (simp add: image_ok_def)
  then show ?thesis using Flat by (simp add: image_read_block_def read_at_def)
next
  case (Dynamic v)
  have "\<exists>b. sector_of v s = Inr b" if "has_sector v s" for s
  proof (cases "locate v (SECTOR * s)")
    case (Some p)
    then have "snd p + SECTOR \<le> length (dy_file v)"
      using locate_some(5) [of v s "fst p" "snd p"] assms(1) that Dynamic by (simp add: image_ok_def)
    then show ?thesis using Some by (cases p) (simp add: sector_of_def dyn_read_def read_at_def)
  qed (simp add: sector_of_def dyn_read_def)
  moreover have "has_sector v (2 * unat n)" "has_sector v (2 * unat n + 1)"
    using assms Dynamic by (simp_all add: image_ok_def)
  ultimately obtain a b where "sector_of v (2 * unat n) = Inr a" "sector_of v (2 * unat n + 1) = Inr b"
    by metis
  then show ?thesis using Dynamic by (simp add: image_read_dynamic del: One_nat_def)
qed

lemma disk_reads:
  assumes "disk_ok d" "n < dk_blocks d"
  shows "\<exists>b. disk_read_block n d = Some b \<and> length b = BLOCK_WORDS"
proof (cases "map_of (dk_written d) n")
  case None
  have "\<exists>b. file_block n d = Some b \<and> length b = BLOCK_WORDS"
  proof (cases "dk_image d")
    case (Some i)
    then obtain b where "image_read_block n i = Inr b"
      using image_reads [of "unat (dk_blocks d)" i n] assms by (auto simp: disk_ok_def word_less_nat_alt)
    then show ?thesis using Some by (simp add: file_block_def words_of_bytes_def)
  qed (simp add: file_block_def)
  then show ?thesis using None assms(2) by (simp add: disk_read_block_def not_le)
next
  case (Some b)
  then have "length b = BLOCK_WORDS" using assms(1) map_of_SomeD [OF Some] by (auto simp: disk_ok_def)
  then show ?thesis using Some assms(2) by (simp add: disk_read_block_def not_le)
qed

text \<open>
  A command list: entry \<open>n\<close> of the list at \<open>clp\<close> is a word of main memory that names a page within it, and has its
  More bit unless it is the last.
\<close>

definition entry_at :: "u32 \<Rightarrow> u32 \<Rightarrow> nat" where
  "entry_at clp n = unat (clp_at clp n)"

definition entry :: "u64 list \<Rightarrow> nat \<Rightarrow> nat \<Rightarrow> bool \<Rightarrow> bool" where
  "entry m a p again \<longleftrightarrow> a < length m \<and> unat (mw_low (m ! a) AND 0x003fff00) = p \<and>
     (mw_low (m ! a) AND 1 \<noteq> 0 \<longleftrightarrow> again) \<and> p + BLOCK_WORDS \<le> length m"

fun command_list :: "u64 list \<Rightarrow> u32 \<Rightarrow> u32 \<Rightarrow> nat list \<Rightarrow> bool" where
  "command_list m clp n [] \<longleftrightarrow> True"
| "command_list m clp n (p # ps) \<longleftrightarrow>
     entry m (entry_at clp n) p (ps \<noteq> []) \<and> command_list m clp (n + 1) ps"

text \<open>No page holds an entry of the list.\<close>

fun clear_of :: "u32 \<Rightarrow> u32 \<Rightarrow> nat \<Rightarrow> nat \<Rightarrow> bool" where
  "clear_of clp n 0 p \<longleftrightarrow> True"
| "clear_of clp n (Suc k) p \<longleftrightarrow>
     (entry_at clp n < p \<or> p + BLOCK_WORDS \<le> entry_at clp n) \<and> clear_of clp (n + 1) k p"

lemma length_put_at [simp]: "at + length xs \<le> length ys \<Longrightarrow> length (put_at at xs ys) = length ys"
  by (simp add: put_at_def)

lemma nth_put_at:
  "at + length xs \<le> length ys \<Longrightarrow> i < length ys \<Longrightarrow>
   put_at at xs ys ! i = (if at \<le> i \<and> i < at + length xs then xs ! (i - at) else ys ! i)"
  by (auto simp: put_at_def nth_append min_def)

lemma command_list_kept:
  assumes "length b = BLOCK_WORDS" "p + BLOCK_WORDS \<le> length m" "clear_of clp n (length ps) p"
  shows "command_list (put_at p b m) clp n ps = command_list m clp n ps"
  using assms by (induction ps arbitrary: n) (auto simp: entry_def nth_put_at)

definition page_at :: "nat \<Rightarrow> u64 list \<Rightarrow> u32 list" where
  "page_at p m = map mw_low (take BLOCK_WORDS (drop p m))"

text \<open>Pages put into memory one after the other, the words of the k-th from a function of k.\<close>

fun pages_put :: "(nat \<Rightarrow> u32 list) \<Rightarrow> nat list \<Rightarrow> u64 list \<Rightarrow> u64 list" where
  "pages_put f [] m = m"
| "pages_put f (p # ps) m = pages_put (\<lambda>k. f (Suc k)) ps (put_at p (map mw_of (f 0)) m)"

definition pages_read :: "disk \<Rightarrow> u32 \<Rightarrow> nat list \<Rightarrow> u64 list \<Rightarrow> u64 list" where
  "pages_read d n = pages_put (\<lambda>k. the (disk_read_block (n + of_nat k) d))"

lemma pages_read_simps [simp]:
  "pages_read d n [] m = m"
  "pages_read d n (p # ps) m = pages_read d (n + 1) ps (put_at p (map mw_of (the (disk_read_block n d))) m)"
  by (simp_all add: pages_read_def ac_simps)

text \<open>What a transfer leaves of the registers beside its own.\<close>

definition same_regs :: "block_disk \<Rightarrow> block_disk \<Rightarrow> bool" where
  "same_regs b b' \<longleftrightarrow> (\<exists>last log. b' = b\<lparr>bd_last_memory_address := last, bd_log := log\<rparr>)"

definition noted :: "bool \<Rightarrow> u32 \<Rightarrow> nat \<Rightarrow> u32 \<Rightarrow> block_disk \<Rightarrow> block_disk" where
  "noted read block p n b =
     (bd_note [\<lparr>tr_write = \<not> read, tr_block = block, tr_page = of_nat p\<rparr>]
       (b\<lparr>bd_last_memory_address := clp_at (bd_clp b) n\<rparr>))\<lparr>bd_last_memory_address := of_nat (p + BLOCK_WORDS - 1)\<rparr>"

lemma same_regs_noted:
  "same_regs b (noted read block p n b)" "same_regs (noted read block p n b) b' \<Longrightarrow> same_regs b b'"
proof -
  show "same_regs b (noted read block p n b)" unfolding same_regs_def noted_def bd_note_def
    by (rule exI [where x = "of_nat (p + BLOCK_WORDS - 1)"],
        rule exI [where x = "map_option (\<lambda>l. l @ [\<lparr>tr_write = \<not> read, tr_block = block, tr_page = of_nat p\<rparr>]) (bd_log b)"])
      simp
  show "same_regs (noted read block p n b) b' \<Longrightarrow> same_regs b b'"
    by (auto simp: same_regs_def noted_def bd_note_def)
qed

lemma clp_noted [simp]: "bd_clp (noted read block p n b) = bd_clp b"
  by (simp add: noted_def bd_note_def)

lemma start_loop_entry:
  assumes "entry m (entry_at (bd_clp b) n) p again" "move_block read p block d m = (True, d', m')"
  shows "start_loop read d m moved n block b =
    (if again then start_loop read d' m' (moved + 1) (n + 1) (block + 1) (noted read block p n b)
     else (bd_finish d' (moved + 1) block (noted read block p n b), m'))"
  using assms
  by (subst start_loop.simps) (auto simp: entry_def entry_at_def Let_def not_le not_less noted_def)

lemma loop_reads:
  assumes "disk_ok d"
  shows "\<lbrakk>ps \<noteq> []; command_list m (bd_clp b) n ps; \<forall>p \<in> set ps. clear_of (bd_clp b) n (length ps) p;
      unat block + length ps \<le> unat (dk_blocks d)\<rbrakk> \<Longrightarrow>
    \<exists>b'. same_regs b b' \<and> start_loop True d m moved n block b =
      (bd_finish d (moved + of_nat (length ps)) (block + of_nat (length ps) - 1) b', pages_read d block ps m)"
proof (induction ps arbitrary: m moved n block b)
  case (Cons p ps)
  have lt: "block < dk_blocks d" using Cons.prems(4) by (simp add: word_less_nat_alt)
  obtain blk where blk: "disk_read_block block d = Some blk" "length blk = BLOCK_WORDS"
    using disk_reads [OF assms lt] by blast
  let ?m = "put_at p (map mw_of blk) m"
  have en: "entry m (entry_at (bd_clp b) n) p (ps \<noteq> [])" using Cons.prems(2) by simp
  have mv: "move_block True p block d m = (True, d, ?m)" using blk(1) by (simp add: move_block_def)
  note step = start_loop_entry [OF en mv, of moved]
  show ?case
  proof (cases "ps = []")
    case True
    then show ?thesis using step same_regs_noted(1) blk(1) by (intro exI [where x = "noted True block p n b"]) simp
  next
    case False
    have fit: "p + BLOCK_WORDS \<le> length m" using en by (simp add: entry_def)
    have "command_list ?m (bd_clp b) (n + 1) ps"
      using command_list_kept [of "map mw_of blk" p m "bd_clp b" "n + 1" ps] blk(2) fit Cons.prems(2,3) by simp
    then obtain b' where "same_regs (noted True block p n b) b'"
      "start_loop True d ?m (moved + 1) (n + 1) (block + 1) (noted True block p n b) =
        (bd_finish d (moved + 1 + of_nat (length ps)) (block + 1 + of_nat (length ps) - 1) b', pages_read d (block + 1) ps ?m)"
      using Cons.IH [of ?m "noted True block p n b" "n + 1" "block + 1" "moved + 1"] False Cons.prems(3,4) next_block [OF lt]
      by auto
    then show ?thesis using step False blk(1) same_regs_noted(2)
      by (intro exI [where x = b']) (auto simp: ac_simps)
  qed
qed simp

text \<open>The words of memory after the blocks were read into it.\<close>

definition page_apart :: "nat \<Rightarrow> nat \<Rightarrow> bool" where
  "page_apart p q \<longleftrightarrow> p + BLOCK_WORDS \<le> q \<or> q + BLOCK_WORDS \<le> p"

definition in_page :: "nat \<Rightarrow> nat \<Rightarrow> bool" where
  "in_page p a \<longleftrightarrow> p \<le> a \<and> a < p + BLOCK_WORDS"

lemma pages_put_nth:
  assumes "\<forall>p \<in> set ps. p + BLOCK_WORDS \<le> length m" "sorted_wrt page_apart ps" "\<forall>i < length ps. length (f i) = BLOCK_WORDS"
  shows "length (pages_put f ps m) = length m \<and>
    (\<forall>a < length m. (\<forall>p \<in> set ps. \<not> in_page p a) \<longrightarrow> pages_put f ps m ! a = m ! a) \<and>
    (\<forall>i < length ps. \<forall>j < BLOCK_WORDS. pages_put f ps m ! (ps ! i + j) = mw_of (f i ! j))"
  using assms
proof (induction ps arbitrary: f m)
  case (Cons p ps)
  let ?b = "f 0"
  have b: "length ?b = BLOCK_WORDS" using Cons.prems(3) by auto
  let ?m = "put_at p (map mw_of ?b) m"
  have p: "p + BLOCK_WORDS \<le> length m" using Cons.prems(1) by simp
  have len: "length ?m = length m" using b p by simp
  have IH: "length (pages_put (\<lambda>k. f (Suc k)) ps ?m) = length m"
    "\<And>a. a < length m \<Longrightarrow> \<forall>p \<in> set ps. \<not> in_page p a \<Longrightarrow> pages_put (\<lambda>k. f (Suc k)) ps ?m ! a = ?m ! a"
    "\<And>i j. i < length ps \<Longrightarrow> j < BLOCK_WORDS \<Longrightarrow> pages_put (\<lambda>k. f (Suc k)) ps ?m ! (ps ! i + j) = mw_of (f (Suc i) ! j)"
    using Cons.IH [of ?m "\<lambda>k. f (Suc k)"] Cons.prems len by auto
  have new: "pages_put (\<lambda>k. f (Suc k)) ps ?m ! (p + j) = mw_of (?b ! j)" if j: "j < BLOCK_WORDS" for j
  proof -
    have "\<forall>q \<in> set ps. \<not> in_page q (p + j)"
      using j Cons.prems(2) by (auto simp: page_apart_def in_page_def)
    then show ?thesis using IH(2) [of "p + j"] p b j by (simp add: nth_put_at)
  qed
  have "pages_put f (p # ps) m ! ((p # ps) ! i + j) = mw_of (f i ! j)" if "i < length (p # ps)" "j < BLOCK_WORDS" for i j
    using that new [of j] IH(3) [of "i - 1" j] by (cases i) simp_all
  moreover have "?m ! a = m ! a" if "a < length m" "\<not> in_page p a" for a
    using that b p by (auto simp: nth_put_at in_page_def)
  ultimately show ?case using IH(1,2) by simp
qed simp

lemma pages_read_nth:
  assumes "\<forall>p \<in> set ps. p + BLOCK_WORDS \<le> length m" "sorted_wrt page_apart ps"
    and "\<forall>i < length ps. \<exists>b. disk_read_block (n + of_nat i) d = Some b \<and> length b = BLOCK_WORDS"
  shows "length (pages_read d n ps m) = length m \<and>
    (\<forall>a < length m. (\<forall>p \<in> set ps. \<not> in_page p a) \<longrightarrow> pages_read d n ps m ! a = m ! a) \<and>
    (\<forall>i < length ps. \<forall>j < BLOCK_WORDS.
      pages_read d n ps m ! (ps ! i + j) = mw_of (the (disk_read_block (n + of_nat i) d) ! j))"
  unfolding pages_read_def using assms(3) by (intro pages_put_nth [OF assms(1,2)]) auto

lemma loop_writes:
  assumes "disk_ok d" "\<not> in_dynamic d"
  shows "\<lbrakk>ps \<noteq> []; command_list m (bd_clp b) n ps; unat block + length ps \<le> unat (dk_blocks d)\<rbrakk> \<Longrightarrow>
    \<exists>b' d'. same_regs b b' \<and> disk_ok d' \<and> dk_blocks d' = dk_blocks d \<and> start_loop False d m moved n block b =
      (bd_finish d' (moved + of_nat (length ps)) (block + of_nat (length ps) - 1) b', m) \<and>
      (\<forall>x. disk_read_block x d' =
        (if unat (x - block) < length ps then Some (page_at (ps ! unat (x - block)) m) else disk_read_block x d))"
  using assms
proof (induction ps arbitrary: d moved n block b)
  case (Cons p ps)
  have lt: "block < dk_blocks d" using Cons.prems(3) by (simp add: word_less_nat_alt)
  have en: "entry m (entry_at (bd_clp b) n) p (ps \<noteq> [])" using Cons.prems(2) by simp
  have len: "length (page_at p m) = BLOCK_WORDS" using en by (auto simp: page_at_def entry_def)
  have rm: "image_room i" if "dk_image d = Some i" "dk_writable d" for i
    using that Cons.prems(5) by (simp add: in_dynamic_def image_room_def dynamic_image_def split: image.splits)
  obtain d1 where d1: "disk_write_block block (page_at p m) d = (True, d1)" "disk_ok d1" "dk_blocks d1 = dk_blocks d"
    "\<not> in_dynamic d1" "\<And>x. disk_read_block x d1 = (if x = block then Some (page_at p m) else disk_read_block x d)"
    using disk_write [OF Cons.prems(4) lt len rm] Cons.prems(5) by auto
  have mv: "move_block False p block d m = (True, d1, m)" using d1(1) by (simp add: move_block_def page_at_def)
  note step = start_loop_entry [OF en mv, of moved]
  show ?case
  proof (cases "ps = []")
    case True
    then show ?thesis using step same_regs_noted(1) [of b False block p n] d1
      by (intro exI [where x = "noted False block p n b"] exI [where x = d1]) (auto simp: unat_eq_zero)
  next
    case False
    obtain b' d' where "same_regs (noted False block p n b) b'" "disk_ok d'" "dk_blocks d' = dk_blocks d1"
      "start_loop False d1 m (moved + 1) (n + 1) (block + 1) (noted False block p n b) =
        (bd_finish d' (moved + 1 + of_nat (length ps)) (block + 1 + of_nat (length ps) - 1) b', m)"
      and r: "\<And>x. disk_read_block x d' = (if unat (x - (block + 1)) < length ps
        then Some (page_at (ps ! unat (x - (block + 1))) m) else disk_read_block x d1)"
      using Cons.IH [of "noted False block p n b" "n + 1" "block + 1" d1 "moved + 1"] False Cons.prems(2,3) d1(2-4)
        next_block [OF lt] by auto
    moreover have "disk_read_block x d' = (if unat (x - block) < length (p # ps)
        then Some (page_at ((p # ps) ! unat (x - block)) m) else disk_read_block x d)" for x
    proof (cases "x = block")
      case True
      have "unat (- 1 :: u32) = 2 ^ 32 - 1" by (simp add: unsigned_minus_1_eq_mask mask_eq_exp_minus_1)
      moreover have "length ps \<le> 2 ^ 32 - 1"
        using Cons.prems(3) unsigned_less [where 'a=nat, of "dk_blocks d"] by simp
      ultimately show ?thesis using True r [of x] d1(5) by simp
    next
      case False
      then have "unat (x - block) = Suc (unat (x - (block + 1)))"
        using unat_minus_one [of "x - block"] by (simp add: algebra_simps unat_gt_0)
      then show ?thesis using False r [of x] d1(5) by simp
    qed
    ultimately show ?thesis using step False same_regs_noted(2) d1(3)
      by (intro exI [where x = b'] exI [where x = d']) (auto simp: ac_simps)
  qed
qed simp

lemma mw_low_of [simp]: "mw_low (mw_of v) = v"
  by (rule word_eq_by_bits) (simp add: mw_low_def mw_of_def bit_simps)

lemma page_atI:
  assumes "p + BLOCK_WORDS \<le> length m" "length b = BLOCK_WORDS" "\<forall>j < BLOCK_WORDS. m ! (p + j) = mw_of (b ! j)"
  shows "page_at p m = b"
  using assms by (auto simp: page_at_def list_eq_iff_nth_eq)

lemma command_list_fits: "command_list m clp n ps \<Longrightarrow> p \<in> set ps \<Longrightarrow> p + BLOCK_WORDS \<le> length m"
  by (induction ps arbitrary: n) (auto simp: entry_def)

text \<open>The registers a transfer without error leaves.\<close>

definition moved_all :: "block_disk \<Rightarrow> nat \<Rightarrow> block_disk \<Rightarrow> bool" where
  "moved_all b k b' \<longleftrightarrow> \<not> bd_error b' \<and> bd_da b' = bd_da b + of_nat k - 1 \<and>
     bd_done_at b' = bd_now b + of_nat k * bd_block_ns b \<and> bd_cmd b' = bd_cmd b \<and> bd_clp b' = bd_clp b"

lemma moved_all_finish:
  "same_regs ((bd_clear b)\<lparr>bd_disk := None\<rparr>) b1 \<Longrightarrow>
   moved_all b k (bd_finish d (of_nat k) (bd_da b + of_nat k - 1) b1) \<and> bd_disk (bd_finish d (of_nat k) v b1) = Some d"
  by (auto simp: same_regs_def moved_all_def bd_finish_def bd_clear_def bd_error_def)

text \<open>
  C23: a read moves the blocks the command list names. START with a list of pages that lie in main memory, apart
  from one another and from the list, and as many blocks from the disk address on, leaves each page holding
  the words of its block and the rest of memory as it was, stops without error at the last block, and is busy
  for a block's time for each.
\<close>

theorem start_reads_blocks:
  assumes "bd_disk b = Some d" "disk_ok d" "bd_cmd b AND 0xf = 0"
    and list: "ps \<noteq> []" "command_list main (bd_clp b) 0 ps"
    and apart: "\<forall>p \<in> set ps. clear_of (bd_clp b) 0 (length ps) p" "sorted_wrt page_apart ps"
    and within: "unat (bd_da b) + length ps \<le> unat (dk_blocks d)"
  shows "\<exists>b' main'. bd_start b main = (b', main') \<and> bd_disk b' = Some d \<and> moved_all b (length ps) b' \<and>
    length main' = length main \<and>
    (\<forall>i < length ps. disk_read_block (bd_da b + of_nat i) d = Some (page_at (ps ! i) main')) \<and>
    (\<forall>a < length main. (\<forall>p \<in> set ps. \<not> in_page p a) \<longrightarrow> main' ! a = main ! a)"
proof -
  let ?b = "(bd_clear b)\<lparr>bd_disk := None\<rparr>" and ?m = "pages_read d (bd_da b) ps main"
  have clp: "bd_clp ?b = bd_clp b" by (simp add: bd_clear_def)
  obtain b1 where b1: "same_regs ?b b1" "start_loop True d main 0 0 (bd_da b) ?b =
      (bd_finish d (of_nat (length ps)) (bd_da b + of_nat (length ps) - 1) b1, ?m)"
    using loop_reads [OF assms(2) list(1), of main ?b 0 "bd_da b" 0] list(2) apart(1) within clp by auto
  have start: "bd_start b main = (bd_finish d (of_nat (length ps)) (bd_da b + of_nat (length ps) - 1) b1, ?m)"
    using assms(1,3) b1(2) by (simp add: bd_start_def bd_clear_def Let_def)
  have fits: "\<forall>p \<in> set ps. p + BLOCK_WORDS \<le> length main" using command_list_fits list(2) by blast
  have blks: "\<exists>x. disk_read_block (bd_da b + of_nat i) d = Some x \<and> length x = BLOCK_WORDS" if "i < length ps" for i
  proof (rule disk_reads [OF assms(2)])
    show "bd_da b + of_nat i < dk_blocks d"
      using that within unsigned_less [where 'a=nat, of "dk_blocks d"]
      by (simp add: word_less_nat_alt unat_word_ariths unat_of_nat take_bit_nat_eq_self)
  qed
  note r = pages_read_nth [OF fits apart(2), of "bd_da b" d, rule_format, OF blks]
  have "disk_read_block (bd_da b + of_nat i) d = Some (page_at (ps ! i) ?m)" if i: "i < length ps" for i
  proof -
    obtain x where x: "disk_read_block (bd_da b + of_nat i) d = Some x" "length x = BLOCK_WORDS" using blks i by blast
    have "page_at (ps ! i) ?m = x" using r x i fits by (intro page_atI) auto
    then show ?thesis using x by simp
  qed
  then show ?thesis using start r moved_all_finish [OF b1(1)] by auto
qed

text \<open>A list of two entries at 0, for the pages at 256 and 512.\<close>

definition two_pages :: "u64 list" where
  "two_pages = [0x101, 0x200] @ replicate 1022 7"

definition two_blocks :: "u32 \<Rightarrow> block_disk" where
  "two_blocks cmd = (bd_attach (disk_blank 8) (block_disk_new 5))\<lparr>bd_cmd := cmd, bd_da := 3\<rparr>"

lemma two_pages_listed: "command_list two_pages 0 0 [256, 512]" "\<forall>p \<in> {256, 512}. clear_of 0 0 (length [256, 512::nat]) p"
proof -
  have "entry_at 0 0 = 0" "entry_at 0 1 = 1" "two_pages ! 0 = 0x101" "two_pages ! 1 = 0x200" "length two_pages = 1024"
    by (simp_all add: entry_at_def clp_at_def two_pages_def)
  then show "command_list two_pages 0 0 [256, 512]" "\<forall>p \<in> {256, 512}. clear_of 0 0 (length [256, 512::nat]) p"
    by (simp_all add: entry_def BLOCK_WORDS_def mw_low_def)
qed

lemma two_blocks_disk:
  "bd_disk (two_blocks c) = Some (disk_blank 8)" "disk_ok (disk_blank 8)" "bd_cmd (two_blocks c) = c"
  "bd_clp (two_blocks c) = 0" "bd_da (two_blocks c) = 3" "dk_blocks (disk_blank 8) = 8" "\<not> in_dynamic (disk_blank 8)"
  by (simp_all add: two_blocks_def bd_attach_def disk_ok_def disk_blank_def block_disk_new_def in_dynamic_def)

lemma start_reads_blocks_witness:
  "\<exists>b' main'. bd_start (two_blocks 0) two_pages = (b', main') \<and> page_at 256 main' = replicate BLOCK_WORDS 0 \<and>
     bd_da b' = 4"
proof -
  obtain b' main' where s: "bd_start (two_blocks 0) two_pages = (b', main')" "moved_all (two_blocks 0) (Suc (Suc 0)) b'"
    "\<forall>i < Suc (Suc 0). disk_read_block (3 + of_nat i) (disk_blank 8) = Some (page_at ([256, 512] ! i) main')"
    using start_reads_blocks [of "two_blocks 0" "disk_blank 8" "[256, 512]" two_pages] two_pages_listed
    by (auto simp: two_blocks_disk page_apart_def BLOCK_WORDS_def)
  have "disk_read_block 3 (disk_blank 8) = Some (page_at 256 main')" using s(3) by force
  then show ?thesis using s(1,2)
    by (auto simp: moved_all_def two_blocks_disk disk_read_block_def file_block_def disk_blank_def)
qed

text \<open>
  C24: a write moves the pages the command list names. START with a list of pages in main memory and as many
  blocks from the disk address on, on a disk other than a dynamic VHD written in place, leaves each block
  holding the low words of its page and every other block, and memory, as they were.
\<close>

theorem start_writes_blocks:
  assumes "bd_disk b = Some d" "disk_ok d" "\<not> in_dynamic d" "bd_cmd b AND 0xf = 9"
    and list: "ps \<noteq> []" "command_list main (bd_clp b) 0 ps"
    and within: "unat (bd_da b) + length ps \<le> unat (dk_blocks d)"
  shows "\<exists>b' d'. bd_start b main = (b', main) \<and> bd_disk b' = Some d' \<and> moved_all b (length ps) b' \<and> disk_ok d' \<and>
    (\<forall>n. disk_read_block n d' = (let i = unat (n - bd_da b) in
      if i < length ps then Some (page_at (ps ! i) main) else disk_read_block n d))"
proof -
  let ?b = "(bd_clear b)\<lparr>bd_disk := None\<rparr>"
  have clp: "bd_clp ?b = bd_clp b" by (simp add: bd_clear_def)
  obtain b1 d' where b1: "same_regs ?b b1" "disk_ok d'" "start_loop False d main 0 0 (bd_da b) ?b =
      (bd_finish d' (of_nat (length ps)) (bd_da b + of_nat (length ps) - 1) b1, main)"
    "\<And>x. disk_read_block x d' = (if unat (x - bd_da b) < length ps then Some (page_at (ps ! unat (x - bd_da b)) main)
      else disk_read_block x d)"
    using loop_writes [OF assms(2,3) list(1), of main ?b 0 "bd_da b" 0] list(2) within clp by auto
  have start: "bd_start b main = (bd_finish d' (of_nat (length ps)) (bd_da b + of_nat (length ps) - 1) b1, main)"
    using assms(1,4) b1(3) by (simp add: bd_start_def bd_clear_def Let_def)
  then show ?thesis using b1(2,4) moved_all_finish [OF b1(1)] by (auto simp: Let_def)
qed

lemma start_writes_blocks_witness:
  "\<exists>b' d'. bd_start (two_blocks 9) two_pages = (b', two_pages) \<and> bd_disk b' = Some d' \<and>
     disk_read_block 4 d' = Some (page_at 512 two_pages) \<and> disk_read_block 5 d' = Some (replicate BLOCK_WORDS 0)"
proof -
  obtain b' d' where s: "bd_start (two_blocks 9) two_pages = (b', two_pages)" "bd_disk b' = Some d'"
    "\<And>n. disk_read_block n d' = (let i = unat (n - 3) in
      if i < Suc (Suc 0) then Some (page_at ([256, 512] ! i) two_pages) else disk_read_block n (disk_blank 8))"
    using start_writes_blocks [of "two_blocks 9" "disk_blank 8" "[256, 512]" two_pages] two_pages_listed
    by (auto simp: two_blocks_disk)
  show ?thesis using s(1,2) s(3) [of 4] s(3) [of 5]
    by (simp add: disk_read_block_def file_block_def disk_blank_def)
qed

section \<open>The packed transfer\<close>

text \<open>A page of 40-bit words goes through its bytes unchanged; the 4-byte transfer keeps the low words and tags them.\<close>

lemma chunks_of_words:
  assumes "\<And>w. w \<in> set ws \<Longrightarrow> length (f w) = k"
  shows "chunks_exact (length ws) k (concat (map f ws)) = map f ws"
  using assms by (induction ws) simp_all

lemma fold_rev_le: "fold (\<lambda>y x. push_bit 8 x OR ucast y) (rev bs) 0 = from_le_bytes bs"
  by (induction bs) simp_all

lemma packed_page:
  assumes "length ws = PAGE" "\<forall>w \<in> set ws. w < 2 ^ 40"
  shows "page_words False (page_bytes False ws) = ws"
proof -
  have five: "from_le_bytes (take 5 (le_bytes 8 w)) = w" if "w < 2 ^ 40" for w :: u64
    using from_le_le_bytes [of w 5] word_less_exp_bit [of w 40] that by (fastforce simp: take_le_bytes)
  have "page_words False (page_bytes False ws) = map (\<lambda>w. from_le_bytes (take 5 (le_bytes 8 w))) ws"
    using chunks_of_words [of ws "\<lambda>w. take 5 (le_bytes 8 w)" 5] assms(1)
    by (simp add: page_words_def page_bytes_def fold_rev_le)
  also have "\<dots> = ws" using assms(2) five by (intro map_idI) blast
  finally show ?thesis .
qed

section \<open>Checkpoint\<close>

definition bd_resumes_onto :: "block_disk \<Rightarrow> block_disk \<Rightarrow> bool" where
  "bd_resumes_onto b0 b \<longleftrightarrow> bd_log b0 = bd_log b \<and>
     (case (bd_disk b, bd_disk b0) of
        (Some d, Some d0) \<Rightarrow> disk_ok d \<and> d0\<lparr>dk_written := dk_written d\<rparr> = d
      | (None, None) \<Rightarrow> True
      | _ \<Rightarrow> False)"

lemma codes_bd:
  assumes "bd_resumes_onto b0 b"
  shows "codes n (bd_save b) (bd_load b0) b"
proof -
  have disk: "codes n (put_opt disk_save (bd_disk b)) (bd_load_disk (bd_disk b0)) (bd_disk b)"
  proof (cases "bd_disk b")
    case None
    then have b0: "bd_disk b0 = None" using assms by (auto simp: bd_resumes_onto_def split: option.splits)
    have "codes n (put_all [put_bool False]) (bd_load_disk None) None"
      unfolding bd_load_disk_def by (intro codes_cons [OF codes_bool]) (simp add: codes_nil)
    then show ?thesis by (simp add: None b0 put_opt_def codes_def)
  next
    case (Some d)
    then obtain d0 where d0: "bd_disk b0 = Some d0" "disk_ok d" "d0\<lparr>dk_written := dk_written d\<rparr> = d"
      using assms by (auto simp: bd_resumes_onto_def split: option.splits)
    have "codes n (put_all [put_bool True, disk_save d]) (bd_load_disk (Some d0)) (Some d)"
      unfolding bd_load_disk_def
      by (rule codes_cons [OF codes_bool], simp only: prod.case option.case bool.case,
          rule codes_cons [OF codes_disk [OF d0(2,3)]], rule codes_nil)
    then show ?thesis by (simp add: Some d0(1) put_opt_def codes_def)
  qed
  have whole: "b0\<lparr>bd_cmd := bd_cmd b, bd_clp := bd_clp b, bd_da := bd_da b,
      bd_last_memory_address := bd_last_memory_address b, bd_done_at := bd_done_at b, bd_now := bd_now b,
      bd_block_ns := bd_block_ns b, bd_past_end := bd_past_end b, bd_nxm := bd_nxm b,
      bd_bad_command := bd_bad_command b, bd_disk := bd_disk b\<rparr> = b"
    using assms by (cases b, cases b0) (simp add: bd_resumes_onto_def)
  show ?thesis
    unfolding bd_save_def bd_load_def
    by ((rule codes_step)+, rule codes_cons [OF disk]) (simp only: whole codes_nil)
qed

interpretation block_disk: codec n "bd_resumes_onto b0" bd_save "bd_load b0" for n b0
  by unfold_locales (rule codes_bd)

end
