(* ===== verification/Busint.thy ===== *)
theory Busint
  imports MemoryPort Spy
begin

text \<open>
  The bus interface's addresses, \<open>src/busint.rs\<close>: what is on the Unibus and what on the Xbus, the interface's
  own registers, the debug block, the Unibus map's range, and the three decodes of a physical address, with
  the displays' straps (\<open>tv.rs\<close>), the disk's registers (\<open>disk_controller.rs\<close>) and the I/O board's block
  (\<open>ioboard.rs\<close>) that they look at.
\<close>

section \<open>Straps and blocks\<close>

definition TV_BUFFER :: u32 where "TV_BUFFER = 0x3c0000"
definition TV_BUFFER_WORDS :: u32 where "TV_BUFFER_WORDS = 0x8000"
definition TV_CONTROL :: u32 where "TV_CONTROL = 0x3dfff0"
definition TV_CONTROL_WORDS :: u32 where "TV_CONTROL_WORDS = 8"

record strap =
  strap_buffer :: u32
  strap_control :: u32

definition NORMAL_TV :: strap where
  "NORMAL_TV = \<lparr>strap_buffer = TV_BUFFER, strap_control = TV_CONTROL\<rparr>"

definition COLOR_TV :: strap where
  "COLOR_TV = \<lparr>strap_buffer = 0x3d0000, strap_control = 0x3dffe8\<rparr>"

definition strap_buffer_offset :: "strap \<Rightarrow> u32 \<Rightarrow> u32 option" where
  "strap_buffer_offset s phys = (let off = phys - strap_buffer s in if off < TV_BUFFER_WORDS then Some off else None)"

definition strap_control_register :: "strap \<Rightarrow> u32 \<Rightarrow> u32 option" where
  "strap_control_register s phys = (let off = phys - strap_control s in if off < TV_CONTROL_WORDS then Some off else None)"

definition strap_answers :: "strap \<Rightarrow> u32 \<Rightarrow> bool" where
  "strap_answers s phys \<longleftrightarrow> strap_buffer_offset s phys \<noteq> None \<or> strap_control_register s phys \<noteq> None"

definition DISK_REGS :: u32 where "DISK_REGS = 0x3dfffc"

definition disk_register :: "u32 \<Rightarrow> u32 option" where
  "disk_register phys = (let off = phys - DISK_REGS in if off < 4 then Some off else None)"

definition CHAOS_CSR :: u32 where "CHAOS_CSR = 0x3e860"
definition CHAOS_MY_ADDRESS :: u32 where "CHAOS_MY_ADDRESS = 0x3e862"
definition CHAOS_WRITE_BUFFER :: u32 where "CHAOS_WRITE_BUFFER = 0x3e862"
definition CHAOS_READ_BUFFER :: u32 where "CHAOS_READ_BUFFER = 0x3e864"
definition CHAOS_BIT_COUNT :: u32 where "CHAOS_BIT_COUNT = 0x3e866"
definition CHAOS_START :: u32 where "CHAOS_START = 0x3e86a"
definition USEC_LOW :: u32 where "USEC_LOW = 0x3e850"
definition USEC_HIGH :: u32 where "USEC_HIGH = 0x3e852"

definition ioboard_answers :: "u32 \<Rightarrow> bool \<Rightarrow> u32 option" where
  "ioboard_answers uaddr write =
     (if uaddr AND 1 \<noteq> 0 \<or> \<not> (0x3e800 \<le> uaddr \<and> uaddr \<le> 0x3e87e) then None
      else let a3 = (uaddr AND 8 \<noteq> 0); group = drop_bit 4 uaddr AND 7
      in if group = 4 then Some uaddr
         else if group = 5 then
           let r = uaddr AND NOT 8 in if \<not> write \<or> (r \<noteq> USEC_LOW \<and> r \<noteq> USEC_HIGH) then Some r else None
         else if group = 6 then
           let f = uaddr AND 6
           in if f = 0 then Some CHAOS_CSR
              else if f = 2 \<and> write then Some CHAOS_WRITE_BUFFER
              else if f = 2 then Some (if a3 then CHAOS_START else CHAOS_MY_ADDRESS)
              else if f = 4 \<and> \<not> write \<and> \<not> a3 then Some CHAOS_READ_BUFFER
              else if f = 6 \<and> \<not> write then Some CHAOS_BIT_COUNT
              else None
         else if group = 7 then Some uaddr
         else None)"

definition chaos_register :: "u32 \<Rightarrow> bool" where
  "chaos_register uaddr \<longleftrightarrow> 0x3e860 \<le> uaddr \<and> uaddr \<le> 0x3e86e \<and> uaddr AND 1 = 0"

section \<open>The Unibus\<close>

definition unibus_address :: "u32 \<Rightarrow> u32 option" where
  "unibus_address phys =
     (let page = drop_bit 8 phys AND 0x3fff
      in if 0x3e00 \<le> page then Some (push_bit 1 (push_bit 8 (page - 0x3e00) OR (phys AND 0xff))) else None)"

definition unibus_physical :: "u32 \<Rightarrow> u32" where
  "unibus_physical uaddr =
     (let word = drop_bit 1 uaddr AND 0x1ffff in push_bit 8 (0x3e00 + drop_bit 8 word) OR (word AND 0xff))"

record map_access =
  ma_page :: u8
  ma_word :: u32
  ma_high :: bool

definition map_to_md :: "u32 \<Rightarrow> bool" where
  "map_to_md page \<longleftrightarrow> drop_bit 9 page = 0x1f"

definition map_access_of :: "u32 \<Rightarrow> map_access option" where
  "map_access_of uaddr =
     (if 0xc000 \<le> uaddr \<and> uaddr \<le> 0xffff
      then Some \<lparr>ma_page = ucast (drop_bit 10 uaddr AND 0xf), ma_word = drop_bit 2 uaddr AND 0xff,
                 ma_high = (uaddr AND 2 \<noteq> 0)\<rparr>
      else None)"

definition debug_register :: "u32 \<Rightarrow> u8 option" where
  "debug_register uaddr =
     (if 0x3ec40 \<le> uaddr \<and> uaddr \<le> 0x3ec5f then Some (ucast (drop_bit 2 uaddr AND 3)) else None)"

datatype register =
    Diagnostic u8
  | InterruptControl
  | InterruptControl2
  | ErrorStatus
  | Unused
  | Map u8

definition interface_register :: "u32 \<Rightarrow> register option" where
  "interface_register uaddr =
     (case spy_register uaddr of Some r \<Rightarrow> Some (Diagnostic r)
      | None \<Rightarrow>
        if 0x3ec20 \<le> uaddr \<and> uaddr \<le> 0x3ec3e then
          let k = drop_bit 1 uaddr AND 3
          in Some (if k = 0 then InterruptControl else if k = 1 then InterruptControl2
                   else if k = 2 then ErrorStatus else Unused)
        else if 0x3ec60 \<le> uaddr \<and> uaddr \<le> 0x3ec7e then Some (Map (ucast (drop_bit 1 (uaddr - 0x3ec60))))
        else None)"

definition DISABLE_INT_GRANT :: u16 where "DISABLE_INT_GRANT = 1"
definition LOCAL_ENABLE :: u16 where "LOCAL_ENABLE = 2"
definition ENABLE_UB_INTS :: u16 where "ENABLE_UB_INTS = 0x400"
definition VECTOR_MASK :: u16 where "VECTOR_MASK = 0x3fc"
definition XBUS_INTR :: u16 where "XBUS_INTR = 0x4000"
definition UB_INT :: u16 where "UB_INT = 0x8000"
definition CONTROL_MASK :: u16 where "CONTROL_MASK = 0x3c01"
definition CONTROL2_MASK :: u16 where "CONTROL2_MASK = 0x83fc"
definition NOT_FREE :: u16 where "NOT_FREE = 0x40"
definition WRITE_THROUGH :: u16 where "WRITE_THROUGH = 0x80"

section \<open>What answers a physical address\<close>

definition page_of :: "u32 \<Rightarrow> u32" where
  "page_of phys = drop_bit 8 phys AND 0x3fff"

definition decode_quux :: "u32 \<Rightarrow> nat \<Rightarrow> u32 \<Rightarrow> responder" where
  "decode_quux phys memory_words tv_words =
     (if page_of phys = FEATURE_PAGE then Device
      else if phys - TV_BUFFER < tv_words then Memory 0
      else if page_of phys < 0x3c00 \<and> unat phys < memory_words then Memory (ucast (drop_bit 16 phys))
      else NoXbus)"

definition decode_quux_13 :: "u32 \<Rightarrow> nat \<Rightarrow> u32 \<Rightarrow> responder" where
  "decode_quux_13 phys memory_words tv_words =
     (if phys AND NOT 0xff = REGISTER_PAGE_13 then Device
      else if phys - WINDOW_13 < tv_words \<or> (phys < WINDOW_13 \<and> unat phys < memory_words) then Memory 0
      else NoXbus)"

definition decode_for :: "u32 \<Rightarrow> nat \<Rightarrow> bool \<Rightarrow> u32 \<Rightarrow> u8 \<Rightarrow> responder" where
  "decode_for phys memory_words color_tv tv_words tv_regs =
     (if 0x3e00 \<le> page_of phys then
        (case unibus_address phys of None \<Rightarrow> NoUnibus
         | Some u \<Rightarrow>
           if interface_register u \<noteq> None then Interface
           else case debug_register u of Some k \<Rightarrow> Debug k
           | None \<Rightarrow> if ioboard_answers u False \<noteq> None \<or> ioboard_answers u True \<noteq> None then Unibus u else NoUnibus)
      else if 0x3c00 \<le> page_of phys then
        (let main_tv = (phys - TV_BUFFER < tv_words \<or>
               (case strap_control_register NORMAL_TV phys of Some r \<Rightarrow> drop_bit (unat r) tv_regs AND 1 \<noteq> 0 | None \<Rightarrow> False));
             built = (main_tv \<or> (color_tv \<and> strap_answers COLOR_TV phys) \<or> disk_register phys \<noteq> None)
         in if built then Device else NoXbus)
      else if unat phys < memory_words then Memory (ucast (drop_bit 16 phys))
      else NoXbus)"

definition decode_with :: "u32 \<Rightarrow> nat \<Rightarrow> bool \<Rightarrow> responder" where
  "decode_with phys memory_words color_tv = decode_for phys memory_words color_tv TV_BUFFER_WORDS 0xff"

definition decode_bus :: "u32 \<Rightarrow> nat \<Rightarrow> responder" where
  "decode_bus phys memory_words = decode_with phys memory_words False"

section \<open>Both ways\<close>

lemma unibus_split:
  fixes w :: u32
  assumes "w < 2 ^ 17"
  defines "p \<equiv> push_bit 8 (0x3e00 + drop_bit 8 w) OR (w AND 0xff)"
  shows "drop_bit 8 p AND 0x3fff = 0x3e00 + drop_bit 8 w" "p AND 0xff = w AND 0xff"
proof -
  define h where "h = drop_bit 8 w"
  have lt: "h < 2 ^ 9" using assms(1) unfolding h_def by (simp add: drop_bit_eq_div word_less_nat_alt unat_div)
  have small: "0x3e00 + h < 2 ^ 14" using lt by (simp add: word_less_nat_alt unat_word_ariths)
  have sb: "bit (0x3e00 + h) n \<Longrightarrow> n < 14" for n using word_less_exp_bit [OF small] .
  have m: "(0x3fff :: u32) = mask 14" "(0xff :: u32) = mask 8" by (simp_all add: mask_eq_exp_minus_1)
  show "drop_bit 8 p AND 0x3fff = 0x3e00 + drop_bit 8 w"
    unfolding p_def h_def [symmetric] m
    by (rule word_eq_by_bits) (auto simp: bit_and_iff bit_or_iff bit_drop_bit_eq bit_push_bit_iff bit_mask_iff dest: sb)
  show "p AND 0xff = w AND 0xff"
    unfolding p_def m
    by (rule word_eq_by_bits) (auto simp: bit_and_iff bit_or_iff bit_push_bit_iff bit_mask_iff)
qed

text \<open>A Unibus location's physical address names that location, bit 0 of the byte address dropped.\<close>

lemma unibus_round_trip:
  assumes "u < 2 ^ 18"
  shows "unibus_address (unibus_physical u) = Some (u AND NOT 1)"
proof -
  define w where "w = drop_bit 1 u AND 0x1ffff"
  have m: "(0x1ffff :: u32) = mask 17" by (simp add: mask_eq_exp_minus_1)
  have lt: "w < 2 ^ 17" unfolding w_def m by (rule and_mask_less_size) (simp add: word_size)
  note s = unibus_split [OF lt]
  have hi: "0x3e00 \<le> 0x3e00 + drop_bit 8 w"
  proof -
    have "drop_bit 8 w < 2 ^ 9" using lt by (simp add: drop_bit_eq_div word_less_nat_alt unat_div)
    then show ?thesis by (simp add: word_le_nat_alt word_less_nat_alt unat_word_ariths)
  qed
  have ub: "bit u n \<Longrightarrow> n < 18" for n using word_less_exp_bit [OF assms] .
  have whole: "push_bit 8 (drop_bit 8 w) OR (w AND 0xff) = w"
  proof -
    have m8: "(0xff :: u32) = mask 8" by (simp add: mask_eq_exp_minus_1)
    have "bit w n \<Longrightarrow> n < 17" for n using word_less_exp_bit [OF lt] .
    then show ?thesis unfolding m8
      by (intro word_eq_by_bits) (auto simp: bit_and_iff bit_or_iff bit_drop_bit_eq bit_push_bit_iff bit_mask_iff)
  qed
  have "push_bit 1 w = u AND NOT 1"
    unfolding w_def m
    by (rule word_eq_by_bits, unfold bit_push_bit_iff bit_and_iff bit_drop_bit_eq bit_mask_iff bit_not_iff bit_1_iff)
      (auto dest: ub)
  then show ?thesis
    unfolding unibus_address_def unibus_physical_def w_def [symmetric] Let_def s
    using hi whole by simp
qed

text \<open>On QUUX the register page, the frame buffer and main memory are apart, and nothing else answers.\<close>

lemma decode_quux_cases:
  "decode_quux phys k tv = Device \<longleftrightarrow> page_of phys = FEATURE_PAGE"
  "is_memory (decode_quux phys k tv) \<longleftrightarrow> page_of phys \<noteq> FEATURE_PAGE \<and>
     (phys - TV_BUFFER < tv \<or> (page_of phys < 0x3c00 \<and> unat phys < k))"
  by (auto simp: decode_quux_def is_memory_def)

end
