(* ===== verification/Machine.thy ===== *)
theory Machine
  imports Isa Busint Vmap MacroDispatch Timers
begin

text \<open>
  The processor's state, the struct \<open>Machine\<close> of \<open>src/machine.rs\<close>: the control store, the memories and
  registers of the datapath, the console's registers, and the operations on them. What stands behind
  the bus, main memory and the boards, is the field \<open>mc_boards\<close> of any type, and the operations of the
  machine that reach it are the record \<open>bus\<close>, the argument of everything that uses the bus. Times are
  natural numbers of nanoseconds.
\<close>

section \<open>The state\<close>

record 'd machine =
  mc_prom :: "insn list"
  mc_imem :: "insn list"
  mc_mode :: mode
  mc_clock_control :: clock_control
  mc_opc_control :: opc_control
  mc_debug_ir :: u64
  mc_prog_reset :: bool
  mc_prog_boot :: bool
  mc_amem :: "mword list"
  mc_mmem :: "mword list"
  mc_dmem :: "u32 list"
  mc_pdl :: "mword list"
  mc_spc :: "u32 list"
  mc_spcptr :: u8
  mc_pdl_pointer :: u16
  mc_pdl_index :: u16
  mc_q :: mword
  mc_opc :: u16
  mc_lc :: u32
  mc_vma :: mword
  mc_md :: mword
  mc_interrupt_control :: u32
  mc_dispatch_constant :: u16
  mc_overflow :: bool
  mc_geometry :: geometry
  mc_map :: vmap
  mc_vmaok :: bool
  mc_cycles :: u64
  mc_ns :: nat
  mc_timers :: timers
  mc_macro_dispatch :: macro_dispatch
  mc_boards :: 'd

text \<open>
  The machine's operations behind the bus: a bus cycle, the interrupt, what the boards do at the master clock's
  edge, and their reset.
\<close>

record 'd bus =
  bus_read :: "u32 \<Rightarrow> 'd machine \<Rightarrow> mword \<times> 'd machine"
  bus_write :: "u32 \<Rightarrow> mword \<Rightarrow> 'd machine \<Rightarrow> 'd machine"
  bus_interrupt :: "'d machine \<Rightarrow> bool"
  bus_advance :: "'d machine \<Rightarrow> 'd machine"
  bus_reset :: "'d machine \<Rightarrow> 'd machine"

definition machine_with_geometry :: "geometry \<Rightarrow> 'd \<Rightarrow> 'd machine" where
  "machine_with_geometry g boards =
     \<lparr>mc_prom = replicate PROM_WORDS 0, mc_imem = replicate IMEM_WORDS 0, mc_mode = mode_default,
      mc_clock_control = clock_control_default, mc_opc_control = opc_control_default, mc_debug_ir = 0,
      mc_prog_reset = False, mc_prog_boot = False, mc_amem = replicate 1024 0, mc_mmem = replicate 32 0,
      mc_dmem = replicate DMEM_WORDS 0, mc_pdl = replicate PDL_WORDS 0, mc_spc = replicate 32 0, mc_spcptr = 0,
      mc_pdl_pointer = 0, mc_pdl_index = 0, mc_q = 0, mc_opc = 0, mc_lc = 0, mc_vma = 0, mc_md = 0,
      mc_interrupt_control = 0, mc_dispatch_constant = 0, mc_overflow = False, mc_geometry = g,
      mc_map = vmap_new, mc_vmaok = True, mc_cycles = 0, mc_ns = 0, mc_timers = timers_new,
      mc_macro_dispatch = md_default, mc_boards = boards\<rparr>"

section \<open>The control store\<close>

definition load_prom :: "insn list \<Rightarrow> 'd machine \<Rightarrow> 'd machine" where
  "load_prom ws m =
     m\<lparr>mc_prom := take PROM_WORDS ws @ drop (length (take PROM_WORDS ws)) (mc_prom m)\<rparr>"

definition imem_index :: "u16 \<Rightarrow> nat" where
  "imem_index pc = unat (pc AND of_nat (IMEM_WORDS - 1))"

definition fetch :: "u16 \<Rightarrow> 'd machine \<Rightarrow> insn" where
  "fetch pc m =
     (let pc = imem_index pc
      in case prom_base (mc_geometry m) of
           Some b \<Rightarrow> if unat b \<le> pc then mc_prom m ! (pc - unat b) else mc_imem m ! pc
         | None \<Rightarrow> if mode_prom_disable (mc_mode m) \<or> PROM_WORDS \<le> pc then mc_imem m ! pc else mc_prom m ! pc)"

definition in_prom :: "u16 \<Rightarrow> 'd machine \<Rightarrow> bool" where
  "in_prom pc m =
     (case prom_base (mc_geometry m) of Some b \<Rightarrow> b \<le> pc | None \<Rightarrow> \<not> mode_prom_disable (mc_mode m))"

definition reset_pc :: "'d machine \<Rightarrow> u16" where
  "reset_pc m = (case prom_base (mc_geometry m) of Some b \<Rightarrow> b | None \<Rightarrow> 0)"

definition write_imem :: "u16 \<Rightarrow> insn \<Rightarrow> 'd machine \<Rightarrow> 'd machine" where
  "write_imem pc w m =
     (let m = m\<lparr>mc_macro_dispatch := md_disable (mc_macro_dispatch m)\<rparr>; pc = imem_index pc
      in if (case prom_base (mc_geometry m) of Some b \<Rightarrow> unat b \<le> pc | None \<Rightarrow> False) then m
         else m\<lparr>mc_imem := (mc_imem m)[pc := w]\<rparr>)"

section \<open>Registers\<close>

definition byte_mode :: "'d machine \<Rightarrow> bool" where
  "byte_mode m \<longleftrightarrow> bit (mc_interrupt_control m) 29"

definition machine_push_spc :: "u32 \<Rightarrow> 'd machine \<Rightarrow> 'd machine" where
  "machine_push_spc pc m =
     (let p = (mc_spcptr m + 1) AND 0x1f in m\<lparr>mc_spcptr := p, mc_spc := (mc_spc m)[unat p := pc]\<rparr>)"

definition machine_pop_spc :: "'d machine \<Rightarrow> u32 \<times> 'd machine" where
  "machine_pop_spc m = (mc_spc m ! unat (mc_spcptr m), m\<lparr>mc_spcptr := (mc_spcptr m - 1) AND 0x1f\<rparr>)"

definition machine_translate :: "'d machine \<Rightarrow> u32 \<Rightarrow> translation" where
  "machine_translate m = translate (mc_geometry m) (mc_map m)"

definition vm_read :: "'d bus \<Rightarrow> u32 \<Rightarrow> 'd machine \<Rightarrow> mword \<times> 'd machine" where
  "vm_read e vaddr m =
     (let t = machine_translate m vaddr; m = m\<lparr>mc_vmaok := tr_access_permitted t\<rparr>
      in if \<not> mc_vmaok m then (0, m) else bus_read e (tr_physical t) m)"

definition vm_write :: "'d bus \<Rightarrow> u32 \<Rightarrow> mword \<Rightarrow> 'd machine \<Rightarrow> 'd machine" where
  "vm_write e vaddr v m =
     (let t = machine_translate m vaddr; m = m\<lparr>mc_vmaok := (tr_access_permitted t \<and> tr_write_permitted t)\<rparr>
      in if mc_vmaok m then bus_write e (tr_physical t) v m else m)"

definition spy_write :: "u8 \<Rightarrow> u16 \<Rightarrow> 'd machine \<Rightarrow> 'd machine" where
  "spy_write eadr v m =
     (let r = write_strobe eadr
      in if r = SPY_IR_LOW \<or> r = SPY_IR_MED \<or> r = SPY_IR_HIGH
         then m\<lparr>mc_debug_ir := write_debug_ir (mc_debug_ir m) r v\<rparr>
         else if r = SPY_CLK then m\<lparr>mc_clock_control := clock_control_write v\<rparr>
         else if r = SPY_OPC_CONTROL then m\<lparr>mc_opc_control := opc_control_write v\<rparr>
         else if r = SPY_MODE then
           let mode = mode_write v;
               mode = (if speed_bits (mc_geometry m) then mode
                       else mode\<lparr>mode_speed0 := False, mode_speed1 := False\<rparr>)
           in m\<lparr>mc_mode := mode, mc_prog_reset := (mc_prog_reset m \<or> v AND MODE_RESET \<noteq> 0),
                mc_prog_boot := (mc_prog_boot m \<or> v AND MODE_BOOT \<noteq> 0)\<rparr>
         else m)"

definition reset_console_registers :: "'d machine \<Rightarrow> 'd machine" where
  "reset_console_registers m =
     m\<lparr>mc_mode := mode_default, mc_opc_control := opc_control_default,
       mc_clock_control := clock_control_default\<lparr>clkc_run := clkc_run (mc_clock_control m)\<rparr>\<rparr>"

section \<open>The invariant\<close>

text \<open>
  The arrays have their lengths and the pointers stay within them: no access of the datapath's memories is
  out of range. The control store's geometry is one of the machines'.
\<close>

definition machine_at :: "geometry \<Rightarrow> 'd machine \<Rightarrow> bool" where
  "machine_at g m \<longleftrightarrow> mc_geometry m = g \<and> g \<in> machines \<and> length (mc_prom m) = PROM_WORDS \<and>
     length (mc_imem m) = IMEM_WORDS \<and> length (mc_amem m) = 1024 \<and> length (mc_mmem m) = 32 \<and>
     length (mc_dmem m) = DMEM_WORDS \<and> length (mc_pdl m) = PDL_WORDS \<and> length (mc_spc m) = 32 \<and>
     mc_spcptr m < 32 \<and> mc_pdl_pointer m \<le> pdl_mask g \<and> mc_pdl_index m \<le> pdl_mask g \<and>
     md_safe (mc_macro_dispatch m)"

lemma machine_at_frame [simp]:
  "machine_at g (m\<lparr>mc_mode := a1\<rparr>) = machine_at g m" "machine_at g (m\<lparr>mc_clock_control := a2\<rparr>) = machine_at g m"
  "machine_at g (m\<lparr>mc_opc_control := a3\<rparr>) = machine_at g m" "machine_at g (m\<lparr>mc_debug_ir := a4\<rparr>) = machine_at g m"
  "machine_at g (m\<lparr>mc_prog_reset := a5\<rparr>) = machine_at g m" "machine_at g (m\<lparr>mc_prog_boot := a5\<rparr>) = machine_at g m"
  "machine_at g (m\<lparr>mc_q := a6\<rparr>) = machine_at g m" "machine_at g (m\<lparr>mc_opc := a7\<rparr>) = machine_at g m"
  "machine_at g (m\<lparr>mc_lc := a8\<rparr>) = machine_at g m" "machine_at g (m\<lparr>mc_vma := a6\<rparr>) = machine_at g m"
  "machine_at g (m\<lparr>mc_md := a6\<rparr>) = machine_at g m" "machine_at g (m\<lparr>mc_interrupt_control := a8\<rparr>) = machine_at g m"
  "machine_at g (m\<lparr>mc_dispatch_constant := a7\<rparr>) = machine_at g m" "machine_at g (m\<lparr>mc_overflow := a5\<rparr>) = machine_at g m"
  "machine_at g (m\<lparr>mc_map := a9\<rparr>) = machine_at g m" "machine_at g (m\<lparr>mc_vmaok := a5\<rparr>) = machine_at g m"
  "machine_at g (m\<lparr>mc_cycles := a10\<rparr>) = machine_at g m" "machine_at g (m\<lparr>mc_ns := a11\<rparr>) = machine_at g m"
  "machine_at g (m\<lparr>mc_timers := a12\<rparr>) = machine_at g m" "machine_at g (m\<lparr>mc_boards := a13\<rparr>) = machine_at g m"
  by (simp_all add: machine_at_def)

lemma machine_at_update [simp, intro]:
  "machine_at g m \<Longrightarrow> length l = 32 \<Longrightarrow> machine_at g (m\<lparr>mc_spc := l\<rparr>)"
  "machine_at g m \<Longrightarrow> length l2 = 1024 \<Longrightarrow> machine_at g (m\<lparr>mc_amem := l2\<rparr>)"
  "machine_at g m \<Longrightarrow> length l2 = 32 \<Longrightarrow> machine_at g (m\<lparr>mc_mmem := l2\<rparr>)"
  "machine_at g m \<Longrightarrow> length l = DMEM_WORDS \<Longrightarrow> machine_at g (m\<lparr>mc_dmem := l\<rparr>)"
  "machine_at g m \<Longrightarrow> length l2 = PDL_WORDS \<Longrightarrow> machine_at g (m\<lparr>mc_pdl := l2\<rparr>)"
  "machine_at g m \<Longrightarrow> length l3 = IMEM_WORDS \<Longrightarrow> machine_at g (m\<lparr>mc_imem := l3\<rparr>)"
  "machine_at g m \<Longrightarrow> p < 32 \<Longrightarrow> machine_at g (m\<lparr>mc_spcptr := p\<rparr>)"
  "machine_at g m \<Longrightarrow> i \<le> pdl_mask g \<Longrightarrow> machine_at g (m\<lparr>mc_pdl_pointer := i\<rparr>)"
  "machine_at g m \<Longrightarrow> i \<le> pdl_mask g \<Longrightarrow> machine_at g (m\<lparr>mc_pdl_index := i\<rparr>)"
  "machine_at g m \<Longrightarrow> md_safe d \<Longrightarrow> machine_at g (m\<lparr>mc_macro_dispatch := d\<rparr>)"
  by (simp_all add: machine_at_def)

lemma machine_at_geometry: "machine_at g m \<Longrightarrow> mc_geometry m = g"
  by (simp add: machine_at_def)

lemma machine_at_lengths:
  assumes "machine_at g m"
  shows "length (mc_spc m) = 32" "length (mc_amem m) = 1024" "length (mc_mmem m) = 32"
    "length (mc_dmem m) = DMEM_WORDS" "length (mc_pdl m) = PDL_WORDS" "length (mc_imem m) = IMEM_WORDS"
    "length (mc_prom m) = PROM_WORDS" "md_safe (mc_macro_dispatch m)"
  using assms by (simp_all add: machine_at_def)

text \<open>
  What a bus cycle may change: the boards, the timers, and the registers the console writes over the
  Unibus. Every memory and register of the datapath is as it was.
\<close>

definition only_io :: "'d machine \<Rightarrow> 'd machine \<Rightarrow> bool" where
  "only_io m m' \<longleftrightarrow> m' = m\<lparr>mc_mode := mc_mode m', mc_clock_control := mc_clock_control m',
     mc_opc_control := mc_opc_control m', mc_debug_ir := mc_debug_ir m', mc_prog_reset := mc_prog_reset m',
     mc_prog_boot := mc_prog_boot m', mc_timers := mc_timers m', mc_boards := mc_boards m'\<rparr>"

text \<open>What a read, the master clock's edge and the reset may change: the boards.\<close>

definition only_boards :: "'d machine \<Rightarrow> 'd machine \<Rightarrow> bool" where
  "only_boards m m' \<longleftrightarrow> m' = m\<lparr>mc_boards := mc_boards m'\<rparr>"

definition bus_frame :: "'d bus \<Rightarrow> bool" where
  "bus_frame e \<longleftrightarrow> (\<forall>m. (\<forall>phys. only_boards m (snd (bus_read e phys m))) \<and>
     (\<forall>phys w. only_io m (bus_write e phys w m)) \<and> only_boards m (bus_advance e m) \<and> only_boards m (bus_reset e m))"

lemma machine_at_io: "only_io m m' \<Longrightarrow> machine_at g m' = machine_at g m"
  unfolding only_io_def by (erule ssubst) simp

lemma only_io_refl [simp]: "only_io m m"
  by (simp add: only_io_def)

lemma only_io_trans: "only_io m m' \<Longrightarrow> only_io m' m'' \<Longrightarrow> only_io m m''"
  by (cases m, cases m', cases m'') (simp add: only_io_def)

lemma only_boards_io: "only_boards m m' \<Longrightarrow> only_io m m'"
  unfolding only_boards_def only_io_def by (cases m, cases m') simp

lemma bus_frame_boards:
  assumes "bus_frame e"
  shows "only_boards m (snd (bus_read e phys m))" "only_boards m (bus_advance e m)" "only_boards m (bus_reset e m)"
  using assms by (simp_all add: bus_frame_def)

lemma bus_frameD:
  assumes "bus_frame e"
  shows "only_io m (snd (bus_read e phys m))" "only_io m (bus_write e phys w m)" "only_io m (bus_advance e m)"
    "only_io m (bus_reset e m)"
  using assms by (simp_all add: bus_frame_def only_boards_io)

lemma machine_at_bus [simp]:
  assumes "bus_frame e"
  shows "machine_at g (snd (bus_read e phys m)) = machine_at g m"
    "machine_at g (bus_write e phys w m) = machine_at g m" "machine_at g (bus_advance e m) = machine_at g m"
    "machine_at g (bus_reset e m) = machine_at g m"
  by (rule bus_frameD [OF assms, THEN machine_at_io])+

lemma spc_mask_less: "p AND 0x1f < (32 :: u8)"
  using word_and_mask_less [of 5 p] by (simp add: mask_eq_exp_minus_1)

lemma pdl_mask_le: "w AND pdl_mask g \<le> pdl_mask g"
  by (rule word_and_le1)

lemma machine_at_steps [step_inv]:
  "machine_at g m \<Longrightarrow> machine_at g (machine_push_spc pc m)"
  "machine_at g m \<Longrightarrow> machine_at g (snd (machine_pop_spc m))"
  "machine_at g m \<Longrightarrow> machine_at g (write_imem adr w m)"
  "machine_at g m \<Longrightarrow> machine_at g (spy_write eadr v m)"
  "machine_at g m \<Longrightarrow> machine_at g (reset_console_registers m)"
  "bus_frame e \<Longrightarrow> machine_at g m \<Longrightarrow> machine_at g (snd (vm_read e vaddr m))"
  "bus_frame e \<Longrightarrow> machine_at g m \<Longrightarrow> machine_at g (vm_write e vaddr x m)"
  by (simp_all add: machine_push_spc_def machine_pop_spc_def write_imem_def spy_write_def
      reset_console_registers_def vm_read_def vm_write_def Let_def spc_mask_less step_inv
      machine_at_lengths)

end
