(* ===== verification/Micro.thy ===== *)
theory Micro
  imports Machine Ttl Muldiv Clock
begin

text \<open>
  The microprogram engine, \<open>src/micro.rs\<close>: one microinstruction of the machine a step, with the registered
  writes, the OA modification, the deferred fetch and map write, and the memory cycles it starts on the
  bus. Every operation returns what the code returns beside the engine; none of its results is an error.
\<close>

section \<open>The engine\<close>

datatype write_out = Started | Next | Due

definition PDL_AT_INDEX :: u16 where "PDL_AT_INDEX = 0xffff"
definition LOW :: mword where "LOW = 0xffffffff"
definition MEMORY_ACCESS_NS :: nat where "MEMORY_ACCESS_NS = 520"

record 'd micro =
  mi_m :: "'d machine"
  mi_p0 :: insn
  mi_p0_pc :: u16
  mi_p1 :: insn
  mi_p1_pc :: u16
  mi_npc :: u16
  mi_inhibit :: bool
  mi_popj :: bool
  mi_next_instr :: bool
  mi_next_instrd :: bool
  mi_oal :: bool
  mi_oah :: bool
  mi_oa_low :: u64
  mi_oa_high :: u64
  mi_new_md :: mword
  mi_new_md_delay :: u8
  mi_aaddr :: u16
  mi_maddr :: u8
  mi_adata :: mword
  mi_mdata :: mword
  mi_alu_out :: mword
  mi_old_q :: mword
  mi_out :: mword
  mi_iwr :: u64
  mi_executed :: "u16 option"
  mi_map_write :: "(mword \<times> mword) option"
  mi_map_write_d :: "(mword \<times> mword) option"
  mi_map_seen :: "translation option"
  mi_lvmo :: u32
  mi_wrcyc :: bool
  mi_speed :: speed
  mi_speed_a :: speed
  mi_memory_cycle_ns :: nat
  mi_sync_cycle_ns :: nat
  mi_memory_cycles :: u64
  mi_nopped :: nat
  mi_srun :: bool
  mi_sstep :: bool
  mi_ssdone :: bool
  mi_halted :: bool
  mi_memstart :: bool
  mi_memop :: bool
  mi_write_out :: "(u32 \<times> write_out) option"
  mi_pdl_write :: "(u16 \<times> mword) option"
  mi_spc_write :: "(u8 \<times> u32) option"
  mi_opc :: "u16 list"
  mi_opc_ck :: bool
  mi_trap :: bool
  mi_pushed :: bool
  mi_spc_pushed :: bool
  mi_spc_popped :: bool
  mi_macro_write :: "(u32 \<times> u32) option"
  mi_operand :: "operand option"

text \<open>What an operation does to the machine.\<close>

abbreviation on_m :: "('d machine \<Rightarrow> 'd machine) \<Rightarrow> 'd micro \<Rightarrow> 'd micro" where
  "on_m f s \<equiv> s\<lparr>mi_m := f (mi_m s)\<rparr>"

abbreviation geo :: "'d micro \<Rightarrow> geometry" where
  "geo s \<equiv> mc_geometry (mi_m s)"

definition micro_new :: "'d machine \<Rightarrow> 'd micro" where
  "micro_new m =
     \<lparr>mi_m = m, mi_p0 = Insn_new 0, mi_p0_pc = 0, mi_p1 = Insn_new 0, mi_p1_pc = 0, mi_npc = 0, mi_inhibit = False,
      mi_popj = False, mi_next_instr = False, mi_next_instrd = False, mi_oal = False, mi_oah = False,
      mi_oa_low = 0, mi_oa_high = 0, mi_new_md = 0, mi_new_md_delay = 0, mi_aaddr = 0, mi_maddr = 0,
      mi_adata = 0, mi_mdata = 0, mi_alu_out = 0, mi_old_q = 0, mi_out = 0, mi_iwr = 0, mi_executed = None,
      mi_map_write = None, mi_map_write_d = None, mi_map_seen = None,
      mi_lvmo = lvmo_at_power_on (mc_geometry m), mi_wrcyc = False, mi_speed = ExtraSlow, mi_speed_a = ExtraSlow,
      mi_memory_cycle_ns = MEMORY_ACCESS_NS,
      mi_sync_cycle_ns = (if machine_id (mc_geometry m) \<noteq> None then unat SYNC_CYCLE_TICKS * GRID_NS else 0),
      mi_memory_cycles = 0, mi_nopped = 0, mi_srun = False, mi_sstep = False, mi_ssdone = False,
      mi_halted = False, mi_memstart = False, mi_memop = False, mi_write_out = None, mi_pdl_write = None,
      mi_spc_write = None, mi_opc = replicate 8 0, mi_opc_ck = False, mi_trap = False, mi_pushed = False,
      mi_spc_pushed = False, mi_spc_popped = False, mi_macro_write = None, mi_operand = None\<rparr>"

definition cycle_ns :: "bool \<Rightarrow> 'd micro \<Rightarrow> nat" where
  "cycle_ns ilong s = (if 0 < mi_sync_cycle_ns s then mi_sync_cycle_ns s else speed_cycle_ns (mi_speed s) ilong)"

section \<open>The master clock's edge\<close>

definition mi_mclk_edge :: "'d bus \<Rightarrow> 'd micro \<Rightarrow> 'd micro" where
  "mi_mclk_edge e s =
     (let s = on_m (bus_advance e) s;
          boot = mc_prog_boot (mi_m s);
          reset = (mc_prog_reset (mi_m s) \<or> boot);
          s = on_m (\<lambda>m. m\<lparr>mc_prog_boot := False, mc_prog_reset := False\<rparr>) s;
          s = (if reset
               then (on_m (\<lambda>m. (reset_console_registers m)
                      \<lparr>mc_timers := timers_new, mc_macro_dispatch := md_reset (mc_macro_dispatch m)\<rparr>) s)
                      \<lparr>mi_write_out := None\<rparr>
               else s);
          s = (if boot
               then (on_m (\<lambda>m. m\<lparr>mc_vmaok := False,
                        mc_clock_control := (mc_clock_control m)\<lparr>clkc_run := True\<rparr>\<rparr>) s)
                      \<lparr>mi_npc := reset_pc (mi_m s), mi_inhibit := True, mi_trap := True,
                       mi_oal := False, mi_oah := False\<rparr>
               else s)
      in s\<lparr>mi_ssdone := mi_sstep s, mi_sstep := clkc_step (mc_clock_control (mi_m s)),
           mi_srun := clkc_run (mc_clock_control (mi_m s))\<rparr>)"

definition speedclk :: "'d micro \<Rightarrow> 'd micro" where
  "speedclk s =
     (if \<not> speed_bits (geo s) then s\<lparr>mi_speed := Normal, mi_speed_a := Normal\<rparr>
      else s\<lparr>mi_speed := mi_speed_a s,
             mi_speed_a := (case (mode_speed1 (mc_mode (mi_m s)), mode_speed0 (mc_mode (mi_m s))) of
               (False, False) \<Rightarrow> ExtraSlow | (False, True) \<Rightarrow> Slow
             | (True, False) \<Rightarrow> Normal | (True, True) \<Rightarrow> Fast)\<rparr>)"

section \<open>The pipeline\<close>

definition ir :: "'d micro \<Rightarrow> nat \<Rightarrow> nat \<Rightarrow> u32" where
  "ir s pos len = ucast (drop_bit pos (mi_p0 s) AND (push_bit len 1 - 1))"

definition opc_clock :: "bool \<Rightarrow> u16 \<Rightarrow> 'd micro \<Rightarrow> 'd micro" where
  "opc_clock clk5 pc s =
     (let o' = mc_opc_control (mi_m s); ck = (opcc_opcinh o' \<or> (clk5 \<and> \<not> opcc_opcclk o'));
          s = (if ck \<and> \<not> mi_opc_ck s then s\<lparr>mi_opc := pc # take 7 (mi_opc s)\<rparr> else s)
      in s\<lparr>mi_opc_ck := ck\<rparr>)"

definition advance_pipeline :: "'d micro \<Rightarrow> 'd micro" where
  "advance_pipeline s =
     (let s = s\<lparr>mi_p0 := (if clkc_idebug (mc_clock_control (mi_m s)) then Insn_new (mc_debug_ir (mi_m s)) else mi_p1 s),
                mi_p0_pc := mi_p1_pc s\<rparr>;
          s = s\<lparr>mi_p1 := fetch (mi_npc s) (mi_m s), mi_p1_pc := mi_npc s,
                mi_npc := (if mi_npc s = 0x3fff then 0 else mi_npc s + 1)\<rparr>;
          s = on_m (\<lambda>m. m\<lparr>mc_opc := mi_p0_pc s\<rparr>) s
      in opc_clock True (mi_p0_pc s) (opc_clock False (mi_p0_pc s) s))"

definition map_address :: "'d micro \<Rightarrow> u32" where
  "map_address s = ucast (if mi_memstart s then mc_vma (mi_m s) else mc_md (mi_m s))"

definition land_writes :: "'d micro \<Rightarrow> 'd micro" where
  "land_writes s =
     (let s = (case mi_pdl_write s of None \<Rightarrow> s
               | Some (adr, word) \<Rightarrow>
                   let adr = (if adr = PDL_AT_INDEX then mc_pdl_index (mi_m s) else adr)
                   in (on_m (\<lambda>m. m\<lparr>mc_pdl := (mc_pdl m)[unat adr := word]\<rparr>) s)\<lparr>mi_pdl_write := None\<rparr>)
      in case mi_spc_write s of None \<Rightarrow> s
         | Some (p, word) \<Rightarrow> (on_m (\<lambda>m. m\<lparr>mc_spc := (mc_spc m)[unat p := word]\<rparr>) s)\<lparr>mi_spc_write := None\<rparr>)"

section \<open>The SPC stack\<close>

definition set_spcptr :: "u8 \<Rightarrow> 'd micro \<Rightarrow> 'd micro" where
  "set_spcptr p s = on_m (\<lambda>m. m\<lparr>mc_spcptr := p AND 0x1f\<rparr>) s"

definition push_spc :: "u32 \<Rightarrow> 'd micro \<Rightarrow> 'd micro" where
  "push_spc word s =
     (let s = s\<lparr>mi_pushed := True\<rparr>;
          s = (if mi_spc_popped s then set_spcptr (mc_spcptr (mi_m s) + 1) s else s);
          s = s\<lparr>mi_spc_pushed := True\<rparr>;
          s = set_spcptr (mc_spcptr (mi_m s) + 1) s
      in s\<lparr>mi_spc_write := Some (mc_spcptr (mi_m s), word)\<rparr>)"

definition pop_spc :: "'d micro \<Rightarrow> u32 \<times> 'd micro" where
  "pop_spc s =
     (let p = mc_spcptr (mi_m s)
      in if mi_spc_pushed s then (mc_spc (mi_m s) ! unat ((p - 1) AND 0x1f), s\<lparr>mi_spc_popped := True\<rparr>)
         else if mi_spc_popped s then (mc_spc (mi_m s) ! unat ((p + 1) AND 0x1f), s)
         else let v = (case mi_spc_write s of
                  Some (q, word) \<Rightarrow> if q = p then word else mc_spc (mi_m s) ! unat p
                | None \<Rightarrow> mc_spc (mi_m s) ! unat p)
              in (v, (set_spcptr (p - 1) s)\<lparr>mi_spc_popped := True\<rparr>))"

section \<open>The location counter\<close>

definition rol :: "u32 \<Rightarrow> u32 \<Rightarrow> u32" where
  "rol v n = word_rotl (unat (n AND 31)) v"

definition rol40 :: "mword \<Rightarrow> u32 \<Rightarrow> mword" where
  "rol40 v n =
     (let ring = push_bit 40 1 - 1; v = v AND ring; k = unat n mod 40
      in if k = 0 then v else (push_bit k v OR drop_bit (40 - k) v) AND ring)"

definition mask40 :: "u32 \<Rightarrow> u32 \<Rightarrow> mword" where
  "mask40 right n = (if 39 < right + n then 0 else push_bit (unat right) (push_bit (unat (n + 1)) 1 - 1))"

definition lc_rotation :: "'d machine \<Rightarrow> u32 \<Rightarrow> u32 \<Rightarrow> u32" where
  "lc_rotation m lc rot =
     (if wide (mc_geometry m) then
        let add = (if byte_mode m then [16, 0, 32, 24] ! unat (lc AND 3) else if lc AND 2 \<noteq> 0 then 0 else 24)
        in (rot + add) mod 40
      else let ir4 = drop_bit 4 rot AND 1; ir3 = drop_bit 3 rot AND 1; lc1 = drop_bit 1 lc AND 1; lc0 = lc AND 1
        in if byte_mode m
           then (rot AND 7) OR push_bit 4 (((ir4 XOR lc1) XOR lc0) XOR 1) OR push_bit 3 ((ir3 XOR lc0) XOR 1)
           else (rot AND 0xf) OR push_bit 4 ((ir4 XOR lc1) XOR 1))"

definition lc_byte_mode :: "'d micro \<Rightarrow> u32" where
  "lc_byte_mode s = lc_rotation (mi_m s) (mc_lc (mi_m s)) (ir s 0 5)"

definition needfetch :: "'d micro \<Rightarrow> bool" where
  "needfetch s \<longleftrightarrow> bit (mc_lc (mi_m s)) 31"

definition pops_by_source :: "'d micro \<Rightarrow> bool" where
  "pops_by_source s \<longleftrightarrow> insn_m_src_functional (mi_p0 s) \<and> mi_maddr s AND 0xf = 0xc"

definition writes_m31_or_interrupt_control :: "'d micro \<Rightarrow> bool" where
  "writes_m31_or_interrupt_control s \<longleftrightarrow>
     (insn_op (mi_p0 s) = Op_Alu \<or> insn_op (mi_p0 s) = Op_Byte) \<and> ir s 25 1 = 0 \<and>
     (ir s 14 5 = 0x19 \<or> ir s 19 5 = 2)"

definition pop_asks_for_a_fetch :: "u32 \<Rightarrow> 'd micro \<Rightarrow> u32 \<times> 'd micro" where
  "pop_asks_for_a_fetch word s =
     (let s = (if \<not> pops_by_source s then s\<lparr>mi_next_instr := True\<rparr> else s)
      in (if needfetch s then word else word OR 2, s))"

definition main_loop_return :: "u32 \<Rightarrow> bool \<Rightarrow> 'd micro \<Rightarrow> u32 \<times> 'd micro" where
  "main_loop_return word advance s =
     (let (target, s) = pop_asks_for_a_fetch word s
      in if \<not> g_macro_dispatch (geo s) \<or> needfetch s \<or> advance \<or> mi_next_instrd s \<or> mi_pushed s \<or>
            pops_by_source s \<or> writes_m31_or_interrupt_control s
         then (target, s)
         else let inc = (if byte_mode (mi_m s) then 1 else 2);
                  counter = lc_counter (geo s);
                  stepped = ((mc_lc (mi_m s) AND counter) + inc) AND counter;
                  w = wide (geo s);
                  irot = index_rotate w;
                  rot = lc_rotation (mi_m s) stepped (of_nat irot);
                  m31 = mc_mmem (mi_m s) ! 0x19;
                  rotated = (if w then rol40 m31 rot else ucast (rol (ucast m31) rot))
              in case fused_return (mc_macro_dispatch (mi_m s)) word rotated irot of
                   Some f \<Rightarrow>
                     (ucast (fu_handler f),
                      (if fu_keep f then set_spcptr (mc_spcptr (mi_m s) + 1) s else s)\<lparr>mi_operand := fu_operand f\<rparr>)
                 | None \<Rightarrow> (target, s))"

definition jump_return :: "u32 \<Rightarrow> 'd micro \<Rightarrow> u32 \<times> 'd micro" where
  "jump_return word s = (if JUMP_RETURNS_FUSE then main_loop_return word False s else pop_asks_for_a_fetch word s)"

section \<open>The console's view\<close>

definition flag1_default :: flag1 where
  "flag1_default = \<lparr>f1_wait = False, f1_v1pe = False, f1_v0pe = False, f1_promdisable = False, f1_stathalt = False,
     f1_err = False, f1_ssdone = False, f1_srun = False, f1_higherr = False, f1_mempe = False, f1_ipe = False,
     f1_dpe = False, f1_spe = False, f1_pdlpe = False, f1_mpe = False, f1_ape = False\<rparr>"

definition flag2_default :: flag2 where
  "flag2_default = \<lparr>f2_wmapd = False, f2_destspcd = False, f2_iwrited = False, f2_imodd = False,
     f2_pdlwrited = False, f2_spushd = False, f2_ir48 = False, f2_nop = False, f2_vmaok = False, f2_jcond = False,
     f2_pcs1 = False, f2_pcs0 = False\<rparr>"

definition mi_spy_read :: "u8 \<Rightarrow> 'd micro \<Rightarrow> u16" where
  "mi_spy_read eadr s =
     (if eadr = SPY_IR_LOW \<or> eadr = SPY_IR_MED \<or> eadr = SPY_IR_HIGH then ucast (drop_bit (16 * unat eadr) (mi_p1 s))
      else if eadr = SPY_OPC then mi_opc s ! 7 AND 0x3fff
      else if eadr = SPY_PC then mi_npc s AND 0x3fff
      else if eadr = SPY_OB_LOW then ucast (mi_out s)
      else if eadr = SPY_OB_HIGH then ucast (drop_bit 16 (mi_out s))
      else if eadr = SPY_FLAG_1 then flag1_word (flag1_default
             \<lparr>f1_promdisable := mode_prom_disable (mc_mode (mi_m s)), f1_err := mi_halted s,
              f1_ssdone := mi_ssdone s, f1_srun := mi_srun s\<rparr>)
      else if eadr = SPY_FLAG_2 then flag2_word (flag2_default
             \<lparr>f2_nop := (mi_inhibit s \<or> clkc_nop11 (mc_clock_control (mi_m s))), f2_vmaok := mc_vmaok (mi_m s)\<rparr>)
      else if eadr = SPY_M_LOW then ucast (mi_mdata s)
      else if eadr = SPY_M_HIGH then ucast (drop_bit 16 (mi_mdata s))
      else if eadr = SPY_A_LOW then ucast (mi_adata s)
      else if eadr = SPY_A_HIGH then ucast (drop_bit 16 (mi_adata s))
      else if eadr = SPY_STAT_LOW \<or> eadr = SPY_STAT_HIGH then 0
      else SPY_OPEN_READ)"

section \<open>Memory cycles\<close>

definition mi_read :: "'d bus \<Rightarrow> u32 \<Rightarrow> 'd micro \<Rightarrow> mword \<times> 'd micro" where
  "mi_read e vma s =
     (let t = machine_translate (mi_m s) vma
      in case (if tr_access_permitted t \<and> \<not> wide (geo s)
               then (case unibus_address (tr_physical t) of None \<Rightarrow> None | Some u \<Rightarrow> spy_register u) else None) of
           Some eadr \<Rightarrow> let s = on_m (\<lambda>m. m\<lparr>mc_vmaok := True\<rparr>) s in (ucast (mi_spy_read eadr s), s)
         | None \<Rightarrow> let (w, m) = vm_read e vma (mi_m s) in (w, s\<lparr>mi_m := m\<rparr>))"

definition write_goes_out :: "'d bus \<Rightarrow> 'd micro \<Rightarrow> 'd micro" where
  "write_goes_out e s =
     (case mi_write_out s of None \<Rightarrow> s
      | Some (physical, _) \<Rightarrow> (on_m (\<lambda>m. bus_write e physical (mc_md m) m) s)\<lparr>mi_write_out := None\<rparr>)"

definition start_cycle :: "'d bus \<Rightarrow> bool \<Rightarrow> 'd micro \<Rightarrow> 'd micro" where
  "start_cycle e write s =
     (let lost = (mi_memstart s \<and> g_unibus (geo s));
          s = (if lost then s\<lparr>mi_write_out := None, mi_new_md_delay := 0\<rparr>
               else if mi_memstart s then write_goes_out e s else s);
          s = s\<lparr>mi_memop := True, mi_lvmo := tr_l2_data (machine_translate (mi_m s) (ucast (mc_vma (mi_m s)))),
                mi_wrcyc := write\<rparr>
      in if lost then s
         else (on_m (\<lambda>m. m\<lparr>mc_ns := mc_ns m + mi_memory_cycle_ns s\<rparr>) s)\<lparr>mi_memory_cycles := mi_memory_cycles s + 1\<rparr>)"

definition start_write :: "'d bus \<Rightarrow> 'd micro \<Rightarrow> 'd micro" where
  "start_write e s =
     (let after_a_start = mi_memstart s;
          s = start_cycle e True s;
          t = machine_translate (mi_m s) (ucast (mc_vma (mi_m s)));
          s = on_m (\<lambda>m. m\<lparr>mc_vmaok := (tr_access_permitted t \<and> tr_write_permitted t)\<rparr>) s
      in if mc_vmaok (mi_m s)
         then s\<lparr>mi_write_out := Some (tr_physical t, if after_a_start \<and> g_unibus (geo s) then Due else Started)\<rparr>
         else s)"

definition start_read :: "'d bus \<Rightarrow> 'd micro \<Rightarrow> 'd micro" where
  "start_read e s =
     (let s = start_cycle e False s
      in if tr_access_permitted (machine_translate (mi_m s) (ucast (mc_vma (mi_m s))))
         then let (w, s) = mi_read e (ucast (mc_vma (mi_m s))) s in s\<lparr>mi_new_md := w, mi_new_md_delay := 2\<rparr>
         else on_m (\<lambda>m. m\<lparr>mc_vmaok := False\<rparr>) s)"

definition step_lc :: "'d bus \<Rightarrow> 'd micro \<Rightarrow> 'd micro" where
  "step_lc e s =
     (let counter = lc_counter (geo s);
          fetch_from = drop_bit 2 (mc_lc (mi_m s) AND counter);
          inc = (if byte_mode (mi_m s) then 1 else 2);
          lc = ((mc_lc (mi_m s) AND counter) + inc) AND counter;
          s = on_m (\<lambda>m. m\<lparr>mc_lc := (mc_lc m AND NOT counter) OR lc\<rparr>) s;
          s = (if needfetch s
               then start_read e (on_m (\<lambda>m. m\<lparr>mc_lc := mc_lc m AND NOT (push_bit 31 1), mc_vma := ucast fetch_from\<rparr>) s)
               else s);
          lc0b = (byte_mode (mi_m s) \<and> mc_lc (mi_m s) AND 1 \<noteq> 0)
      in if \<not> lc0b \<and> mc_lc (mi_m s) AND 2 = 0
         then on_m (\<lambda>m. m\<lparr>mc_lc := mc_lc m OR push_bit 31 1\<rparr>) s else s)"

section \<open>The end of a microcycle\<close>

definition next_microcycle_holds_the_write :: "'d micro \<Rightarrow> bool" where
  "next_microcycle_holds_the_write s =
     (let nopped = (mi_inhibit s \<or> clkc_nop11 (mc_clock_control (mi_m s)));
          raw = (if clkc_idebug (mc_clock_control (mi_m s)) then mc_debug_ir (mi_m s) else mi_p1 s);
          raw = (if mi_oal s then raw OR mi_oa_low s else raw);
          raw = (if mi_oah s then raw OR push_bit 26 (mi_oa_high s) else raw);
          next = Insn_new raw;
          field = (\<lambda>pos len. ucast (drop_bit pos raw AND (push_bit len 1 - 1)) :: u32);
          dest = (if (insn_op next = Op_Alu \<or> insn_op next = Op_Byte) \<and> \<not> nopped \<and> field 25 1 = 0
                  then let code = field 19 5 in if code AND 0x10 \<noteq> 0 then code AND NOT 4 else code
                  else 0);
          loads_md = (mi_new_md_delay s = 1 \<or> (0x18 \<le> dest \<and> dest \<le> 0x1b));
          fetches = (needfetch s \<and> (mi_next_instr s \<or>
            (\<not> nopped \<and> insn_op next = Op_Dispatch \<and> field 24 1 \<noteq> 0 \<and> field 10 2 \<noteq> 2)));
          starts = (fetches \<or> dest = 0x11 \<or> dest = 0x12 \<or> dest = 0x19 \<or> dest = 0x1a)
      in if g_unibus (geo s) then loads_md \<or> starts else loads_md \<and> \<not> starts)"

definition fetch_and_clock :: "'d bus \<Rightarrow> 'd micro \<Rightarrow> 'd micro" where
  "fetch_and_clock e s =
     (let s = (case md_operand_armed (mc_macro_dispatch (mi_m s)) of None \<Rightarrow> s
               | Some op \<Rightarrow>
                   let adr = operand_address (mc_macro_dispatch (mi_m s)) op
                   in on_m (\<lambda>m. m\<lparr>mc_pdl_index := ucast adr AND pdl_mask (mc_geometry m)\<rparr>) s);
          s = (on_m (\<lambda>m. m\<lparr>mc_macro_dispatch := (mc_macro_dispatch m)\<lparr>md_operand_armed := mi_operand s\<rparr>\<rparr>) s)
                \<lparr>mi_operand := None\<rparr>;
          s = (case mi_write_out s of
                 Some (physical, Started) \<Rightarrow>
                   if next_microcycle_holds_the_write s then s\<lparr>mi_write_out := Some (physical, Next)\<rparr>
                   else write_goes_out e s
               | _ \<Rightarrow> s);
          s = (if mi_next_instrd s then step_lc e s else s);
          s = s\<lparr>mi_next_instrd := mi_next_instr s, mi_next_instr := False\<rparr>;
          s = s\<lparr>mi_map_write_d := mi_map_write s, mi_map_write := None\<rparr>
      in case mi_write_out s of
           Some (_, Due) \<Rightarrow> write_goes_out e s
         | Some (physical, Next) \<Rightarrow> s\<lparr>mi_write_out := Some (physical, Due)\<rparr>
         | _ \<Rightarrow> s)"

definition arm_map_write :: "'d micro \<Rightarrow> 'd micro" where
  "arm_map_write s = s\<lparr>mi_map_write := Some (mc_vma (mi_m s), mc_md (mi_m s))\<rparr>"

definition land_map_write :: "'d micro \<Rightarrow> 'd micro" where
  "land_map_write s =
     (case mi_map_write_d s of None \<Rightarrow> s
      | Some (vma, md) \<Rightarrow>
          (on_m (\<lambda>m. m\<lparr>mc_map := write_map (mc_geometry m) vma md (mc_map m)\<rparr>) s)\<lparr>mi_map_write_d := None\<rparr>)"

section \<open>Sources\<close>

definition spc_word :: "'d machine \<Rightarrow> u32" where
  "spc_word m = push_bit 24 (ucast (mc_spcptr m)) OR (mc_spc m ! unat (mc_spcptr m) AND 0x7ffff)"

definition map_seen_or_now :: "'d micro \<Rightarrow> translation" where
  "map_seen_or_now s = (case mi_map_seen s of Some t \<Rightarrow> t | None \<Rightarrow> machine_translate (mi_m s) (map_address s))"

definition map_word :: "'d micro \<Rightarrow> mword" where
  "map_word s =
     (let t = map_seen_or_now s
      in if wide (geo s) then
           (let pfr = bit (mi_lvmo s) 27; pfw = (\<not> (\<not> bit (mi_lvmo s) 26 \<and> mi_wrcyc s))
            in push_bit 32 (ucast (tr_l1_data t AND 0x7f)) OR
               ucast (push_bit 31 (of_flag (\<not> pfw)) OR push_bit 30 (of_flag (\<not> pfr)) :: u32) OR
               ucast (tr_l2_data t AND MAP_LEVEL_2_13))
         else
           (let pfr = bit (mi_lvmo s) 23; pfw = (\<not> (\<not> bit (mi_lvmo s) 22 \<and> mi_wrcyc s))
            in ucast (push_bit 31 (of_flag (\<not> pfw)) OR push_bit 30 (of_flag (\<not> pfr)) OR
                      push_bit 24 (tr_l1_data t AND l1_mask (geo s)) OR (tr_l2_data t AND 0xffffff) :: u32)))"

definition lc_word :: "'d micro \<Rightarrow> mword" where
  "lc_word s =
     (if wide (geo s) then
        (let counter = mc_lc (mi_m s) AND LC_COUNTER_13;
             counter = (if byte_mode (mi_m s) then counter else counter AND NOT 1)
         in push_bit 39 (of_flag (needfetch s)) OR push_bit 8 (ucast (mc_interrupt_control (mi_m s) AND push_bit 26 0xf)) OR
            ucast counter)
      else ucast (if byte_mode (mi_m s) then mc_lc (mi_m s) else mc_lc (mi_m s) AND NOT 1))"

definition read_functional :: "u8 \<Rightarrow> 'd micro \<Rightarrow> mword \<times> 'd micro" where
  "read_functional source s =
     (let m = mi_m s;
          pdl_at = (if source AND 0x10 \<noteq> 0 then unat (mc_pdl_pointer m) else unat (mc_pdl_index m));
          code = source AND 0xf
      in if code = 0 then (ucast (mc_dispatch_constant m), s)
         else if code = 1 then (ucast (spc_word m), s)
         else if code = 2 then (ucast (mc_pdl_pointer m AND pdl_mask (geo s)), s)
         else if code = 3 then (ucast (mc_pdl_index m AND pdl_mask (geo s)), s)
         else if code = 4 then
           (mc_pdl m ! pdl_at, on_m (\<lambda>m. m\<lparr>mc_pdl_pointer := (mc_pdl_pointer m - 1) AND pdl_mask (mc_geometry m)\<rparr>) s)
         else if code = 5 then (mc_pdl m ! pdl_at, s)
         else if code = 6 then (ucast (mi_opc s ! 7), s)
         else if code = 7 then (mc_q m, s)
         else if code = 8 then (mc_vma m, s)
         else if code = 9 then (map_word s, s)
         else if code = 10 then (mc_md m, s)
         else if code = 11 then (lc_word s, s)
         else if code = 12 then (ucast (spc_word m), (set_spcptr (mc_spcptr m - 1) s)\<lparr>mi_spc_popped := True\<rparr>)
         else if code = 14 \<and> machine_id (geo s) \<noteq> None then (ucast (the (machine_id (geo s))), s)
         else if code = 13 \<and> g_tick (geo s) then (ucast (timers_microseconds (mc_ns m)), s)
         else (word_mask (geo s), s))"

section \<open>Destinations\<close>

definition decode_dest :: "u16 \<Rightarrow> u16" where
  "decode_dest dest = (let code = drop_bit 5 dest AND 0x1f in if code AND 0x10 \<noteq> 0 then code AND NOT 4 else code)"

definition write_lc :: "u32 \<Rightarrow> 'd machine \<Rightarrow> 'd machine" where
  "write_lc data m =
     (let counter = lc_counter (mc_geometry m);
          m = m\<lparr>mc_lc := (mc_lc m AND NOT counter) OR (data AND counter)\<rparr>;
          m = (if \<not> byte_mode m then m\<lparr>mc_lc := mc_lc m AND NOT 1\<rparr> else m)
      in m\<lparr>mc_lc := mc_lc m OR push_bit 31 1\<rparr>)"

definition write_interrupt_control :: "'d bus \<Rightarrow> mword \<Rightarrow> 'd machine \<Rightarrow> 'd machine" where
  "write_interrupt_control e word m =
     (if wide (mc_geometry m) then m\<lparr>mc_interrupt_control := ucast (drop_bit 8 word) AND push_bit 26 0xf\<rparr>
      else let data = ucast word; was = bit (mc_interrupt_control m) 28;
               m = m\<lparr>mc_interrupt_control := data,
                     mc_lc := (mc_lc m AND NOT (push_bit 26 0xf)) OR (data AND push_bit 26 0xf)\<rparr>
           in if \<not> was \<and> bit data 28 \<and> g_unibus (mc_geometry m) then bus_reset e m else m)"

definition write_functional :: "'d bus \<Rightarrow> u16 \<Rightarrow> mword \<Rightarrow> 'd micro \<Rightarrow> 'd micro" where
  "write_functional e dest word s =
     (let data = ucast word :: u32; code = decode_dest dest
      in if code = 0 then s
         else if code = 1 then on_m (write_lc data) s
         else if code = 2 then on_m (write_interrupt_control e word) s
         else if 5 \<le> code \<and> code \<le> 7 \<and> g_macro_dispatch (geo s) then s\<lparr>mi_macro_write := Some (ucast code, data)\<rparr>
         else if code = 8 then s\<lparr>mi_pdl_write := Some (mc_pdl_pointer (mi_m s), word)\<rparr>
         else if code = 9 then
           let s = on_m (\<lambda>m. m\<lparr>mc_pdl_pointer := (mc_pdl_pointer m + 1) AND pdl_mask (mc_geometry m)\<rparr>) s
           in s\<lparr>mi_pdl_write := Some (mc_pdl_pointer (mi_m s), word)\<rparr>
         else if code = 10 then s\<lparr>mi_pdl_write := Some (PDL_AT_INDEX, word)\<rparr>
         else if code = 11 then on_m (\<lambda>m. m\<lparr>mc_pdl_index := ucast data AND pdl_mask (mc_geometry m)\<rparr>) s
         else if code = 12 then on_m (\<lambda>m. m\<lparr>mc_pdl_pointer := ucast data AND pdl_mask (mc_geometry m)\<rparr>) s
         else if code = 13 then push_spc data s
         else if code = 14 then s\<lparr>mi_oa_low := ucast data AND 0x3ffffff, mi_oal := True\<rparr>
         else if code = 15 then s\<lparr>mi_oa_high := ucast data AND 0x7fffff, mi_oah := True\<rparr>
         else if code = 0x10 then on_m (\<lambda>m. m\<lparr>mc_vma := word\<rparr>) s
         else if code = 0x11 then start_read e (on_m (\<lambda>m. m\<lparr>mc_vma := word\<rparr>) s)
         else if code = 0x12 then start_write e (on_m (\<lambda>m. m\<lparr>mc_vma := word\<rparr>) s)
         else if code = 0x13 then arm_map_write (on_m (\<lambda>m. m\<lparr>mc_vma := word\<rparr>) s)
         else if code = 0x18 then on_m (\<lambda>m. m\<lparr>mc_md := word\<rparr>) s
         else if code = 0x19 then start_read e (on_m (\<lambda>m. m\<lparr>mc_md := word\<rparr>) s)
         else if code = 0x1a then start_write e (on_m (\<lambda>m. m\<lparr>mc_md := word\<rparr>) s)
         else if code = 0x1b then arm_map_write (on_m (\<lambda>m. m\<lparr>mc_md := word\<rparr>) s)
         else s)"

definition write_dest :: "'d bus \<Rightarrow> u16 \<Rightarrow> 'd micro \<Rightarrow> 'd micro" where
  "write_dest e dest s =
     (if dest AND 0x800 \<noteq> 0 then
        let adr = unat (dest AND 0x3ff); out = mi_out s
        in on_m (\<lambda>m. m\<lparr>mc_amem := (mc_amem m)[adr := out],
                        mc_macro_dispatch := md_a_written adr out (mc_macro_dispatch m)\<rparr>) s
      else let s = write_functional e dest (mi_out s) s; adr = unat (dest AND 0x1f); out = mi_out s
        in on_m (\<lambda>m. m\<lparr>mc_mmem := (mc_mmem m)[adr := out], mc_amem := (mc_amem m)[adr := out],
                        mc_macro_dispatch := md_m_written adr out (md_a_written adr out (mc_macro_dispatch m))\<rparr>) s)"

section \<open>The ALU class\<close>

definition the_muldiv :: "'d micro \<Rightarrow> muldiv_op option" where
  "the_muldiv s = (if \<not> g_muldiv (geo s) then None else muldiv_decode (mi_p0 s))"

definition set_q_low :: "u32 \<Rightarrow> 'd micro \<Rightarrow> 'd micro" where
  "set_q_low low s = on_m (\<lambda>m. m\<lparr>mc_q := (mc_q m AND NOT LOW) OR ucast low\<rparr>) s"

definition q_control :: "'d micro \<Rightarrow> 'd micro" where
  "q_control s =
     (let q_low = ucast (mc_q (mi_m s)) :: u32; k = ir s 0 2
      in if k = 1 then set_q_low (push_bit 1 q_low OR of_flag (\<not> bit (mi_alu_out s) 31)) s
         else if k = 2 then set_q_low (drop_bit 1 q_low OR push_bit 31 (ucast (mi_alu_out s) AND 1)) s
         else if k = 3 then on_m (\<lambda>m. m\<lparr>mc_q := mi_alu_out s\<rparr>) s
         else s)"

definition byte_mask :: "u32 \<Rightarrow> u32 \<Rightarrow> u32" where
  "byte_mask right width_minus_1 =
     (let left = (right + width_minus_1) AND 0x1f
      in drop_bit (unat (31 - left)) (NOT 0) AND push_bit (unat right) (NOT 0))"

definition masked_rotate :: "'d micro \<Rightarrow> mword" where
  "masked_rotate s =
     (if wide (geo s) then
        let rot = ir s 0 6; msk = mask40 rot (ir s 6 4)
        in (rol40 (mi_mdata s) rot AND msk) OR (mi_adata s AND NOT msk)
      else
        let rot = (if ir s 10 2 = 3 then lc_byte_mode s else ir s 0 5);
            msk = byte_mask rot (ir s 5 5)
        in ucast (rol (ucast (mi_mdata s)) rot AND msk) OR (mi_adata s AND NOT (ucast msk)))"

definition mi_alu :: "'d bus \<Rightarrow> 'd micro \<Rightarrow> 'd micro" where
  "mi_alu e s =
     (let dest = ucast (ir s 14 12) :: u16;
          ctl = alu_control (mi_p0 s) (mc_q (mi_m s) AND 1 \<noteq> 0) (bit (mi_adata s) 31) True False;
          r = alu (ucast (mi_mdata s)) (ucast (mi_adata s)) (ctl_aluf ctl) (ctl_alumode ctl) (ctl_cin ctl);
          mtag = mi_mdata s AND NOT LOW;
          tag = (if wide (geo s) then alu_tag (mi_mdata s) (mi_adata s) (ctl_aluf ctl) (ctl_alumode ctl) else 0);
          s = s\<lparr>mi_alu_out := (alu_f r AND LOW) OR tag, mi_old_q := mc_q (mi_m s)\<rparr>;
          s = (if wide (geo s)
               then on_m (\<lambda>m. m\<lparr>mc_overflow := (ir s 3 6 AND 0x30 = 0x10 \<and> bit (alu_f r) 32 \<noteq> bit (alu_f r) 31)\<rparr>) s
               else s)
      in case the_muldiv s of
           Some op' \<Rightarrow>
             let (out, q) = muldiv_run op' (ucast (mi_mdata s)) (ucast (mi_adata s)) (ucast (mc_q (mi_m s)))
             in write_dest e dest ((set_q_low q s)\<lparr>mi_out := mtag OR ucast out\<rparr>)
         | None \<Rightarrow>
             let s = q_control s; k = ir s 12 2;
                 out = (if k = 0 then masked_rotate s
                        else if k = 1 then mi_alu_out s
                        else if k = 2 then mtag OR (drop_bit 1 (alu_f r) AND LOW)
                        else mtag OR ucast (push_bit 1 (ucast (mi_alu_out s)) OR drop_bit 31 (ucast (mi_old_q s)) :: u32))
             in write_dest e dest (s\<lparr>mi_out := out\<rparr>))"

section \<open>Jumps\<close>

definition interrupt_pending :: "'d bus \<Rightarrow> 'd micro \<Rightarrow> bool" where
  "interrupt_pending e s \<longleftrightarrow> bit (mc_interrupt_control (mi_m s)) 27 \<and> bus_interrupt e (mi_m s)"

definition jump_alu :: "'d micro \<Rightarrow> alu_result" where
  "jump_alu s =
     (let ctl = alu_control (mi_p0 s) (mc_q (mi_m s) AND 1 \<noteq> 0) (bit (mi_adata s) 31) False True
      in alu (ucast (mi_mdata s)) (ucast (mi_adata s)) (ctl_aluf ctl) (ctl_alumode ctl) (ctl_cin ctl))"

definition jump_condition_13 :: "'d bus \<Rightarrow> 'd micro \<Rightarrow> bool \<times> 'd micro" where
  "jump_condition_13 e s =
     (let rot = push_bit 5 (ir s 47 1) OR ir s 0 5;
          rot = (if ir s 10 2 = 3 then lc_rotation (mi_m s) (mc_lc (mi_m s)) rot else rot);
          r = rol40 (mi_mdata s) rot
      in if ir s 5 1 = 0 then (r AND 1 \<noteq> 0, s\<lparr>mi_mdata := r\<rparr>)
         else let a = jump_alu s; alu32 = bit (alu_f a) 32;
                  c = ir s 0 5; code = (if c = 8 \<or> c = 9 then c else c AND 7);
                  fault = (\<not> mc_vmaok (mi_m s));
                  cond = (if code = 0 then r AND 1 \<noteq> 0
                    else if code = 1 then \<not> alu_aeqm a \<and> alu32
                    else if code = 2 then alu32
                    else if code = 3 then alu_aeqm a \<and> drop_bit 32 (mi_mdata s) = drop_bit 32 (mi_adata s)
                    else if code = 4 then fault
                    else if code = 5 then fault \<or> interrupt_pending e s
                    else if code = 6 then fault \<or> interrupt_pending e s \<or> bit (mc_interrupt_control (mi_m s)) 26
                    else if code = 8 then mc_overflow (mi_m s)
                    else if code = 9 then (ucast (mi_mdata s) :: u32) < ucast (mi_adata s)
                    else True)
              in (cond, s))"

definition jump_condition :: "'d bus \<Rightarrow> 'd micro \<Rightarrow> bool \<times> 'd micro" where
  "jump_condition e s =
     (if wide (geo s) then jump_condition_13 e s
      else let rot = (if ir s 10 2 = 3 then lc_byte_mode s else ir s 0 5);
               r = rol (ucast (mi_mdata s)) rot
      in if ir s 5 1 = 0 then (r AND 1 \<noteq> 0, s\<lparr>mi_mdata := (mi_mdata s AND NOT LOW) OR ucast r\<rparr>)
         else let a = jump_alu s; alu32 = bit (alu_f a) 32; k = ir s 0 3; fault = (\<not> mc_vmaok (mi_m s));
                  cond = (if k = 0 then r AND 1 \<noteq> 0
                    else if k = 1 then \<not> alu_aeqm a \<and> alu32
                    else if k = 2 then alu32
                    else if k = 3 then alu_aeqm a
                    else if k = 4 then fault
                    else if k = 5 then fault \<or> interrupt_pending e s
                    else if k = 6 then fault \<or> interrupt_pending e s \<or> bit (mc_interrupt_control (mi_m s)) 26
                    else True)
              in (cond, s))"

definition return_address :: "bool \<Rightarrow> 'd micro \<Rightarrow> u16" where
  "return_address n s = (if n then mi_npc s - 1 else mi_npc s) AND 0x3fff"

text \<open>A word popped for the next address, \<open>SPC<14>\<close> up taken by \<open>ret\<close>.\<close>

definition pop_target :: "(u32 \<Rightarrow> 'd micro \<Rightarrow> u32 \<times> 'd micro) \<Rightarrow> 'd micro \<Rightarrow> u16 \<times> 'd micro" where
  "pop_target ret s =
     (let (t, s) = pop_spc s; (t, s) = (if bit t 14 then ret t s else (t, s)) in (ucast (t AND 0x3fff), s))"

definition jump :: "'d bus \<Rightarrow> 'd micro \<Rightarrow> 'd micro" where
  "jump e s =
     (let target = ucast (ir s 12 14) :: u16;
          r = (ir s 9 1 \<noteq> 0); p = (ir s 8 1 \<noteq> 0); n = (ir s 7 1 \<noteq> 0); invert = (ir s 6 1 \<noteq> 0)
      in if p \<and> r then
           let s = on_m (write_imem target (Insn_new (mi_iwr s))) s;
               (cond, s) = (if \<not> invert then jump_condition e s else (False, s));
               s = (if cond
                    then snd (pop_spc ((push_spc (ucast (return_address n s)) s)\<lparr>mi_spc_pushed := False, mi_spc_popped := False\<rparr>))
                    else s)
           in s\<lparr>mi_nopped := 2\<rparr>
         else
           let (c, s) = jump_condition e s; cond = (c \<noteq> invert);
               s = (if p \<and> cond then push_spc (ucast (return_address n s)) s else s);
               (target, s) = (if r \<and> cond then pop_target jump_return s else (target, s))
           in if cond
              then s\<lparr>mi_inhibit := (n \<or> mi_inhibit s), mi_npc := target, mi_popj := (\<not> r \<and> mi_popj s)\<rparr>
              else s)"

section \<open>Dispatches\<close>

definition ignpopj :: "u32 \<Rightarrow> 'd micro \<Rightarrow> 'd micro" where
  "ignpopj entry s =
     (if \<not> bit entry 16 \<and> mi_spc_popped s
      then (set_spcptr (mc_spcptr (mi_m s) + 1) s)\<lparr>mi_spc_popped := False\<rparr> else s)"

definition dispatch_index :: "'d micro \<Rightarrow> nat" where
  "dispatch_index s =
     (let w = wide (geo s);
          pos = (if w then push_bit 5 (ir s 47 1) OR ir s 0 5 else ir s 0 5);
          len = ir s 5 3; map = ir s 8 2;
          addr = (if w then ir s 12 12 else ir s 12 11);
          pos = (if ir s 10 2 = 3 then (if w then lc_rotation (mi_m s) (mc_lc (mi_m s)) pos else lc_byte_mode s) else pos);
          m = (if w then ucast (rol40 (mi_mdata s) pos) else rol (ucast (mi_mdata s)) pos);
          msk = (if len = 0 then 0 else drop_bit (unat (31 - ((len - 1) AND 0x1f))) (NOT 0 :: u32));
          addr = (if map \<noteq> 0 then
             let bits = tr_l2_data (map_seen_or_now s); at = (if w then 22 else 18);
                 b18 = of_flag (bit bits at); b19 = of_flag (bit bits (at + 1))
             in addr OR ((m AND msk AND NOT 1) OR (if map = 1 then b18 else if map = 2 then b19 else b18 OR b19))
             else addr OR (m AND msk))
      in unat (addr AND (of_nat (dmem_words (geo s)) - 1)))"

definition dispatch_write :: "nat \<Rightarrow> 'd micro \<Rightarrow> 'd micro" where
  "dispatch_write i s =
     (let entry = mc_dmem (mi_m s) ! i; new = ucast (mi_adata s) AND 0x1ffff;
          s = on_m (\<lambda>m. m\<lparr>mc_dmem := (mc_dmem m)[i := new]\<rparr>) s;
          entry = (if old_word_while_written (geo s) then entry else new);
          s = ignpopj entry s
      in if mi_popj s \<and> \<not> bit entry 16 then s\<lparr>mi_npc := ucast (entry AND 0x3fff), mi_popj := False\<rparr> else s)"

definition dispatch_return :: "bool \<Rightarrow> bool \<Rightarrow> 'd micro \<Rightarrow> u16" where
  "dispatch_return n use_lpc s =
     (if n then (let pc = mi_npc s - 1 in if use_lpc then pc - 1 else pc) else mi_npc s) AND 0x3fff"

definition dispatch_go :: "'d bus \<Rightarrow> u32 \<Rightarrow> 'd micro \<Rightarrow> 'd micro" where
  "dispatch_go e entry s =
     (let advance = (ir s 24 1 \<noteq> 0); use_lpc = (ir s 25 1 \<noteq> 0);
          s = on_m (\<lambda>m. m\<lparr>mc_dispatch_constant := ucast (ir s 32 10)\<rparr>) s;
          n = bit entry 14; p = bit entry 15; r = bit entry 16;
          s = ignpopj entry s;
          ret = dispatch_return n use_lpc s;
          s = (if advance then step_lc e s else s);
          s = (if n then s\<lparr>mi_inhibit := True\<rparr> else s)
      in if p \<and> r then s
         else
           let s = (if p then push_spc (ucast ret) s else s);
               (target, s) = (if r then pop_target (\<lambda>t. main_loop_return t advance) s
                              else (ucast (entry AND 0x3fff), s))
           in s\<lparr>mi_npc := target, mi_popj := False\<rparr>)"

definition dispatch :: "'d bus \<Rightarrow> 'd micro \<Rightarrow> 'd micro" where
  "dispatch e s =
     (let i = dispatch_index s
      in if ir s 10 2 = 2 then dispatch_write i s else dispatch_go e (mc_dmem (mi_m s) ! i) s)"

section \<open>The BYTE class\<close>

definition byte_13 :: "'d bus \<Rightarrow> 'd micro \<Rightarrow> 'd micro" where
  "byte_13 e s =
     (let dest = ucast (ir s 14 12) :: u16; func = ir s 12 2; rot = ir s 0 6;
          pos = (if func = 1 \<and> ir s 24 1 \<noteq> 0 then lc_rotation (mi_m s) (mc_lc (mi_m s)) rot else rot);
          right = (if func AND 2 \<noteq> 0 then rot else 0);
          msk = mask40 right (ir s 6 6);
          m = (if func AND 1 \<noteq> 0 then rol40 (mi_mdata s) pos else mi_mdata s)
      in write_dest e dest (s\<lparr>mi_out := (m AND msk) OR (mi_adata s AND NOT msk)\<rparr>))"

definition mi_byte :: "'d bus \<Rightarrow> 'd micro \<Rightarrow> 'd micro" where
  "mi_byte e s =
     (if wide (geo s) then byte_13 e s
      else
        let dest = ucast (ir s 14 12) :: u16; func = ir s 12 2;
            pos = (if ir s 10 2 = 3 then lc_byte_mode s else ir s 0 5);
            right = (if func AND 2 \<noteq> 0 then pos else 0);
            msk = byte_mask right (ir s 5 5);
            m = (if func AND 1 \<noteq> 0 then rol (ucast (mi_mdata s)) pos else ucast (mi_mdata s))
        in write_dest e dest (s\<lparr>mi_out := ucast (m AND msk) OR (mi_adata s AND NOT (ucast msk))\<rparr>))"

section \<open>Boot and step\<close>

definition mi_boot :: "'d micro \<Rightarrow> 'd micro" where
  "mi_boot s =
     (let s = on_m (\<lambda>m. (reset_console_registers (m\<lparr>mc_vmaok := False\<rparr>))
                \<lparr>mc_timers := timers_new, mc_macro_dispatch := md_reset (mc_macro_dispatch m)\<rparr>) s;
          s = on_m (\<lambda>m. m\<lparr>mc_clock_control := (mc_clock_control m)\<lparr>clkc_run := True\<rparr>\<rparr>) s
      in s\<lparr>mi_srun := True, mi_npc := reset_pc (mi_m s), mi_inhibit := True, mi_trap := True,
           mi_oal := False, mi_oah := False, mi_write_out := None\<rparr>)"

definition charge :: "bool \<Rightarrow> 'd micro \<Rightarrow> 'd micro" where
  "charge ilong s = on_m (\<lambda>m. m\<lparr>mc_ns := mc_ns m + cycle_ns ilong s\<rparr>) s"

definition step_halted :: "'d bus \<Rightarrow> 'd micro \<Rightarrow> 'd micro" where
  "step_halted e s =
     (let s = mi_mclk_edge e (charge False (speedclk (write_goes_out e s))) in opc_clock True (mi_p1_pc s) s)"

text \<open>The microcycles a control-store write costs, and the cycles the divider holds the microcycle off.\<close>

fun nop_cycles :: "'d bus \<Rightarrow> nat \<Rightarrow> 'd micro \<Rightarrow> 'd micro" where
  "nop_cycles e 0 s = s"
| "nop_cycles e (Suc n) s =
     nop_cycles e n (mi_mclk_edge e ((charge False (speedclk s))\<lparr>mi_nopped := mi_nopped s - 1\<rparr>))"

fun div_cycles :: "'d bus \<Rightarrow> bool \<Rightarrow> nat \<Rightarrow> 'd micro \<Rightarrow> 'd micro" where
  "div_cycles e ilong 0 s = s"
| "div_cycles e ilong (Suc n) s = div_cycles e ilong n (mi_mclk_edge e (charge ilong (speedclk s)))"

text \<open>Up to the instruction: the clock, the pipeline, the map write and the word of a read.\<close>

definition begin_microcycle :: "'d bus \<Rightarrow> 'd micro \<Rightarrow> 'd micro" where
  "begin_microcycle e s =
     (let s = nop_cycles e (mi_nopped s) s;
          s = speedclk s;
          nopa = ((mi_inhibit s \<and> \<not> mi_trap s) \<or> clkc_nop11 (mc_clock_control (mi_m s)));
          ilong = (\<not> nopa \<and> bit (mi_p1 s) 45);
          s = s\<lparr>mi_trap := False\<rparr>;
          stepping = (mi_sstep s \<and> \<not> mi_ssdone s);
          s = (if g_muldiv (geo s) \<and> \<not> nopa \<and> \<not> stepping \<and> muldiv_decode (mi_p1 s) = Some Div
               then div_cycles e ilong DIV_CYCLES (write_goes_out e s) else s);
          s = advance_pipeline (mi_mclk_edge e (charge ilong s));
          s = s\<lparr>mi_memstart := mi_memop s, mi_memop := False\<rparr>;
          s = s\<lparr>mi_map_seen := (if old_word_while_written (geo s) \<and> mi_map_write_d s \<noteq> None
                                then Some (machine_translate (mi_m s) (map_address s)) else None)\<rparr>;
          s = land_map_write s
      in if 0 < mi_new_md_delay s
         then let s = s\<lparr>mi_new_md_delay := mi_new_md_delay s - 1\<rparr>
              in if mi_new_md_delay s = 0 then on_m (\<lambda>m. m\<lparr>mc_md := mi_new_md s\<rparr>) s else s
         else s)"

definition end_microcycle :: "'d bus \<Rightarrow> 'd micro \<Rightarrow> 'd micro" where
  "end_microcycle e s = on_m (\<lambda>m. m\<lparr>mc_cycles := mc_cycles m + 1\<rparr>) (fetch_and_clock e s)"

text \<open>The instruction with the OA registers ORed in, and its operands.\<close>

definition modify :: "'d micro \<Rightarrow> 'd micro" where
  "modify s =
     (let s = s\<lparr>mi_executed := Some (mi_p0_pc s)\<rparr>;
          s = (if mi_oal s then s\<lparr>mi_oal := False, mi_p0 := Insn_new (mi_p0 s OR mi_oa_low s)\<rparr> else s)
      in if mi_oah s then s\<lparr>mi_oah := False, mi_p0 := Insn_new (mi_p0 s OR push_bit 26 (mi_oa_high s))\<rparr> else s)"

definition operands :: "'d micro \<Rightarrow> 'd micro" where
  "operands s =
     (let s = s\<lparr>mi_popj := insn_popj (mi_p0 s), mi_pushed := False, mi_spc_pushed := False, mi_spc_popped := False,
                mi_macro_write := None, mi_aaddr := ucast (ir s 32 10), mi_maddr := ucast (ir s 26 5)\<rparr>;
          (mdata, s) = (if insn_m_src_functional (mi_p0 s) then read_functional (mi_maddr s) s
                        else (mc_mmem (mi_m s) ! unat (mi_maddr s), s));
          s = s\<lparr>mi_mdata := mdata, mi_adata := mc_amem (mi_m s) ! unat (mi_aaddr s)\<rparr>;
          s = land_writes s
      in s\<lparr>mi_iwr := push_bit 32 (mi_adata s AND 0xffff) OR (mi_mdata s AND LOW)\<rparr>)"

definition run_class :: "'d bus \<Rightarrow> 'd micro \<Rightarrow> 'd micro" where
  "run_class e s =
     (case insn_op (mi_p0 s) of Op_Alu \<Rightarrow> mi_alu e s | Op_Jump \<Rightarrow> jump e s | Op_Dispatch \<Rightarrow> dispatch e s
      | Op_Byte \<Rightarrow> mi_byte e s)"

definition popj_after_next :: "'d micro \<Rightarrow> 'd micro" where
  "popj_after_next s =
     (if mi_popj s then let (target, s) = pop_target (\<lambda>t. main_loop_return t False) s in s\<lparr>mi_npc := target\<rparr> else s)"

definition macro_write_lands :: "'d micro \<Rightarrow> 'd micro" where
  "macro_write_lands s =
     (case mi_macro_write s of None \<Rightarrow> s
      | Some (code, data) \<Rightarrow>
          (on_m (\<lambda>m. m\<lparr>mc_macro_dispatch := the (md_write code data (mc_macro_dispatch m))\<rparr>) s)
            \<lparr>mi_macro_write := None\<rparr>)"

definition execute :: "'d bus \<Rightarrow> 'd micro \<Rightarrow> 'd micro" where
  "execute e s =
     (let s = run_class e (operands (modify s));
          s = s\<lparr>mi_halted := (ir s 10 2 = 1 \<and> \<not> (wide (geo s) \<and> insn_op (mi_p0 s) = Op_Byte))\<rparr>
      in macro_write_lands (popj_after_next s))"

definition step :: "'d bus \<Rightarrow> 'd micro \<Rightarrow> 'd micro" where
  "step e s =
     (let s = s\<lparr>mi_executed := None\<rparr>;
          errhalt = (mode_errstop (mc_mode (mi_m s)) \<and> mi_halted s);
          machrun = ((mi_sstep s \<and> \<not> mi_ssdone s) \<or> (mi_srun s \<and> \<not> errhalt))
      in if \<not> machrun then step_halted e s
         else
           let s = begin_microcycle e s
           in if mi_inhibit s \<or> clkc_nop11 (mc_clock_control (mi_m s))
              then end_microcycle e (land_writes (s\<lparr>mi_inhibit := False, mi_oal := False, mi_oah := False, mi_halted := False\<rparr>))
              else end_microcycle e (execute e s))"

end
