(* ===== verification/MicroInv.thy ===== *)
theory MicroInv
  imports Micro
begin

text \<open>
  The invariant of the microprogram engine of \<open>src/micro.rs\<close>: the machine's arrays keep their lengths and every
  pointer into them stays inside, the program counter stays in the control store, and what an operation
  leaves for a later microcycle to land is in range when it lands. Every operation keeps it, for any boards
  that keep to the bus.
\<close>

section \<open>The invariant\<close>

definition lands_in_pdl :: "geometry \<Rightarrow> (u16 \<times> mword) option \<Rightarrow> bool" where
  "lands_in_pdl g w = (case w of None \<Rightarrow> True | Some (adr, _) \<Rightarrow> adr = PDL_AT_INDEX \<or> adr \<le> pdl_mask g)"

definition lands_in_spc :: "(u8 \<times> u32) option \<Rightarrow> bool" where
  "lands_in_spc w = (case w of None \<Rightarrow> True | Some (p, _) \<Rightarrow> p < 32)"

definition operand_in_range :: "operand option \<Rightarrow> bool" where
  "operand_in_range w = (case w of None \<Rightarrow> True | Some op \<Rightarrow> op_delta op AND 0x3f = op_delta op)"

definition macro_destination :: "(u32 \<times> u32) option \<Rightarrow> bool" where
  "macro_destination w = (case w of None \<Rightarrow> True | Some (code, _) \<Rightarrow> code = 5 \<or> code = 6 \<or> code = 7)"

definition micro_at :: "geometry \<Rightarrow> 'd micro \<Rightarrow> bool" where
  "micro_at g s \<longleftrightarrow> machine_at g (mi_m s) \<and> mi_npc s \<le> 0x3fff \<and> length (mi_opc s) = 8 \<and>
     lands_in_pdl g (mi_pdl_write s) \<and> lands_in_spc (mi_spc_write s) \<and> operand_in_range (mi_operand s) \<and>
     macro_destination (mi_macro_write s)"

lemma lands_simps [simp]:
  "lands_in_pdl g None" "lands_in_spc None" "operand_in_range None" "macro_destination None"
  "lands_in_pdl g (Some (adr, w)) \<longleftrightarrow> adr = PDL_AT_INDEX \<or> adr \<le> pdl_mask g"
  "lands_in_spc (Some (p, v)) \<longleftrightarrow> p < 32" "macro_destination (Some (code, d)) \<longleftrightarrow> code = 5 \<or> code = 6 \<or> code = 7"
  "operand_in_range (Some op) \<longleftrightarrow> op_delta op AND 0x3f = op_delta op"
  by (simp_all add: lands_in_pdl_def lands_in_spc_def operand_in_range_def macro_destination_def)

lemma micro_at_frame [simp]:
  "micro_at g (s\<lparr>mi_p0 := x3\<rparr>) = micro_at g s"
  "micro_at g (s\<lparr>mi_p0_pc := x8\<rparr>) = micro_at g s"
  "micro_at g (s\<lparr>mi_p1 := x3\<rparr>) = micro_at g s"
  "micro_at g (s\<lparr>mi_p1_pc := x8\<rparr>) = micro_at g s"
  "micro_at g (s\<lparr>mi_inhibit := x2\<rparr>) = micro_at g s"
  "micro_at g (s\<lparr>mi_popj := x2\<rparr>) = micro_at g s"
  "micro_at g (s\<lparr>mi_next_instr := x2\<rparr>) = micro_at g s"
  "micro_at g (s\<lparr>mi_next_instrd := x2\<rparr>) = micro_at g s"
  "micro_at g (s\<lparr>mi_oal := x2\<rparr>) = micro_at g s"
  "micro_at g (s\<lparr>mi_oah := x2\<rparr>) = micro_at g s"
  "micro_at g (s\<lparr>mi_oa_low := x11\<rparr>) = micro_at g s"
  "micro_at g (s\<lparr>mi_oa_high := x11\<rparr>) = micro_at g s"
  "micro_at g (s\<lparr>mi_new_md := x4\<rparr>) = micro_at g s"
  "micro_at g (s\<lparr>mi_new_md_delay := x12\<rparr>) = micro_at g s"
  "micro_at g (s\<lparr>mi_aaddr := x8\<rparr>) = micro_at g s"
  "micro_at g (s\<lparr>mi_maddr := x12\<rparr>) = micro_at g s"
  "micro_at g (s\<lparr>mi_adata := x4\<rparr>) = micro_at g s"
  "micro_at g (s\<lparr>mi_mdata := x4\<rparr>) = micro_at g s"
  "micro_at g (s\<lparr>mi_alu_out := x4\<rparr>) = micro_at g s"
  "micro_at g (s\<lparr>mi_old_q := x4\<rparr>) = micro_at g s"
  "micro_at g (s\<lparr>mi_out := x4\<rparr>) = micro_at g s"
  "micro_at g (s\<lparr>mi_iwr := x11\<rparr>) = micro_at g s"
  "micro_at g (s\<lparr>mi_executed := x9\<rparr>) = micro_at g s"
  "micro_at g (s\<lparr>mi_map_write := x0\<rparr>) = micro_at g s"
  "micro_at g (s\<lparr>mi_map_write_d := x0\<rparr>) = micro_at g s"
  "micro_at g (s\<lparr>mi_map_seen := x7\<rparr>) = micro_at g s"
  "micro_at g (s\<lparr>mi_lvmo := x10\<rparr>) = micro_at g s"
  "micro_at g (s\<lparr>mi_wrcyc := x2\<rparr>) = micro_at g s"
  "micro_at g (s\<lparr>mi_speed := x6\<rparr>) = micro_at g s"
  "micro_at g (s\<lparr>mi_speed_a := x6\<rparr>) = micro_at g s"
  "micro_at g (s\<lparr>mi_memory_cycle_ns := x5\<rparr>) = micro_at g s"
  "micro_at g (s\<lparr>mi_sync_cycle_ns := x5\<rparr>) = micro_at g s"
  "micro_at g (s\<lparr>mi_memory_cycles := x11\<rparr>) = micro_at g s"
  "micro_at g (s\<lparr>mi_nopped := x5\<rparr>) = micro_at g s"
  "micro_at g (s\<lparr>mi_srun := x2\<rparr>) = micro_at g s"
  "micro_at g (s\<lparr>mi_sstep := x2\<rparr>) = micro_at g s"
  "micro_at g (s\<lparr>mi_ssdone := x2\<rparr>) = micro_at g s"
  "micro_at g (s\<lparr>mi_halted := x2\<rparr>) = micro_at g s"
  "micro_at g (s\<lparr>mi_memstart := x2\<rparr>) = micro_at g s"
  "micro_at g (s\<lparr>mi_memop := x2\<rparr>) = micro_at g s"
  "micro_at g (s\<lparr>mi_write_out := x1\<rparr>) = micro_at g s"
  "micro_at g (s\<lparr>mi_opc_ck := x2\<rparr>) = micro_at g s"
  "micro_at g (s\<lparr>mi_trap := x2\<rparr>) = micro_at g s"
  "micro_at g (s\<lparr>mi_pushed := x2\<rparr>) = micro_at g s"
  "micro_at g (s\<lparr>mi_spc_pushed := x2\<rparr>) = micro_at g s"
  "micro_at g (s\<lparr>mi_spc_popped := x2\<rparr>) = micro_at g s"
  by (simp_all add: micro_at_def)

lemma micro_at_update [simp, intro]:
  "micro_at g s \<Longrightarrow> machine_at g m \<Longrightarrow> micro_at g (s\<lparr>mi_m := m\<rparr>)"
  "micro_at g s \<Longrightarrow> p \<le> 0x3fff \<Longrightarrow> micro_at g (s\<lparr>mi_npc := p\<rparr>)"
  "micro_at g s \<Longrightarrow> length l = 8 \<Longrightarrow> micro_at g (s\<lparr>mi_opc := l\<rparr>)"
  "micro_at g s \<Longrightarrow> lands_in_pdl g w1 \<Longrightarrow> micro_at g (s\<lparr>mi_pdl_write := w1\<rparr>)"
  "micro_at g s \<Longrightarrow> lands_in_spc w2 \<Longrightarrow> micro_at g (s\<lparr>mi_spc_write := w2\<rparr>)"
  "micro_at g s \<Longrightarrow> operand_in_range w3 \<Longrightarrow> micro_at g (s\<lparr>mi_operand := w3\<rparr>)"
  "micro_at g s \<Longrightarrow> macro_destination w4 \<Longrightarrow> micro_at g (s\<lparr>mi_macro_write := w4\<rparr>)"
  by (simp_all add: micro_at_def)

lemma micro_atD:
  assumes "micro_at g s"
  shows "machine_at g (mi_m s)" "mi_npc s \<le> 0x3fff" "length (mi_opc s) = 8" "lands_in_pdl g (mi_pdl_write s)"
    "lands_in_spc (mi_spc_write s)" "operand_in_range (mi_operand s)" "macro_destination (mi_macro_write s)"
    "geo s = g" "md_safe (mc_macro_dispatch (mi_m s))"
  using assms by (simp_all add: micro_at_def machine_at_def)

section \<open>Through the operations\<close>

named_theorems flow \<open>the invariant through the control flow of an operation\<close>

lemma low14 [simp]: "x AND 0x3fff \<le> (0x3fff :: u16)" "ucast (y AND 0x3fff :: u32) \<le> (0x3fff :: u16)"
proof -
  show "x AND 0x3fff \<le> 0x3fff" by (rule word_and_le1)
  have "ucast (y AND 0x3fff) = (ucast y :: u16) AND 0x3fff"
    by (rule bit_word_eqI) (auto simp: bit_simps)
  then show "ucast (y AND 0x3fff :: u32) \<le> (0x3fff :: u16)" by (simp add: word_and_le1)
qed

lemma reset_pc_low: "machine_at g m \<Longrightarrow> reset_pc m \<le> 0x3fff"
  by (auto simp: machine_at_def machines_def reset_pc_def geometries QUUX_PROM_BASE_def)

lemma pdl_pointers_low [simp]:
  "micro_at g s \<Longrightarrow> mc_pdl_pointer (mi_m s) \<le> pdl_mask g" "micro_at g s \<Longrightarrow> mc_pdl_index (mi_m s) \<le> pdl_mask g"
  "w AND pdl_mask g \<le> pdl_mask g"
  unfolding micro_at_def machine_at_def by (blast, blast, rule pdl_mask_le)

lemma spcptr_low [simp]: "micro_at g s \<Longrightarrow> mc_spcptr (mi_m s) < 32"
  unfolding micro_at_def machine_at_def by blast

text \<open>
  How a predicate on the engine goes through the bindings and branches of an operation: each rule leaves the
  operations bound as goals and goes on from any engine they may give.
\<close>

lemma flow_let:
  fixes P :: "'d micro \<Rightarrow> bool"
  shows "P x \<Longrightarrow> (\<And>s. P s \<Longrightarrow> P (f s)) \<Longrightarrow> P (Let x f)"
  "P (snd p) \<Longrightarrow> (\<And>a s. P s \<Longrightarrow> P (h a s)) \<Longrightarrow>
    P (let (a :: bool, s) = p in h a s)"
  "P (snd q) \<Longrightarrow> (\<And>a s. P s \<Longrightarrow> P (k a s)) \<Longrightarrow>
    P (let (a :: mword, s) = q in k a s)"
  "P (snd r) \<Longrightarrow> fst r \<le> 0x3fff \<Longrightarrow> (\<And>a s. P s \<Longrightarrow> a \<le> 0x3fff \<Longrightarrow> P (t a s)) \<Longrightarrow>
    P (let (a :: u16, s) = r in t a s)"
  by (auto simp: Let_def split: prod.splits)

lemma flow_value:
  fixes P :: "'d micro \<Rightarrow> bool"
  shows "(\<And>y. y = x1 \<Longrightarrow> P (f1 (y :: bool))) \<Longrightarrow> P (Let x1 f1)"
  "(\<And>y. y = x2 \<Longrightarrow> P (f2 (y :: 'a::len word))) \<Longrightarrow> P (Let x2 f2)"
  "(\<And>y. y = x3 \<Longrightarrow> P (f3 (y :: nat))) \<Longrightarrow> P (Let x3 f3)"
  "(\<And>y. y = x4 \<Longrightarrow> P (f4 (y :: translation))) \<Longrightarrow> P (Let x4 f4)"
  "(\<And>y. y = x5 \<Longrightarrow> P (f5 (y :: alu_result))) \<Longrightarrow> P (Let x5 f5)"
  "(\<And>y. y = x6 \<Longrightarrow> P (f6 (y :: alu_ctl))) \<Longrightarrow> P (Let x6 f6)"
  "(\<And>y. y = x7 \<Longrightarrow> P (f7 (y :: opc_control))) \<Longrightarrow> P (Let x7 f7)"
  "(\<And>a b. P (f8 a b)) \<Longrightarrow> P (let (a, b) = (x8 :: 'a::len word \<times> 'b::len word) in f8 a b)"
  by (auto simp: Let_def split: prod.splits)

lemma flow_if:
  fixes P :: "'d micro \<Rightarrow> bool"
  shows "(b \<Longrightarrow> P s) \<Longrightarrow> (\<not> b \<Longrightarrow> P t) \<Longrightarrow> P (if b then s else t)"
  by simp

lemma flow_option:
  fixes P :: "'d micro \<Rightarrow> bool"
  shows "(w = None \<Longrightarrow> P s) \<Longrightarrow> (\<And>a. w = Some a \<Longrightarrow> P (h a)) \<Longrightarrow>
    P (case w of None \<Rightarrow> s | Some a \<Rightarrow> h a)"
  by (cases w) simp_all

lemma flow_pair:
  fixes P :: "'d micro \<Rightarrow> bool"
  shows "(\<And>a b. p = (a, b) \<Longrightarrow> P (h a b)) \<Longrightarrow> P (case (p :: 'a::len word \<times> 'b::len word) of (a, b) \<Rightarrow> h a b)"
  "(\<And>a b. q = (a, b) \<Longrightarrow> P (k a b)) \<Longrightarrow> P (case (q :: u32 \<times> write_out) of (a, b) \<Rightarrow> k a b)"
  by (cases p, simp) (cases q, simp)

lemma flow_snd:
  fixes P :: "'d micro \<Rightarrow> bool"
  shows "(\<And>y. y = x1 \<Longrightarrow> P (snd (f1 (y :: bool)))) \<Longrightarrow> P (snd (Let x1 f1))"
  "(\<And>y. y = x2 \<Longrightarrow> P (snd (f2 (y :: 'a::len word)))) \<Longrightarrow> P (snd (Let x2 f2))"
  "(\<And>y. y = x3 \<Longrightarrow> P (snd (f3 (y :: nat)))) \<Longrightarrow> P (snd (Let x3 f3))"
  "(\<And>y. y = x5 \<Longrightarrow> P (snd (f5 (y :: alu_result)))) \<Longrightarrow> P (snd (Let x5 f5))"
  "P s \<Longrightarrow> (\<And>s. P s \<Longrightarrow> P (snd (f s))) \<Longrightarrow> P (snd (Let s f))"
  "P (snd p) \<Longrightarrow> (\<And>a s. P s \<Longrightarrow> P (snd (h a s))) \<Longrightarrow>
    P (snd (let (a, s) = p in h a s))"
  unfolding Let_def case_prod_beta by blast+

lemma flow_snd_branch:
  fixes P :: "'d micro \<Rightarrow> bool"
  shows "(b \<Longrightarrow> P (snd u)) \<Longrightarrow> (\<not> b \<Longrightarrow> P (snd v)) \<Longrightarrow> P (snd (if b then u else v))"
  "(w = None \<Longrightarrow> P (snd u)) \<Longrightarrow> (\<And>a. w = Some a \<Longrightarrow> P (snd (k a))) \<Longrightarrow>
    P (snd (case w of None \<Rightarrow> u | Some a \<Rightarrow> k a))"
  "P s \<Longrightarrow> P (snd (z, s))"
  by (simp_all split: option.split)

lemmas flow_rules = flow_let flow_value flow_if flow_option flow_pair flow_snd flow_snd_branch

lemmas micro_at_flow [flow] = flow_rules [where P = "micro_at g" for g]

lemma machine_at_of [simp]: "micro_at g s \<Longrightarrow> machine_at g (mi_m s)"
  by (rule micro_atD)

lemma npc_low [simp]: "micro_at g s \<Longrightarrow> mi_npc s \<le> 0x3fff"
  by (rule micro_atD)

lemma pdl_in_range [simp]:
  "machine_at g m \<Longrightarrow> w AND pdl_mask (mc_geometry m) \<le> pdl_mask g"
  "micro_at g s \<Longrightarrow> w AND pdl_mask (mc_geometry (mi_m s)) \<le> pdl_mask g"
  using pdl_mask_le by (simp_all add: machine_at_geometry micro_atD)

lemmas micro_lengths [simp] = machine_at_of [THEN machine_at_lengths(1)] machine_at_of [THEN machine_at_lengths(2)]
  machine_at_of [THEN machine_at_lengths(3)] machine_at_of [THEN machine_at_lengths(4)]
  machine_at_of [THEN machine_at_lengths(5)] machine_at_of [THEN machine_at_lengths(6)]
  machine_at_of [THEN machine_at_lengths(8)] machine_at_of [THEN reset_pc_low] micro_atD(3)

lemmas micro_facts = micro_atD machine_at_lengths spc_mask_less

lemma micro_at_edge [step_inv]:
  "bus_frame e \<Longrightarrow> micro_at g s \<Longrightarrow> micro_at g (mi_mclk_edge e s)"
  unfolding mi_mclk_edge_def
  by (intro flow micro_at_update) (simp_all add: micro_facts step_inv)

lemma micro_at_speedclk [step_inv]: "micro_at g s \<Longrightarrow> micro_at g (speedclk s)"
  by (simp add: speedclk_def)

lemma micro_at_opc_clock [step_inv]: "micro_at g s \<Longrightarrow> micro_at g (opc_clock b pc s)"
  unfolding opc_clock_def by (intro flow) (simp_all add: micro_facts)

lemma npc_next: "p \<le> (0x3fff :: u16) \<Longrightarrow> p \<noteq> 0x3fff \<Longrightarrow> p + 1 \<le> 0x3fff"
  by (simp add: inc_le order.not_eq_order_implies_strict)

lemma micro_at_advance [step_inv]: "micro_at g s \<Longrightarrow> micro_at g (advance_pipeline s)"
  unfolding advance_pipeline_def by (intro flow step_inv) (simp_all add: npc_next)

lemma micro_at_land_writes [step_inv]: "micro_at g s \<Longrightarrow> micro_at g (land_writes s)"
  unfolding land_writes_def
  by (intro flow micro_at_update) (simp_all add: micro_facts)


lemma micro_at_set_spcptr [step_inv]: "micro_at g s \<Longrightarrow> micro_at g (set_spcptr p s)"
  by (simp add: set_spcptr_def spc_mask_less)

lemma micro_at_push_spc [step_inv]: "micro_at g s \<Longrightarrow> micro_at g (push_spc w s)"
  unfolding push_spc_def by (intro flow micro_at_update step_inv) simp_all

lemma micro_at_pop_spc [step_inv]: "micro_at g s \<Longrightarrow> micro_at g (snd (pop_spc s))"
  unfolding pop_spc_def by (intro flow micro_at_update step_inv) (simp_all add: step_inv)

lemma micro_at_pop_asks [step_inv]: "micro_at g s \<Longrightarrow> micro_at g (snd (pop_asks_for_a_fetch w s))"
  by (simp add: pop_asks_for_a_fetch_def Let_def)

lemma fused_operand: "fused_return d a r k = Some f \<Longrightarrow> operand_in_range (fu_operand f)"
  by (cases "fu_operand f") (auto simp: fused_return_def Let_def split: if_splits dest: operand_fits)

lemma micro_at_main_loop_return [step_inv]:
  "micro_at g s \<Longrightarrow> micro_at g (snd (main_loop_return w b s))"
  unfolding main_loop_return_def by (intro flow micro_at_update step_inv) (simp_all add: fused_operand)

lemma micro_at_read [step_inv]:
  "bus_frame e \<Longrightarrow> micro_at g s \<Longrightarrow> micro_at g (snd (mi_read e vma s))"
  by (simp add: mi_read_def Let_def case_prod_beta step_inv split: option.split)

lemma micro_at_write_goes_out [step_inv]: "bus_frame e \<Longrightarrow> micro_at g s \<Longrightarrow> micro_at g (write_goes_out e s)"
  unfolding write_goes_out_def by (intro flow micro_at_update) simp_all

lemma micro_at_start_cycle [step_inv]: "bus_frame e \<Longrightarrow> micro_at g s \<Longrightarrow> micro_at g (start_cycle e w s)"
  unfolding start_cycle_def by (intro flow micro_at_update step_inv) (simp_all add: step_inv)

lemma micro_at_start_write [step_inv]: "bus_frame e \<Longrightarrow> micro_at g s \<Longrightarrow> micro_at g (start_write e s)"
  unfolding start_write_def by (intro flow micro_at_update step_inv) (simp_all add: step_inv)

lemma micro_at_start_read [step_inv]: "bus_frame e \<Longrightarrow> micro_at g s \<Longrightarrow> micro_at g (start_read e s)"
  unfolding start_read_def by (intro flow micro_at_update step_inv) (simp_all add: step_inv)

lemma micro_at_step_lc [step_inv]: "bus_frame e \<Longrightarrow> micro_at g s \<Longrightarrow> micro_at g (step_lc e s)"
  unfolding step_lc_def by (intro flow micro_at_update step_inv) (simp_all add: step_inv)

lemma micro_at_land_map_write [step_inv]: "micro_at g s \<Longrightarrow> micro_at g (land_map_write s)"
  unfolding land_map_write_def by (intro flow) (simp_all split: prod.splits)

lemma md_safe_armed: "md_safe d \<Longrightarrow> operand_in_range w \<Longrightarrow> md_safe (d\<lparr>md_operand_armed := w\<rparr>)"
  by (cases w) (simp_all add: md_safe_def)

lemma micro_at_fetch_and_clock [step_inv]: "bus_frame e \<Longrightarrow> micro_at g s \<Longrightarrow> micro_at g (fetch_and_clock e s)"
  unfolding fetch_and_clock_def
  by (intro flow micro_at_update step_inv) (simp_all add: step_inv md_safe_armed micro_atD split: write_out.split)

lemma micro_at_read_functional [step_inv]: "micro_at g s \<Longrightarrow> micro_at g (snd (read_functional c s))"
  unfolding read_functional_def Let_def
  by (intro flow) (simp_all add: step_inv)

lemma machine_at_write_lc [step_inv]: "machine_at g m \<Longrightarrow> machine_at g (write_lc d m)"
  by (simp add: write_lc_def Let_def)

lemma machine_at_write_ic [step_inv]: "bus_frame e \<Longrightarrow> machine_at g m \<Longrightarrow> machine_at g (write_interrupt_control e w m)"
  by (simp add: write_interrupt_control_def Let_def)

lemma from_5_to_7:
  assumes "5 \<le> c" "c \<le> (7 :: u16)"
  shows "ucast c = (5 :: u32) \<or> ucast c = (6 :: u32) \<or> ucast c = (7 :: u32)"
proof -
  have "unat c = 5 \<or> unat c = 6 \<or> unat c = 7" using assms by (auto simp: word_le_nat_alt)
  then have "c = 5 \<or> c = 6 \<or> c = 7" by (auto simp: word_unat_eq_iff)
  then show ?thesis by auto
qed

lemma micro_at_write_functional [step_inv]:
  "bus_frame e \<Longrightarrow> micro_at g s \<Longrightarrow> micro_at g (write_functional e dest w s)"
  unfolding write_functional_def arm_map_write_def 
  by (intro flow micro_at_update step_inv) (simp_all add: step_inv micro_atD from_5_to_7)

lemma micro_at_write_dest [step_inv]: "bus_frame e \<Longrightarrow> micro_at g s \<Longrightarrow> micro_at g (write_dest e d s)"
  unfolding write_dest_def
  by (intro flow micro_at_update step_inv) (simp_all add: step_inv micro_atD)

lemma micro_at_q [step_inv]: "micro_at g s \<Longrightarrow> micro_at g (set_q_low q s)" "micro_at g s \<Longrightarrow> micro_at g (q_control s)"
  by (simp_all add: set_q_low_def q_control_def Let_def)

lemma micro_at_alu [step_inv]: "bus_frame e \<Longrightarrow> micro_at g s \<Longrightarrow> micro_at g (mi_alu e s)"
  unfolding mi_alu_def
  by (intro flow micro_at_update step_inv) (simp_all add: step_inv micro_atD)


lemma snd_jump_condition [simp]:
  "micro_at g s \<Longrightarrow> micro_at g (snd (jump_condition_13 e s))" "micro_at g s \<Longrightarrow> micro_at g (snd (jump_condition e s))"
  by (simp_all add: jump_condition_def jump_condition_13_def Let_def)

lemma micro_at_jump_return [step_inv]: "micro_at g s \<Longrightarrow> micro_at g (snd (jump_return w s))"
  by (simp add: jump_return_def step_inv)

lemma micro_at_pop_target [step_inv]:
  "(\<And>t s. micro_at g s \<Longrightarrow> micro_at g (snd (ret t s))) \<Longrightarrow> micro_at g s \<Longrightarrow> micro_at g (snd (pop_target ret s))"
  unfolding pop_target_def by (intro flow step_inv) simp_all

lemma pop_target_low: "fst (pop_target ret s) \<le> 0x3fff"
  by (simp add: pop_target_def Let_def case_prod_beta)

lemma if_low: "fst u \<le> k \<Longrightarrow> fst v \<le> k \<Longrightarrow> fst (if b then u else v) \<le> (k :: u16)"
  by simp

lemma address_low [simp]: "ucast (ir s n 14) \<le> (0x3fff :: u16)"
proof -
  have "ir s n 14 = ir s n 14 AND 0x3fff"
    by (rule bit_word_eqI) (auto simp: ir_def bit_simps mask_eq_exp_minus_1 simp flip: mask_eq_exp_minus_1)
  then show ?thesis by (metis low14(2))
qed

lemma micro_at_jump [step_inv]: "bus_frame e \<Longrightarrow> micro_at g s \<Longrightarrow> micro_at g (jump e s)"
  unfolding jump_def
  by (intro flow micro_at_update step_inv if_low) (simp_all add: step_inv micro_atD pop_target_low)

lemma micro_at_ignpopj [step_inv]: "micro_at g s \<Longrightarrow> micro_at g (ignpopj w s)"
  by (simp add: ignpopj_def step_inv)

lemma micro_at_dispatch_write [step_inv]: "micro_at g s \<Longrightarrow> micro_at g (dispatch_write i s)"
  unfolding dispatch_write_def
  by (intro flow micro_at_update step_inv) (simp_all add: step_inv micro_atD)

lemma micro_at_dispatch_go [step_inv]: "bus_frame e \<Longrightarrow> micro_at g s \<Longrightarrow> micro_at g (dispatch_go e w s)"
  unfolding dispatch_go_def
  by (intro flow micro_at_update step_inv if_low) (simp_all add: step_inv micro_atD pop_target_low)

lemma micro_at_dispatch [step_inv]: "bus_frame e \<Longrightarrow> micro_at g s \<Longrightarrow> micro_at g (dispatch e s)"
  unfolding dispatch_def by (intro flow step_inv)

lemma micro_at_byte [step_inv]: "bus_frame e \<Longrightarrow> micro_at g s \<Longrightarrow> micro_at g (mi_byte e s)"
  unfolding mi_byte_def byte_13_def by (intro flow micro_at_update step_inv) simp_all

lemma micro_at_boot [step_inv]: "micro_at g s \<Longrightarrow> micro_at g (mi_boot s)"
  unfolding mi_boot_def by (intro flow micro_at_update step_inv) (simp_all add: step_inv micro_atD)

lemma micro_at_charge [step_inv]: "micro_at g s \<Longrightarrow> micro_at g (charge b s)"
  by (simp add: charge_def)

lemma micro_at_cycles [step_inv]:
  "bus_frame e \<Longrightarrow> micro_at g s \<Longrightarrow> micro_at g (nop_cycles e n s)"
  "bus_frame e \<Longrightarrow> micro_at g s \<Longrightarrow> micro_at g (div_cycles e b n s)"
  by (induction n arbitrary: s) (simp_all add: step_inv)

lemma micro_at_halted [step_inv]: "bus_frame e \<Longrightarrow> micro_at g s \<Longrightarrow> micro_at g (step_halted e s)"
  unfolding step_halted_def by (intro flow step_inv)

lemma micro_at_begin [step_inv]: "bus_frame e \<Longrightarrow> micro_at g s \<Longrightarrow> micro_at g (begin_microcycle e s)"
  unfolding begin_microcycle_def by (intro flow step_inv) (simp_all add: step_inv)

lemma micro_at_end [step_inv]: "bus_frame e \<Longrightarrow> micro_at g s \<Longrightarrow> micro_at g (end_microcycle e s)"
  by (simp add: end_microcycle_def step_inv)

lemma micro_at_operands [step_inv]: "micro_at g s \<Longrightarrow> micro_at g (operands s)"
  unfolding operands_def by (intro flow step_inv) (simp_all add: step_inv)

lemma micro_at_modify [step_inv]: "micro_at g s \<Longrightarrow> micro_at g (modify s)"
  unfolding modify_def by (intro flow step_inv) (simp_all add: step_inv)

lemma micro_at_run_class [step_inv]: "bus_frame e \<Longrightarrow> micro_at g s \<Longrightarrow> micro_at g (run_class e s)"
  by (simp add: run_class_def step_inv split: op.split)

lemma micro_at_popj [step_inv]: "micro_at g s \<Longrightarrow> micro_at g (popj_after_next s)"
  unfolding popj_after_next_def by (intro flow micro_at_update step_inv) (simp_all add: step_inv pop_target_low)

lemma macro_write_safe:
  assumes "md_safe m" "macro_destination (Some (code, d))"
  shows "md_safe (the (md_write code d m))"
proof -
  obtain m' where "md_write code d m = Some m'" using assms(2) by (auto simp: md_write_def)
  then show ?thesis using md_safe_write [OF assms(1)] by simp
qed

lemma macro_destinationD: "micro_at g s \<Longrightarrow> mi_macro_write s = Some w \<Longrightarrow> macro_destination (Some w)"
  unfolding micro_at_def by metis

lemma micro_at_macro_write_lands [step_inv]: "micro_at g s \<Longrightarrow> micro_at g (macro_write_lands s)"
  unfolding macro_write_lands_def
  by (intro flow micro_at_update machine_at_update macro_write_safe)
    (simp_all add: micro_atD macro_destinationD del: lands_simps(7))

lemma micro_at_execute [step_inv]: "bus_frame e \<Longrightarrow> micro_at g s \<Longrightarrow> micro_at g (execute e s)"
  unfolding execute_def by (intro flow step_inv) (simp_all add: step_inv)

lemma micro_at_step [step_inv]: "bus_frame e \<Longrightarrow> micro_at g s \<Longrightarrow> micro_at g (step e s)"
  unfolding step_def by (intro flow step_inv) (simp_all add: step_inv)

lemma micro_at_new: "machine_at g m \<Longrightarrow> micro_at g (micro_new m)"
  by (simp add: micro_at_def micro_new_def)

section \<open>Every reachable state\<close>

lemma machine_at_power_on: "g \<in> machines \<Longrightarrow> machine_at g (machine_with_geometry g d)"
  by (simp add: machine_at_def machine_with_geometry_def step_inv)

text \<open>
  A machine powered on, booted any number of times, stepped, and its console's registers written between the
  steps.
\<close>

inductive micro_reach :: "'d bus \<Rightarrow> geometry \<Rightarrow> 'd micro \<Rightarrow> bool" for e g where
  power_on: "machine_at g m \<Longrightarrow> micro_reach e g (micro_new m)"
| booted: "micro_reach e g s \<Longrightarrow> micro_reach e g (mi_boot s)"
| stepped: "micro_reach e g s \<Longrightarrow> micro_reach e g (step e s)"
| console: "micro_reach e g s \<Longrightarrow> micro_reach e g (on_m (spy_write eadr v) s)"

lemma micro_reach_at: "micro_reach e g s \<Longrightarrow> bus_frame e \<Longrightarrow> micro_at g s"
  by (induction rule: micro_reach.induct) (simp_all add: step_inv micro_at_new micro_at_update)

lemma pdl_mask_words: "g \<in> machines \<Longrightarrow> p \<le> pdl_mask g \<Longrightarrow> unat p < PDL_WORDS"
  by (auto simp: machines_def pdl_mask_def geometries PDL_WORDS_def word_le_nat_alt)

lemma imem_index_less: "imem_index pc < IMEM_WORDS"
proof -
  have "(of_nat (IMEM_WORDS - 1) :: u16) = mask 14" by (simp add: IMEM_WORDS_def mask_eq_exp_minus_1)
  then show ?thesis
    using unat_and_mask_less [of 14 pc] by (simp add: imem_index_def IMEM_WORDS_def)
qed

lemma dispatch_index_less: "micro_at g s \<Longrightarrow> dispatch_index s < DMEM_WORDS"
proof -
  have "unat (w AND (of_nat (dmem_words h) - 1) :: u32) < DMEM_WORDS" for w h
  proof -
    have "unat (w AND (of_nat (dmem_words h) - 1)) \<le> unat (of_nat (dmem_words h) - 1 :: u32)"
      by (rule word_le_nat_alt [THEN iffD1]) (rule word_and_le1)
    then show ?thesis by (simp add: dmem_words_def DMEM_WORDS_def split: if_splits)
  qed
  then show ?thesis by (simp add: dispatch_index_def Let_def)
qed

lemma pop_spc_reads_the_stack:
  assumes "length (mc_spc (mi_m s)) = 32" "mc_spcptr (mi_m s) < 32"
  shows "fst (pop_spc s) \<in> set (mc_spc (mi_m s)) \<union> snd ` set_option (mi_spc_write s)"
proof -
  have "q AND 0x1f < 32" for q :: u8 by (rule le_less_trans [OF word_and_le1]) simp
  then have "mc_spc (mi_m s) ! unat ((q :: u8) AND 0x1f) \<in> set (mc_spc (mi_m s))"
    "mc_spc (mi_m s) ! unat (mc_spcptr (mi_m s)) \<in> set (mc_spc (mi_m s))" for q
    using assms by (auto intro!: nth_mem simp: word_less_nat_alt)
  then show ?thesis by (auto simp: pop_spc_def Let_def image_iff split: option.splits)
qed


definition no_boards :: "unit bus" where
  "no_boards = \<lparr>bus_read = \<lambda>phys m. (0, m), bus_write = \<lambda>phys w m. m, bus_interrupt = \<lambda>m. False,
     bus_advance = \<lambda>m. m, bus_reset = \<lambda>m. m\<rparr>"

lemma no_boards_frame: "bus_frame no_boards"
  by (simp add: bus_frame_def no_boards_def only_boards_def)


end
