(* ===== verification/MicroSpec.thy ===== *)
theory MicroSpec
  imports MicroInv
begin

text \<open>
  What single instructions of the engine do, against their meaning in the instruction set: the BYTE class
  bit by bit, and what a conditional jump decides.
\<close>

section \<open>Fields and rotations\<close>

lemma ir_mask: "ir s n k = ucast (drop_bit n (mi_p0 s) AND mask k)"
  by (simp add: ir_def mask_eq_exp_minus_1)

lemma ir_less: "ir s n k < 2 ^ k" if "k < 32" for k
proof -
  have "ir s n k = ucast (drop_bit n (mi_p0 s)) AND mask k"
    using that by (intro bit_word_eqI) (auto simp: ir_def bit_simps simp flip: mask_eq_exp_minus_1)
  then show ?thesis using word_and_mask_less [of k "ucast (drop_bit n (mi_p0 s)) :: u32"] that by simp
qed

lemma unat_ir: "k < 32 \<Longrightarrow> unat (ir s n k) < 2 ^ k"
  using ir_less [of k s n] word_less_exp_iff_unat [of k "ir s n k"] by simp

lemma bit_byte_mask:
  assumes "unat r < 32"
  shows "bit (byte_mask r w) j \<longleftrightarrow> unat r \<le> j \<and> j \<le> (unat r + unat w) mod 32"
proof -
  have left: "unat ((r + w) AND 0x1f) = (unat r + unat w) mod 32"
    using unat_and_mask_mod [of "r + w" 5]
    by (simp add: mask_eq_exp_minus_1 unat_word_ariths mod_mod_cancel)
  define l where "l = (r + w) AND 0x1f"
  have l: "unat l = (unat r + unat w) mod 32" "unat l < 32" by (simp_all add: l_def left)
  have "unat (31 - l) = 31 - unat l"
    using l by (simp add: unat_sub word_le_nat_alt)
  then show ?thesis
    using assms l by (auto simp: byte_mask_def Let_def l_def [symmetric] bit_simps)
qed

lemma bit_rol:
  assumes "unat n < 32"
  shows "bit (rol v n) j \<longleftrightarrow> j < 32 \<and> bit v ((j + 32 - unat n) mod 32)"
proof -
  have "unat (n AND 31) = unat n"
    using unat_and_mask_mod [of n 5] assms by (simp add: mask_eq_exp_minus_1)
  then show ?thesis using assms by (simp add: rol_def bit_word_rotl_iff)
qed

lemma ring40: "push_bit 40 1 - 1 = (mask 40 :: mword)"
  by (simp add: mask_eq_exp_minus_1)

lemma bit_rol40: "bit (rol40 v n) j \<longleftrightarrow> j < 40 \<and> bit v ((j + (40 - unat n mod 40)) mod 40)"
proof -
  define k where "k = unat n mod 40"
  have k: "k < 40" by (simp add: k_def)
  show ?thesis
  proof (cases "k = 0")
    case True
    then have e: "rol40 v n = v AND mask 40" unfolding rol40_def Let_def ring40 k_def by (simp only: simp_thms if_True)
    show ?thesis unfolding k_def [symmetric] True e bit_and_iff bit_mask_iff by (auto simp: possible_bit_def)
  next
    case False
    then have e: "rol40 v n = (push_bit k (v AND mask 40) OR drop_bit (40 - k) (v AND mask 40)) AND mask 40"
      unfolding rol40_def Let_def ring40 k_def by (simp only: if_False)
    have m: "(j + (40 - k)) mod 40 = (if j < k then 40 - k + j else j - k)" if "j < 40"
      using that k False by (auto simp: mod_if)
    have "bit (rol40 v n) j \<longleftrightarrow> j < 40 \<and> (k \<le> j \<and> bit v (j - k) \<or> 40 - k + j < 40 \<and> bit v (40 - k + j))"
      unfolding e bit_and_iff bit_or_iff bit_push_bit_iff bit_drop_bit_eq bit_mask_iff comp_apply possible_bit_word
      using k by (cases "j < 40"; cases "j < k") auto
    then show ?thesis
      using k m unfolding k_def [symmetric] by (cases "j < 40"; cases "j < k") auto
  qed
qed

lemma bit_mask40:
  assumes "unat r + unat n < 2 ^ 32" "unat n < 64"
  shows "bit (mask40 r n) j \<longleftrightarrow> unat r + unat n \<le> 39 \<and> unat r \<le> j \<and> j \<le> unat r + unat n"
proof -
  have sum: "39 < r + n \<longleftrightarrow> 39 < unat r + unat n"
    using assms by (simp add: word_less_nat_alt unat_word_ariths)
  have "unat (n + 1) = Suc (unat n)" using assms(2) by (simp add: unat_word_ariths)
  then have "mask40 r n = (if 39 < unat r + unat n then 0 else push_bit (unat r) (mask (Suc (unat n))))"
    unfolding mask40_def sum mask_eq_exp_minus_1 push_bit_eq_mult by simp
  then show ?thesis
    unfolding bit_push_bit_iff bit_mask_iff by (auto simp: bit_push_bit_iff bit_mask_iff possible_bit_def)
qed

lemma lc_rotation_less:
  assumes "\<not> wide (mc_geometry m)"
  shows "unat (lc_rotation m lc r) < 32"
proof -
  have m: "(7 :: u32) = mask 3" "(0xf :: u32) = mask 4" by (simp_all add: mask_eq_exp_minus_1)
  have "lc_rotation m lc r AND mask 5 = lc_rotation m lc r"
    using assms unfolding lc_rotation_def Let_def m
    by (intro bit_word_eqI) (auto simp: bit_and_iff bit_or_iff bit_xor_iff bit_push_bit_iff bit_drop_bit_eq bit_mask_iff
        bit_1_iff simp del: mask_numeral push_bit_of_1)
  then show ?thesis using unat_and_mask_less [of 5 "lc_rotation m lc r"] by simp
qed

section \<open>The BYTE class\<close>

text \<open>
  The word a BYTE instruction makes, bit by bit. \<open>IR<12>\<close> rotates \<open>M\<close>, \<open>IR<13>\<close> puts the field at the
  position instead of at the right end: load byte, selective deposit and deposit byte. Outside the field
  the word is \<open>A\<close>'s.
\<close>

definition byte_bit :: "nat \<Rightarrow> bool \<Rightarrow> bool \<Rightarrow> nat \<Rightarrow> nat \<Rightarrow> mword \<Rightarrow> mword \<Rightarrow> nat \<Rightarrow> bool" where
  "byte_bit ring rotated placed p w m a j =
     (if (if placed then p \<le> j \<and> j < p + w \<and> p + w \<le> ring else j < w \<and> w \<le> ring)
      then bit m (if rotated then (j + (ring - p mod ring)) mod ring else j) else bit a j)"

lemma two_bits:
  assumes "f < (2 ^ 2 :: u32)"
  shows "f AND 2 \<noteq> 0 \<longleftrightarrow> bit f 1" "f AND 1 \<noteq> 0 \<longleftrightarrow> bit f 0"
  using and_bit_set [of f 1] and_bit_set [of f 0] by (simp_all add: push_bit_eq_mult)

lemma field_wraps:
  "p < 32 \<Longrightarrow> n < 32 \<Longrightarrow> p \<le> j \<and> j \<le> (p + n) mod 32 \<longleftrightarrow> p \<le> j \<and> j < p + Suc n \<and> p + Suc n \<le> (32 :: nat)"
  by (auto simp: mod_if)

lemma byte_narrow:
  assumes "\<not> wide (geo s)"
  defines "p \<equiv> unat (if ir s 10 2 = 3 then lc_byte_mode s else ir s 0 5)" and "w \<equiv> Suc (unat (ir s 5 5))"
    and "f \<equiv> ir s 12 2"
  shows "\<exists>out. mi_byte e s = write_dest e (ucast (ir s 14 12)) (s\<lparr>mi_out := out\<rparr>) \<and>
    (\<forall>j. bit out j = byte_bit 32 (bit f 0) (bit f 1) p w (mi_mdata s) (mi_adata s) j)"
proof (intro exI conjI allI)
  define pos where "pos = (if ir s 10 2 = 3 then lc_byte_mode s else ir s 0 5)"
  have pos: "unat pos < 32"
    using lc_rotation_less [OF assms(1), of "mc_lc (mi_m s)" "ir s 0 5"] unat_ir [of 5 s 0]
    by (simp add: pos_def lc_byte_mode_def)
  define right where "right = (if f AND 2 \<noteq> 0 then pos else 0)"
  have right: "unat right < 32" using pos by (simp add: right_def)
  define m where "m = (if f AND 1 \<noteq> 0 then rol (ucast (mi_mdata s)) pos else ucast (mi_mdata s))"
  define msk where "msk = byte_mask right (ir s 5 5)"
  define out where "out = ucast (m AND msk) OR (mi_adata s AND NOT (ucast msk))"
  show "mi_byte e s = write_dest e (ucast (ir s 14 12)) (s\<lparr>mi_out := out\<rparr>)"
    using assms(1) by (simp add: mi_byte_def Let_def out_def m_def msk_def right_def pos_def f_def)
  have f: "f < 2 ^ 2" unfolding f_def by (rule ir_less) simp
  have w: "w \<le> 32" using unat_ir [of 5 s 5] by (simp add: w_def)
  fix j
  have bm: "bit msk j \<longleftrightarrow> (if bit f 1 then p \<le> j \<and> j < p + w \<and> p + w \<le> 32 else j < w)"
  proof (cases "bit f 1")
    case True
    then have "unat right = p" using two_bits [OF f] by (simp add: right_def pos_def p_def)
    then show ?thesis
      using True field_wraps [of p "unat (ir s 5 5)" j] pos w by (simp add: msk_def bit_byte_mask [OF right] w_def p_def pos_def)
  next
    case False
    then have "unat right = 0" using two_bits [OF f] by (simp add: right_def)
    then show ?thesis using False w by (auto simp: msk_def bit_byte_mask [OF right] w_def)
  qed
  have "bit m j \<longleftrightarrow> j < 32 \<and> bit (mi_mdata s) (if bit f 0 then (j + (32 - p mod 32)) mod 32 else j)"
    using pos two_bits [OF f] unfolding m_def p_def pos_def [symmetric]
    by (simp add: bit_rol bit_ucast_iff)
  moreover have "bit out j \<longleftrightarrow> (if bit msk j then bit m j else bit (mi_adata s) j)"
    using bit_imp_le_length [of msk j] bit_imp_le_length [of "mi_adata s" j] by (auto simp: out_def bit_or_iff bit_and_iff bit_not_iff bit_ucast_iff)
  moreover have "bit msk j \<Longrightarrow> j < 32" using bit_imp_le_length [of msk j] by simp
  ultimately show "bit out j = byte_bit 32 (bit f 0) (bit f 1) p w (mi_mdata s) (mi_adata s) j"
    using bm w by (auto simp: byte_bit_def)
qed


lemma byte_wide:
  assumes "wide (geo s)"
  defines "f \<equiv> ir s 12 2" and "w \<equiv> Suc (unat (ir s 6 6))"
    and "p \<equiv> unat (if ir s 12 2 = 1 \<and> ir s 24 1 \<noteq> 0 then lc_rotation (mi_m s) (mc_lc (mi_m s)) (ir s 0 6) else ir s 0 6)"
  shows "\<exists>out. mi_byte e s = write_dest e (ucast (ir s 14 12)) (s\<lparr>mi_out := out\<rparr>) \<and>
    (\<forall>j. bit out j = byte_bit 40 (bit f 0) (bit f 1) p w (mi_mdata s) (mi_adata s) j)"
proof (intro exI conjI allI)
  define rot where "rot = ir s 0 6"
  define pos where "pos = (if f = 1 \<and> ir s 24 1 \<noteq> 0 then lc_rotation (mi_m s) (mc_lc (mi_m s)) rot else rot)"
  define right where "right = (if f AND 2 \<noteq> 0 then rot else 0)"
  define m where "m = (if f AND 1 \<noteq> 0 then rol40 (mi_mdata s) pos else mi_mdata s)"
  define msk where "msk = mask40 right (ir s 6 6)"
  define out where "out = (m AND msk) OR (mi_adata s AND NOT msk)"
  show "mi_byte e s = write_dest e (ucast (ir s 14 12)) (s\<lparr>mi_out := out\<rparr>)"
    using assms(1) by (simp add: mi_byte_def byte_13_def Let_def out_def m_def msk_def right_def pos_def f_def rot_def)
  have f: "f < 2 ^ 2" unfolding f_def by (rule ir_less) simp
  have w: "unat (ir s 6 6) < 64" "unat rot < 64" using unat_ir [of 6 s] by (simp_all add: rot_def)
  fix j
  have r: "unat right + unat (ir s 6 6) < 2 ^ 32" using w by (simp add: right_def)
  have bm: "bit msk j \<longleftrightarrow> (if bit f 1 then p \<le> j \<and> j < p + w \<and> p + w \<le> 40 else j < w \<and> w \<le> 40)"
  proof (cases "bit f 1")
    case True
    then have "f \<noteq> 1" by auto
    then have "unat right = p" using True two_bits [OF f] by (simp add: right_def p_def rot_def f_def)
    then show ?thesis using True by (auto simp: msk_def bit_mask40 [OF r w(1)] w_def)
  next
    case False
    then have "unat right = 0" using two_bits [OF f] by (simp add: right_def)
    then show ?thesis using False by (auto simp: msk_def bit_mask40 [OF r w(1)] w_def)
  qed
  have "bit m j \<longleftrightarrow> (if bit f 0 then j < 40 \<and> bit (mi_mdata s) ((j + (40 - p mod 40)) mod 40) else bit (mi_mdata s) j)"
    using two_bits [OF f] by (simp add: m_def bit_rol40 p_def pos_def rot_def f_def)
  moreover have "bit out j \<longleftrightarrow> (if bit msk j then bit m j else bit (mi_adata s) j)"
    using bit_imp_le_length [of msk j] bit_imp_le_length [of "mi_adata s" j]
    by (auto simp: out_def bit_or_iff bit_and_iff bit_not_iff)
  ultimately show "bit out j = byte_bit 40 (bit f 0) (bit f 1) p w (mi_mdata s) (mi_adata s) j"
    using bm by (auto simp: byte_bit_def)
qed


text \<open>
  C6: the BYTE class moves exactly its field. With a destination in A memory, the word it leaves there has
  the field's bits from \<open>M\<close>, rotated or not, at the position or at the right end, and every other bit
  from \<open>A\<close>; a field that runs past the left end moves nothing; no other word of A memory changes. On the
  machines of 32 bits the position may come from the location counter; revision 13 has its own field of
  the instruction for the length and a ring of 40 bits.
\<close>

theorem byte_moves_its_field:
  assumes "micro_at g s" "ucast (ir s 14 12) AND 0x800 \<noteq> (0 :: u16)"
  defines "adr \<equiv> unat (ucast (ir s 14 12) AND 0x3ff :: u16)" and "f \<equiv> ir s 12 2"
    and "ring \<equiv> (if wide g then 40 else 32)" and "w \<equiv> Suc (unat (if wide g then ir s 6 6 else ir s 5 5))"
    and "p \<equiv> unat (if wide g
          then if ir s 12 2 = 1 \<and> ir s 24 1 \<noteq> 0 then lc_rotation (mi_m s) (mc_lc (mi_m s)) (ir s 0 6) else ir s 0 6
          else if ir s 10 2 = 3 then lc_byte_mode s else ir s 0 5)"
  shows "(\<forall>j. bit (mc_amem (mi_m (mi_byte e s)) ! adr) j =
      byte_bit ring (bit f 0) (bit f 1) p w (mi_mdata s) (mi_adata s) j) \<and>
    (\<forall>k. k \<noteq> adr \<longrightarrow> mc_amem (mi_m (mi_byte e s)) ! k = mc_amem (mi_m s) ! k)"
proof -
  have g: "geo s = g" by (rule micro_atD [OF assms(1)])
  have adr: "adr < length (mc_amem (mi_m s))"
    using unat_and_mask_less [of 10 "ucast (ir s 14 12) :: u16"] micro_lengths(2) [OF assms(1)]
    by (simp add: adr_def mask_eq_exp_minus_1)
  have "\<exists>out. mi_byte e s = write_dest e (ucast (ir s 14 12)) (s\<lparr>mi_out := out\<rparr>) \<and>
    (\<forall>j. bit out j = byte_bit ring (bit f 0) (bit f 1) p w (mi_mdata s) (mi_adata s) j)"
    using byte_wide [of s e] byte_narrow [of s e]
    unfolding ring_def f_def p_def w_def g by (cases "wide g") (simp_all only: if_True if_False not_True_eq_False not_False_eq_True)
  then obtain out where out: "mi_byte e s = write_dest e (ucast (ir s 14 12)) (s\<lparr>mi_out := out\<rparr>)"
    "\<And>j. bit out j = byte_bit ring (bit f 0) (bit f 1) p w (mi_mdata s) (mi_adata s) j"
    by blast
  have "mc_amem (mi_m (mi_byte e s)) = (mc_amem (mi_m s))[adr := out]"
    using assms(2) by (simp add: out(1) write_dest_def Let_def adr_def)
  then show ?thesis using adr out(2) by simp
qed

section \<open>Jumps\<close>

lemma jump_alu_compare: "jump_alu s = alu (ucast (mi_mdata s)) (ucast (mi_adata s)) 6 False False"
  by (simp add: jump_alu_def alu_control_def Let_def)

text \<open>The conditions a jump tests, in the instruction set's own words.\<close>

definition condition_means :: "'d bus \<Rightarrow> 'd micro \<Rightarrow> bool" where
  "condition_means e s =
     (let m = ucast (mi_mdata s) :: u32; a = ucast (mi_adata s) :: u32;
          fault = (\<not> mc_vmaok (mi_m s)); intr = interrupt_pending e s; w = wide (geo s); c = unat (ir s 0 5)
      in if w \<and> c = 8 then mc_overflow (mi_m s)
         else if w \<and> c = 9 then unat m < unat a
         else if c mod 8 = 1 then sint m < sint a
         else if c mod 8 = 2 then sint m \<le> sint a
         else if c mod 8 = 3 then (if w then mi_mdata s = mi_adata s else m = a)
         else if c mod 8 = 4 then fault
         else if c mod 8 = 5 then fault \<or> intr
         else if c mod 8 = 6 then fault \<or> intr \<or> bit (mc_interrupt_control (mi_m s)) 26
         else True)"

lemma signed_less: "sint m < sint a \<longleftrightarrow> m \<noteq> a \<and> sint m \<le> sint (a :: u32)"
  by (metis order_less_le signed_word_eqI)

lemma low_three: "unat (ir s 0 3) = unat (ir s 0 5) mod 8" "unat (ir s 0 5 AND 7) = unat (ir s 0 5) mod 8"
proof -
  have "ir s 0 3 = ir s 0 5 AND mask 3"
    unfolding ir_mask by (rule bit_word_eqI) (unfold bit_and_iff bit_ucast_iff bit_mask_iff, auto)
  then show "unat (ir s 0 3) = unat (ir s 0 5) mod 8" by (simp only: unat_and_mask_mod) simp
  show "unat (ir s 0 5 AND 7) = unat (ir s 0 5) mod 8"
    using unat_and_mask_mod [of "ir s 0 5" 3] by (simp add: mask_eq_exp_minus_1)
qed

lemma same_halves: "ucast m = (ucast a :: u32) \<and> drop_bit 32 m = drop_bit 32 a \<longleftrightarrow> m = (a :: mword)"
proof (rule iffI, elim conjE)
  assume low: "ucast m = (ucast a :: u32)" and high: "drop_bit 32 m = drop_bit 32 a"
  show "m = a"
  proof (rule bit_word_eqI)
    fix n
    show "bit m n \<longleftrightarrow> bit a n"
    proof (cases "n < 32")
      case True
      then show ?thesis using arg_cong [OF low, of "\<lambda>w. bit w n"] by (simp add: bit_ucast_iff)
    next
      case False
      then show ?thesis using arg_cong [OF high, of "\<lambda>w. bit w (n - 32)"] by (simp add: bit_drop_bit_eq)
    qed
  qed
qed simp

lemma jump_condition_means:
  assumes "ir s 5 1 \<noteq> 0" "unat (ir s 0 5) mod 8 \<noteq> 0 \<or> wide (geo s) \<and> unat (ir s 0 5) = 8"
  shows "jump_condition e s = (condition_means e s, s)"
proof (cases "wide (geo s)")
  case True
  define c where "c = unat (ir s 0 5)"
  have "c mod 8 < 8" by simp
  then have small: "c mod 8 \<noteq> 8" "c mod 8 \<noteq> 9" by linarith+
  have low: "unat (ir s 0 5 AND 7) = c mod 8" by (simp add: low_three c_def)
  have "ir s 0 5 = 8 \<longleftrightarrow> c = 8" "ir s 0 5 = 9 \<longleftrightarrow> c = 9" by (simp_all add: c_def word_unat_eq_iff)
  then show ?thesis
    using True assms unfolding c_def [symmetric]
    by (cases "c = 8"; cases "c = 9") (simp_all add: jump_condition_def jump_condition_13_def condition_means_def Let_def
        jump_alu_compare alu_compare word_unat_eq_iff [of "ir s 0 5 AND 7"] low c_def [symmetric] signed_less
        same_halves word_less_nat_alt small)
next
  case False
  then show ?thesis using assms
    by (simp add: jump_condition_def condition_means_def Let_def jump_alu_compare alu_compare
       word_unat_eq_iff [of "ir s 0 3"] low_three signed_less)
qed


text \<open>
  C5: what a conditional jump decides. On every machine a jump that neither pushes nor pops goes to its
  target exactly when the condition the instruction names holds, or fails with the inverting bit: less,
  less or equal and equal compare \<open>M\<close> with \<open>A\<close> as signed numbers (revision 13's equality takes the tags
  too, and it has an unsigned comparison and the overflow besides), the others are the page fault, the
  interrupt and the sequence break. A jump not taken changes nothing at all.
\<close>

theorem jump_decides:
  assumes "ir s 8 1 = 0" "ir s 9 1 = 0" "ir s 5 1 \<noteq> 0"
    "unat (ir s 0 5) mod 8 \<noteq> 0 \<or> wide (geo s) \<and> unat (ir s 0 5) = 8"
  shows "jump e s =
    (if condition_means e s \<noteq> (ir s 6 1 \<noteq> 0)
     then s\<lparr>mi_inhibit := (ir s 7 1 \<noteq> 0 \<or> mi_inhibit s), mi_npc := ucast (ir s 12 14)\<rparr>
     else s)"
  using assms(1,2) jump_condition_means [OF assms(3,4)] by (simp add: jump_def Let_def)


lemma jump_decides_witness:
  "let s = (micro_new (machine_with_geometry CADR ()))\<lparr>mi_p0 := 0x123021, mi_mdata := 0xffffffff, mi_adata := 1\<rparr>
   in mi_npc (jump no_boards s) = 0x123"
proof -
  let ?s = "(micro_new (machine_with_geometry CADR ()))\<lparr>mi_p0 := 0x123021, mi_mdata := 0xffffffff, mi_adata := 1\<rparr>"
  have f: "ir ?s 8 1 = 0" "ir ?s 9 1 = 0" "ir ?s 5 1 = 1" "ir ?s 0 5 = 1" "ir ?s 6 1 = 0" "ir ?s 12 14 = 0x123"
    by (simp_all add: ir_def)
  have "condition_means no_boards ?s"
    by (simp add: condition_means_def f Let_def)
  then show ?thesis
    using jump_decides [of ?s no_boards] f by simp
qed

lemma byte_moves_its_field_witness:
  "let s = (micro_new (machine_with_geometry QUUX_13 ()))\<lparr>mi_p0 := 0x200318c, mi_mdata := 0xff, mi_adata := 0\<rparr>
   in bit (mc_amem (mi_m (mi_byte no_boards s)) ! 0) 12"
proof -
  let ?s = "(micro_new (machine_with_geometry QUUX_13 ()))\<lparr>mi_p0 := 0x200318c, mi_mdata := 0xff, mi_adata := 0\<rparr>"
  have f: "ir ?s 14 12 = 0x800" "ir ?s 12 2 = 3" "ir ?s 6 6 = 6" "ir ?s 0 6 = 12"
    by (simp_all add: ir_def micro_new_def)
  have "micro_at QUUX_13 ?s"
    by (simp add: micro_at_new machine_at_power_on machines_def)
  from byte_moves_its_field [OF this, of no_boards] f show ?thesis
    by (simp add: byte_bit_def micro_new_def)
qed

end
