(* ===== verification/MicroStack.thy ===== *)
theory MicroStack
  imports MicroInv
begin

text \<open>
  The microstack of the engine: the pointer's movement in a microcycle, and the stack as a list. The frame
  \<open>kept\<close> says of most operations that they leave the pointer and the pipeline alone.
\<close>

section \<open>What most operations leave alone\<close>

text \<open>
  The stack's pointer with what this microcycle has done to it, and the pipeline: the operations that neither
  push, pop nor advance leave all of it as it was.
\<close>

definition pipe :: "'d micro \<Rightarrow> 'd micro \<Rightarrow> bool" where
  "pipe s t \<longleftrightarrow> mi_p0 t = mi_p0 s \<and> mi_p1 t = mi_p1 s \<and> mi_p1_pc t = mi_p1_pc s \<and> mi_p0_pc t = mi_p0_pc s \<and>
     mi_executed t = mi_executed s"

definition kept :: "'d micro \<Rightarrow> 'd micro \<Rightarrow> bool" where
  "kept s t \<longleftrightarrow> pipe s t \<and> mc_spcptr (mi_m t) = mc_spcptr (mi_m s) \<and> mi_pushed t = mi_pushed s \<and>
     mi_spc_pushed t = mi_spc_pushed s \<and> mi_spc_popped t = mi_spc_popped s"

named_theorems keeps_it \<open>operations that leave the stack's pointer and the pipeline as they were\<close>

lemma kept_refl [simp]: "kept s s"
  by (simp add: kept_def pipe_def)

lemmas kept_flow [flow] = flow_rules [where P = "kept z" for z]

lemma kept_frame [simp]:
  "kept z (s\<lparr>mi_npc := x12\<rparr>) = kept z s"
  "kept z (s\<lparr>mi_inhibit := x5\<rparr>) = kept z s"
  "kept z (s\<lparr>mi_popj := x5\<rparr>) = kept z s"
  "kept z (s\<lparr>mi_next_instr := x5\<rparr>) = kept z s"
  "kept z (s\<lparr>mi_next_instrd := x5\<rparr>) = kept z s"
  "kept z (s\<lparr>mi_oal := x5\<rparr>) = kept z s"
  "kept z (s\<lparr>mi_oah := x5\<rparr>) = kept z s"
  "kept z (s\<lparr>mi_oa_low := x15\<rparr>) = kept z s"
  "kept z (s\<lparr>mi_oa_high := x15\<rparr>) = kept z s"
  "kept z (s\<lparr>mi_new_md := x7\<rparr>) = kept z s"
  "kept z (s\<lparr>mi_new_md_delay := x16\<rparr>) = kept z s"
  "kept z (s\<lparr>mi_aaddr := x12\<rparr>) = kept z s"
  "kept z (s\<lparr>mi_maddr := x16\<rparr>) = kept z s"
  "kept z (s\<lparr>mi_adata := x7\<rparr>) = kept z s"
  "kept z (s\<lparr>mi_mdata := x7\<rparr>) = kept z s"
  "kept z (s\<lparr>mi_alu_out := x7\<rparr>) = kept z s"
  "kept z (s\<lparr>mi_old_q := x7\<rparr>) = kept z s"
  "kept z (s\<lparr>mi_out := x7\<rparr>) = kept z s"
  "kept z (s\<lparr>mi_iwr := x15\<rparr>) = kept z s"
  "kept z (s\<lparr>mi_map_write := x0\<rparr>) = kept z s"
  "kept z (s\<lparr>mi_map_write_d := x0\<rparr>) = kept z s"
  "kept z (s\<lparr>mi_map_seen := x11\<rparr>) = kept z s"
  "kept z (s\<lparr>mi_lvmo := x14\<rparr>) = kept z s"
  "kept z (s\<lparr>mi_wrcyc := x5\<rparr>) = kept z s"
  "kept z (s\<lparr>mi_speed := x10\<rparr>) = kept z s"
  "kept z (s\<lparr>mi_speed_a := x10\<rparr>) = kept z s"
  "kept z (s\<lparr>mi_memory_cycle_ns := x8\<rparr>) = kept z s"
  "kept z (s\<lparr>mi_sync_cycle_ns := x8\<rparr>) = kept z s"
  "kept z (s\<lparr>mi_memory_cycles := x15\<rparr>) = kept z s"
  "kept z (s\<lparr>mi_nopped := x8\<rparr>) = kept z s"
  "kept z (s\<lparr>mi_srun := x5\<rparr>) = kept z s"
  "kept z (s\<lparr>mi_sstep := x5\<rparr>) = kept z s"
  "kept z (s\<lparr>mi_ssdone := x5\<rparr>) = kept z s"
  "kept z (s\<lparr>mi_halted := x5\<rparr>) = kept z s"
  "kept z (s\<lparr>mi_memstart := x5\<rparr>) = kept z s"
  "kept z (s\<lparr>mi_memop := x5\<rparr>) = kept z s"
  "kept z (s\<lparr>mi_write_out := x3\<rparr>) = kept z s"
  "kept z (s\<lparr>mi_pdl_write := x1\<rparr>) = kept z s"
  "kept z (s\<lparr>mi_spc_write := x4\<rparr>) = kept z s"
  "kept z (s\<lparr>mi_opc := x13\<rparr>) = kept z s"
  "kept z (s\<lparr>mi_opc_ck := x5\<rparr>) = kept z s"
  "kept z (s\<lparr>mi_trap := x5\<rparr>) = kept z s"
  "kept z (s\<lparr>mi_macro_write := x2\<rparr>) = kept z s"
  "kept z (s\<lparr>mi_operand := x9\<rparr>) = kept z s"
  by (simp_all add: kept_def pipe_def)

lemma kept_machine:
  "kept z s \<Longrightarrow> mc_spcptr m = mc_spcptr (mi_m s) \<Longrightarrow> kept z (s\<lparr>mi_m := m\<rparr>)"
  by (simp add: kept_def pipe_def)

lemma io_spcptr: "only_io m m' \<Longrightarrow> mc_spcptr m' = mc_spcptr m"
  unfolding only_io_def by (erule ssubst) simp

lemma bus_spcptr [simp]:
  assumes "bus_frame e"
  shows "mc_spcptr (snd (bus_read e phys m)) = mc_spcptr m" "mc_spcptr (bus_write e phys w m) = mc_spcptr m"
    "mc_spcptr (bus_advance e m) = mc_spcptr m" "mc_spcptr (bus_reset e m) = mc_spcptr m"
  by (rule bus_frameD [OF assms, THEN io_spcptr])+

lemma machine_spcptr [simp]:
  "mc_spcptr (reset_console_registers m) = mc_spcptr m" "mc_spcptr (write_lc d m) = mc_spcptr m"
  "mc_spcptr (write_imem a i m) = mc_spcptr m"
  by (simp_all add: reset_console_registers_def write_lc_def write_imem_def Let_def)

lemma machine_spcptr_bus [simp]:
  assumes "bus_frame e"
  shows "mc_spcptr (snd (vm_read e a m)) = mc_spcptr m" "mc_spcptr (write_interrupt_control e w m) = mc_spcptr m"
  using assms by (simp_all add: vm_read_def write_interrupt_control_def Let_def)

lemma kept_edge [keeps_it]: "bus_frame e \<Longrightarrow> kept z s \<Longrightarrow> kept z (mi_mclk_edge e s)"
  unfolding mi_mclk_edge_def by (intro flow) (simp_all add: kept_machine)

lemma kept_speedclk [keeps_it]: "kept z s \<Longrightarrow> kept z (speedclk s)"
  by (simp add: speedclk_def)

lemma kept_opc_clock [keeps_it]: "kept z s \<Longrightarrow> kept z (opc_clock b pc s)"
  by (simp add: opc_clock_def Let_def)

lemma kept_land_writes [keeps_it]: "kept z s \<Longrightarrow> kept z (land_writes s)"
  unfolding land_writes_def by (intro flow) (simp_all add: kept_machine)

lemma kept_pop_asks [keeps_it]: "kept z s \<Longrightarrow> kept z (snd (pop_asks_for_a_fetch w s))"
  by (simp add: pop_asks_for_a_fetch_def Let_def)

lemma kept_read [keeps_it]: "bus_frame e \<Longrightarrow> kept z s \<Longrightarrow> kept z (snd (mi_read e vma s))"
  by (simp add: mi_read_def Let_def case_prod_beta kept_machine split: option.split)

lemma kept_write_goes_out [keeps_it]: "bus_frame e \<Longrightarrow> kept z s \<Longrightarrow> kept z (write_goes_out e s)"
  unfolding write_goes_out_def by (intro flow) (simp_all add: kept_machine)

lemma kept_start_cycle [keeps_it]: "bus_frame e \<Longrightarrow> kept z s \<Longrightarrow> kept z (start_cycle e w s)"
  unfolding start_cycle_def by (intro flow keeps_it) (simp_all add: kept_machine)

lemma kept_start_write [keeps_it]: "bus_frame e \<Longrightarrow> kept z s \<Longrightarrow> kept z (start_write e s)"
  unfolding start_write_def by (intro flow keeps_it) (simp_all add: kept_machine keeps_it)

lemma kept_start_read [keeps_it]: "bus_frame e \<Longrightarrow> kept z s \<Longrightarrow> kept z (start_read e s)"
  unfolding start_read_def by (intro flow keeps_it) (simp_all add: kept_machine keeps_it)

lemma kept_step_lc [keeps_it]: "bus_frame e \<Longrightarrow> kept z s \<Longrightarrow> kept z (step_lc e s)"
  unfolding step_lc_def by (intro flow keeps_it) (simp_all add: kept_machine keeps_it)

lemma kept_fetch_and_clock [keeps_it]: "bus_frame e \<Longrightarrow> kept z s \<Longrightarrow> kept z (fetch_and_clock e s)"
  unfolding fetch_and_clock_def
  by (intro flow keeps_it) (simp_all add: kept_machine keeps_it split: write_out.split)

lemma kept_land_map_write [keeps_it]: "kept z s \<Longrightarrow> kept z (land_map_write s)"
  unfolding land_map_write_def by (intro flow) (simp_all add: kept_machine)

lemma kept_q [keeps_it]: "kept z s \<Longrightarrow> kept z (set_q_low q s)" "kept z s \<Longrightarrow> kept z (q_control s)"
  by (simp_all add: set_q_low_def q_control_def Let_def kept_machine)

lemma kept_condition [keeps_it]: "kept z s \<Longrightarrow> kept z (snd (jump_condition e s))"
  by (simp add: jump_condition_def jump_condition_13_def Let_def)

lemma kept_charge [keeps_it]: "kept z s \<Longrightarrow> kept z (charge b s)"
  by (simp add: charge_def kept_machine)

lemma kept_cycles [keeps_it]:
  "bus_frame e \<Longrightarrow> kept z s \<Longrightarrow> kept z (nop_cycles e n s)"
  "bus_frame e \<Longrightarrow> kept z s \<Longrightarrow> kept z (div_cycles e b n s)"
  by (induction n arbitrary: s) (simp_all add: keeps_it)

lemma kept_end [keeps_it]: "bus_frame e \<Longrightarrow> kept z s \<Longrightarrow> kept z (end_microcycle e s)"
  by (simp add: end_microcycle_def keeps_it kept_machine)

lemma kept_macro_write_lands [keeps_it]: "kept z s \<Longrightarrow> kept z (macro_write_lands s)"
  unfolding macro_write_lands_def by (intro flow) (simp_all add: kept_machine)

lemma kept_halted [keeps_it]: "bus_frame e \<Longrightarrow> kept z s \<Longrightarrow> kept z (step_halted e s)"
  unfolding step_halted_def by (intro flow keeps_it)

lemma kept_read_functional [keeps_it]:
  "c AND 0xf \<noteq> 0xc \<Longrightarrow> kept z s \<Longrightarrow> kept z (snd (read_functional c s))"
  unfolding read_functional_def Let_def by (intro flow) (simp_all add: kept_machine)

lemma kept_write_functional [keeps_it]:
  "bus_frame e \<Longrightarrow> decode_dest d \<noteq> 0xd \<Longrightarrow> kept z s \<Longrightarrow> kept z (write_functional e d w s)"
  unfolding write_functional_def arm_map_write_def
  by (intro flow keeps_it) (simp_all add: kept_machine keeps_it)


section \<open>The stack's pointer\<close>

lemma u8_below_32: "p < (32 :: u8) \<Longrightarrow> p \<in> set (map of_nat [0..<32])"
  unfolding set_map by (rule image_eqI [of _ _ "unat p"]) (simp_all add: word_less_nat_alt)

lemma ptr_arith:
  fixes p :: u8
  assumes "p < 32"
  shows "p AND 31 = p" "(p - 1 AND 31) + 1 AND 31 = p" "(p + 1 AND 31) - 1 AND 31 = p" "(p + 1 AND 31) \<noteq> (p - 1 AND 31)"
    "(p + 1 AND 31) \<noteq> p" "(p - 1 AND 31) \<noteq> p"
  using u8_below_32 [OF assms] by (auto simp: upt_rec)

text \<open>
  How far the pointer is from where the microcycle found it: exactly by what is recorded of a push and a pop
  (\<open>spc_exact\<close>), which is what a push relies on; within one, still where it was while nothing is recorded
  (\<open>spc_within\<close>), which is what a pop relies on.
\<close>

definition spc_near :: "u8 \<Rightarrow> 'd micro \<Rightarrow> bool" where
  "spc_near p s \<longleftrightarrow> mc_spcptr (mi_m s) \<in> {p, p + 1 AND 31, p - 1 AND 31}"

definition spc_exact :: "u8 \<Rightarrow> 'd micro \<Rightarrow> bool" where
  "spc_exact p s \<longleftrightarrow> (mi_spc_pushed s \<longrightarrow> mi_pushed s) \<and>
     mc_spcptr (mi_m s) = (if mi_spc_pushed s then p + 1 AND 31 else if mi_spc_popped s then p - 1 AND 31 else p)"

definition spc_within :: "u8 \<Rightarrow> 'd micro \<Rightarrow> bool" where
  "spc_within p s \<longleftrightarrow> spc_near p s \<and> (\<not> mi_spc_pushed s \<and> \<not> mi_spc_popped s \<longrightarrow> mc_spcptr (mi_m s) = p) \<and>
     (\<not> mi_pushed s \<longrightarrow> mc_spcptr (mi_m s) \<in> {p, p - 1 AND 31})"

definition spc_done :: "u8 \<Rightarrow> 'd micro \<Rightarrow> bool" where
  "spc_done p s \<longleftrightarrow> spc_near p s \<and> (mi_popj s \<longrightarrow> spc_within p s)"

lemma spc_imp: "spc_exact p s \<Longrightarrow> spc_within p s" "spc_within p s \<Longrightarrow> spc_near p s" "spc_within p s \<Longrightarrow> spc_done p s"
  by (auto simp: spc_exact_def spc_within_def spc_near_def spc_done_def)

lemma spc_kept:
  "kept s t \<Longrightarrow> spc_exact p s \<Longrightarrow> spc_exact p t" "kept s t \<Longrightarrow> spc_within p s \<Longrightarrow> spc_within p t"
  "kept s t \<Longrightarrow> spc_near p s \<Longrightarrow> spc_near p t"
  by (simp_all add: kept_def spc_exact_def spc_within_def spc_near_def)

lemma push_near:
  assumes "p < 32" "spc_exact p s" "\<not> mi_spc_pushed s"
  shows "spc_exact p (push_spc w s)"
  using assms by (simp add: spc_exact_def push_spc_def set_spcptr_def Let_def ptr_arith)

lemma pop_near:
  assumes "p < 32"
  shows "spc_within p s \<Longrightarrow> spc_within p (snd (pop_spc s))"
  using assms by (auto simp: spc_within_def spc_near_def pop_spc_def set_spcptr_def Let_def ptr_arith)

lemma pop_spc_popped: "mi_spc_popped (snd (pop_spc s))"
  by (simp add: pop_spc_def Let_def set_spcptr_def)

lemma spc_near_operand [simp]: "spc_near p (s\<lparr>mi_operand := w\<rparr>) = spc_near p s"
  by (simp add: spc_near_def)

lemma return_near:
  assumes "p < 32" "spc_within p s"
  shows "spc_near p (snd (main_loop_return w a s))"
proof -
  obtain target t where t: "pop_asks_for_a_fetch w s = (target, t)" by (cases "pop_asks_for_a_fetch w s")
  have "kept s (snd (pop_asks_for_a_fetch w s))" by (rule keeps_it) simp
  then have "kept s t" by (simp add: t)
  from spc_kept(2) [OF this assms(2)] have w: "spc_within p t" .
  have near: "spc_near p t" by (rule spc_imp(2) [OF w])
  have "\<not> mi_pushed t \<Longrightarrow> spc_near p (set_spcptr (mc_spcptr (mi_m t) + 1) t)"
    using w assms(1) by (auto simp: spc_near_def spc_within_def set_spcptr_def ptr_arith)
  then show ?thesis using near
    by (simp add: main_loop_return_def Let_def t split: option.split)
qed

lemma jump_return_near: "p < 32 \<Longrightarrow> spc_within p s \<Longrightarrow> spc_near p (snd (jump_return w s))"
  unfolding jump_return_def
  using return_near [of p s w False] spc_imp(2) [OF spc_kept(2) [OF kept_pop_asks [OF kept_refl]], of p s w] by simp

lemma pop_target_near:
  assumes "p < 32" "spc_within p s" "\<And>t s. spc_within p s \<Longrightarrow> spc_near p (snd (ret t s))"
  shows "spc_near p (snd (pop_target ret s))"
  using pop_near [OF assms(1,2)] assms(3) spc_imp(2) [OF pop_near [OF assms(1,2)]]
  by (simp add: pop_target_def Let_def case_prod_beta)

lemma near_frame [simp]:
  "spc_near p (s\<lparr>mi_npc := a\<rparr>) = spc_near p s" "spc_near p (s\<lparr>mi_popj := b\<rparr>) = spc_near p s"
  "spc_near p (s\<lparr>mi_inhibit := b\<rparr>) = spc_near p s" "spc_within p (s\<lparr>mi_nopped := n\<rparr>) = spc_within p s"
  "spc_within p (s\<lparr>mi_npc := a\<rparr>) = spc_within p s" "spc_within p (s\<lparr>mi_inhibit := b\<rparr>) = spc_within p s"
  "spc_exact p (s\<lparr>mi_inhibit := b\<rparr>) = spc_exact p s"
  by (simp_all add: spc_near_def spc_within_def spc_exact_def)

text \<open>A microcycle's operands leave the pointer recorded exactly and nothing pushed yet.\<close>

definition spc_fresh :: "u8 \<Rightarrow> 'd micro \<Rightarrow> bool" where
  "spc_fresh p s \<longleftrightarrow> spc_exact p s \<and> \<not> mi_spc_pushed s"

lemma fresh_kept: "kept s t \<Longrightarrow> spc_fresh p s \<Longrightarrow> spc_fresh p t"
  using spc_kept(1) [of s t p] by (simp add: spc_fresh_def kept_def)

lemma fresh_imp: "spc_fresh p s \<Longrightarrow> spc_within p s" "spc_fresh p s \<Longrightarrow> spc_exact p s"
  by (simp_all add: spc_fresh_def spc_imp)

lemma write_dest_near:
  assumes "bus_frame e" "p < 32" "spc_fresh p s"
  shows "spc_within p (write_dest e d s)"
proof -
  have k: "kept t (on_m (\<lambda>m. m\<lparr>mc_amem := x, mc_macro_dispatch := z\<rparr>) t)"
    "kept t (on_m (\<lambda>m. m\<lparr>mc_mmem := y, mc_amem := x, mc_macro_dispatch := z\<rparr>) t)" for t :: "'a micro" and x y z
    by (simp_all add: kept_machine)
  have "spc_within p (write_functional e d w s)" for w
  proof (cases "decode_dest d = 0xd")
    case True
    then have "write_functional e d w s = push_spc (ucast w) s" by (simp add: write_functional_def)
    then show ?thesis using spc_imp(1) [OF push_near [OF assms(2), of s]] assms(3) by (simp add: spc_fresh_def)
  next
    case False
    then show ?thesis
      using spc_kept(2) [OF kept_write_functional [OF assms(1) _ kept_refl]] fresh_imp(1) [OF assms(3)] by blast
  qed
  then show ?thesis using fresh_imp(1) [OF assms(3)]
    unfolding write_dest_def Let_def by (auto intro: spc_kept(2) [OF k(1)] spc_kept(2) [OF k(2)])
qed

lemma fresh_frame [simp]:
  "spc_fresh p (s\<lparr>mi_out := x1\<rparr>) = spc_fresh p s" "spc_fresh p (s\<lparr>mi_alu_out := x1\<rparr>) = spc_fresh p s"
  "spc_fresh p (s\<lparr>mi_old_q := x1\<rparr>) = spc_fresh p s" "spc_fresh p (s\<lparr>mi_inhibit := x2\<rparr>) = spc_fresh p s"
  by (simp_all add: spc_fresh_def spc_exact_def)

lemma fresh_machine:
  "spc_fresh p s \<Longrightarrow> mc_spcptr m = mc_spcptr (mi_m s) \<Longrightarrow> spc_fresh p (s\<lparr>mi_m := m\<rparr>)"
  by (simp add: spc_fresh_def spc_exact_def)

lemma fresh_q: "spc_fresh p s \<Longrightarrow> spc_fresh p (q_control s)" "spc_fresh p s \<Longrightarrow> spc_fresh p (set_q_low q s)"
  using fresh_kept [OF kept_q(2) [OF kept_refl]] fresh_kept [OF kept_q(1) [OF kept_refl]] by blast+

text \<open>An operation on fresh engines that ends in one that is within.\<close>

lemma flow_let_from:
  fixes P Q :: "'d micro \<Rightarrow> bool"
  shows "Q x \<Longrightarrow> (\<And>s. Q s \<Longrightarrow> P (f s)) \<Longrightarrow> P (Let x f)"
    "Q (snd q) \<Longrightarrow> (\<And>a s. Q s \<Longrightarrow> P (h a s)) \<Longrightarrow> P (let (a, s) = q in h a s)"
  by (simp_all add: Let_def case_prod_beta)

lemmas fresh_flow = flow_rules [where P = "spc_fresh p" for p]
lemmas within_flow = flow_let_from [where Q = "spc_fresh p" and P = "spc_within p" for p]
  flow_value [where P = "spc_within p" for p] flow_if [where P = "spc_within p" for p]
  flow_option [where P = "spc_within p" for p]

lemma alu_near: "bus_frame e \<Longrightarrow> p < 32 \<Longrightarrow> spc_fresh p s \<Longrightarrow> spc_within p (mi_alu e s)"
  unfolding mi_alu_def
  by (intro within_flow fresh_flow write_dest_near) (simp_all add: fresh_machine fresh_q)

lemma byte_near: "bus_frame e \<Longrightarrow> p < 32 \<Longrightarrow> spc_fresh p s \<Longrightarrow> spc_within p (mi_byte e s)"
  unfolding mi_byte_def byte_13_def
  by (intro within_flow write_dest_near) simp_all


lemma write_word_near:
  assumes "p < 32" "spc_fresh p s"
  shows "spc_within p (snd (pop_spc (push_spc w s\<lparr>mi_spc_pushed := False, mi_spc_popped := False\<rparr>)))"
  using assms
  by (simp add: spc_within_def spc_near_def spc_fresh_def spc_exact_def pop_spc_def push_spc_def set_spcptr_def Let_def
      ptr_arith)

lemma condition_fresh: "spc_fresh p s \<Longrightarrow> spc_fresh p (snd (jump_condition e s))"
  by (rule fresh_kept [OF kept_condition [OF kept_refl]])

lemma done_frame [simp]:
  "spc_done p (s\<lparr>mi_inhibit := a, mi_npc := b, mi_popj := c\<rparr>) \<longleftrightarrow> spc_near p s \<and> (c \<longrightarrow> spc_within p s)"
  "spc_done p (s\<lparr>mi_npc := b, mi_popj := False\<rparr>) \<longleftrightarrow> spc_near p s"
  by (simp_all add: spc_done_def spc_near_def spc_within_def)

lemma push_if_near:
  "p < 32 \<Longrightarrow> spc_fresh p s \<Longrightarrow> spc_within p (if b then push_spc w s else s)"
  using spc_imp(1) [OF push_near, of p s] by (simp add: spc_fresh_def spc_imp)

lemma jump_near:
  assumes "bus_frame e" "p < 32" "spc_fresh p s"
  shows "spc_done p (jump e s)"
proof (cases "ir s 8 1 \<noteq> 0 \<and> ir s 9 1 \<noteq> 0")
  case True
  define t where "t = on_m (write_imem (ucast (ir s 12 14)) (Insn_new (mi_iwr s))) s"
  have "spc_fresh p t" unfolding t_def by (rule fresh_machine [OF assms(3)]) simp
  then have "spc_fresh p t" "spc_fresh p (snd (jump_condition e t))" by (simp_all add: condition_fresh)
  then have "spc_within p (jump e s)"
    using True write_word_near [OF assms(2), of "snd (jump_condition e t)"] fresh_imp(1) [of p t]
      fresh_imp(1) [of p "snd (jump_condition e t)"]
    by (simp add: jump_def t_def [symmetric] Let_def case_prod_beta)
  then show ?thesis by (rule spc_imp)
next
  case False
  define c where "c = fst (jump_condition e s)"
  define t where "t = snd (jump_condition e s)"
  have c: "jump_condition e s = (c, t)" by (simp add: c_def t_def)
  have "spc_fresh p t" unfolding t_def by (rule condition_fresh [OF assms(3)])
  then have w: "spc_within p (if b then push_spc x t else t)" for b x by (rule push_if_near [OF assms(2)])
  have pop: "spc_near p (snd (pop_target jump_return u))" if "spc_within p u" for u :: "'a micro"
    by (rule pop_target_near [OF assms(2) that jump_return_near [OF assms(2)]])
  show ?thesis
    using False w [of True] w [of False] pop spc_imp(2) [of p "push_spc x t" for x] spc_imp(3) [of p "push_spc x t" for x]
      spc_imp(2,3) [of p t]
    by (auto simp add: jump_def c Let_def case_prod_beta)
qed


lemma ignpopj_fresh: "p < 32 \<Longrightarrow> spc_fresh p s \<Longrightarrow> spc_fresh p (ignpopj w s)"
  by (auto simp: ignpopj_def spc_fresh_def spc_exact_def set_spcptr_def ptr_arith)

lemma fresh_done: "spc_fresh p s \<Longrightarrow> spc_done p s"
  by (rule spc_imp(3) [OF fresh_imp(1)])

lemmas done_flow = flow_let_from [where Q = "spc_fresh p" and P = "spc_done p" for p]
  flow_value [where P = "spc_done p" for p]

lemma dispatch_write_near: "p < 32 \<Longrightarrow> spc_fresh p s \<Longrightarrow> spc_done p (dispatch_write i s)"
  unfolding dispatch_write_def
  by (intro done_flow ignpopj_fresh flow_if [where P = "spc_done p"])
    (simp_all add: fresh_machine fresh_done spc_imp(2) fresh_imp(1))

lemma dispatch_end_near:
  assumes "p < 32" "spc_fresh p s"
  shows "spc_done p (if b \<and> r then s
     else let s = (if b then push_spc w s else s);
              (target, s) = (if r then pop_target (\<lambda>t. main_loop_return t a) s else (x, s))
          in s\<lparr>mi_npc := target, mi_popj := False\<rparr>)"
proof -
  have w: "spc_within p (if b then push_spc w s else s)" by (rule push_if_near [OF assms])
  have "spc_near p (snd (if r then pop_target (\<lambda>t. main_loop_return t a) u else (x, u)))" if "spc_within p u" for u :: "'a micro"
    using pop_target_near [OF assms(1) that return_near [OF assms(1)]] spc_imp(2) [OF that] by simp
  from this [OF w] show ?thesis
    using fresh_done [OF assms(2)] by (simp add: Let_def case_prod_beta)
qed

lemma dispatch_near:
  assumes "bus_frame e" "p < 32" "spc_fresh p s"
  shows "spc_done p (dispatch e s)"
proof -
  have "spc_fresh p (step_lc e u)" if "spc_fresh p u" for u :: "'a micro"
    by (rule fresh_kept [OF kept_step_lc [OF assms(1) kept_refl] that])
  then have "spc_done p (dispatch_go e w s)" for w
    using assms(3) unfolding dispatch_go_def
    by (intro done_flow dispatch_end_near ignpopj_fresh assms(2)) (simp_all add: fresh_machine)
  then show ?thesis
    using dispatch_write_near [OF assms(2,3)] by (simp add: dispatch_def Let_def)
qed

lemma run_class_near:
  assumes "bus_frame e" "p < 32" "spc_fresh p s"
  shows "spc_done p (run_class e s)"
  using spc_imp(3) [OF alu_near [OF assms]] spc_imp(3) [OF byte_near [OF assms]] jump_near [OF assms] dispatch_near [OF assms]
  by (simp add: run_class_def split: op.split)

lemma modify_ptr: "mc_spcptr (mi_m (modify s)) = mc_spcptr (mi_m s)"
  by (simp add: modify_def Let_def)

lemma operands_fresh:
  assumes "mc_spcptr (mi_m s) = p" "p < 32"
  shows "spc_fresh p (operands s)"
proof -
  define t where "t = s\<lparr>mi_popj := insn_popj (mi_p0 s), mi_pushed := False, mi_spc_pushed := False, mi_spc_popped := False,
                mi_macro_write := None, mi_aaddr := ucast (ir s 32 10), mi_maddr := ucast (ir s 26 5)\<rparr>"
  have t: "spc_fresh p t" using assms(1) by (simp add: t_def spc_fresh_def spc_exact_def)
  have rf: "spc_fresh p (snd (read_functional c t))" for c
  proof (cases "c AND 0xf = 0xc")
    case True
    then have "snd (read_functional c t) = (set_spcptr (mc_spcptr (mi_m t) - 1) t)\<lparr>mi_spc_popped := True\<rparr>"
      by (simp add: read_functional_def Let_def)
    then show ?thesis using t assms(1) by (simp add: spc_fresh_def spc_exact_def set_spcptr_def t_def)
  next
    case False
    show ?thesis by (rule fresh_kept [OF kept_read_functional [OF False kept_refl] t])
  qed
  have land: "spc_fresh p (land_writes u)" if "spc_fresh p u" for u :: "'a micro"
    by (rule fresh_kept [OF kept_land_writes [OF kept_refl] that])
  have frame: "spc_fresh p (u\<lparr>mi_mdata := x, mi_adata := y\<rparr>) = spc_fresh p u"
    "spc_fresh p (u\<lparr>mi_iwr := z\<rparr>) = spc_fresh p u" for u :: "'a micro" and x y z
    by (simp_all add: spc_fresh_def spc_exact_def)
  show ?thesis
    using rf t unfolding operands_def t_def [symmetric]
    by (simp add: Let_def case_prod_beta land frame)
qed

lemma popj_near:
  assumes "p < 32" "spc_done p s"
  shows "spc_near p (popj_after_next s)"
proof (cases "mi_popj s")
  case True
  then have "spc_within p s" using assms(2) by (simp add: spc_done_def)
  from pop_target_near [OF assms(1) this return_near [OF assms(1)]] True show ?thesis
    by (simp add: popj_after_next_def case_prod_beta)
qed (use assms(2) in \<open>simp add: popj_after_next_def spc_done_def\<close>)

lemma execute_near:
  assumes "bus_frame e" "mc_spcptr (mi_m s) = p" "p < 32"
  shows "spc_near p (execute e s)"
proof -
  have h: "spc_done p (u\<lparr>mi_halted := b\<rparr>) = spc_done p u" for u :: "'a micro" and b
    by (simp add: spc_done_def spc_near_def spc_within_def)
  have "spc_fresh p (operands (modify s))" by (rule operands_fresh) (simp_all add: modify_ptr assms)
  then have "spc_done p (run_class e (operands (modify s)))" by (rule run_class_near [OF assms(1,3)])
  then have "spc_near p (popj_after_next ((run_class e (operands (modify s)))\<lparr>mi_halted := b\<rparr>))" for b
    by (intro popj_near [OF assms(3)]) (simp add: h)
  then show ?thesis
    unfolding execute_def Let_def by (rule spc_kept(3) [OF kept_macro_write_lands [OF kept_refl]])
qed

definition ptr_is :: "u8 \<Rightarrow> 'd micro \<Rightarrow> bool" where
  "ptr_is p s \<longleftrightarrow> mc_spcptr (mi_m s) = p"

lemmas ptr_flow = flow_rules [where P = "ptr_is p" for p]

lemma ptr_frame [simp]:
  "ptr_is p (s\<lparr>mi_p0 := a\<rparr>) = ptr_is p s" "ptr_is p (s\<lparr>mi_p1 := a\<rparr>) = ptr_is p s"
  "ptr_is p (s\<lparr>mi_p0_pc := b\<rparr>) = ptr_is p s" "ptr_is p (s\<lparr>mi_p1_pc := b\<rparr>) = ptr_is p s"
  "ptr_is p (s\<lparr>mi_npc := b\<rparr>) = ptr_is p s" "ptr_is p (s\<lparr>mi_trap := c\<rparr>) = ptr_is p s"
  "ptr_is p (s\<lparr>mi_memstart := c\<rparr>) = ptr_is p s" "ptr_is p (s\<lparr>mi_memop := c\<rparr>) = ptr_is p s"
  "ptr_is p (s\<lparr>mi_map_seen := d\<rparr>) = ptr_is p s" "ptr_is p (s\<lparr>mi_new_md_delay := f\<rparr>) = ptr_is p s"
  "ptr_is p (s\<lparr>mi_executed := h\<rparr>) = ptr_is p s"
  by (simp_all add: ptr_is_def)

lemma ptr_machine: "ptr_is p s \<Longrightarrow> mc_spcptr m = mc_spcptr (mi_m s) \<Longrightarrow> ptr_is p (s\<lparr>mi_m := m\<rparr>)"
  by (simp add: ptr_is_def)

lemma ptr_kept: "kept s t \<Longrightarrow> ptr_is p s \<Longrightarrow> ptr_is p t"
  by (simp add: kept_def ptr_is_def)

lemmas ptr_ops = ptr_kept [OF kept_edge [OF _ kept_refl]] ptr_kept [OF kept_charge [OF kept_refl]]
  ptr_kept [OF kept_opc_clock [OF kept_refl]] ptr_kept [OF kept_land_map_write [OF kept_refl]]
  ptr_kept [OF kept_speedclk [OF kept_refl]] ptr_kept [OF kept_cycles(1) [OF _ kept_refl]]
  ptr_kept [OF kept_cycles(2) [OF _ kept_refl]] ptr_kept [OF kept_write_goes_out [OF _ kept_refl]]
  ptr_kept [OF kept_halted [OF _ kept_refl]] ptr_kept [OF kept_end [OF _ kept_refl]]
  ptr_kept [OF kept_land_writes [OF kept_refl]]

lemma ptr_advance: "ptr_is p s \<Longrightarrow> ptr_is p (advance_pipeline s)"
  unfolding advance_pipeline_def by (intro ptr_flow ptr_ops) (simp_all add: ptr_machine)

lemma ptr_begin: "bus_frame e \<Longrightarrow> ptr_is p s \<Longrightarrow> ptr_is p (begin_microcycle e s)"
  unfolding begin_microcycle_def
  by (intro ptr_flow ptr_ops ptr_advance) (simp_all add: ptr_machine ptr_ops)

text \<open>
  The SPC pointer counts at most once a microcycle. Whatever pushes and pops one instruction asks for,
  by its source, its destination, its jump or dispatch, \<open>POPJ-AFTER-NEXT\<close> and a fused return, a step leaves
  the pointer where it was or one away from it, around the ring of 32.
\<close>

theorem spc_counts_once:
  assumes "bus_frame e" "micro_reach e g s"
  defines "p \<equiv> mc_spcptr (mi_m s)"
  shows "mc_spcptr (mi_m (step e s)) \<in> {p, p + 1 AND 31, p - 1 AND 31}"
proof -
  have p: "p < 32" unfolding p_def by (rule spcptr_low [OF micro_reach_at [OF assms(2,1)]])
  have near: "ptr_is p u \<Longrightarrow> spc_near p u" for u :: "'a micro" by (simp add: ptr_is_def spc_near_def)
  define t where "t = s\<lparr>mi_executed := None\<rparr>"
  have t: "ptr_is p t" by (simp add: t_def ptr_is_def p_def)
  have b: "ptr_is p (begin_microcycle e t)" by (rule ptr_begin [OF assms(1) t])
  have x: "spc_near p (end_microcycle e (execute e (begin_microcycle e t)))"
    using b by (intro spc_kept(3) [OF kept_end [OF assms(1) kept_refl]] execute_near [OF assms(1) _ p]) (simp add: ptr_is_def)
  have n: "ptr_is p (u\<lparr>mi_inhibit := False, mi_oal := False, mi_oah := False, mi_halted := False\<rparr>) = ptr_is p u" for u :: "'a micro"
    by (simp add: ptr_is_def)
  have "spc_near p (step e s)"
    using x near [OF ptr_ops(9) [OF assms(1) t]] b
      near [OF ptr_ops(10) [OF assms(1) ptr_ops(11)], of "begin_microcycle e t\<lparr>mi_inhibit := False, mi_oal := False,
        mi_oah := False, mi_halted := False\<rparr>"]
    unfolding step_def t_def [symmetric] by (simp add: Let_def n)
  then show ?thesis by (simp add: spc_near_def p_def)
qed

lemma spc_counts_once_witness:
  "let s = mi_boot (micro_new (machine_with_geometry QUUX ()))
   in mc_spcptr (mi_m (step no_boards s)) \<in> {0, 1, 31}"
proof -
  have "machine_at QUUX (machine_with_geometry QUUX ())"
    by (rule machine_at_power_on) (simp add: machines_def)
  then have "micro_reach no_boards QUUX (mi_boot (micro_new (machine_with_geometry QUUX ())))"
    by (intro micro_reach.intros)
  from spc_counts_once [OF no_boards_frame this] show ?thesis
    by (simp add: mi_boot_def Let_def reset_console_registers_def micro_new_def machine_with_geometry_def)
qed

section \<open>The stack as a list\<close>

text \<open>
  The microstack from its top down: the word at the pointer less \<open>k\<close>, the word still to land there if one is.
\<close>

definition spc_seen :: "'d micro \<Rightarrow> nat \<Rightarrow> u32" where
  "spc_seen s k =
     (let p = (mc_spcptr (mi_m s) - of_nat k) AND 31
      in case mi_spc_write s of
           Some (q, w) \<Rightarrow> if q = p then w else mc_spc (mi_m s) ! unat p
         | None \<Rightarrow> mc_spc (mi_m s) ! unat p)"

definition spc_stack :: "'d micro \<Rightarrow> u32 list" where
  "spc_stack s = map (spc_seen s) [0..<32]"

lemma uint_low5: "uint (x AND 31 :: u8) = uint x mod 32"
  using uint_and_mask_mod [of x 5] by (simp add: mask_eq_exp_minus_1)

lemma uint_small: "k < 32 \<Longrightarrow> uint (of_nat k :: u8) = int k"
  by (simp add: uint_nat unat_of_nat)

lemma mod_256_32: "(a mod 256) mod 32 = a mod (32 :: int)"
  by (rule mod_mod_cancel) simp

lemma ring_minus:
  fixes p :: u8
  shows "(p + 1 AND 31) - of_nat (Suc k) AND 31 = p - of_nat k AND 31"
    "(p - 1 AND 31) - of_nat k AND 31 = p - of_nat (Suc k) AND 31"
  unfolding word_uint_eq_iff uint_low5 uint_word_ariths mod_256_32
  by (simp_all add: mod_256_32 mod_simps algebra_simps uint_word_ariths)


lemma ring_apart:
  fixes p :: u8
  assumes "k < 31"
  shows "p + 1 AND 31 \<noteq> p - of_nat k AND 31"
proof
  assume "p + 1 AND 31 = p - of_nat k AND 31"
  then have "(uint p + 1) mod 32 = (uint p - int k) mod 32"
    using assms unfolding word_uint_eq_iff uint_low5 uint_word_ariths mod_256_32 by (simp add: uint_small mod_simps mod_256_32)
  then have "(uint p + 1 - (uint p - int k)) mod 32 = 0" by (metis mod_diff_right_eq mod_diff_left_eq diff_self mod_0)
  then show False using assms by simp
qed

lemma ring_low: "p < 32 \<Longrightarrow> p - of_nat 0 AND 31 = (p :: u8)"
  using less_mask_eq [of p 5] by (simp add: mask_eq_exp_minus_1)

lemma ring_less: "unat (x AND 31 :: u8) < 32"
  using unat_and_mask_less [of 5 x] by (simp add: mask_eq_exp_minus_1)

lemma spc_stack_nth [simp]: "k < 32 \<Longrightarrow> spc_stack s ! k = spc_seen s k" "length (spc_stack s) = 32"
  by (simp_all add: spc_stack_def)

lemma stack_push:
  assumes "micro_at g s" "mi_spc_write s = None" "\<not> mi_spc_popped s"
  shows "spc_stack (push_spc w s) = w # butlast (spc_stack s)"
proof (rule nth_equalityI)
  define p where "p = mc_spcptr (mi_m s)"
  have seen: "spc_seen (push_spc w s) 0 = w"
    using assms(3) by (simp add: spc_seen_def push_spc_def set_spcptr_def Let_def)
  have low: "(p + 1 AND 31) - of_nat (Suc k) AND 31 = p - of_nat k AND 31" for k by (rule ring_minus)
  have "spc_seen (push_spc w s) (Suc k) = spc_seen s k" if "k < 31" for k
    using assms(2,3) ring_apart [OF that, of p] low [of k]
    by (simp add: spc_seen_def push_spc_def set_spcptr_def Let_def p_def [symmetric] del: of_nat_Suc)
  then show "spc_stack (push_spc w s) ! i = (w # butlast (spc_stack s)) ! i" if "i < length (spc_stack (push_spc w s))" for i
    using that seen by (cases i) (simp_all add: nth_butlast)
qed simp

lemma stack_land:
  assumes "micro_at g s"
  shows "spc_stack (land_writes s) = spc_stack s"
proof (rule nth_equalityI)
  have q: "mi_spc_write s = Some (q, w) \<Longrightarrow> unat q < 32" for q w
    using micro_atD(5) [OF assms] by (simp add: word_less_nat_alt)
  have len: "length (mc_spc (mi_m s)) = 32" by (rule micro_lengths(1) [OF assms])
  have "spc_seen (land_writes s) k = spc_seen s k" for k
    using q len
    by (auto simp: spc_seen_def land_writes_def Let_def nth_list_update word_unat_eq_iff split: option.splits)
  then show "spc_stack (land_writes s) ! i = spc_stack s ! i" if "i < length (spc_stack (land_writes s))" for i
    using that by simp
qed simp

lemma stack_pop:
  assumes "micro_at g s" "\<not> mi_spc_pushed s" "\<not> mi_spc_popped s"
  shows "fst (pop_spc s) = hd (spc_stack s)" "spc_stack (snd (pop_spc s)) = rotate1 (spc_stack s)"
proof -
  define p where "p = mc_spcptr (mi_m s)"
  have p: "p < 32" unfolding p_def by (rule spcptr_low [OF assms(1)])
  have hd: "hd (spc_stack s) = spc_seen s 0" by (simp add: spc_stack_def upt_rec)
  have p31: "p AND 31 = p" using ring_low [OF p] by simp
  show "fst (pop_spc s) = hd (spc_stack s)"
    using assms(2,3) p31
    by (simp add: hd spc_seen_def pop_spc_def Let_def p_def [symmetric] split: option.split)
  have s: "spc_seen (snd (pop_spc s)) k = spc_seen s (Suc k)" for k
    using assms(2,3) ring_minus(2) [of p k]
    by (simp add: spc_seen_def pop_spc_def set_spcptr_def Let_def p_def [symmetric] del: of_nat_Suc
        split: option.split)
  have "mc_spcptr (mi_m s) - 32 AND 31 = mc_spcptr (mi_m s) AND 31"
    unfolding word_uint_eq_iff uint_low5 uint_word_ariths mod_256_32 by (simp add: mod_256_32)
  then have wrap: "spc_seen s 32 = spc_seen s 0" by (simp add: spc_seen_def Let_def)
  show "spc_stack (snd (pop_spc s)) = rotate1 (spc_stack s)"
  proof (rule nth_equalityI)
    fix i assume "i < length (spc_stack (snd (pop_spc s)))"
    then show "spc_stack (snd (pop_spc s)) ! i = rotate1 (spc_stack s) ! i"
      using s [of i] wrap by (cases "i = 31") (simp_all add: nth_rotate1)
  qed simp
qed

text \<open>
  C4: the microstack is a list. Seen from its top down, with the word still to land taken into account, a push
  puts its word in front and drops the deepest, a landing write changes nothing, and a pop gives the
  front and turns the ring of 32, so that a return takes exactly what the call it matches left.
\<close>

theorem spc_refines_a_list:
  assumes "micro_at g s"
  shows "(mi_spc_write s = None \<and> \<not> mi_spc_popped s \<longrightarrow> spc_stack (push_spc w s) = w # butlast (spc_stack s)) \<and>
    spc_stack (land_writes s) = spc_stack s \<and>
    (\<not> mi_spc_pushed s \<and> \<not> mi_spc_popped s \<longrightarrow>
      fst (pop_spc s) = hd (spc_stack s) \<and> spc_stack (snd (pop_spc s)) = rotate1 (spc_stack s))"
  using stack_push [OF assms] stack_land [OF assms] stack_pop [OF assms] by blast

lemma spc_refines_a_list_witness:
  "let s = micro_new (machine_with_geometry CADR ())
   in spc_stack (push_spc 5 s) = 5 # replicate 31 0"
proof -
  let ?s = "micro_new (machine_with_geometry CADR ())"
  have at: "micro_at CADR ?s" by (intro micro_at_new machine_at_power_on) (simp add: machines_def)
  have "spc_stack ?s = replicate 32 0"
    by (rule nth_equalityI) (simp_all add: spc_seen_def micro_new_def machine_with_geometry_def ring_less)
  moreover have "mi_spc_write ?s = None" "\<not> mi_spc_popped ?s" by (simp_all add: micro_new_def)
  ultimately show ?thesis
    using spc_refines_a_list [OF at, of 5] by (simp add: butlast_conv_take)
qed

end
