(* ===== verification/MicroPipe.thy ===== *)
theory MicroPipe
  imports MicroStack
begin

text \<open>
  The order in which the engine runs instructions: the pipeline of one fetched word, the inhibited microcycle,
  and the words the OA registers modify.
\<close>

section \<open>The pipeline through an instruction\<close>

lemma pipe_kept: "kept s t \<Longrightarrow> pipe z s \<Longrightarrow> pipe z t"
  by (simp add: kept_def pipe_def)

lemmas pipe_flow = flow_rules [where P = "pipe z" for z]

lemma pipe_frame [simp]:
  "pipe z (s\<lparr>mi_npc := a\<rparr>) = pipe z s" "pipe z (s\<lparr>mi_inhibit := b\<rparr>) = pipe z s" "pipe z (s\<lparr>mi_popj := b\<rparr>) = pipe z s"
  "pipe z (s\<lparr>mi_nopped := n\<rparr>) = pipe z s" "pipe z (s\<lparr>mi_out := w\<rparr>) = pipe z s" "pipe z (s\<lparr>mi_alu_out := w\<rparr>) = pipe z s"
  "pipe z (s\<lparr>mi_old_q := w\<rparr>) = pipe z s" "pipe z (s\<lparr>mi_m := m\<rparr>) = pipe z s" "pipe z (s\<lparr>mi_spc_pushed := b\<rparr>) = pipe z s"
  "pipe z (s\<lparr>mi_spc_popped := b\<rparr>) = pipe z s" "pipe z (s\<lparr>mi_operand := x\<rparr>) = pipe z s"
  "pipe z (s\<lparr>mi_halted := b\<rparr>) = pipe z s" "pipe z (s\<lparr>mi_mdata := w\<rparr>) = pipe z s" "pipe z (s\<lparr>mi_adata := w\<rparr>) = pipe z s"
  "pipe z (s\<lparr>mi_iwr := v\<rparr>) = pipe z s" "pipe z (s\<lparr>mi_pushed := b\<rparr>) = pipe z s" "pipe z (s\<lparr>mi_macro_write := y\<rparr>) = pipe z s"
  "pipe z (s\<lparr>mi_aaddr := a\<rparr>) = pipe z s" "pipe z (s\<lparr>mi_maddr := c\<rparr>) = pipe z s"
  by (simp_all add: pipe_def)

lemma pipe_spc [keeps_it]:
  "pipe z s \<Longrightarrow> pipe z (set_spcptr p s)" "pipe z s \<Longrightarrow> pipe z (push_spc w s)" "pipe z s \<Longrightarrow> pipe z (snd (pop_spc s))"
  "pipe z s \<Longrightarrow> pipe z (ignpopj x s)"
  by (simp_all add: set_spcptr_def push_spc_def pop_spc_def ignpopj_def pipe_def Let_def)

lemma pipe_return [keeps_it]:
  "pipe z s \<Longrightarrow> pipe z (snd (main_loop_return w b s))" "pipe z s \<Longrightarrow> pipe z (snd (jump_return w s))"
proof -
  have p: "pipe z s \<Longrightarrow> pipe z (snd (pop_asks_for_a_fetch w s))" by (rule pipe_kept [OF kept_pop_asks [OF kept_refl]])
  then show m: "pipe z s \<Longrightarrow> pipe z (snd (main_loop_return w b s))" for b
    unfolding main_loop_return_def by (intro pipe_flow) (simp_all add: pipe_spc)
  show "pipe z s \<Longrightarrow> pipe z (snd (jump_return w s))"
    using m p by (simp add: jump_return_def)
qed

lemma pipe_pop_target [keeps_it]:
  "(\<And>t s. pipe z s \<Longrightarrow> pipe z (snd (ret t s))) \<Longrightarrow> pipe z s \<Longrightarrow> pipe z (snd (pop_target ret s))"
  unfolding pop_target_def by (intro pipe_flow pipe_spc) simp_all

lemma pipe_functional [keeps_it]:
  "bus_frame e \<Longrightarrow> pipe z s \<Longrightarrow> pipe z (write_functional e d w s)"
  "pipe z s \<Longrightarrow> pipe z (snd (read_functional c s))"
proof -
  assume "bus_frame e" "pipe z s"
  then show "pipe z (write_functional e d w s)"
    by (cases "decode_dest d = 0xd")
      (simp add: write_functional_def pipe_spc, rule pipe_kept [OF kept_write_functional [OF _ _ kept_refl]])
next
  assume "pipe z s"
  then show "pipe z (snd (read_functional c s))"
    by (cases "c AND 0xf = 0xc")
      (simp add: read_functional_def Let_def pipe_spc, rule pipe_kept [OF kept_read_functional [OF _ kept_refl]])
qed

lemma pipe_write_dest [keeps_it]: "bus_frame e \<Longrightarrow> pipe z s \<Longrightarrow> pipe z (write_dest e d s)"
  by (simp add: write_dest_def Let_def pipe_functional)

lemmas pipe_ops = pipe_kept [OF kept_q(1) [OF kept_refl]] pipe_kept [OF kept_q(2) [OF kept_refl]]
  pipe_kept [OF kept_condition [OF kept_refl]] pipe_kept [OF kept_step_lc [OF _ kept_refl]]
  pipe_kept [OF kept_land_writes [OF kept_refl]] pipe_kept [OF kept_macro_write_lands [OF kept_refl]]
  pipe_kept [OF kept_end [OF _ kept_refl]] pipe_kept [OF kept_land_map_write [OF kept_refl]]

lemma pipe_alu: "bus_frame e \<Longrightarrow> pipe z s \<Longrightarrow> pipe z (mi_alu e s)"
  unfolding mi_alu_def by (intro pipe_flow pipe_write_dest) (simp_all add: pipe_ops)

lemma pipe_byte: "bus_frame e \<Longrightarrow> pipe z s \<Longrightarrow> pipe z (mi_byte e s)"
  unfolding mi_byte_def byte_13_def by (intro pipe_flow pipe_write_dest) simp_all

lemma pipe_jump: "pipe z s \<Longrightarrow> pipe z (jump e s)"
  unfolding jump_def Let_def case_prod_beta
  by (simp add: pipe_ops pipe_spc pipe_pop_target pipe_return)

lemma pipe_dispatch: "bus_frame e \<Longrightarrow> pipe z s \<Longrightarrow> pipe z (dispatch e s)"
  by (simp add: dispatch_def dispatch_write_def dispatch_go_def Let_def case_prod_beta pipe_ops pipe_spc
      pipe_pop_target pipe_return)

lemma pipe_run_class: "bus_frame e \<Longrightarrow> pipe z s \<Longrightarrow> pipe z (run_class e s)"
  by (simp add: run_class_def pipe_alu pipe_byte pipe_jump pipe_dispatch split: op.split)

lemma pipe_operands: "pipe z s \<Longrightarrow> pipe z (operands s)"
  by (simp add: operands_def Let_def case_prod_beta pipe_ops pipe_functional)

lemma pipe_popj: "pipe z s \<Longrightarrow> pipe z (popj_after_next s)"
  by (simp add: popj_after_next_def case_prod_beta pipe_pop_target pipe_return)

lemma pipe_execute: "bus_frame e \<Longrightarrow> pipe z (modify s) \<Longrightarrow> pipe z (execute e s)"
  unfolding execute_def Let_def
  by (intro pipe_ops(6) pipe_popj) (simp add: pipe_run_class pipe_operands)


section \<open>Up to the instruction\<close>

text \<open>
  While no reset or boot is asked for, the master clock's edges leave what the next instruction is made
  from; and the pipeline's advance takes the instruction fetched before and fetches the next one.
\<close>

definition quiet :: "'d micro \<Rightarrow> 'd micro \<Rightarrow> bool" where
  "quiet z s \<longleftrightarrow> mi_p1 s = mi_p1 z \<and> mi_p1_pc s = mi_p1_pc z \<and> mi_npc s = mi_npc z \<and> mi_inhibit s = mi_inhibit z \<and>
     mi_oal s = mi_oal z \<and> mi_oah s = mi_oah z \<and> mi_oa_low s = mi_oa_low z \<and> mi_oa_high s = mi_oa_high z \<and>
     mi_executed s = mi_executed z \<and>
     mi_write_out s = mi_write_out z \<and> mc_debug_ir (mi_m s) = mc_debug_ir (mi_m z) \<and>
     mc_imem (mi_m s) = mc_imem (mi_m z) \<and> mc_prom (mi_m s) = mc_prom (mi_m z) \<and> mc_mode (mi_m s) = mc_mode (mi_m z) \<and>
     mc_geometry (mi_m s) = mc_geometry (mi_m z) \<and> mc_clock_control (mi_m s) = mc_clock_control (mi_m z) \<and>
     \<not> mc_prog_boot (mi_m s) \<and> \<not> mc_prog_reset (mi_m s)"

text \<open>The word the next microcycle takes: the one fetched, or under IDEBUG the debug instruction register's.\<close>

definition issued :: "'d micro \<Rightarrow> insn" where
  "issued s = (if clkc_idebug (mc_clock_control (mi_m s)) then Insn_new (mc_debug_ir (mi_m s)) else mi_p1 s)"

definition advanced :: "'d micro \<Rightarrow> 'd micro \<Rightarrow> bool" where
  "advanced z s \<longleftrightarrow> mi_p0 s = issued z \<and> mi_p0_pc s = mi_p1_pc z \<and> mi_p1 s = fetch (mi_npc z) (mi_m z) \<and>
     mi_p1_pc s = mi_npc z \<and> mi_inhibit s = mi_inhibit z \<and> mi_oal s = mi_oal z \<and> mi_oah s = mi_oah z \<and>
     mi_oa_low s = mi_oa_low z \<and> mi_oa_high s = mi_oa_high z \<and> mi_executed s = mi_executed z \<and>
     mc_clock_control (mi_m s) = mc_clock_control (mi_m z)"

lemma quiet_frame [simp]:
  "quiet z (s\<lparr>mi_trap := b\<rparr>) = quiet z s" "quiet z (s\<lparr>mi_nopped := n\<rparr>) = quiet z s"
  by (simp_all add: quiet_def)

lemma boards_kept:
  assumes "only_boards m m'"
  shows "mc_imem m' = mc_imem m" "mc_prom m' = mc_prom m" "mc_mode m' = mc_mode m" "mc_geometry m' = mc_geometry m"
    "mc_clock_control m' = mc_clock_control m" "mc_prog_boot m' = mc_prog_boot m" "mc_prog_reset m' = mc_prog_reset m"
    "mc_debug_ir m' = mc_debug_ir m"
proof -
  obtain b where "m' = m\<lparr>mc_boards := b\<rparr>" using assms unfolding only_boards_def by blast
  then show "mc_imem m' = mc_imem m" "mc_prom m' = mc_prom m" "mc_mode m' = mc_mode m" "mc_geometry m' = mc_geometry m"
    "mc_clock_control m' = mc_clock_control m" "mc_prog_boot m' = mc_prog_boot m" "mc_prog_reset m' = mc_prog_reset m"
    "mc_debug_ir m' = mc_debug_ir m"
    by simp_all
qed

lemma quiet_edge:
  assumes "bus_frame e" "quiet z s"
  shows "quiet z (mi_mclk_edge e s)"
proof -
  have "only_boards (mi_m s) (bus_advance e (mi_m s))" by (rule bus_frame_boards [OF assms(1)])
  note k = boards_kept [OF this]
  show ?thesis using assms(2) by (simp add: mi_mclk_edge_def Let_def quiet_def k)
qed

lemma quiet_ops:
  "quiet z s \<Longrightarrow> quiet z (speedclk s)" "quiet z s \<Longrightarrow> quiet z (charge b s)"
  by (simp_all add: speedclk_def charge_def quiet_def)

lemma quiet_nops: "bus_frame e \<Longrightarrow> quiet z s \<Longrightarrow> quiet z (nop_cycles e n s)"
  by (induction n arbitrary: s) (simp_all add: quiet_edge quiet_ops)

lemma quiet_held: "bus_frame e \<Longrightarrow> quiet z s \<Longrightarrow> quiet z (div_cycles e ilong n s)"
  by (induction n arbitrary: s) (simp_all add: quiet_edge quiet_ops)

lemma fetch_same:
  "mc_geometry m' = mc_geometry m \<Longrightarrow> mc_imem m' = mc_imem m \<Longrightarrow> mc_prom m' = mc_prom m \<Longrightarrow> mc_mode m' = mc_mode m \<Longrightarrow>
    fetch pc m' = fetch pc m"
  by (simp add: fetch_def Let_def split: option.split)

lemma advanced_by_pipeline:
  assumes "quiet z s"
  shows "advanced z (advance_pipeline s)"
proof -
  have "fetch (mi_npc s) (mi_m s) = fetch (mi_npc z) (mi_m z)"
    using assms fetch_same [of "mi_m s" "mi_m z"] by (simp add: quiet_def)
  then show ?thesis
    using assms by (simp add: advance_pipeline_def opc_clock_def Let_def advanced_def quiet_def issued_def)
qed

lemma advanced_frame [simp]:
  "advanced z (s\<lparr>mi_memstart := b\<rparr>) = advanced z s" "advanced z (s\<lparr>mi_memop := b\<rparr>) = advanced z s"
  "advanced z (s\<lparr>mi_map_seen := t\<rparr>) = advanced z s" "advanced z (s\<lparr>mi_new_md_delay := d\<rparr>) = advanced z s"
  "advanced z (s\<lparr>mi_map_write_d := w\<rparr>) = advanced z s"
  "advanced z (on_m (\<lambda>m. m\<lparr>mc_md := v\<rparr>) s) = advanced z s"
  by (simp_all add: advanced_def)

lemma advanced_map_write: "advanced z s \<Longrightarrow> advanced z (land_map_write s)"
  by (simp add: land_map_write_def advanced_def split: option.split prod.split)

lemma advanced_begin:
  assumes "bus_frame e" "quiet z s" "muldiv_decode (mi_p1 z) = Some Div \<longrightarrow> mi_write_out z = None"
  shows "advanced z (begin_microcycle e s)"
proof -
  have held: "quiet z (div_cycles e ilong n (write_goes_out e u))" if "quiet z u" "muldiv_decode (mi_p1 u) = Some Div" for u ilong n
  proof -
    have "write_goes_out e u = u" using that assms(3) by (simp add: quiet_def write_goes_out_def)
    then show ?thesis using quiet_held [OF assms(1) that(1)] by simp
  qed
  show ?thesis
    unfolding begin_microcycle_def
    apply (rule flow_let_from(1) [where Q = "quiet z" and P = "advanced z"], rule quiet_nops [OF assms(1,2)])
    apply (rule flow_let_from(1) [where Q = "quiet z" and P = "advanced z"], erule quiet_ops)
    apply (rule flow_value(1) [where P = "advanced z"])+
    apply (rule flow_let_from(1) [where Q = "quiet z" and P = "advanced z"], simp)
    apply (rule flow_value(1) [where P = "advanced z"])
    apply (rule flow_let_from(1) [where Q = "quiet z" and P = "advanced z"], simp add: held)
    apply (rule flow_let_from(1) [where Q = "advanced z" and P = "advanced z"])
     apply (rule advanced_by_pipeline, intro quiet_edge assms(1) quiet_ops, assumption)
    by (intro flow_rules [where P = "advanced z"] advanced_map_write) simp_all
qed

text \<open>The instruction the OA registers make of a word: each is ORed in while its write is pending.\<close>

definition oa_modified :: "'d micro \<Rightarrow> insn \<Rightarrow> insn" where
  "oa_modified s w =
     (let w = (if mi_oal s then Insn_new (w OR mi_oa_low s) else w)
      in if mi_oah s then Insn_new (w OR push_bit 26 (mi_oa_high s)) else w)"

text \<open>
  C3: the order instructions run in. While the machine runs and no reset is asked for, a step executes the
  word fetched the step before (or, under IDEBUG, the debug instruction register's), with what is pending in the OA
  registers ORed into it and into no other, unless a jump's inhibit or the console nops it, in which case it
  executes nothing; and it fetches the word at the program counter as it stood before the step, once, also when
  QUUX's divider holds the microcycle off for a DIV. So what a jump, a dispatch or a return puts in the counter is
  fetched one step later and runs two steps later: the word after the jump always comes in between, executed
  or inhibited. A DIV held with a write still to go out is left out, since the write can be to the console's registers.
\<close>

theorem delayed_branch:
  assumes "bus_frame e" "mi_srun s" "\<not> (mode_errstop (mc_mode (mi_m s)) \<and> mi_halted s)"
    "\<not> mc_prog_boot (mi_m s)" "\<not> mc_prog_reset (mi_m s)"
    "muldiv_decode (mi_p1 s) = Some Div \<longrightarrow> mi_write_out s = None"
  defines "nopped \<equiv> mi_inhibit s \<or> clkc_nop11 (mc_clock_control (mi_m s))"
  shows "mi_p1_pc (step e s) = mi_npc s \<and> mi_p1 (step e s) = fetch (mi_npc s) (mi_m s) \<and>
    mi_executed (step e s) = (if nopped then None else Some (mi_p1_pc s)) \<and>
    (\<not> nopped \<longrightarrow> mi_p0 (step e s) = oa_modified s (issued s))"
proof -
  define z where "z = s\<lparr>mi_executed := None\<rparr>"
  define t where "t = begin_microcycle e z"
  have "quiet z z" using assms(4,5) by (simp add: quiet_def z_def)
  then have t: "advanced z t"
    unfolding t_def using assms(6) by (intro advanced_begin assms(1)) (simp_all add: z_def)
  have n: "mi_inhibit t \<or> clkc_nop11 (mc_clock_control (mi_m t)) \<longleftrightarrow> nopped"
    using t by (simp add: advanced_def nopped_def z_def)
  have iz: "issued z = issued s" by (simp add: issued_def z_def)
  have z: "mi_m z = mi_m s" "mi_srun z = mi_srun s" "mi_halted z = mi_halted s" by (simp_all add: z_def)
  have running: "step e s = (if mi_inhibit t \<or> clkc_nop11 (mc_clock_control (mi_m t))
      then end_microcycle e (land_writes (t\<lparr>mi_inhibit := False, mi_oal := False, mi_oah := False, mi_halted := False\<rparr>))
      else end_microcycle e (execute e t))"
    using assms(2,3) unfolding step_def z_def [symmetric] Let_def t_def [symmetric] z by simp
  show ?thesis
  proof (cases nopped)
    case True
    define u where "u = t\<lparr>mi_inhibit := False, mi_oal := False, mi_oah := False, mi_halted := False\<rparr>"
    have "step e s = end_microcycle e (land_writes u)"
      using True n by (simp add: running u_def)
    moreover have "pipe u (end_microcycle e (land_writes u))"
      by (intro pipe_ops(5) pipe_ops(7) assms(1)) (simp add: pipe_def)
    ultimately show ?thesis
      using t True by (simp add: pipe_def u_def advanced_def z_def)
  next
    case False
    then have "step e s = end_microcycle e (execute e t)"
      using n by (simp add: running)
    moreover have "pipe (modify t) (end_microcycle e (execute e t))"
      by (intro pipe_ops(7) pipe_execute assms(1)) (simp add: pipe_def)
    ultimately show ?thesis
      using t False iz by (simp add: pipe_def modify_def Let_def oa_modified_def advanced_def z_def)
  qed
qed

text \<open>QUUX about to run a DIV, fetched from its PROM's first word.\<close>

definition at_div :: "unit micro" where
  "at_div = (mi_boot (micro_new (machine_with_geometry QUUX ())))\<lparr>mi_inhibit := False, mi_p1 := 0x118, mi_p1_pc := 7\<rparr>"

lemma delayed_branch_witness:
  "muldiv_decode (mi_p1 at_div) = Some Div \<and> mi_p1_pc (step no_boards at_div) = QUUX_PROM_BASE \<and>
    mi_executed (step no_boards at_div) = Some 7 \<and> mi_p0 (step no_boards at_div) = mi_p1 at_div"
proof -
  have "muldiv_decode (mi_p1 at_div) = Some Div" by (simp add: at_div_def) code_simp
  moreover have "mi_srun at_div" "\<not> mi_inhibit at_div" "mi_npc at_div = QUUX_PROM_BASE" "\<not> mode_errstop (mc_mode (mi_m at_div))"
    "\<not> mc_prog_boot (mi_m at_div)" "\<not> mc_prog_reset (mi_m at_div)" "\<not> clkc_idebug (mc_clock_control (mi_m at_div))"
    "\<not> clkc_nop11 (mc_clock_control (mi_m at_div))" "mi_write_out at_div = None" "mi_p1_pc at_div = 7" "\<not> mi_oal at_div" "\<not> mi_oah at_div"
    by (simp_all add: at_div_def mi_boot_def Let_def micro_new_def machine_with_geometry_def reset_console_registers_def
        reset_pc_def geometries mode_default_def clock_control_default_def)
  ultimately show ?thesis
    using delayed_branch [OF no_boards_frame, of at_div] by (simp add: issued_def oa_modified_def)
qed

end
