(* ===== verification/TvSync.thy ===== *)
theory TvSync
  imports Prelude
begin

text \<open>
  The display board's sync program, \<open>src/tv/sync.rs\<close>: a byte an instruction, run in loops of a count byte and its
  instructions, and the timeline one run of it draws: the changes of the two sync lines, the scan lines,
  and the times the video address is cleared, which raise the vertical flag. Times are natural numbers of
  nanoseconds.
\<close>

section \<open>Instructions\<close>

definition INSTRUCTION_NS :: "nat list" where "INSTRUCTION_NS = [500, 500, 625, 625]"
definition MOST_INSTRUCTIONS :: nat where "MOST_INSTRUCTIONS = 3 * 349440"
definition NO_TIME :: nat where "NO_TIME = 2 ^ 64 - 1"

datatype sync_cycle = ProcessorCycle | RefreshCycle | VideoCycle | EndOfLineCycle
datatype sync_special = NoSpecial | TvmaClr | EndOfLoop | EndOfProgram

definition ins_hsync :: "u8 \<Rightarrow> bool" where "ins_hsync i \<longleftrightarrow> i AND 1 \<noteq> 0"
definition ins_vsync :: "u8 \<Rightarrow> bool" where "ins_vsync i \<longleftrightarrow> i AND 2 \<noteq> 0"
definition ins_composite :: "u8 \<Rightarrow> bool" where "ins_composite i \<longleftrightarrow> i AND 4 \<noteq> 0"
definition ins_blank :: "u8 \<Rightarrow> bool" where "ins_blank i \<longleftrightarrow> i AND 8 \<noteq> 0"

definition ins_cycle :: "u8 \<Rightarrow> sync_cycle" where
  "ins_cycle i =
     (let k = drop_bit 4 i AND 3
      in if k = 0 then ProcessorCycle else if k = 1 then RefreshCycle else if k = 2 then VideoCycle else EndOfLineCycle)"

definition ins_special :: "u8 \<Rightarrow> sync_special" where
  "ins_special i =
     (let k = drop_bit 6 i AND 3
      in if k = 0 then NoSpecial else if k = 1 then TvmaClr else if k = 2 then EndOfLoop else EndOfProgram)"

section \<open>The timeline\<close>

record line =
  ln_at_ns :: nat
  ln_instructions :: u32
  ln_video_cycles :: u32
  ln_blanked :: bool

record timeline =
  tl_period_ns :: nat
  tl_instructions :: nat
  tl_changes :: "(nat \<times> bool \<times> bool) list"
  tl_tvma_clr :: "nat list"
  tl_lines :: "line list"

text \<open>What the run of the program carries from instruction to instruction: the loop's local variables.\<close>

record drawing =
  dr_t :: nat
  dr_executed :: nat
  dr_changes :: "(nat \<times> bool \<times> bool) list"
  dr_tvma_clr :: "nat list"
  dr_lines :: "line list"
  dr_sync :: "bool \<times> bool"

definition word_at :: "u8 list \<Rightarrow> nat \<Rightarrow> u8 option" where
  "word_at program p = (if p < length program then Some (program ! p) else None)"

text \<open>One instruction; \<open>None\<close> when the run has taken too many.\<close>

definition draw :: "nat \<Rightarrow> u8 \<Rightarrow> line \<Rightarrow> drawing \<Rightarrow> (line \<times> drawing) option" where
  "draw step w ln d =
     (let d = d\<lparr>dr_executed := dr_executed d + 1\<rparr>
      in if MOST_INSTRUCTIONS < dr_executed d then None
         else
           let d = d\<lparr>dr_t := dr_t d + step\<rparr>;
               hv = (ins_hsync w, ins_vsync w);
               d = (if hv \<noteq> dr_sync d \<or> dr_changes d = []
                    then d\<lparr>dr_changes := dr_changes d @ [(dr_t d, hv)]\<rparr> else d);
               d = d\<lparr>dr_sync := hv\<rparr>;
               ln = ln\<lparr>ln_instructions := ln_instructions ln + 1\<rparr>;
               ln = (if ins_cycle w = VideoCycle \<or> ins_cycle w = EndOfLineCycle
                     then ln\<lparr>ln_video_cycles := ln_video_cycles ln + 1\<rparr> else ln);
               ln = (if \<not> ins_blank w then ln\<lparr>ln_blanked := False\<rparr> else ln);
               d = (if ins_special w = TvmaClr then d\<lparr>dr_tvma_clr := dr_tvma_clr d @ [dr_t d]\<rparr> else d)
           in Some (ln, d))"

lemma draw_counts:
  "draw step w ln d = Some (ln', d') \<Longrightarrow>
    dr_executed d' = Suc (dr_executed d) \<and> dr_executed d' \<le> MOST_INSTRUCTIONS"
  by (auto simp: draw_def Let_def split: if_splits)

text \<open>
  One pass over a loop's instructions from \<open>p\<close>: to the instruction that ends the loop or the program, and one more.
  What ended it is \<open>Some\<close> with the place after it.
\<close>

definition ended_by :: "u8 \<Rightarrow> nat \<Rightarrow> (sync_special \<times> nat) option \<Rightarrow> (sync_special \<times> nat) option" where
  "ended_by w p ended =
     (if ended = None \<and> (ins_special w = EndOfLoop \<or> ins_special w = EndOfProgram)
      then Some (ins_special w, p + 1) else ended)"

function pass :: "u8 list \<Rightarrow> nat \<Rightarrow> nat \<Rightarrow> (sync_special \<times> nat) option \<Rightarrow> line \<Rightarrow> drawing \<Rightarrow>
    (sync_special \<times> nat \<times> line \<times> drawing) option" where
  "pass program step p ended ln d =
     (case word_at program p of None \<Rightarrow> None
      | Some w \<Rightarrow>
          (case draw step w ln d of None \<Rightarrow> None
           | Some (ln, d) \<Rightarrow>
               if map_option snd (ended_by w p ended) = Some p
               then Some (fst (the (ended_by w p ended)), p, ln, d)
               else pass program step (p + 1) (ended_by w p ended) ln d))"
  by pat_completeness auto

termination
  by (relation "measure (\<lambda>(_, _, _, _, _, d). Suc MOST_INSTRUCTIONS - dr_executed d)")
    (auto dest!: draw_counts)

declare pass.simps [simp del]

text \<open>What every instruction establishes holds after a pass, which runs at least one.\<close>

lemma pass_establishes:
  assumes "\<And>w ln d ln' d'. P d \<Longrightarrow> draw step w ln d = Some (ln', d') \<Longrightarrow> P d' \<and> Q d'"
    and "P d" "pass program step p ended ln d = Some (s, after, ln', d')"
  shows "P d' \<and> Q d'"
  using assms
proof (induction program step p ended ln d rule: pass.induct)
  case (1 program step p ended ln d)
  from 1(4) obtain w ln1 d1 where w: "word_at program p = Some w" "draw step w ln d = Some (ln1, d1)"
    by (subst (asm) pass.simps) (auto split: option.splits)
  have d1: "P d1 \<and> Q d1" by (rule 1(2) [OF 1(3) w(2)])
  show ?case
  proof (cases "map_option snd (ended_by w p ended) = Some p")
    case True
    then have "d' = d1" using 1(4) by (subst (asm) pass.simps) (simp add: w)
    then show ?thesis using d1 by simp
  next
    case False
    then have "pass program step (p + 1) (ended_by w p ended) ln1 d1 = Some (s, after, ln', d')"
      using 1(4) by (subst (asm) pass.simps) (simp add: w)
    then show ?thesis using 1(1) [OF w(1,2) _ False 1(2)] d1 by simp
  qed
qed

lemma pass_counts:
  assumes "pass program step p ended ln d = Some (s, after, ln', d')"
  shows "dr_executed d < dr_executed d' \<and> dr_executed d' \<le> MOST_INSTRUCTIONS"
proof -
  have "dr_executed d \<le> dr_executed d' \<and> (dr_executed d < dr_executed d' \<and> dr_executed d' \<le> MOST_INSTRUCTIONS)"
    by (rule pass_establishes [OF _ _ assms, where P = "\<lambda>x. dr_executed d \<le> dr_executed x"])
      (auto dest!: draw_counts)
  then show ?thesis by blast
qed

text \<open>A loop's passes, each a scan line; the last one's end is the loop's.\<close>

primrec passes :: "u8 list \<Rightarrow> nat \<Rightarrow> nat \<Rightarrow> nat \<Rightarrow> (sync_special \<times> nat) \<Rightarrow> drawing \<Rightarrow>
    ((sync_special \<times> nat) \<times> drawing) option" where
  "passes program step first 0 ended d = Some (ended, d)"
| "passes program step first (Suc n) ended d =
     (case pass program step first None
        \<lparr>ln_at_ns = dr_t d, ln_instructions = 0, ln_video_cycles = 0, ln_blanked = True\<rparr> d of None \<Rightarrow> None
      | Some (s, after, ln, d) \<Rightarrow> passes program step first n (s, after) (d\<lparr>dr_lines := dr_lines d @ [ln]\<rparr>))"

lemma passes_counts:
  "passes program step first n ended d = Some (e, d') \<Longrightarrow>
    dr_executed d + n \<le> dr_executed d' \<and> (0 < n \<longrightarrow> dr_executed d' \<le> MOST_INSTRUCTIONS)"
proof (induction n arbitrary: ended d)
  case (Suc n)
  then obtain s after ln d1 where p: "pass program step first None
      \<lparr>ln_at_ns = dr_t d, ln_instructions = 0, ln_video_cycles = 0, ln_blanked = True\<rparr> d = Some (s, after, ln, d1)"
    and r: "passes program step first n (s, after) (d1\<lparr>dr_lines := dr_lines d1 @ [ln]\<rparr>) = Some (e, d')"
    by (auto split: option.splits)
  show ?case using Suc.IH [OF r] pass_counts [OF p] r by (cases n) auto
qed simp

definition iterations :: "u8 \<Rightarrow> nat" where
  "iterations count = (if count = 0 then 256 else unat count)"

lemma iterations_pos: "0 < iterations c"
  by (simp add: iterations_def unat_gt_0)

function run_program :: "u8 list \<Rightarrow> nat \<Rightarrow> nat \<Rightarrow> drawing \<Rightarrow> drawing option" where
  "run_program program step pc d =
     (case word_at program pc of None \<Rightarrow> None
      | Some count \<Rightarrow>
          (case passes program step (pc + 1) (iterations count) (NoSpecial, pc + 1) d of None \<Rightarrow> None
           | Some ((s, after), d) \<Rightarrow>
               if s = EndOfProgram then Some d
               else if s = EndOfLoop then run_program program step (after + 1) d
               else None))"
  by pat_completeness auto

termination
proof (relation "measure (\<lambda>(_, _, _, d). Suc MOST_INSTRUCTIONS - dr_executed d)", goal_cases)
  case (2 program step pc d count r e d' s after)
  then have "passes program step (pc + 1) (iterations count) (NoSpecial, pc + 1) d = Some ((s, after), d')" by simp
  from passes_counts [OF this] iterations_pos [of count] show ?case by simp linarith
qed simp

declare run_program.simps [simp del]

definition timeline_of :: "u8 list \<Rightarrow> u32 \<Rightarrow> timeline option" where
  "timeline_of program mode =
     (case run_program program (INSTRUCTION_NS ! unat (mode AND 3)) 0
        \<lparr>dr_t = 0, dr_executed = 0, dr_changes = [], dr_tvma_clr = [], dr_lines = [], dr_sync = (False, False)\<rparr> of
        None \<Rightarrow> None
      | Some d \<Rightarrow> Some \<lparr>tl_period_ns = dr_t d, tl_instructions = dr_executed d, tl_changes = dr_changes d,
          tl_tvma_clr = dr_tvma_clr d, tl_lines = dr_lines d\<rparr>)"

section \<open>Reading the timeline\<close>

text \<open>Where a sorted list stops satisfying a test, the source's \<open>partition_point\<close>.\<close>

definition partition_point :: "('a \<Rightarrow> bool) \<Rightarrow> 'a list \<Rightarrow> nat" where
  "partition_point P xs = length (takeWhile P xs)"

definition sync_at :: "timeline \<Rightarrow> nat \<Rightarrow> bool \<times> bool" where
  "sync_at tm offset =
     (let offset = offset mod tl_period_ns tm;
          k = partition_point (\<lambda>c. fst c \<le> offset) (tl_changes tm)
      in if k = 0 then (if tl_changes tm = [] then (False, False) else snd (last (tl_changes tm)))
         else snd (tl_changes tm ! (k - 1)))"

definition sync_at_since_start :: "timeline \<Rightarrow> nat \<Rightarrow> bool \<times> bool \<Rightarrow> bool \<times> bool" where
  "sync_at_since_start tm since held =
     (case tl_changes tm of
        first # _ \<Rightarrow> if since < fst first then held else sync_at tm since
      | [] \<Rightarrow> sync_at tm since)"

definition tvma_clrs_by :: "timeline \<Rightarrow> nat \<Rightarrow> nat" where
  "tvma_clrs_by tm since =
     (let runs = since div tl_period_ns tm; into = since mod tl_period_ns tm
      in runs * length (tl_tvma_clr tm) + partition_point (\<lambda>c. c \<le> into) (tl_tvma_clr tm))"

definition next_tvma_clr_after :: "timeline \<Rightarrow> nat \<Rightarrow> nat" where
  "next_tvma_clr_after tm since =
     (case tl_tvma_clr tm of [] \<Rightarrow> NO_TIME
      | first # _ \<Rightarrow>
          let runs = since div tl_period_ns tm; into = since mod tl_period_ns tm;
              k = partition_point (\<lambda>c. c \<le> into) (tl_tvma_clr tm)
          in if k < length (tl_tvma_clr tm) then runs * tl_period_ns tm + tl_tvma_clr tm ! k
             else (runs + 1) * tl_period_ns tm + first)"


section \<open>What a run draws\<close>

definition drawn :: "nat \<Rightarrow> drawing \<Rightarrow> bool" where
  "drawn step d \<longleftrightarrow> dr_t d = step * dr_executed d \<and> sorted_wrt (<) (dr_tvma_clr d) \<and>
     (\<forall>c \<in> set (dr_tvma_clr d). 0 < c \<and> c \<le> dr_t d) \<and> sorted_wrt (<) (map fst (dr_changes d)) \<and>
     (\<forall>c \<in> set (dr_changes d). fst c \<le> dr_t d)"

lemma drawn_lines [simp]: "drawn step (d\<lparr>dr_lines := ls\<rparr>) = drawn step d"
  by (simp add: drawn_def)

lemma draw_result:
  assumes "draw step w ln d = Some (ln', d')"
  shows "dr_t d' = dr_t d + step" "dr_executed d' = Suc (dr_executed d)"
    "dr_tvma_clr d' \<in> {dr_tvma_clr d, dr_tvma_clr d @ [dr_t d']}"
    "dr_changes d' = dr_changes d \<or> (\<exists>hv. dr_changes d' = dr_changes d @ [(dr_t d', hv)])"
  using assms by (simp_all add: draw_def Let_def split: if_splits) auto

lemma drawn_draw:
  assumes "0 < step" "drawn step d" "draw step w ln d = Some (ln', d')"
  shows "drawn step d'"
proof -
  note r = draw_result [OF assms(3)]
  have clr: "sorted_wrt (<) (dr_tvma_clr d)" "\<And>c. c \<in> set (dr_tvma_clr d) \<Longrightarrow> 0 < c \<and> c < dr_t d'"
    and ch: "sorted_wrt (<) (map fst (dr_changes d))" "\<And>c. c \<in> set (dr_changes d) \<Longrightarrow> fst c < dr_t d'"
    using assms(1,2) r(1) by (force simp: drawn_def)+
  have "sorted_wrt (<) (dr_tvma_clr d')" "\<forall>c \<in> set (dr_tvma_clr d'). 0 < c \<and> c \<le> dr_t d'"
    using r(1,3) clr assms(1) by (auto simp: sorted_wrt_append less_imp_le)
  moreover have "sorted_wrt (<) (map fst (dr_changes d'))" "\<forall>c \<in> set (dr_changes d'). fst c \<le> dr_t d'"
    using r(4) ch by (auto simp: sorted_wrt_append less_imp_le)
  moreover have "dr_t d' = step * dr_executed d'" using r(1,2) assms(2) by (simp add: drawn_def)
  ultimately show ?thesis unfolding drawn_def by blast
qed

lemma drawn_pass:
  assumes "0 < step" "drawn step d" "pass program step p ended ln d = Some (s, after, ln', d')"
  shows "drawn step d'"
proof -
  have "drawn step d' \<and> True"
    by (rule pass_establishes [where P = "drawn step", OF _ assms(2,3)]) (blast dest: drawn_draw [OF assms(1)])
  then show ?thesis by blast
qed

lemma drawn_passes:
  "0 < step \<Longrightarrow> drawn step d \<Longrightarrow> passes program step first n ended d = Some (e, d') \<Longrightarrow> drawn step d'"
proof (induction n arbitrary: ended d)
  case (Suc n)
  then obtain s after ln d1 where p: "pass program step first None
      \<lparr>ln_at_ns = dr_t d, ln_instructions = 0, ln_video_cycles = 0, ln_blanked = True\<rparr> d = Some (s, after, ln, d1)"
    and r: "passes program step first n (s, after) (d1\<lparr>dr_lines := dr_lines d1 @ [ln]\<rparr>) = Some (e, d')"
    by (auto split: option.splits)
  show ?case using Suc.IH [OF Suc.prems(1) _ r] drawn_pass [OF Suc.prems(1,2) p] by simp
qed simp

lemma drawn_program:
  "0 < step \<Longrightarrow> drawn step d \<Longrightarrow> run_program program step pc d = Some d' \<Longrightarrow>
    drawn step d' \<and> dr_executed d < dr_executed d' \<and> dr_executed d' \<le> MOST_INSTRUCTIONS"
proof (induction program step pc d rule: run_program.induct)
  case (1 program step pc d)
  from 1(4) obtain count s after d1 where w: "word_at program pc = Some count"
    "passes program step (pc + 1) (iterations count) (NoSpecial, pc + 1) d = Some ((s, after), d1)"
    by (subst (asm) run_program.simps) (auto split: option.splits)
  have d1: "drawn step d1" by (rule drawn_passes [OF 1(2,3) w(2)])
  have c: "dr_executed d < dr_executed d1" "dr_executed d1 \<le> MOST_INSTRUCTIONS"
    using passes_counts [OF w(2)] iterations_pos [of count] by simp_all
  consider "s = EndOfProgram" "d' = d1" | "s \<noteq> EndOfProgram" "s = EndOfLoop" "run_program program step (after + 1) d1 = Some d'"
    using 1(4) by (subst (asm) run_program.simps) (auto simp: w [simplified] split: if_splits)
  then show ?case
  proof cases
    case 2
    then show ?thesis using 1(1) [OF w(1,2) _ _ 2(1,2) 1(2) d1 2(3)] c by simp
  qed (use d1 c in auto)
qed

lemma step_pos:
  fixes mode :: u32
  shows "0 < INSTRUCTION_NS ! unat (mode AND 3)"
proof -
  have "unat (mode AND 3) < 4" using unat_and_mask_less [of 2 mode] by (simp add: mask_eq_exp_minus_1)
  then have "INSTRUCTION_NS ! unat (mode AND 3) \<in> set INSTRUCTION_NS" by (intro nth_mem) (simp add: INSTRUCTION_NS_def)
  then show ?thesis by (auto simp: INSTRUCTION_NS_def)
qed

text \<open>The timeline of a program: so many instructions of one length, and the clears in order within the run.\<close>

definition timeline_ok :: "timeline \<Rightarrow> bool" where
  "timeline_ok tm \<longleftrightarrow> 0 < tl_period_ns tm \<and> sorted_wrt (<) (tl_tvma_clr tm) \<and>
     (\<forall>c \<in> set (tl_tvma_clr tm). 0 < c \<and> c \<le> tl_period_ns tm) \<and> sorted_wrt (<) (map fst (tl_changes tm))"

lemma timeline_of_ok:
  assumes "timeline_of program mode = Some tm"
  shows "timeline_ok tm" "tl_period_ns tm = INSTRUCTION_NS ! unat (mode AND 3) * tl_instructions tm"
    "tl_instructions tm \<le> MOST_INSTRUCTIONS"
proof -
  let ?step = "INSTRUCTION_NS ! unat (mode AND 3)"
  let ?d0 = "\<lparr>dr_t = 0, dr_executed = 0, dr_changes = [], dr_tvma_clr = [], dr_lines = [], dr_sync = (False, False)\<rparr>"
  obtain d where d: "run_program program ?step 0 ?d0 = Some d" and tm: "tm = \<lparr>tl_period_ns = dr_t d, tl_instructions = dr_executed d,
      tl_changes = dr_changes d, tl_tvma_clr = dr_tvma_clr d, tl_lines = dr_lines d\<rparr>"
    using assms by (auto simp: timeline_of_def split: option.splits)
  have "drawn ?step ?d0" by (simp add: drawn_def)
  from drawn_program [OF step_pos this d] step_pos [of mode]
  show "timeline_ok tm" "tl_period_ns tm = ?step * tl_instructions tm" "tl_instructions tm \<le> MOST_INSTRUCTIONS"
    by (auto simp: drawn_def timeline_ok_def tm)
qed


section \<open>The clears over time\<close>

text \<open>The program runs over and over; the video address is cleared at these times since it started.\<close>

definition clears_at :: "timeline \<Rightarrow> nat \<Rightarrow> bool" where
  "clears_at tm t \<longleftrightarrow> (\<exists>n. \<exists>c \<in> set (tl_tvma_clr tm). t = n * tl_period_ns tm + c)"

lemma partition_point_sorted:
  assumes "sorted_wrt (<) xs" "j < length xs"
  shows "j < partition_point (\<lambda>c. c \<le> i) xs \<longleftrightarrow> xs ! j \<le> (i :: nat)"
proof
  assume "j < partition_point (\<lambda>c. c \<le> i) xs"
  then show "xs ! j \<le> i"
    by (metis nth_mem partition_point_def set_takeWhileD takeWhile_nth)
next
  assume le: "xs ! j \<le> i"
  show "j < partition_point (\<lambda>c. c \<le> i) xs"
  proof (rule ccontr)
    define k where "k = partition_point (\<lambda>c. c \<le> i) xs"
    assume "\<not> j < partition_point (\<lambda>c. c \<le> i) xs"
    then have "k \<le> j" by (simp add: k_def)
    then have "k < length xs" using assms(2) by simp
    then have "\<not> xs ! k \<le> i" using nth_length_takeWhile [of "\<lambda>c. c \<le> i" xs] by (simp add: k_def partition_point_def)
    moreover have "xs ! k \<le> xs ! j"
      using sorted_wrt_nth_less [OF assms(1), of k j] \<open>k \<le> j\<close> assms(2) by (cases "k = j") auto
    ultimately show False using le by simp
  qed
qed

lemma next_clear_least:
  fixes s :: nat
  assumes "timeline_ok tm" "tl_tvma_clr tm \<noteq> []"
  defines "t \<equiv> next_tvma_clr_after tm s"
  shows "s < t \<and> clears_at tm t \<and> (\<forall>u. s < u \<and> u < t \<longrightarrow> \<not> clears_at tm u)"
proof -
  define P where "P = tl_period_ns tm"
  define xs where "xs = tl_tvma_clr tm"
  define r where "r = s div P"
  define i where "i = s mod P"
  define k where "k = partition_point (\<lambda>c. c \<le> i) xs"
  have P: "0 < P" and xs: "sorted_wrt (<) xs" "\<And>c. c \<in> set xs \<Longrightarrow> 0 < c \<and> c \<le> P" "xs \<noteq> []"
    using assms(1,2) by (auto simp: timeline_ok_def P_def xs_def)
  have s: "s = r * P + i" "i < P" using P by (simp_all add: r_def i_def)
  have before: "u \<le> s" if "u = n * P + c" "c \<in> set xs" "n < r" for u n c
  proof -
    have "u \<le> (n + 1) * P" using xs(2) [OF that(2)] that(1) by simp
    also have "\<dots> \<le> r * P" using that(3) by (intro mult_le_mono1) simp
    finally show ?thesis using s by simp
  qed
  show ?thesis
  proof (cases "k < length xs")
    case True
    then have t: "t = r * P + xs ! k"
      using xs(3) by (cases xs) (auto simp: t_def next_tvma_clr_after_def xs_def [symmetric] P_def [symmetric] r_def i_def k_def Let_def)
    have gt: "i < xs ! k" using partition_point_sorted [OF xs(1) True, of i] by (simp add: k_def)
    have "\<not> clears_at tm u" if "s < u" "u < t" for u
    proof
      assume "clears_at tm u"
      then obtain n c where u: "u = n * P + c" "c \<in> set xs" by (auto simp: clears_at_def P_def xs_def)
      then obtain j where j: "c = xs ! j" "j < length xs" by (auto simp: in_set_conv_nth)
      have "n \<le> r"
      proof (rule ccontr)
        assume "\<not> n \<le> r"
        then have "(r + 1) * P \<le> n * P" by (intro mult_le_mono1) simp
        then show False using that(2) u(1) t xs(2) [OF nth_mem [OF True]] by simp
      qed
      moreover have "\<not> n < r" using before [OF u] that(1) by auto
      ultimately have "n = r" by simp
      then have "i < c" "c < xs ! k" using that u(1) t s by simp_all
      then have "j < k" using j True sorted_wrt_nth_less [OF xs(1), of k j] by (cases j k rule: linorder_cases) auto
      then show False using \<open>i < c\<close> partition_point_sorted [OF xs(1) j(2), of i] j by (simp add: k_def)
    qed
    moreover have "clears_at tm t"
      unfolding clears_at_def P_def [symmetric] xs_def [symmetric] t
      by (intro exI [of _ r] bexI [of _ "xs ! k"] refl nth_mem True)
    ultimately show ?thesis using gt s t by simp
  next
    case False
    then have t: "t = (r + 1) * P + hd xs"
      using xs(3) by (cases xs) (auto simp: t_def next_tvma_clr_after_def xs_def [symmetric] P_def [symmetric] r_def i_def k_def Let_def)
    have all: "c \<le> i" if "c \<in> set xs" for c
      using that partition_point_sorted [OF xs(1), of _ i] False by (force simp: in_set_conv_nth k_def)
    have hd: "hd xs \<le> c" if "c \<in> set xs" for c
      using that xs(1,3) by (cases xs) (auto simp: less_imp_le)
    have "\<not> clears_at tm u" if "s < u" "u < t" for u
    proof
      assume "clears_at tm u"
      then obtain n c where u: "u = n * P + c" "c \<in> set xs" by (auto simp: clears_at_def P_def xs_def)
      have "r < n" using before [OF u] all [OF u(2)] that(1) u(1) s by (cases n r rule: linorder_cases) auto
      then have "(r + 1) * P \<le> n * P" by (intro mult_le_mono1) simp
      then show False using hd [OF u(2)] that(2) u(1) t by simp
    qed
    moreover have "clears_at tm t"
      unfolding clears_at_def P_def [symmetric] xs_def [symmetric] t
      by (intro exI [of _ "r + 1"] bexI [of _ "hd xs"] refl hd_in_set xs(3))
    moreover have "s < t" using s t by (simp add: algebra_simps)
    ultimately show ?thesis by blast
  qed
qed

lemma no_clears: "tl_tvma_clr tm = [] \<Longrightarrow> \<not> clears_at tm t"
  by (simp add: clears_at_def)

section \<open>Every program is laid out or refused\<close>

lemma word_at_in: "word_at program p = Some w \<Longrightarrow> w \<in> set program"
  by (auto simp: word_at_def split: if_splits)

lemma pass_ended_by:
  assumes "pass program step p ended ln d = Some (s, after, ln', d')"
    "\<forall>w \<in> set program. ins_special w \<noteq> EndOfProgram" "ended \<noteq> None \<longrightarrow> fst (the ended) \<noteq> EndOfProgram"
  shows "s \<noteq> EndOfProgram"
  using assms
proof (induction program step p ended ln d rule: pass.induct)
  case (1 program step p ended ln d)
  from 1(2) obtain w ln1 d1 where w: "word_at program p = Some w" "draw step w ln d = Some (ln1, d1)"
    by (subst (asm) pass.simps) (auto split: option.splits)
  have e: "ended_by w p ended \<noteq> None \<longrightarrow> fst (the (ended_by w p ended)) \<noteq> EndOfProgram"
    using 1(3,4) word_at_in [OF w(1)] by (auto simp: ended_by_def)
  show ?case
  proof (cases "map_option snd (ended_by w p ended) = Some p")
    case True
    then have "s = fst (the (ended_by w p ended))" using 1(2) by (subst (asm) pass.simps) (auto simp: w)
    then show ?thesis using e True by auto
  next
    case False
    then have "pass program step (p + 1) (ended_by w p ended) ln1 d1 = Some (s, after, ln', d')"
      using 1(2) by (subst (asm) pass.simps) (simp add: w)
    then show ?thesis using 1(1) [OF w(1,2) _ False _ 1(3) e] by simp
  qed
qed

lemma passes_ended_by:
  "passes program step first n ended d = Some ((s, after), d') \<Longrightarrow>
    \<forall>w \<in> set program. ins_special w \<noteq> EndOfProgram \<Longrightarrow> fst ended \<noteq> EndOfProgram \<Longrightarrow> s \<noteq> EndOfProgram"
proof (induction n arbitrary: ended d)
  case (Suc n)
  then obtain s1 after1 ln d1 where p: "pass program step first None
      \<lparr>ln_at_ns = dr_t d, ln_instructions = 0, ln_video_cycles = 0, ln_blanked = True\<rparr> d = Some (s1, after1, ln, d1)"
    and r: "passes program step first n (s1, after1) (d1\<lparr>dr_lines := dr_lines d1 @ [ln]\<rparr>) = Some ((s, after), d')"
    by (auto split: option.splits)
  show ?case using Suc.IH [OF r Suc.prems(2)] pass_ended_by [OF p Suc.prems(2)] by simp
qed auto

lemma run_needs_an_end:
  "\<forall>w \<in> set program. ins_special w \<noteq> EndOfProgram \<Longrightarrow> run_program program step pc d = None"
proof (induction program step pc d rule: run_program.induct)
  case (1 program step pc d)
  show ?case
  proof (rule ccontr)
    assume "run_program program step pc d \<noteq> None"
    then obtain count s after d1 where w: "word_at program pc = Some count"
      "passes program step (pc + 1) (iterations count) (NoSpecial, pc + 1) d = Some ((s, after), d1)"
      by (subst (asm) run_program.simps) (auto split: option.splits)
    have s: "s \<noteq> EndOfProgram" using passes_ended_by [OF w(2) 1(2)] by simp
    have "run_program program step pc d =
        (if s = EndOfLoop then run_program program step (after + 1) d1 else None)"
      using s by (subst run_program.simps) (simp add: w [simplified])
    then have "s = EndOfLoop" "run_program program step (after + 1) d1 \<noteq> None"
      using \<open>run_program program step pc d \<noteq> None\<close> by (simp_all split: if_splits)
    then show False using 1(1) [OF w(1,2) _ _ s _ 1(2)] by simp
  qed
qed

text \<open>
  C9: laying a sync program out ends on every program. One without an end of program, which the board runs in
  circles, gives none, as one does that runs off its end or past the most instructions a frame takes; what is laid
  out has no more than those, a period of whole instructions, and its clears in order within it.
\<close>

theorem timeline_ends:
  "((\<forall>w \<in> set program. ins_special w \<noteq> EndOfProgram) \<longrightarrow> timeline_of program mode = None) \<and>
   (\<forall>tm. timeline_of program mode = Some tm \<longrightarrow> tl_instructions tm \<le> MOST_INSTRUCTIONS \<and>
     tl_period_ns tm = INSTRUCTION_NS ! unat (mode AND 3) * tl_instructions tm \<and> 0 < tl_period_ns tm \<and>
     sorted_wrt (<) (tl_tvma_clr tm) \<and> (\<forall>c \<in> set (tl_tvma_clr tm). 0 < c \<and> c \<le> tl_period_ns tm))"
  using timeline_of_ok [of program mode] by (auto simp: timeline_of_def run_needs_an_end timeline_ok_def)

lemma one_clear: "timeline_of [1, 0x40, 0xc0, 0] 0 = Some
  \<lparr>tl_period_ns = 1500, tl_instructions = 3, tl_changes = [(500, False, False)], tl_tvma_clr = [500],
   tl_lines = [\<lparr>ln_at_ns = 0, ln_instructions = 3, ln_video_cycles = 0, ln_blanked = False\<rparr>]\<rparr>"
  by (simp add: timeline_of_def run_program.simps pass.simps draw_def Let_def word_at_def ended_by_def iterations_def
      ins_special_def ins_cycle_def ins_hsync_def ins_vsync_def ins_blank_def INSTRUCTION_NS_def MOST_INSTRUCTIONS_def)

lemma timeline_ends_witness:
  "timeline_of [1, 0x80, 0] 0 = None \<and> (\<exists>tm. timeline_of [1, 0x40, 0xc0, 0] 0 = Some tm \<and> tl_period_ns tm = 500 * tl_instructions tm)"
  using timeline_ends [of "[1, 0x80, 0]" 0] timeline_ends [of "[1, 0x40, 0xc0, 0]" 0] one_clear
  by (simp add: ins_special_def INSTRUCTION_NS_def)

end
