(* ===== verification/Tv.thy ===== *)
theory Tv
  imports TvSync Codec Busint
begin

text \<open>
  The display boards, \<open>src/tv.rs\<close>: the CADR's two boards with their sync program and vertical flag, and QUUX's
  video controller. The sync PROM is a file of the repository and an argument here. The vertical flag is
  refined to its history: written up, or a clear of the video address since the last write.
\<close>

section \<open>Sizes\<close>

definition SYNC_RAM_WORDS :: nat where "SYNC_RAM_WORDS = 4096"
definition TV_WIDTH :: nat where "TV_WIDTH = 768"
definition TV_HEIGHT :: nat where "TV_HEIGHT = 963"
definition WORDS_PER_LINE :: nat where "WORDS_PER_LINE = 24"
definition VIDEO_WIDTH :: nat where "VIDEO_WIDTH = 1280"
definition VIDEO_HEIGHT :: nat where "VIDEO_HEIGHT = 1024"
definition VIDEO_WORDS_PER_LINE :: nat where "VIDEO_WORDS_PER_LINE = 40"
definition VIDEO_WORDS :: u32 where "VIDEO_WORDS = of_nat (VIDEO_HEIGHT * VIDEO_WORDS_PER_LINE)"
definition VIDEO_MAX_WORDS :: u32 where "VIDEO_MAX_WORDS = 0x3fff00 - TV_BUFFER"
definition VIDEO_MAX_SIZE :: "nat \<times> nat" where "VIDEO_MAX_SIZE = (1920, 1080)"
definition COLOR_WIDTH :: nat where "COLOR_WIDTH = 576"
definition COLOR_HEIGHT :: nat where "COLOR_HEIGHT = 454"
definition COLOR_BITS_PER_PIXEL :: nat where "COLOR_BITS_PER_PIXEL = 4"
definition COLOR_WORDS_PER_LINE :: nat where
  "COLOR_WORDS_PER_LINE = COLOR_WIDTH * COLOR_BITS_PER_PIXEL div 32"
definition COLORS :: nat where "COLORS = 16"
definition CHANNELS :: nat where "CHANNELS = 3"
definition FRAME_NS :: nat where "FRAME_NS = 15456000"

definition TVM_CLOCK :: u32 where "TVM_CLOCK = 3"
definition TVM_BOW :: u32 where "TVM_BOW = 4"
definition TVM_INTERRUPT_ENABLE :: u32 where "TVM_INTERRUPT_ENABLE = 8"
definition TVM_WRITABLE :: u32 where "TVM_WRITABLE = 0xf"
definition TVM_VERT :: u32 where "TVM_VERT = 0x10"
definition TVM_VSYNC :: u32 where "TVM_VSYNC = 0x20"
definition TVM_HSYNC :: u32 where "TVM_HSYNC = 0x40"
definition TVM_SYNC_PROM_ENABLE :: u32 where "TVM_SYNC_PROM_ENABLE = 0x80"

lemmas tv_mode_bits = TVM_CLOCK_def TVM_BOW_def TVM_INTERRUPT_ENABLE_def TVM_WRITABLE_def TVM_VERT_def
  TVM_VSYNC_def TVM_HSYNC_def TVM_SYNC_PROM_ENABLE_def

text \<open>Why a size is refused.\<close>

datatype size_error = Width_not_words | Past_size | Past_fields | Past_words | Over_color_buffer

definition check_video_words :: "nat \<Rightarrow> size_error + unit" where
  "check_video_words n = (if unat VIDEO_MAX_WORDS < n then Inl Past_words else Inr ())"

definition check_video_size :: "nat \<Rightarrow> nat \<Rightarrow> bool \<Rightarrow> size_error + unit" where
  "check_video_size width height color_tv =
     (if width = 0 \<or> height = 0 \<or> width mod 32 \<noteq> 0 then Inl Width_not_words
      else if fst VIDEO_MAX_SIZE < width \<or> snd VIDEO_MAX_SIZE < height then Inl Past_size
      else if 0xffff < width \<or> 0xffff < height then Inl Past_fields
      else let n = width div 32 * height
        in case check_video_words n of Inl e \<Rightarrow> Inl e
           | Inr _ \<Rightarrow> if color_tv \<and> unat (strap_buffer COLOR_TV - TV_BUFFER) < n then Inl Over_color_buffer else Inr ())"

section \<open>The state\<close>

datatype tv_board = SimpleTv | LispmTv | Video

record sync_ram =
  sr_words :: "u8 list"
  sr_pointer :: u16
  sr_enable :: u8

definition sync_ram_new :: sync_ram where
  "sync_ram_new = \<lparr>sr_words = replicate SYNC_RAM_WORDS 0, sr_pointer = 0, sr_enable = 0\<rparr>"

definition sr_enabled :: "sync_ram \<Rightarrow> bool" where
  "sr_enabled s \<longleftrightarrow> sr_enable s AND 0x80 \<noteq> 0"

definition sr_program :: "u8 list \<Rightarrow> sync_ram \<Rightarrow> u8 list" where
  "sr_program prom s = (if sr_enabled s then sr_words s else prom)"

record tv =
  tv_board :: tv_board
  tv_video_size :: "nat \<times> nat"
  tv_strap :: strap
  tv_buffer :: "u32 list"
  tv_mode :: u32
  tv_sync :: sync_ram
  tv_color_map :: "u8 list list"
  tv_flag_written :: bool
  tv_written_at :: nat
  tv_next_clr :: nat
  tv_timeline :: "timeline option"
  tv_origin :: nat
  tv_sync_held :: "bool \<times> bool"

definition tv_default :: "u8 list \<Rightarrow> tv" where
  "tv_default prom =
     (let timeline = timeline_of (sr_program prom sync_ram_new) 0
      in \<lparr>tv_board = SimpleTv, tv_video_size = (VIDEO_WIDTH, VIDEO_HEIGHT), tv_strap = NORMAL_TV,
          tv_buffer = replicate (unat TV_BUFFER_WORDS) 0, tv_mode = 0, tv_sync = sync_ram_new,
          tv_color_map = replicate COLORS (replicate CHANNELS 0), tv_flag_written = False, tv_written_at = 0,
          tv_next_clr = (case timeline of None \<Rightarrow> NO_TIME | Some t \<Rightarrow> next_tvma_clr_after t 0),
          tv_timeline = timeline, tv_origin = 0, tv_sync_held = (False, False)\<rparr>)"

definition tv_color :: "u8 list \<Rightarrow> tv" where
  "tv_color prom = (tv_default prom)\<lparr>tv_board := LispmTv, tv_strap := COLOR_TV\<rparr>"

section \<open>The screen\<close>

definition tv_screen :: "tv \<Rightarrow> nat \<times> nat \<times> nat" where
  "tv_screen s =
     (case tv_board s of Video \<Rightarrow> (let (w, h) = tv_video_size s in (w, h, w div 32))
      | _ \<Rightarrow> (TV_WIDTH, TV_HEIGHT, WORDS_PER_LINE))"

definition tv_control_registers :: "tv \<Rightarrow> u8" where
  "tv_control_registers s = (case tv_board s of Video \<Rightarrow> 0 | _ \<Rightarrow> 0xff)"

definition tv_buffer_words :: "tv \<Rightarrow> u32" where
  "tv_buffer_words s =
     (case tv_board s of Video \<Rightarrow> (let (_, h, wpl) = tv_screen s in of_nat (h * wpl)) | _ \<Rightarrow> TV_BUFFER_WORDS)"

definition tv_buffer_offset :: "tv \<Rightarrow> u32 \<Rightarrow> u32 option" where
  "tv_buffer_offset s phys =
     (let off = phys - strap_buffer (tv_strap s) in if off < tv_buffer_words s then Some off else None)"

definition tv_black_on_white :: "tv \<Rightarrow> bool" where
  "tv_black_on_white s \<longleftrightarrow> tv_mode s AND TVM_BOW \<noteq> 0"

definition tv_pixel :: "tv \<Rightarrow> nat \<Rightarrow> nat \<Rightarrow> bool" where
  "tv_pixel s x y = (let k = y * snd (snd (tv_screen s)) * 32 + x in bit (tv_buffer s ! (k div 32)) (k mod 32))"

definition tv_pixel4 :: "tv \<Rightarrow> nat \<Rightarrow> nat \<Rightarrow> u8" where
  "tv_pixel4 s x y =
     (let at = y * COLOR_WORDS_PER_LINE + x div 8
      in ucast (drop_bit (x mod 8 * COLOR_BITS_PER_PIXEL) (tv_buffer s ! at)) AND 0xf)"

definition tv_rgb :: "tv \<Rightarrow> nat \<Rightarrow> u8 list" where
  "tv_rgb s color = map (\<lambda>stored. 0xff - stored) (tv_color_map s ! (color mod COLORS))"

definition tv_shows_white :: "tv \<Rightarrow> nat \<Rightarrow> nat \<Rightarrow> bool" where
  "tv_shows_white s x y \<longleftrightarrow> tv_pixel s x y \<noteq> tv_black_on_white s"

definition count_ones :: "u32 \<Rightarrow> nat" where
  "count_ones w = length (filter (bit w) [0..<32])"

definition tv_lit :: "tv \<Rightarrow> nat" where
  "tv_lit s =
     (let (_, height, words_per_line) = tv_screen s
      in sum_list (map count_ones (take (height * words_per_line) (tv_buffer s))))"

definition tv_read_buffer :: "u32 \<Rightarrow> tv \<Rightarrow> u32" where
  "tv_read_buffer offset s = tv_buffer s ! unat offset"

definition tv_write_buffer :: "u32 \<Rightarrow> u32 \<Rightarrow> tv \<Rightarrow> tv" where
  "tv_write_buffer offset v s = s\<lparr>tv_buffer := (tv_buffer s)[unat offset := v]\<rparr>"

section \<open>The vertical flag and the sync lines\<close>

definition saturating :: "nat \<Rightarrow> nat" where
  "saturating t = min NO_TIME t"

definition tv_flag_written_at :: "bool \<Rightarrow> nat \<Rightarrow> tv \<Rightarrow> tv" where
  "tv_flag_written_at flag ns s =
     s\<lparr>tv_flag_written := flag, tv_written_at := ns,
       tv_next_clr := (case tv_timeline s of
           Some t \<Rightarrow> saturating (tv_origin s + next_tvma_clr_after t (ns - tv_origin s))
         | None \<Rightarrow> NO_TIME)\<rparr>"

definition tv_sync_at :: "nat \<Rightarrow> tv \<Rightarrow> bool \<times> bool" where
  "tv_sync_at ns s =
     (case tv_timeline s of
        Some t \<Rightarrow> if tv_origin s \<le> ns then sync_at_since_start t (ns - tv_origin s) (tv_sync_held s) else (False, False)
      | None \<Rightarrow> (False, False))"

definition tv_vert_flag :: "nat \<Rightarrow> tv \<Rightarrow> bool" where
  "tv_vert_flag ns s \<longleftrightarrow> tv_board s \<noteq> Video \<and> (tv_flag_written s \<or> tv_next_clr s \<le> ns)"

definition tv_interrupt :: "nat \<Rightarrow> tv \<Rightarrow> bool" where
  "tv_interrupt ns s \<longleftrightarrow> tv_mode s AND TVM_INTERRUPT_ENABLE \<noteq> 0 \<and> tv_vert_flag ns s"

definition tv_restart :: "u8 list \<Rightarrow> nat \<Rightarrow> tv \<Rightarrow> tv" where
  "tv_restart prom ns s =
     (let flag = tv_vert_flag ns s;
          s = s\<lparr>tv_sync_held := tv_sync_at ns s\<rparr>;
          s = s\<lparr>tv_timeline := timeline_of (sr_program prom (tv_sync s)) (tv_mode s AND TVM_CLOCK), tv_origin := ns\<rparr>
      in tv_flag_written_at flag ns s)"

definition tv_set_board :: "u8 list \<Rightarrow> tv_board \<Rightarrow> tv \<Rightarrow> tv" where
  "tv_set_board prom board s =
     (let s = s\<lparr>tv_board := board\<rparr>;
          s = s\<lparr>tv_buffer := replicate (unat (tv_buffer_words s)) 0\<rparr>
      in if board = Video then s\<lparr>tv_timeline := None, tv_next_clr := NO_TIME\<rparr>
         else tv_flag_written_at (tv_flag_written s) (tv_written_at s)
                (s\<lparr>tv_timeline := timeline_of (sr_program prom (tv_sync s)) (tv_mode s AND TVM_CLOCK)\<rparr>))"

definition tv_set_video_size :: "nat \<Rightarrow> nat \<Rightarrow> tv \<Rightarrow> tv" where
  "tv_set_video_size width height s =
     (let s = s\<lparr>tv_video_size := (width, height)\<rparr>
      in if tv_board s = Video then s\<lparr>tv_buffer := replicate (unat (tv_buffer_words s)) 0\<rparr> else s)"

section \<open>The registers\<close>

definition tv_read_control :: "u8 list \<Rightarrow> u32 \<Rightarrow> nat \<Rightarrow> tv \<Rightarrow> u32" where
  "tv_read_control prom register ns s =
     (if tv_board s = Video then (if register = 0 then tv_mode s AND TVM_BOW else 0)
      else if register = 0 then
        (let (hsync, vsync) = tv_sync_at ns s;
             prom_enable = (tv_board s = LispmTv \<and> sr_enabled (tv_sync s))
         in tv_mode s OR (if tv_vert_flag ns s then TVM_VERT else 0) OR (if vsync then TVM_VSYNC else 0) OR
            (if hsync then TVM_HSYNC else 0) OR (if prom_enable then TVM_SYNC_PROM_ENABLE else 0))
      else if register = 1 then
        (case word_at (sr_program prom (tv_sync s)) (unat (sr_pointer (tv_sync s))) of None \<Rightarrow> 0 | Some w \<Rightarrow> ucast w)
      else 0)"

definition tv_write_control :: "u8 list \<Rightarrow> u32 \<Rightarrow> u32 \<Rightarrow> nat \<Rightarrow> tv \<Rightarrow> tv" where
  "tv_write_control prom register v ns s =
     (if tv_board s = Video then (if register = 0 then s\<lparr>tv_mode := v AND TVM_BOW\<rparr> else s)
      else if register = 0 then
        (let clock_changed = ((v XOR tv_mode s) AND TVM_CLOCK \<noteq> 0);
             s = tv_flag_written_at (v AND TVM_VERT \<noteq> 0) ns (s\<lparr>tv_mode := v AND TVM_WRITABLE\<rparr>)
         in if clock_changed then tv_restart prom ns s else s)
      else if register = 1 then
        (let s = s\<lparr>tv_sync := (tv_sync s)\<lparr>sr_words := (sr_words (tv_sync s))[unat (sr_pointer (tv_sync s)) := ucast v]\<rparr>\<rparr>
         in if sr_enabled (tv_sync s) then tv_restart prom ns s else s)
      else if register = 2 then
        s\<lparr>tv_sync := (tv_sync s)\<lparr>sr_pointer := ucast v AND (of_nat SYNC_RAM_WORDS - 1)\<rparr>\<rparr>
      else if register = 3 then
        (let was = sr_enabled (tv_sync s);
             s = s\<lparr>tv_sync := (tv_sync s)\<lparr>sr_enable := ucast v\<rparr>\<rparr>
         in if sr_enabled (tv_sync s) \<noteq> was then tv_restart prom ns s else s)
      else if register = 4 then
        (let channel = unat (drop_bit 6 v) mod 4; k = unat v mod COLORS
         in if channel < CHANNELS
            then s\<lparr>tv_color_map := (tv_color_map s)[k := (tv_color_map s ! k)[channel := ucast (drop_bit 8 v)]]\<rparr>
            else s)
      else s)"

definition tv_xbus_init :: "nat \<Rightarrow> tv \<Rightarrow> tv" where
  "tv_xbus_init ns s = tv_flag_written_at False ns s"

section \<open>Checkpoint\<close>

definition sr_save :: "sync_ram \<Rightarrow> writer \<Rightarrow> writer" where
  "sr_save s = put_all [put_bytes (sr_words s), put_u16 (sr_pointer s), put_u8 (sr_enable s)]"

definition sr_load :: "sync_ram \<Rightarrow> sync_ram rd" where
  "sr_load s = rd_bind (get_bytes_into (length (sr_words s))) (\<lambda>words. rd_bind get_u16 (\<lambda>pointer.
     if SYNC_RAM_WORDS \<le> unat pointer then rd_fail Bad_value
     else rd_bind get_u8 (\<lambda>enable. rd_return (s\<lparr>sr_words := words, sr_pointer := pointer, sr_enable := enable\<rparr>))))"

primrec tv_board_code :: "tv_board \<Rightarrow> u8" where
  "tv_board_code SimpleTv = 0"
| "tv_board_code LispmTv = 1"
| "tv_board_code Video = 2"

definition get_tv_board :: "tv_board rd" where
  "get_tv_board = rd_bind get_u8 (\<lambda>v.
     if v = 0 then rd_return SimpleTv else if v = 1 then rd_return LispmTv else if v = 2 then rd_return Video
     else rd_fail Bad_value)"

definition tv_save :: "tv \<Rightarrow> writer \<Rightarrow> writer" where
  "tv_save s = put_all
     [put_u8 (tv_board_code (tv_board s)), put_u16 (of_nat (fst (tv_video_size s))),
      put_u16 (of_nat (snd (tv_video_size s))), put_u32s (tv_buffer s), put_u32 (tv_mode s), sr_save (tv_sync s),
      fold (\<lambda>color. fold put_u8 color) (tv_color_map s), put_bool (tv_flag_written s),
      put_u64 (of_nat (tv_written_at s)), put_u64 (of_nat (tv_origin s)), put_bool (fst (tv_sync_held s)),
      put_bool (snd (tv_sync_held s))]"

text \<open>The timeline and the next clear are looked up again from the program and the write.\<close>

definition tv_loaded :: "u8 list \<Rightarrow> tv \<Rightarrow> tv" where
  "tv_loaded prom s =
     (let s = s\<lparr>tv_timeline := timeline_of (sr_program prom (tv_sync s)) (tv_mode s AND TVM_CLOCK)\<rparr>
      in tv_flag_written_at (tv_flag_written s) (tv_written_at s) s)"

definition tv_load :: "u8 list \<Rightarrow> tv \<Rightarrow> tv rd" where
  "tv_load prom s = rd_bind get_tv_board (\<lambda>board. rd_bind get_u16 (\<lambda>width. rd_bind get_u16 (\<lambda>height.
     let size = (unat width, unat height);
         s = (if board \<noteq> tv_board s \<or> size \<noteq> tv_video_size s
              then tv_set_board prom board (s\<lparr>tv_video_size := size\<rparr>) else s)
     in rd_bind (get_u32s_into (length (tv_buffer s))) (\<lambda>buffer. rd_bind get_u32 (\<lambda>mode.
        rd_bind (sr_load (tv_sync s)) (\<lambda>sync. rd_bind (get_many COLORS (get_many CHANNELS get_u8)) (\<lambda>color_map.
        rd_bind get_bool (\<lambda>flag. rd_bind get_u64 (\<lambda>written_at. rd_bind get_u64 (\<lambda>origin.
        rd_bind get_bool (\<lambda>hsync. rd_bind get_bool (\<lambda>vsync.
          rd_return (tv_loaded prom (s\<lparr>tv_buffer := buffer, tv_mode := mode, tv_sync := sync,
            tv_color_map := color_map, tv_flag_written := flag, tv_written_at := unat written_at,
            tv_origin := unat origin, tv_sync_held := (hsync, vsync)\<rparr>))))))))))))))"

section \<open>The picture as a PNG\<close>

definition be_bytes :: "u32 \<Rightarrow> u8 list" where "be_bytes v = rev (le_bytes 4 v)"

definition crc32 :: "u8 list \<Rightarrow> u32" where
  "crc32 bytes =
     NOT (fold (\<lambda>b c. ((\<lambda>c. if c AND 1 \<noteq> 0 then 0xedb88320 XOR drop_bit 1 c else drop_bit 1 c) ^^ 8) (c XOR ucast b))
       bytes (NOT 0))"

definition adler32 :: "u8 list \<Rightarrow> u32" where
  "adler32 bytes =
     (let (a, b) = fold (\<lambda>x (a, b). let a = (a + ucast x) mod 65521 in (a, (b + a) mod 65521)) bytes (1, 0)
      in push_bit 16 b OR a)"

definition chunk :: "u8 list \<Rightarrow> u8 list \<Rightarrow> u8 list" where
  "chunk kind bytes = be_bytes (of_nat (length bytes)) @ kind @ bytes @ be_bytes (crc32 (kind @ bytes))"

text \<open>A row of the picture: its filter byte and the pixels, eight to a byte.\<close>

definition png_byte :: "tv \<Rightarrow> nat \<Rightarrow> nat \<Rightarrow> u8" where
  "png_byte s y x = fold (\<lambda>b byte. if tv_shows_white s (x + b) y then byte OR drop_bit b 0x80 else byte) [0..<8] 0"

definition png_row :: "tv \<Rightarrow> nat \<Rightarrow> u8 list" where
  "png_row s y = 0 # map (\<lambda>k. png_byte s y (8 * k)) [0..<(fst (tv_screen s) + 7) div 8]"

definition png_raw :: "tv \<Rightarrow> u8 list" where
  "png_raw s = concat (map (png_row s) [0..<fst (snd (tv_screen s))])"

fun in_chunks :: "nat \<Rightarrow> 'a list \<Rightarrow> 'a list list" where
  "in_chunks n [] = []"
| "in_chunks n (x # xs) = (if n = 0 then [] else take n (x # xs) # in_chunks n (drop n (x # xs)))"

fun stored_blocks :: "u8 list list \<Rightarrow> u8 list" where
  "stored_blocks [] = []"
| "stored_blocks (b # bs) =
     of_flag (bs = []) # le_bytes 2 (of_nat (length b) :: u16) @ le_bytes 2 (NOT (of_nat (length b)) :: u16) @ b @
       stored_blocks bs"

definition png_data :: "tv \<Rightarrow> u8 list" where
  "png_data s = [0x78, 1] @ stored_blocks (in_chunks 65535 (png_raw s)) @ be_bytes (adler32 (png_raw s))"

definition png :: "tv \<Rightarrow> u8 list" where
  "png s =
     (let (width, height, _) = tv_screen s
      in [0x89, 0x50, 0x4e, 0x47, 0x0d, 0x0a, 0x1a, 0x0a] @
         chunk [0x49, 0x48, 0x44, 0x52] (be_bytes (of_nat width) @ be_bytes (of_nat height) @ [1, 0, 0, 0, 0]) @
         chunk [0x49, 0x44, 0x41, 0x54] (png_data s) @ chunk [0x49, 0x45, 0x4e, 0x44] [])"

end
