(* ===== verification/TvFlag.thy ===== *)
theory TvFlag
  imports Tv
begin

text \<open>
  The display over a machine's run: what holds of a board on every state its operations reach, the vertical
  flag as the flop it models, and the board's checkpoint.
\<close>

section \<open>The invariant\<close>

text \<open>
  The arrays have the lengths the code indexes them by, the program laid out is the one selected at the clock
  mode held, and the next clear is the one looked up from the last write.
\<close>

definition tv_sized :: "tv \<Rightarrow> bool" where
  "tv_sized s \<longleftrightarrow> length (tv_buffer s) = unat (tv_buffer_words s) \<and>
     length (sr_words (tv_sync s)) = SYNC_RAM_WORDS \<and> unat (sr_pointer (tv_sync s)) < SYNC_RAM_WORDS \<and>
     length (tv_color_map s) = COLORS \<and> (\<forall>c \<in> set (tv_color_map s). length c = CHANNELS)"

definition tv_timed :: "u8 list \<Rightarrow> tv \<Rightarrow> bool" where
  "tv_timed prom s \<longleftrightarrow> tv_board s \<noteq> Video \<longrightarrow>
     tv_timeline s = timeline_of (sr_program prom (tv_sync s)) (tv_mode s AND TVM_CLOCK) \<and>
     tv_next_clr s = (case tv_timeline s of
         Some t \<Rightarrow> saturating (tv_origin s + next_tvma_clr_after t (tv_written_at s - tv_origin s))
       | None \<Rightarrow> NO_TIME)"

definition tv_ok :: "u8 list \<Rightarrow> nat \<Rightarrow> tv \<Rightarrow> bool" where
  "tv_ok prom now s \<longleftrightarrow> tv_sized s \<and> tv_timed prom s \<and> tv_origin s \<le> tv_written_at s \<and> tv_written_at s \<le> now"

lemma tv_flag_written_at_fields [simp]:
  "tv_board (tv_flag_written_at f ns s) = tv_board s" "tv_video_size (tv_flag_written_at f ns s) = tv_video_size s"
  "tv_buffer (tv_flag_written_at f ns s) = tv_buffer s" "tv_mode (tv_flag_written_at f ns s) = tv_mode s"
  "tv_sync (tv_flag_written_at f ns s) = tv_sync s" "tv_color_map (tv_flag_written_at f ns s) = tv_color_map s"
  "tv_timeline (tv_flag_written_at f ns s) = tv_timeline s" "tv_origin (tv_flag_written_at f ns s) = tv_origin s"
  "tv_flag_written (tv_flag_written_at f ns s) = f" "tv_written_at (tv_flag_written_at f ns s) = ns"
  by (simp_all add: tv_flag_written_at_def)

lemma tv_restart_fields [simp]:
  "tv_board (tv_restart prom ns s) = tv_board s" "tv_video_size (tv_restart prom ns s) = tv_video_size s"
  "tv_buffer (tv_restart prom ns s) = tv_buffer s" "tv_mode (tv_restart prom ns s) = tv_mode s"
  "tv_sync (tv_restart prom ns s) = tv_sync s" "tv_color_map (tv_restart prom ns s) = tv_color_map s"
  "tv_origin (tv_restart prom ns s) = ns" "tv_written_at (tv_restart prom ns s) = ns"
  "tv_flag_written (tv_restart prom ns s) = tv_vert_flag ns s"
  by (simp_all add: tv_restart_def Let_def)

lemma tv_words_same:
  "tv_board s = tv_board s' \<Longrightarrow> tv_video_size s = tv_video_size s' \<Longrightarrow> tv_buffer_words s = tv_buffer_words s'"
  by (cases "tv_board s") (simp_all add: tv_buffer_words_def tv_screen_def)

lemma tv_sized_flag [simp]: "tv_sized (tv_flag_written_at f ns s) = tv_sized s"
  by (simp add: tv_sized_def tv_words_same [of "tv_flag_written_at f ns s" s])

lemma tv_sized_restart [simp]: "tv_sized (tv_restart prom ns s) = tv_sized s"
  by (simp add: tv_sized_def tv_words_same [of "tv_restart prom ns s" s])

lemma tv_timed_flag:
  "tv_timeline s = timeline_of (sr_program prom (tv_sync s)) (tv_mode s AND TVM_CLOCK) \<Longrightarrow>
    tv_timed prom (tv_flag_written_at f ns s)"
  by (simp add: tv_timed_def tv_flag_written_at_def split: option.split)

lemma tv_timed_restart: "tv_timed prom (tv_restart prom ns s)"
  unfolding tv_restart_def Let_def by (rule tv_timed_flag) simp

section \<open>Every operation keeps it\<close>

lemma sr_program_pointer [simp]: "sr_program prom (r\<lparr>sr_pointer := p\<rparr>) = sr_program prom r"
  by (simp add: sr_program_def sr_enabled_def)

lemma sr_program_off: "\<not> sr_enabled r \<Longrightarrow> sr_program prom r = prom"
  by (simp add: sr_program_def)

lemma sr_program_words_off: "\<not> sr_enabled r \<Longrightarrow> sr_program prom (r\<lparr>sr_words := ws\<rparr>) = sr_program prom r"
  by (simp add: sr_program_def sr_enabled_def)

lemma sr_program_enable:
  "sr_enabled (r\<lparr>sr_enable := e\<rparr>) = sr_enabled r \<Longrightarrow> sr_program prom (r\<lparr>sr_enable := e\<rparr>) = sr_program prom r"
  by (simp add: sr_program_def)

lemma pointer_small: "unat ((p :: u16) AND (of_nat SYNC_RAM_WORDS - 1)) < SYNC_RAM_WORDS"
  using unat_and_mask_less [of 12 p] by (simp add: SYNC_RAM_WORDS_def mask_eq_exp_minus_1)

lemma tv_color_write:
  assumes "length m = COLORS" "\<forall>c \<in> set m. length c = CHANNELS" "k < COLORS"
  shows "\<forall>c \<in> set (m[k := (m ! k)[ch := v]]). length c = CHANNELS"
proof -
  have "m ! k \<in> set m" using assms(1,3) by simp
  then have "length (m ! k) = CHANNELS" using assms(2) by blast
  then show ?thesis using assms(2) set_update_subset_insert [of m k] by fastforce
qed

lemma clock_writable: "(v AND TVM_WRITABLE) AND TVM_CLOCK = v AND TVM_CLOCK"
  by (simp add: and.assoc tv_mode_bits)

lemma same_clock: "(v XOR m) AND TVM_CLOCK = 0 \<Longrightarrow> v AND TVM_CLOCK = m AND TVM_CLOCK" for v m :: u32
proof (rule bit_word_eqI)
  fix n
  assume "(v XOR m) AND TVM_CLOCK = 0"
  then have "bit ((v XOR m) AND TVM_CLOCK) n = bit (0 :: u32) n" by (rule arg_cong)
  then show "bit (v AND TVM_CLOCK) n = bit (m AND TVM_CLOCK) n" by (auto simp: bit_simps)
qed

lemma tv_ok_at: "tv_sized s \<Longrightarrow> tv_timed prom s \<Longrightarrow> tv_origin s \<le> tv_written_at s \<Longrightarrow> tv_written_at s \<le> now \<Longrightarrow> tv_ok prom now s"
  by (simp add: tv_ok_def)

lemma tv_ok_restart: "tv_sized s \<Longrightarrow> tv_ok prom ns (tv_restart prom ns s)"
  by (rule tv_ok_at) (simp_all add: tv_timed_restart)

lemma tv_ok_flag: "tv_ok prom now s \<Longrightarrow> now \<le> ns \<Longrightarrow> tv_board s \<noteq> Video \<Longrightarrow> tv_ok prom ns (tv_flag_written_at f ns s)"
  by (rule tv_ok_at) (simp_all add: tv_ok_def tv_timed_def tv_timed_flag [unfolded tv_timed_def])

lemma tv_ok_later: "tv_ok prom now s \<Longrightarrow> now \<le> ns \<Longrightarrow> tv_ok prom ns s"
  by (simp add: tv_ok_def)

lemma tv_ok_video: "tv_board s = Video \<Longrightarrow> tv_ok prom now s \<longleftrightarrow> tv_sized s \<and> tv_origin s \<le> tv_written_at s \<and> tv_written_at s \<le> now"
  by (simp add: tv_ok_def tv_timed_def)

lemma tv_sized_keeps:
  assumes "tv_sized s"
  shows "tv_sized (s\<lparr>tv_mode := m\<rparr>)"
    "tv_sized (s\<lparr>tv_sync := (tv_sync s)\<lparr>sr_words := (sr_words (tv_sync s))[k := x]\<rparr>\<rparr>)"
    "tv_sized (s\<lparr>tv_sync := (tv_sync s)\<lparr>sr_enable := e\<rparr>\<rparr>)"
    "tv_sized (s\<lparr>tv_sync := (tv_sync s)\<lparr>sr_pointer := p AND (of_nat SYNC_RAM_WORDS - 1)\<rparr>\<rparr>)"
    "tv_sized (s\<lparr>tv_buffer := (tv_buffer s)[k := b]\<rparr>)"
    "c < COLORS \<Longrightarrow> tv_sized (s\<lparr>tv_color_map := (tv_color_map s)[c := (tv_color_map s ! c)[ch := y]]\<rparr>)"
  using assms pointer_small [of p] tv_color_write [of "tv_color_map s" c ch y]
  by (simp_all add: tv_sized_def tv_words_same [of "s\<lparr>tv_mode := q1\<rparr>" s for q1] tv_words_same [of "s\<lparr>tv_sync := q2\<rparr>" s for q2]
      tv_words_same [of "s\<lparr>tv_buffer := q3\<rparr>" s for q3] tv_words_same [of "s\<lparr>tv_color_map := q4\<rparr>" s for q4])

text \<open>A register's update that keeps the program and the clock mode keeps the timing.\<close>

lemma tv_ok_same_program:
  assumes "tv_ok prom now s" "now \<le> ns" "tv_sized s'"
    "tv_board s' = tv_board s" "sr_program prom (tv_sync s') = sr_program prom (tv_sync s)"
    "tv_mode s' AND TVM_CLOCK = tv_mode s AND TVM_CLOCK" "tv_timeline s' = tv_timeline s" "tv_origin s' = tv_origin s"
    "tv_written_at s' = tv_written_at s" "tv_next_clr s' = tv_next_clr s"
  shows "tv_ok prom ns s'"
  using assms by (simp add: tv_ok_def tv_timed_def split: option.split)

lemma tv_ok_mode_write:
  assumes ok: "tv_ok prom now s" "now \<le> ns" and "tv_board s \<noteq> Video"
  shows "tv_ok prom ns (tv_write_control prom 0 v ns s)"
proof -
  let ?s = "tv_flag_written_at (v AND TVM_VERT \<noteq> 0) ns (s\<lparr>tv_mode := v AND TVM_WRITABLE\<rparr>)"
  have sized: "tv_sized ?s" using ok by (simp add: tv_ok_def tv_sized_keeps)
  show ?thesis
  proof (cases "(v XOR tv_mode s) AND TVM_CLOCK = 0")
    case True
    have "tv_ok prom ns ?s"
      by (rule tv_ok_at [OF sized tv_timed_flag])
        (use ok assms(3) in \<open>simp_all add: tv_ok_def tv_timed_def clock_writable same_clock [OF True]\<close>)
    then show ?thesis using True assms(3) by (simp add: tv_write_control_def Let_def)
  next
    case False
    then show ?thesis using tv_ok_restart [OF sized, of prom ns] assms(3) by (simp add: tv_write_control_def Let_def)
  qed
qed

lemma tv_ok_data_write:
  assumes ok: "tv_ok prom now s" "now \<le> ns" and "tv_board s \<noteq> Video"
  shows "tv_ok prom ns (tv_write_control prom 1 v ns s)"
proof -
  let ?s = "s\<lparr>tv_sync := (tv_sync s)\<lparr>sr_words := (sr_words (tv_sync s))[unat (sr_pointer (tv_sync s)) := ucast v]\<rparr>\<rparr>"
  have sized: "tv_sized ?s" using ok by (simp add: tv_ok_def tv_sized_keeps)
  show ?thesis
  proof (cases "sr_enabled (tv_sync ?s)")
    case True
    then show ?thesis using tv_ok_restart [OF sized, of prom ns] assms(3) by (simp add: tv_write_control_def Let_def)
  next
    case False
    then have "\<not> sr_enabled (tv_sync s)" by (simp add: sr_enabled_def)
    then have "tv_ok prom ns ?s"
      by (intro tv_ok_same_program [OF ok sized]) (simp_all add: sr_program_words_off)
    then show ?thesis using False assms(3) by (simp add: tv_write_control_def Let_def)
  qed
qed

lemma tv_ok_enable_write:
  assumes ok: "tv_ok prom now s" "now \<le> ns" and "tv_board s \<noteq> Video"
  shows "tv_ok prom ns (tv_write_control prom 3 v ns s)"
proof -
  let ?s = "s\<lparr>tv_sync := (tv_sync s)\<lparr>sr_enable := ucast v\<rparr>\<rparr>"
  have sized: "tv_sized ?s" using ok by (simp add: tv_ok_def tv_sized_keeps)
  show ?thesis
  proof (cases "sr_enabled (tv_sync ?s) = sr_enabled (tv_sync s)")
    case True
    then have "tv_ok prom ns ?s"
      by (intro tv_ok_same_program [OF ok sized]) (simp_all add: sr_program_enable)
    then show ?thesis using True assms(3) by (simp add: tv_write_control_def Let_def)
  next
    case False
    then show ?thesis using tv_ok_restart [OF sized, of prom ns] assms(3) by (simp add: tv_write_control_def Let_def)
  qed
qed

lemma tv_ok_write_control:
  assumes ok: "tv_ok prom now s" "now \<le> ns"
  shows "tv_ok prom ns (tv_write_control prom r v ns s)"
proof (cases "tv_board s = Video")
  case True
  have "tv_ok prom ns (s\<lparr>tv_mode := m\<rparr>)" for m
    using ok True by (simp add: tv_ok_video tv_sized_keeps)
  then show ?thesis using True tv_ok_later [OF ok] by (simp add: tv_write_control_def)
next
  case False
  have sized: "tv_sized s" using ok by (simp add: tv_ok_def)
  have pointer: "tv_ok prom ns (s\<lparr>tv_sync := (tv_sync s)\<lparr>sr_pointer := p AND (of_nat SYNC_RAM_WORDS - 1)\<rparr>\<rparr>)" for p
    by (rule tv_ok_same_program [OF ok tv_sized_keeps(4) [OF sized]]) simp_all
  have color: "tv_ok prom ns (s\<lparr>tv_color_map := (tv_color_map s)[c := (tv_color_map s ! c)[ch := y]]\<rparr>)" if "c < COLORS" for c ch y
    by (rule tv_ok_same_program [OF ok tv_sized_keeps(6) [OF sized that]]) simp_all
  consider "r = 0" | "r = 1" | "r = 3" | "r \<noteq> 0" "r \<noteq> 1" "r \<noteq> 3" by blast
  then show ?thesis
  proof cases
    case 4
    have k: "unat v mod COLORS < COLORS" by (simp add: COLORS_def)
    show ?thesis using 4 False pointer color [OF k] tv_ok_later [OF ok] by (simp add: tv_write_control_def Let_def)
  qed (use tv_ok_mode_write [OF ok False] tv_ok_data_write [OF ok False] tv_ok_enable_write [OF ok False] in simp_all)
qed

lemma tv_ok_xbus_init:
  assumes "tv_ok prom now s" "now \<le> ns"
  shows "tv_ok prom ns (tv_xbus_init ns s)"
proof (cases "tv_board s = Video")
  case True
  then show ?thesis using assms by (auto simp: tv_xbus_init_def tv_ok_def tv_timed_def)
qed (use tv_ok_flag [OF assms] in \<open>simp add: tv_xbus_init_def\<close>)

lemma tv_ok_write_buffer: "tv_ok prom now s \<Longrightarrow> tv_ok prom now (tv_write_buffer offset v s)"
  unfolding tv_write_buffer_def
  by (rule tv_ok_same_program [OF _ order_refl tv_sized_keeps(5)]) (simp_all add: tv_ok_def)

lemma tv_sized_made:
  fixes s :: tv and b :: tv_board and z :: "nat \<times> nat"
  assumes "tv_sized s"
  defines "s' \<equiv> s\<lparr>tv_board := b, tv_video_size := z\<rparr>"
  shows "tv_sized (s'\<lparr>tv_buffer := replicate (unat (tv_buffer_words s')) 0\<rparr>)"
  using assms(1) by (simp add: s'_def tv_sized_def tv_words_same [of "s'\<lparr>tv_buffer := q\<rparr>" s' for q, unfolded s'_def])

lemma tv_ok_set_board:
  assumes "tv_ok prom now s"
  shows "tv_ok prom now (tv_set_board prom board s)"
proof -
  let ?s = "s\<lparr>tv_board := board\<rparr>"
  let ?b = "?s\<lparr>tv_buffer := replicate (unat (tv_buffer_words ?s)) 0\<rparr>"
  have "?s = s\<lparr>tv_board := board, tv_video_size := tv_video_size s\<rparr>" by simp
  then have sized: "tv_sized ?b" using tv_sized_made [where s = s and b = board and z = "tv_video_size s"] assms by (simp add: tv_ok_def)
  have o: "tv_origin s \<le> tv_written_at s" "tv_written_at s \<le> now" using assms by (simp_all add: tv_ok_def)
  have t: "tv_sized (x\<lparr>tv_timeline := tm\<rparr>) = tv_sized x" "tv_sized (x\<lparr>tv_next_clr := nc\<rparr>) = tv_sized x" for x tm nc
    by (simp_all add: tv_sized_def tv_words_same [of "x\<lparr>tv_timeline := q\<rparr>" x for q] tv_words_same [of "x\<lparr>tv_next_clr := q\<rparr>" x for q])
  show ?thesis
  proof (cases "board = Video")
    case True
    then show ?thesis using sized o by (simp add: tv_set_board_def Let_def tv_ok_video t)
  next
    case False
    then show ?thesis using sized o
      by (simp add: tv_set_board_def Let_def) (intro tv_ok_at tv_timed_flag; simp add: t)
  qed
qed

lemma tv_ok_set_video_size:
  assumes "tv_ok prom now s"
  shows "tv_ok prom now (tv_set_video_size width height s)"
proof (cases "tv_board s = Video")
  case True
  let ?s = "s\<lparr>tv_video_size := (width, height)\<rparr>"
  have "?s = s\<lparr>tv_board := Video, tv_video_size := (width, height)\<rparr>" using True by simp
  then have "tv_sized (?s\<lparr>tv_buffer := replicate (unat (tv_buffer_words ?s)) 0\<rparr>)"
    using tv_sized_made [where s = s and b = Video and z = "(width, height)"] assms by (simp add: tv_ok_def)
  then show ?thesis using True assms by (simp add: tv_set_video_size_def Let_def tv_ok_video)
next
  case False
  have "tv_buffer_words (s\<lparr>tv_video_size := (width, height)\<rparr>) = tv_buffer_words s"
    using False by (cases "tv_board s") (simp_all add: tv_buffer_words_def)
  then have "tv_sized (s\<lparr>tv_video_size := (width, height)\<rparr>)" using assms by (simp add: tv_ok_def tv_sized_def)
  from tv_ok_same_program [OF assms order_refl this] False show ?thesis by (simp add: tv_set_video_size_def)
qed

text \<open>What a board comes to hold at \<open>now\<close>.\<close>

inductive tv_reach :: "u8 list \<Rightarrow> nat \<Rightarrow> tv \<Rightarrow> bool" for prom where
  tv_main: "tv_reach prom 0 (tv_default prom)"
| tv_second: "tv_reach prom 0 (tv_color prom)"
| tv_later: "tv_reach prom now s \<Longrightarrow> now \<le> ns \<Longrightarrow> tv_reach prom ns s"
| tv_fitted: "tv_reach prom now s \<Longrightarrow> tv_reach prom now (tv_set_board prom board s)"
| tv_video_sized: "tv_reach prom now s \<Longrightarrow> tv_reach prom now (tv_set_video_size width height s)"
| tv_register: "tv_reach prom now s \<Longrightarrow> tv_reach prom now (tv_write_control prom r v now s)"
| tv_word: "tv_reach prom now s \<Longrightarrow> tv_reach prom now (tv_write_buffer offset v s)"
| tv_bus_init: "tv_reach prom now s \<Longrightarrow> tv_reach prom now (tv_xbus_init now s)"

lemma first_clear_small:
  assumes "timeline_of program mode = Some t"
  shows "next_tvma_clr_after t 0 \<le> NO_TIME"
proof (cases "tl_tvma_clr t")
  case (Cons c cs)
  note ok = timeline_of_ok [OF assms]
  have c: "0 < c" "c \<le> tl_period_ns t" using ok(1) Cons by (simp_all add: timeline_ok_def)
  have "INSTRUCTION_NS ! unat (mode AND 3) \<le> 625"
  proof -
    have "unat (mode AND 3) < 4" using unat_and_mask_less [of 2 mode] by (simp add: mask_eq_exp_minus_1)
    then consider "unat (mode AND 3) = 0" | "unat (mode AND 3) = 1" | "unat (mode AND 3) = 2" | "unat (mode AND 3) = 3" by linarith
    then show ?thesis by cases (simp_all add: INSTRUCTION_NS_def)
  qed
  then have "tl_period_ns t \<le> 625 * MOST_INSTRUCTIONS" using ok(2,3) by (simp add: mult_le_mono)
  moreover have "625 * MOST_INSTRUCTIONS \<le> NO_TIME" by (simp add: MOST_INSTRUCTIONS_def NO_TIME_def)
  moreover have "next_tvma_clr_after t 0 = c"
    using c(1) Cons by (simp add: next_tvma_clr_after_def partition_point_def)
  ultimately show ?thesis using c(2) by simp
qed (simp add: next_tvma_clr_after_def)

lemma tv_ok_default: "tv_ok prom 0 (tv_default prom)"
  by (auto simp: tv_ok_def tv_sized_def tv_timed_def tv_default_def Let_def tv_buffer_words_def sync_ram_new_def
      SYNC_RAM_WORDS_def saturating_def min_absorb2 first_clear_small split: option.split)

lemma tv_ok_color: "tv_ok prom 0 (tv_color prom)"
  using tv_ok_default [of prom]
  by (auto simp: tv_ok_def tv_sized_def tv_timed_def tv_color_def tv_buffer_words_def tv_default_def Let_def split: option.split)

lemma tv_reach_ok: "tv_reach prom now s \<Longrightarrow> tv_ok prom now s"
  by (induction rule: tv_reach.induct)
    (auto intro: tv_ok_default tv_ok_color tv_ok_later tv_ok_set_board tv_ok_set_video_size tv_ok_write_control
      tv_ok_write_buffer tv_ok_xbus_init)

text \<open>
  C8: what a display board holds on every state its operations reach: its arrays have the lengths the registers
  index them by, the program laid out in time is the one its registers select at the clock mode they hold, and the
  next clear kept is the one looked up from the last write of the flag.
\<close>

theorem display_stays_ok:
  assumes "tv_reach prom now s"
  shows "tv_sized s \<and> tv_timed prom s \<and> tv_origin s \<le> tv_written_at s \<and> tv_written_at s \<le> now"
  using tv_reach_ok [OF assms] by (simp add: tv_ok_def)

lemma display_stays_ok_witness:
  "tv_timed [0] (tv_write_control [0] 3 0x80 7 (tv_color [0])) \<and> tv_sized (tv_write_control [0] 3 0x80 7 (tv_color [0]))"
  using display_stays_ok [OF tv_register [OF tv_later [OF tv_second, of 7]]] by simp

section \<open>The vertical flag\<close>

text \<open>When the running program clears the video address, which presets the flop.\<close>

definition preset_at :: "tv \<Rightarrow> nat \<Rightarrow> bool" where
  "preset_at s u \<longleftrightarrow> (\<exists>t. tv_timeline s = Some t \<and> tv_origin s \<le> u \<and> clears_at t (u - tv_origin s))"

lemma next_preset:
  assumes ok: "tv_ok prom now s" and "tv_board s \<noteq> Video" "b < NO_TIME"
  shows "tv_next_clr s \<le> b \<longleftrightarrow> (\<exists>u. tv_written_at s < u \<and> u \<le> b \<and> preset_at s u)"
proof (cases "tv_timeline s")
  case None
  then show ?thesis using assms by (simp add: tv_ok_def tv_timed_def preset_at_def)
next
  case (Some t)
  define since where "since = tv_written_at s - tv_origin s"
  have o: "tv_origin s \<le> tv_written_at s" using ok by (simp add: tv_ok_def)
  have nx: "tv_next_clr s = saturating (tv_origin s + next_tvma_clr_after t since)"
    and of: "timeline_of (sr_program prom (tv_sync s)) (tv_mode s AND TVM_CLOCK) = Some t"
    using ok assms(2) Some by (simp_all add: tv_ok_def tv_timed_def since_def)
  show ?thesis
  proof (cases "tl_tvma_clr t = []")
    case True
    then show ?thesis using Some assms(3)
      by (simp add: nx saturating_def next_tvma_clr_after_def preset_at_def no_clears)
  next
    case False
    note least = next_clear_least [OF timeline_of_ok(1) [OF of] False, of since]
    have le: "tv_next_clr s \<le> b \<longleftrightarrow> tv_origin s + next_tvma_clr_after t since \<le> b"
      using assms(3) by (auto simp: nx saturating_def)
    have "preset_at s (tv_origin s + next_tvma_clr_after t since)"
      "tv_written_at s < tv_origin s + next_tvma_clr_after t since"
      using least Some o by (simp_all add: preset_at_def since_def) linarith
    moreover have "tv_origin s + next_tvma_clr_after t since \<le> u" if "tv_written_at s < u" "preset_at s u" for u
    proof (rule ccontr)
      assume "\<not> tv_origin s + next_tvma_clr_after t since \<le> u"
      then have "since < u - tv_origin s" "u - tv_origin s < next_tvma_clr_after t since"
        using that(1) o by (simp_all add: since_def)
      then show False using least that(2) Some by (simp add: preset_at_def)
    qed
    ultimately show ?thesis unfolding le by (metis le_trans)
  qed
qed

lemma vert_flag_over_time:
  assumes "tv_ok prom now s" "now \<le> a" "a \<le> b" "b < NO_TIME" "tv_board s \<noteq> Video"
  shows "tv_vert_flag b s \<longleftrightarrow> tv_vert_flag a s \<or> (\<exists>u. a < u \<and> u \<le> b \<and> preset_at s u)"
proof -
  have w: "tv_written_at s \<le> a" using assms(1,2) by (simp add: tv_ok_def)
  have a: "a < NO_TIME" using assms(3,4) by simp
  show ?thesis
    unfolding tv_vert_flag_def next_preset [OF assms(1,5,4)] next_preset [OF assms(1,5) a]
    using assms(3,5) w by (meson le_less_trans le_trans not_le)
qed

lemma flag_at_the_write:
  assumes "tv_timeline s = timeline_of program mode" "tv_origin s \<le> ns" "ns < NO_TIME" "tv_board s \<noteq> Video"
  shows "tv_vert_flag ns (tv_flag_written_at f ns s) \<longleftrightarrow> f"
proof -
  have "ns < tv_next_clr (tv_flag_written_at f ns s)"
  proof (cases "tv_timeline s")
    case (Some t)
    show ?thesis
    proof (cases "tl_tvma_clr t = []")
      case False
      from next_clear_least [OF timeline_of_ok(1) [OF assms(1) [symmetric, unfolded Some]] this, of "ns - tv_origin s"]
      have "ns - tv_origin s < next_tvma_clr_after t (ns - tv_origin s)" by blast
      then show ?thesis using Some assms(2,3) by (simp add: tv_flag_written_at_def saturating_def)
    qed (use Some assms(3) in \<open>simp add: tv_flag_written_at_def saturating_def next_tvma_clr_after_def\<close>)
  qed (use assms(3) in \<open>simp add: tv_flag_written_at_def\<close>)
  then show ?thesis using assms(4) by (simp add: tv_vert_flag_def)
qed

lemma flag_over_restart:
  "ns < NO_TIME \<Longrightarrow> tv_board s \<noteq> Video \<Longrightarrow> tv_vert_flag ns (tv_restart prom ns s) \<longleftrightarrow> tv_vert_flag ns s"
  unfolding tv_restart_def Let_def
  by (rule flag_at_the_write [where program = "sr_program prom (tv_sync s)" and mode = "tv_mode s AND TVM_CLOCK"]) simp_all

lemma flag_depends:
  "tv_board s' = tv_board s \<Longrightarrow> tv_flag_written s' = tv_flag_written s \<Longrightarrow> tv_next_clr s' = tv_next_clr s \<Longrightarrow>
    tv_vert_flag ns s' = tv_vert_flag ns s"
  by (simp add: tv_vert_flag_def)

lemma flag_mode_write:
  assumes "tv_ok prom now s" "now \<le> ns" "ns < NO_TIME" "tv_board s \<noteq> Video"
  shows "tv_vert_flag ns (tv_write_control prom 0 v ns s) \<longleftrightarrow> v AND TVM_VERT \<noteq> 0"
proof -
  let ?s = "tv_flag_written_at (v AND TVM_VERT \<noteq> 0) ns (s\<lparr>tv_mode := v AND TVM_WRITABLE\<rparr>)"
  have "tv_vert_flag ns ?s \<longleftrightarrow> v AND TVM_VERT \<noteq> 0"
    by (rule flag_at_the_write) (use assms in \<open>auto simp: tv_ok_def tv_timed_def\<close>)
  then show ?thesis using assms(3,4) flag_over_restart [of ns ?s prom] by (simp add: tv_write_control_def Let_def)
qed

lemma flag_other_write:
  assumes "ns < NO_TIME" "tv_board s \<noteq> Video" "r \<noteq> 0"
  shows "tv_vert_flag ns (tv_write_control prom r v ns s) \<longleftrightarrow> tv_vert_flag ns s"
  using assms by (simp add: tv_write_control_def Let_def flag_over_restart flag_depends [of "s\<lparr>tv_sync := q\<rparr>" s for q]
      flag_depends [of "s\<lparr>tv_color_map := q\<rparr>" s for q])

text \<open>
  C7: the vertical flag. On every state a CADR's display board reaches, the flag is a flop: a write of the mode
  register puts its bit 4 in it, a bus reset clears it, writes of the other registers leave it, also where they
  run another program, and from then on it goes up exactly when the running program clears the video address.
\<close>

theorem vert_flag_is_a_flop:
  assumes "tv_reach prom now s" "now \<le> a" "a \<le> b" "b < NO_TIME" "tv_board s \<noteq> Video"
  shows "(tv_vert_flag b s \<longleftrightarrow> tv_vert_flag a s \<or> (\<exists>u. a < u \<and> u \<le> b \<and> preset_at s u)) \<and>
    (tv_vert_flag a (tv_write_control prom 0 v a s) \<longleftrightarrow> bit v 4) \<and>
    (r \<noteq> 0 \<longrightarrow> tv_vert_flag a (tv_write_control prom r v a s) = tv_vert_flag a s) \<and>
    \<not> tv_vert_flag a (tv_xbus_init a s)"
proof -
  note ok = tv_reach_ok [OF assms(1)]
  have a: "a < NO_TIME" using assms(3,4) by simp
  have vert: "v AND TVM_VERT \<noteq> 0 \<longleftrightarrow> bit v 4" using and_bit_set [of v 4] by (simp add: TVM_VERT_def)
  have "\<not> tv_vert_flag a (tv_xbus_init a s)"
    unfolding tv_xbus_init_def using ok assms(2,5) a flag_at_the_write [of s _ _ a False]
    by (simp add: tv_ok_def tv_timed_def)
  then show ?thesis
    using vert_flag_over_time [OF ok assms(2-5)] flag_mode_write [OF ok assms(2) a assms(5)] flag_other_write [OF a assms(5)]
    by (simp add: vert)
qed

lemma vert_flag_is_a_flop_witness:
  "(let s = tv_default [1, 0x40, 0xc0, 0] in \<not> tv_vert_flag 499 s \<and> tv_vert_flag 500 s \<and>
    \<not> tv_vert_flag 600 (tv_write_control [1, 0x40, 0xc0, 0] 0 0 600 s))"
proof -
  let ?s = "tv_default [1, 0x40, 0xc0, 0]"
  have t: "tv_timeline ?s = Some \<lparr>tl_period_ns = 1500, tl_instructions = 3, tl_changes = [(500, False, False)],
      tl_tvma_clr = [500], tl_lines = [\<lparr>ln_at_ns = 0, ln_instructions = 3, ln_video_cycles = 0, ln_blanked = False\<rparr>]\<rparr>"
    "tv_origin ?s = 0"
    by (simp_all add: tv_default_def Let_def sr_program_def sr_enabled_def sync_ram_new_def one_clear)
  have f: "tv_board ?s = SimpleTv" "tv_flag_written ?s = False" "tv_next_clr ?s = 500"
    by (simp_all add: tv_default_def Let_def sr_program_def sr_enabled_def sync_ram_new_def one_clear
      next_tvma_clr_after_def partition_point_def)
  have e: "\<not> tv_vert_flag 499 ?s" by (simp add: tv_vert_flag_def f)
  have p: "preset_at ?s 500" by (simp add: preset_at_def clears_at_def t)
  have "tv_vert_flag 500 ?s"
    using vert_flag_is_a_flop [OF tv_main [of "[1, 0x40, 0xc0, 0]"], of 499 500 0 0] p
    by (auto simp: f NO_TIME_def)
  moreover have "\<not> tv_vert_flag 600 (tv_write_control [1, 0x40, 0xc0, 0] 0 0 600 ?s)"
    using vert_flag_is_a_flop [OF tv_main [of "[1, 0x40, 0xc0, 0]"], of 600 700 0 0] by (simp add: f NO_TIME_def)
  ultimately show ?thesis using e by simp
qed

section \<open>Checkpoint\<close>

text \<open>What a checkpoint can hold: a size its fields take and 64-bit times.\<close>

definition tv_savable :: "tv \<Rightarrow> bool" where
  "tv_savable s \<longleftrightarrow> tv_sized s \<and> fst (tv_video_size s) < 2 ^ 16 \<and> snd (tv_video_size s) < 2 ^ 16 \<and>
     tv_written_at s < 2 ^ 64 \<and> tv_origin s < 2 ^ 64"

lemma codes_sr:
  assumes "length (sr_words s) = SYNC_RAM_WORDS" "unat (sr_pointer s) < SYNC_RAM_WORDS" "length (sr_words s0) = SYNC_RAM_WORDS"
  shows "codes n (sr_save s) (sr_load s0) s"
proof -
  have p: "(SYNC_RAM_WORDS \<le> unat (sr_pointer s)) = False" using assms(2) by simp
  have whole: "s0\<lparr>sr_words := sr_words s, sr_pointer := sr_pointer s, sr_enable := sr_enable s\<rparr> = s"
    by (cases s, cases s0) simp
  show ?thesis
    unfolding sr_save_def sr_load_def
    by (rule codes_cons [OF codes_bytes_into], simp add: assms SYNC_RAM_WORDS_def, simp add: assms,
        rule codes_cons [OF codes_u16], simp only: p if_False, (rule codes_step)+) (simp only: whole codes_nil)
qed

lemma codes_tv_board: "codes n (put_u8 (tv_board_code b)) get_tv_board b"
  unfolding get_tv_board_def by (rule codes_then [OF codes_u8]) (cases b; simp)

lemma codes_colors:
  assumes "length m = COLORS" "\<forall>c \<in> set m. length c = CHANNELS"
  shows "codes n (fold (\<lambda>color. fold put_u8 color) m) (get_many COLORS (get_many CHANNELS get_u8)) m"
proof -
  have "codes n (\<lambda>w. fold put_u8 c w) (get_many CHANNELS get_u8) c" if "c \<in> set m" for c
    using codes_many [of c n put_u8 get_u8] assms(2) that codes_u8 by simp
  then show ?thesis using codes_many [of m n "\<lambda>color. fold put_u8 color" "get_many CHANNELS get_u8"] assms(1) by simp
qed

lemma tv_set_board_fields [simp]:
  "tv_board (tv_set_board prom b s) = b" "tv_video_size (tv_set_board prom b s) = tv_video_size s"
  "tv_strap (tv_set_board prom b s) = tv_strap s" "tv_sync (tv_set_board prom b s) = tv_sync s"
  by (simp_all add: tv_set_board_def Let_def tv_flag_written_at_def)

lemma tv_set_board_length: "length (tv_buffer (tv_set_board prom b s)) = unat (tv_buffer_words (s\<lparr>tv_board := b\<rparr>))"
  by (simp add: tv_set_board_def Let_def)

text \<open>What is loaded is the board saved, with the timeline and the next clear looked up again.\<close>

lemma codes_tv:
  assumes "tv_savable s" "tv_sized s0" "tv_strap s0 = tv_strap s"
  shows "codes n (tv_save s) (tv_load prom s0) (tv_loaded prom s)"
proof -
  have size: "(unat (of_nat (fst (tv_video_size s)) :: u16), unat (of_nat (snd (tv_video_size s)) :: u16)) = tv_video_size s"
    using assms(1) by (simp add: tv_savable_def unat_of_nat take_bit_nat_eq_self)
  have times: "unat (of_nat (tv_written_at s) :: u64) = tv_written_at s" "unat (of_nat (tv_origin s) :: u64) = tv_origin s"
    using assms(1) by (simp_all add: tv_savable_def unat_of_nat take_bit_nat_eq_self)
  define s1 where "s1 = (if tv_board s \<noteq> tv_board s0 \<or> tv_video_size s \<noteq> tv_video_size s0
              then tv_set_board prom (tv_board s) (s0\<lparr>tv_video_size := tv_video_size s\<rparr>) else s0)"
  have s1: "tv_board s1 = tv_board s" "tv_video_size s1 = tv_video_size s" "tv_strap s1 = tv_strap s" "tv_sync s1 = tv_sync s0"
    using assms(3) by (auto simp: s1_def)
  have "length (tv_buffer s1) = unat (tv_buffer_words s)"
    using assms(2) by (auto simp: s1_def tv_set_board_length tv_sized_def intro!: arg_cong [of _ _ unat] tv_words_same)
  then have buffer: "length (tv_buffer s) = length (tv_buffer s1)"
    using assms(1) by (simp add: tv_savable_def tv_sized_def)
  have "unat (tv_buffer_words s) < 2 ^ 32" using unsigned_less [of "tv_buffer_words s"] by simp
  then have small: "length (tv_buffer s) < 2 ^ 64" using assms(1) by (simp add: tv_savable_def tv_sized_def)
  have whole: "tv_loaded prom (s1\<lparr>tv_buffer := tv_buffer s, tv_mode := tv_mode s, tv_sync := tv_sync s,
      tv_color_map := tv_color_map s, tv_flag_written := tv_flag_written s, tv_written_at := tv_written_at s,
      tv_origin := tv_origin s, tv_sync_held := (fst (tv_sync_held s), snd (tv_sync_held s))\<rparr>) = tv_loaded prom s"
    using s1 by (cases s1, cases s) (simp add: tv_loaded_def tv_flag_written_at_def Let_def split: option.split)
  have sr: "codes n (sr_save (tv_sync s)) (sr_load (tv_sync s1)) (tv_sync s)"
    using assms(1,2) s1(4) by (intro codes_sr) (simp_all add: tv_savable_def tv_sized_def)
  have colors: "codes n (fold (\<lambda>color. fold put_u8 color) (tv_color_map s)) (get_many COLORS (get_many CHANNELS get_u8))
      (tv_color_map s)"
    using assms(1) by (intro codes_colors) (simp_all add: tv_savable_def tv_sized_def)
  show ?thesis
    unfolding tv_save_def tv_load_def
    by (rule codes_cons [OF codes_tv_board], (rule codes_step)+, simp only: size Let_def s1_def [symmetric],
        rule codes_cons [OF codes_u32s_into [OF small buffer]], rule codes_cons [OF codes_u32], rule codes_cons [OF sr],
        rule codes_cons [OF colors], (rule codes_step)+)
      (simp only: times whole codes_nil)
qed

text \<open>On a CADR's board that is the board saved; on QUUX's the timeline is there, where it was not, and nothing reads it.\<close>

lemma tv_loaded_same: "tv_timed prom s \<Longrightarrow> tv_board s \<noteq> Video \<Longrightarrow> tv_loaded prom s = s"
  by (cases s) (simp add: tv_loaded_def tv_flag_written_at_def tv_timed_def Let_def split: option.split)

lemma tv_loaded_video:
  assumes "tv_board s = Video"
  shows "tv_read_control prom r ns (tv_loaded prom s) = tv_read_control prom r ns s"
    "tv_interrupt ns (tv_loaded prom s) = tv_interrupt ns s" "tv_read_buffer k (tv_loaded prom s) = tv_read_buffer k s"
    "tv_loaded prom (tv_write_control prom r v ns s) = tv_write_control prom r v ns (tv_loaded prom s) \<or> r = 0"
  using assms by (simp_all add: tv_read_control_def tv_interrupt_def tv_vert_flag_def tv_read_buffer_def tv_write_control_def
      tv_loaded_def Let_def)

interpretation sync_ram: codec n "\<lambda>s. length (sr_words s) = SYNC_RAM_WORDS \<and> unat (sr_pointer s) < SYNC_RAM_WORDS"
    sr_save "sr_load sync_ram_new" for n
  by unfold_locales (simp add: codes_sr sync_ram_new_def)

interpretation tv: codec n "\<lambda>s. tv_savable s \<and> tv_timed prom s \<and> tv_board s \<noteq> Video \<and> tv_strap s = NORMAL_TV" tv_save
    "tv_load prom (tv_default prom)" for n prom
proof unfold_locales
  fix s :: tv
  assume s: "tv_savable s \<and> tv_timed prom s \<and> tv_board s \<noteq> Video \<and> tv_strap s = NORMAL_TV"
  have "tv_sized (tv_default prom)" "tv_strap (tv_default prom) = NORMAL_TV"
    using tv_ok_default [of prom] by (simp_all add: tv_ok_def) (simp add: tv_default_def Let_def)
  then show "codes n (tv_save s) (tv_load prom (tv_default prom)) s"
    using codes_tv [of s "tv_default prom" n prom] s by (simp add: tv_loaded_same)
qed

end
