(* ===== verification/DiskFormat.thy ===== *)
theory DiskFormat
  imports DiskImage
begin

text \<open>
  A sector as it lies on a pack, \<open>src/disk_unit.rs\<close>: its format, the check code over its header and its data, the
  bytes of a sector laid out and the sector read back from its bits. \<open>DiskEcc\<close>, \<open>DiskTrap\<close> and
  \<open>DiskFire\<close> are about the check code's burst trap.
\<close>

section \<open>The format\<close>

definition PREAMBLE :: nat where "PREAMBLE = 53"
definition VFO_LOCK :: nat where "VFO_LOCK = 8"
definition SYNC :: u8 where "SYNC = 0x7f"
definition HEADER_BYTES :: nat where "HEADER_BYTES = 4"
definition ECC_BYTES :: nat where "ECC_BYTES = 4"
definition VFO_RELOCK :: nat where "VFO_RELOCK = 20"
definition PAD :: u8 where "PAD = 0xff"
definition DATA_BYTES :: nat where "DATA_BYTES = BLOCK_WORDS * 4"
definition POSTAMBLE :: nat where "POSTAMBLE = 44"
definition SECTOR_BYTES :: nat where "SECTOR_BYTES = 1164"
definition TRACK_BYTES :: nat where "TRACK_BYTES = 20160"
definition LEFTOVER :: nat where "LEFTOVER = TRACK_BYTES - 17 * SECTOR_BYTES"
definition HEADER_SYNC_AT :: nat where "HEADER_SYNC_AT = PREAMBLE + VFO_LOCK"
definition DATA_SYNC_AT :: nat where "DATA_SYNC_AT = HEADER_SYNC_AT + 1 + HEADER_BYTES + ECC_BYTES + VFO_RELOCK"
definition DATA_AT :: nat where "DATA_AT = DATA_SYNC_AT + 2"

lemmas format_sizes = PREAMBLE_def VFO_LOCK_def HEADER_BYTES_def ECC_BYTES_def VFO_RELOCK_def DATA_BYTES_def POSTAMBLE_def
  SECTOR_BYTES_def TRACK_BYTES_def LEFTOVER_def BLOCK_WORDS_def

record disk_geometry =
  dg_cylinders :: u32
  dg_heads :: u32
  dg_blocks_per_track :: u32

definition T80 :: disk_geometry where "T80 = \<lparr>dg_cylinders = 815, dg_heads = 5, dg_blocks_per_track = 17\<rparr>"
definition T300 :: disk_geometry where "T300 = \<lparr>dg_cylinders = 815, dg_heads = 19, dg_blocks_per_track = 17\<rparr>"

definition blocks_per_cylinder :: "disk_geometry \<Rightarrow> u32" where
  "blocks_per_cylinder g = dg_heads g * dg_blocks_per_track g"

definition dg_blocks :: "disk_geometry \<Rightarrow> u32" where
  "dg_blocks g = dg_cylinders g * blocks_per_cylinder g"

definition next_block_code :: "disk_geometry \<Rightarrow> u32 \<Rightarrow> u32 \<Rightarrow> u32 \<Rightarrow> u32" where
  "next_block_code g cylinder head block =
     (if block + 1 < dg_blocks_per_track g then 0
      else if head + 1 < dg_heads g then 1
      else if cylinder + 1 < dg_cylinders g then 2
      else 3)"

definition header_of :: "disk_geometry \<Rightarrow> u32 \<Rightarrow> u32 \<Rightarrow> u32 \<Rightarrow> u32" where
  "header_of g cylinder head block =
     push_bit 30 (next_block_code g cylinder head block) OR push_bit 16 (cylinder AND 0xfff) OR
     push_bit 8 (head AND 0xff) OR (block AND 0xff)"

section \<open>The check code\<close>

type_synonym ecc = u32

definition ECC_TAPS :: u32 where
  "ECC_TAPS = push_bit 31 1 OR push_bit 29 1 OR push_bit 20 1 OR push_bit 10 1 OR push_bit 8 1"

definition ecc_out :: "ecc \<Rightarrow> bool" where
  "ecc_out e \<longleftrightarrow> e AND 1 \<noteq> 0"

definition ecc_shift :: "bool \<Rightarrow> bool \<Rightarrow> ecc \<Rightarrow> ecc" where
  "ecc_shift d feedback e =
     (let taps = if feedback \<and> d \<noteq> ecc_out e then ECC_TAPS else 0 in drop_bit 1 e XOR taps)"

definition ecc_feed :: "u8 list \<Rightarrow> ecc \<Rightarrow> ecc" where
  "ecc_feed bytes e = fold (\<lambda>b. fold (\<lambda>k. ecc_shift (drop_bit k b AND 1 \<noteq> 0) True) [0..<8]) bytes e"

definition ecc_checkword :: "ecc \<Rightarrow> u8 list" where
  "ecc_checkword e =
     fst (fold (\<lambda>k (out, e).
       (if ecc_out e then out[k div 8 := out ! (k div 8) OR push_bit (k mod 8) 1] else out, ecc_shift False False e))
       [0..<32] (replicate 4 0, e))"

definition ecc_checks :: "ecc \<Rightarrow> bool" where
  "ecc_checks e \<longleftrightarrow> e = 0"

definition ecc_over :: "u8 list \<Rightarrow> u8 list" where
  "ecc_over bytes = ecc_checkword (ecc_feed bytes 0)"

definition ECC_CYCLE :: nat where "ECC_CYCLE = 42945"

definition trailing_zeros :: "u32 \<Rightarrow> nat" where
  "trailing_zeros w = length (takeWhile (\<lambda>k. \<not> bit w k) [0..<32])"

definition ilog2 :: "u16 \<Rightarrow> nat" where
  "ilog2 w = 15 - length (takeWhile (\<lambda>k. \<not> bit w (15 - k)) [0..<16])"

text \<open>The scan over the block, from a step to the last one.\<close>

primrec ecc_scan :: "nat \<Rightarrow> nat \<Rightarrow> ecc \<Rightarrow> (u16 \<times> nat) option" where
  "ecc_scan step 0 r = None"
| "ecc_scan step (Suc n) r =
     (if drop_bit 11 r = 0 then
        (let pattern = ucast (drop_bit (trailing_zeros r) r)
         in if ilog2 pattern \<le> step then Some (pattern, step - ilog2 pattern) else None)
      else ecc_scan (Suc step) n (ecc_shift False True r))"

definition ecc_trap :: "nat \<Rightarrow> ecc \<Rightarrow> (u16 \<times> nat) option" where
  "ecc_trap bits e =
     (if e = 0 \<or> ECC_CYCLE < bits then None
      else ecc_scan 0 (bits + 1) ((ecc_shift False True ^^ (ECC_CYCLE - bits)) e))"

section \<open>A sector's bytes\<close>

definition sector_image_laid :: "u32 \<Rightarrow> u8 list \<Rightarrow> u32 list \<Rightarrow> u8 list \<Rightarrow> u8 list" where
  "sector_image_laid header checkword data data_checkword =
     replicate (PREAMBLE + VFO_LOCK) 0xff @ [SYNC] @ le_bytes 4 header @ checkword @ replicate VFO_RELOCK 0xff @
     [SYNC, PAD] @ bytes_of_words data @ data_checkword @ replicate POSTAMBLE 0xff"

definition sector_image_written :: "u32 \<Rightarrow> u8 list \<Rightarrow> u32 list \<Rightarrow> u8 list" where
  "sector_image_written header checkword data =
     sector_image_laid header checkword data (ecc_checkword (ecc_feed (bytes_of_words data) 0))"

definition sector_image_with_header :: "u32 \<Rightarrow> u32 list \<Rightarrow> u8 list" where
  "sector_image_with_header header data = sector_image_written header (ecc_over (le_bytes 4 header)) data"

definition sector_image :: "disk_geometry \<Rightarrow> u32 \<Rightarrow> u32 \<Rightarrow> u32 \<Rightarrow> u32 list \<Rightarrow> u8 list" where
  "sector_image g cylinder head block data = sector_image_with_header (header_of g cylinder head block) data"

record sector =
  sc_header :: u32
  sc_header_checkword :: "u8 list"
  sc_header_checks :: bool
  sc_data :: "u32 list"
  sc_data_checkword :: "u8 list"
  sc_data_checks :: bool

fun sync_scan :: "nat \<Rightarrow> nat \<Rightarrow> bool list \<Rightarrow> nat option" where
  "sync_scan k ones [] = None"
| "sync_scan k ones (b # bs) =
     (if b then sync_scan (k + 1) (ones + 1) bs
      else if 64 \<le> ones then Some (k + 1) else sync_scan (k + 1) 0 bs)"

definition after_sync :: "bool list \<Rightarrow> nat \<Rightarrow> nat option" where
  "after_sync bits from = sync_scan from 0 (drop from bits)"

definition take_bits :: "bool list \<Rightarrow> nat \<Rightarrow> nat \<Rightarrow> u8 list option" where
  "take_bits bits at n =
     (if length bits < at + n then None
      else Some (fold (\<lambda>(k, b) out. if b then out[k div 8 := out ! (k div 8) OR push_bit (k mod 8) 1] else out)
        (enumerate 0 (take n (drop at bits))) (replicate (n div 8) 0)))"

definition parse_sector :: "bool list \<Rightarrow> sector option" where
  "parse_sector bits =
     (case after_sync bits 0 of None \<Rightarrow> None | Some at \<Rightarrow>
     (case take_bits bits at 32 of None \<Rightarrow> None | Some hb \<Rightarrow>
     (case take_bits bits (at + 32) 32 of None \<Rightarrow> None | Some hc \<Rightarrow>
     (case after_sync bits (at + 64) of None \<Rightarrow> None | Some at' \<Rightarrow>
     (case take_bits bits (at' + 8) (DATA_BYTES * 8) of None \<Rightarrow> None | Some db \<Rightarrow>
     (case take_bits bits (at' + 8 + DATA_BYTES * 8) 32 of None \<Rightarrow> None | Some dc \<Rightarrow>
       Some \<lparr>sc_header = from_le_bytes hb, sc_header_checkword = hc,
         sc_header_checks = ecc_checks (ecc_feed hc (ecc_feed hb 0)), sc_data = words_of_bytes db,
         sc_data_checkword = dc, sc_data_checks = ecc_checks (ecc_feed dc (ecc_feed db 0))\<rparr>))))))"

text \<open>The bits of bytes as they go under the head, low-order bit first.\<close>

definition disk_bits :: "u8 list \<Rightarrow> bool list" where
  "disk_bits bytes = concat (map (\<lambda>b. map (\<lambda>k. drop_bit k b AND 1 \<noteq> 0) [0..<8]) bytes)"

section \<open>Bits and bytes\<close>

lemma length_disk_bits [simp]: "length (disk_bits bytes) = 8 * length bytes"
  by (induction bytes) (simp_all add: disk_bits_def)

lemma disk_bits_append: "disk_bits (xs @ ys) = disk_bits xs @ disk_bits ys"
  by (simp add: disk_bits_def)

lemma disk_bits_Cons: "disk_bits (b # bs) = map (bit b) [0..<8] @ disk_bits bs"
  by (simp add: disk_bits_def bit_iff_odd_drop_bit and_one_eq odd_iff_mod_2_eq_one cong: map_cong)

lemma nth_disk_bits: "i < 8 * length bytes \<Longrightarrow> disk_bits bytes ! i = bit (bytes ! (i div 8)) (i mod 8)"
proof (induction bytes arbitrary: i)
  case (Cons b bs)
  show ?case
  proof (cases "i < 8")
    case False
    then have "disk_bits (b # bs) ! i = disk_bits bs ! (i - 8)" by (simp add: disk_bits_Cons nth_append)
    also have "\<dots> = bit (bs ! ((i - 8) div 8)) ((i - 8) mod 8)" using Cons False by simp
    also have "\<dots> = bit ((b # bs) ! (i div 8)) (i mod 8)"
      using False by (simp add: le_div_geq le_mod_geq nth_Cons')
    finally show ?thesis .
  qed (simp add: disk_bits_Cons nth_append)
qed simp

text \<open>Bits set one after the other into bytes that start clear are the bytes of those bits.\<close>

definition set_bits :: "nat \<times> bool \<Rightarrow> u8 list \<Rightarrow> u8 list" where
  "set_bits = (\<lambda>(k, b) out. if b then out[k div 8 := out ! (k div 8) OR push_bit (k mod 8) 1] else out)"

lemma set_bits_fold:
  assumes "i + length xs \<le> 8 * length out"
  shows "length (fold set_bits (enumerate i xs) out) = length out \<and>
    (\<forall>j < length out. \<forall>m < 8. bit (fold set_bits (enumerate i xs) out ! j) m \<longleftrightarrow>
      bit (out ! j) m \<or> i \<le> 8 * j + m \<and> 8 * j + m < i + length xs \<and> xs ! (8 * j + m - i))"
  using assms
proof (induction xs arbitrary: i out)
  case Nil
  have none: "\<not> (i \<le> q \<and> q < i + length ([] :: bool list) \<and> R)" for q R by simp
  show ?case by (intro conjI allI impI) (simp, simp only: none enumerate_simps fold_simps id_apply simp_thms)
next
  case (Cons b xs)
  let ?out = "set_bits (i, b) out"
  have len: "length ?out = length out" by (simp add: set_bits_def)
  have here: "bit (?out ! j) m \<longleftrightarrow> bit (out ! j) m \<or> 8 * j + m = i \<and> b" if "j < length out" "m < 8" for j m
  proof -
    have "j = i div 8 \<and> m = i mod 8 \<longleftrightarrow> 8 * j + m = i" using that(2) by auto
    moreover have "i div 8 < length out" using Cons.prems by simp
    ultimately show ?thesis using that
      by (auto simp: set_bits_def nth_list_update bit_or_iff bit_exp_iff)
  qed
  have IH: "length (fold set_bits (enumerate (Suc i) xs) ?out) = length ?out \<and>
    (\<forall>j < length ?out. \<forall>m < 8. bit (fold set_bits (enumerate (Suc i) xs) ?out ! j) m \<longleftrightarrow>
      bit (?out ! j) m \<or> Suc i \<le> 8 * j + m \<and> 8 * j + m < Suc i + length xs \<and> xs ! (8 * j + m - Suc i))"
    by (rule Cons.IH) (use Cons.prems len in simp)
  have "(i \<le> q \<and> q < i + length (b # xs) \<and> (b # xs) ! (q - i)) \<longleftrightarrow>
      q = i \<and> b \<or> Suc i \<le> q \<and> q < Suc i + length xs \<and> xs ! (q - Suc i)" for q
    by (cases "q = i") (auto simp: nth_Cons')
  then show ?case using IH here len by (simp add: disj_assoc)
qed

lemma set_bits_bytes:
  assumes "length xs = 8 * length bytes" "\<And>i. i < length xs \<Longrightarrow> xs ! i = bit (bytes ! (i div 8)) (i mod 8)"
  shows "fold set_bits (enumerate 0 xs) (replicate (length bytes) 0) = bytes"
proof (rule nth_equalityI)
  note r = set_bits_fold [of 0 xs "replicate (length bytes) 0"]
  show "length (fold set_bits (enumerate 0 xs) (replicate (length bytes) 0)) = length bytes" using r assms(1) by simp
  fix j
  assume "j < length (fold set_bits (enumerate 0 xs) (replicate (length bytes) 0))"
  then have j: "j < length bytes" using r assms(1) by simp
  show "fold set_bits (enumerate 0 xs) (replicate (length bytes) 0) ! j = bytes ! j"
  proof (rule bit_word_eqI)
    fix m
    assume "m < LENGTH(8)"
    then have m: "m < 8" by simp
    have "8 * j + m < length xs" using j m assms(1) by simp
    then show "bit (fold set_bits (enumerate 0 xs) (replicate (length bytes) 0) ! j) m = bit (bytes ! j) m"
      using r assms j m by simp
  qed
qed

lemma take_bits_bytes:
  assumes "length pre = at" "n = 8 * length bytes"
  shows "take_bits (pre @ disk_bits bytes @ post) at n = Some bytes"
  using assms set_bits_bytes [of "disk_bits bytes" bytes]
  by (simp add: take_bits_def nth_disk_bits set_bits_def)

section \<open>The check code checks its own checkword\<close>

lemma ecc_out_bit: "ecc_out e = bit e 0"
  by (simp add: ecc_out_def and_one_eq odd_iff_mod_2_eq_one bit_0)

lemma ecc_feed_bits: "ecc_feed bytes e = fold (\<lambda>b. ecc_shift b True) (disk_bits bytes) e"
proof -
  have "fold (\<lambda>k. ecc_shift (drop_bit k b AND 1 \<noteq> 0) True) ks e =
      fold (\<lambda>b. ecc_shift b True) (map (\<lambda>k. drop_bit k b AND 1 \<noteq> 0) ks) e" for b :: u8 and ks e
    by (simp add: fold_map o_def)
  then show ?thesis unfolding ecc_feed_def disk_bits_def by (induction bytes arbitrary: e) simp_all
qed

lemma ecc_checkword_fold:
  "fold (\<lambda>k (out, e). (if ecc_out e then out[k div 8 := out ! (k div 8) OR push_bit (k mod 8) 1] else out,
     ecc_shift False False e)) [i..<i + n] (out, e) =
   (fold set_bits (enumerate i (map (bit e) [0..<n])) out, drop_bit n e)"
proof (induction n arbitrary: i out e)
  case (Suc n)
  have "map (bit e) [0..<Suc n] = bit e 0 # map (bit (drop_bit 1 e)) [0..<n]"
    unfolding upt_conv_Cons [OF zero_less_Suc] map_Suc_upt [symmetric] by (simp add: bit_drop_bit_eq o_def)
  then show ?case
    using Suc [of "Suc i" "if bit e 0 then out[i div 8 := out ! (i div 8) OR push_bit (i mod 8) 1] else out" "drop_bit 1 e"]
    by (simp add: upt_conv_Cons ecc_out_bit ecc_shift_def Let_def set_bits_def del: upt_Suc)
qed simp

lemma nth_bits_of_word: "i < 32 \<Longrightarrow> bit (le_bytes 4 (e :: u32) ! (i div 8)) (i mod 8) = bit e i"
proof -
  assume "i < 32"
  then have "i div 8 < 4" by simp
  then show ?thesis by (simp add: le_bytes_def bit_drop_bit_eq bit_ucast_iff)
qed

lemma ecc_checkword_le: "ecc_checkword e = le_bytes 4 e"
proof -
  have "ecc_checkword e = fold set_bits (enumerate 0 (map (bit e) [0..<32])) (replicate 4 0)"
    using ecc_checkword_fold [of 0 32 "replicate 4 0" e] by (simp add: ecc_checkword_def)
  also have "\<dots> = le_bytes 4 e"
    using set_bits_bytes [of "map (bit e) [0..<32]" "le_bytes 4 e"]
    by (simp add: nth_bits_of_word)
  finally show ?thesis .
qed

lemma length_ecc_checkword [simp]: "length (ecc_checkword e) = 4"
  by (simp add: ecc_checkword_le)

lemma feed_own_bits: "fold (\<lambda>b. ecc_shift b True) (map (bit e) [0..<n]) e = drop_bit n e"
proof (induction n)
  case (Suc n)
  then show ?case by (simp add: ecc_shift_def ecc_out_bit bit_drop_bit_eq Let_def)
qed simp

text \<open>Feeding a register its own checkword clears it.\<close>

lemma ecc_own_checkword: "ecc_feed (ecc_checkword e) e = 0"
proof -
  have "disk_bits (le_bytes 4 e) = map (bit e) [0..<32]"
    by (rule nth_equalityI) (simp_all add: nth_disk_bits nth_bits_of_word)
  then show ?thesis using feed_own_bits [of e 32] by (simp add: ecc_feed_bits ecc_checkword_le)
qed

lemma ecc_sector_checks: "ecc_feed (ecc_over bytes) (ecc_feed bytes 0) = 0"
  by (simp add: ecc_over_def ecc_own_checkword)

section \<open>A sector laid out is read back\<close>

lemma disk_bits_ones: "disk_bits (replicate n 0xff) = replicate (8 * n) True"
proof -
  have "(0xff :: u8) = mask 8" by (simp add: mask_eq_exp_minus_1)
  then have "bit (0xff :: u8) k" if "k < 8" for k using that by (simp only: bit_mask_iff) simp
  then show ?thesis by (intro nth_equalityI) (simp_all add: nth_disk_bits)
qed

lemma disk_bits_sync: "disk_bits [SYNC] = replicate 7 True @ [False]"
  by (simp add: disk_bits_def SYNC_def upt_rec) (simp add: eval_nat_numeral)

lemma sync_found: "64 \<le> ones + n \<Longrightarrow> sync_scan k ones (replicate n True @ False # bs) = Some (k + n + 1)"
  by (induction n arbitrary: k ones) simp_all

lemma after_sync_found:
  assumes "length pre = from" "8 \<le> n"
  shows "after_sync (pre @ disk_bits (replicate n 0xff) @ disk_bits [SYNC] @ rest) from = Some (from + 8 * n + 8)"
proof -
  have eq: "disk_bits (replicate n 0xff) @ disk_bits [SYNC] @ rest = replicate (8 * n + 7) True @ False # rest"
    by (simp add: disk_bits_ones disk_bits_sync replicate_add)
  show ?thesis
    by (simp only: after_sync_def eq) (use assms sync_found [of 0 "8 * n + 7" "from" rest] in simp)
qed

lemma laid_bits:
  "disk_bits (sector_image_laid h hc data dc @ rest) =
    disk_bits (replicate 61 0xff) @ disk_bits [SYNC] @ disk_bits (le_bytes 4 h) @ disk_bits hc @
    disk_bits (replicate 20 0xff) @ disk_bits [SYNC] @ disk_bits [PAD] @ disk_bits (bytes_of_words data) @ disk_bits dc @
    disk_bits (replicate POSTAMBLE 0xff @ rest)"
proof -
  have "sector_image_laid h hc data dc @ rest =
    replicate 61 0xff @ [SYNC] @ le_bytes 4 h @ hc @ replicate 20 0xff @ [SYNC] @ [PAD] @ bytes_of_words data @ dc @
    (replicate POSTAMBLE 0xff @ rest)"
    by (simp add: sector_image_laid_def PREAMBLE_def VFO_LOCK_def VFO_RELOCK_def)
  then show ?thesis by (simp only: disk_bits_append)
qed

lemma parse_laid:
  assumes "length hc = 4" "length data = BLOCK_WORDS" "length dc = 4"
  shows "parse_sector (disk_bits (sector_image_laid h hc data dc @ rest)) = Some
    \<lparr>sc_header = h, sc_header_checkword = hc, sc_header_checks = ecc_checks (ecc_feed hc (ecc_feed (le_bytes 4 h) 0)),
     sc_data = data, sc_data_checkword = dc, sc_data_checks = ecc_checks (ecc_feed dc (ecc_feed (bytes_of_words data) 0))\<rparr>"
proof -
  define bits where "bits = disk_bits (sector_image_laid h hc data dc @ rest)"
  define ones where "ones n = disk_bits (replicate n 0xff)" for n
  define sync pad where "sync = disk_bits [SYNC]" and "pad = disk_bits [PAD]"
  define tail where "tail = disk_bits (replicate POSTAMBLE 0xff @ rest)"
  let ?db = "bytes_of_words data"
  have len: "length (ones n) = 8 * n" "length sync = 8" "length pad = 8" "length ?db = 1024" for n
    by (simp_all add: ones_def sync_def pad_def length_bytes_of_words assms(2) BLOCK_WORDS_def)
  have bits: "bits = ones 61 @ sync @ disk_bits (le_bytes 4 h) @ disk_bits hc @ ones 20 @ sync @ pad @ disk_bits ?db @
      disk_bits dc @ tail"
    by (simp only: bits_def laid_bits ones_def sync_def pad_def tail_def)
  note found = after_sync_found [folded ones_def sync_def]
  have at: "after_sync bits 0 = Some 496"
    using found [of "[]" 0 61] by (simp add: bits)
  have hb: "take_bits bits 496 32 = Some (le_bytes 4 h)"
    unfolding bits
    by (rule take_bits_bytes [of "ones 61 @ sync" 496 32 "le_bytes 4 h", unfolded append_assoc])
      (simp_all add: len assms)
  have c: "take_bits bits 528 32 = Some hc"
    unfolding bits
    by (rule take_bits_bytes [of "ones 61 @ sync @ disk_bits (le_bytes 4 h)" 528 32 hc, unfolded append_assoc])
      (simp_all add: len assms)
  have at2: "after_sync bits 560 = Some 728"
    using found [of "ones 61 @ sync @ disk_bits (le_bytes 4 h) @ disk_bits hc" 560 20, unfolded append_assoc]
    by (simp add: bits len assms)
  have db: "take_bits bits 736 8192 = Some ?db"
    unfolding bits
    by (rule take_bits_bytes [of "ones 61 @ sync @ disk_bits (le_bytes 4 h) @ disk_bits hc @ ones 20 @ sync @ pad" 736 8192 ?db, unfolded append_assoc])
      (simp_all add: len assms)
  have dc: "take_bits bits 8928 32 = Some dc"
    unfolding bits
    by (rule take_bits_bytes [of "ones 61 @ sync @ disk_bits (le_bytes 4 h) @ disk_bits hc @ ones 20 @ sync @ pad @ disk_bits ?db" 8928 32 dc, unfolded append_assoc])
      (simp_all add: len assms)
  have n: "DATA_BYTES * 8 = 8192" by (simp add: DATA_BYTES_def BLOCK_WORDS_def)
  show ?thesis
    unfolding parse_sector_def bits_def [symmetric] n using at hb c at2 db dc
    by (simp add: from_le_le_bytes_full words_of_bytes_of_words assms(2))
qed

text \<open>
  A sector laid out on the pack is read back from the bits under the head: its header, its data and both
  checkwords, whatever they are and whatever follows it, and the checkwords the layout computes check.
\<close>

theorem sector_round_trip:
  assumes "length hc = 4" "length data = BLOCK_WORDS" "length dc = 4"
  shows "map_option (\<lambda>s. (sc_header s, sc_header_checkword s, sc_data s, sc_data_checkword s))
      (parse_sector (disk_bits (sector_image_laid h hc data dc @ rest))) = Some (h, hc, data, dc) \<and>
    map_option (\<lambda>s. (sc_header s, sc_data s, sc_header_checks s, sc_data_checks s))
      (parse_sector (disk_bits (sector_image g c head b data @ rest))) = Some (header_of g c head b, data, True, True)"
  unfolding sector_image_def sector_image_with_header_def sector_image_written_def
  by (simp add: parse_laid assms ecc_over_def ecc_own_checkword ecc_checks_def)

lemma sector_round_trip_witness:
  "\<exists>s. parse_sector (disk_bits (sector_image T80 814 4 16 (replicate 256 0xdeadbeef) @ [0])) = Some s \<and> sc_data_checks s"
  using sector_round_trip [of "[0, 0, 0, 0]" "replicate 256 0xdeadbeef" "[0, 0, 0, 0]" 0 "[0]" T80 814 4 16]
  by (auto simp: BLOCK_WORDS_def)

end
