(* ===== verification/DiskUnit.thy ===== *)
theory DiskUnit
  imports DiskFormat
begin

text \<open>
  One drive and its pack, \<open>Unit\<close> of \<open>src/disk_unit.rs\<close>: the pack's file and the blocks, headers and data checkwords
  written over it, the heads, the three conditions of the status register, the drive's timing and its checkpoint.
  The maps from block numbers are association lists sorted by block, as in \<open>DiskImage\<close>; the host's file is the list
  of its bytes, and a write to it is done.
\<close>

section \<open>A sector's header\<close>

record sector_header =
  sh_word :: u32
  sh_checkword :: "u8 list"

definition header_checks :: "sector_header \<Rightarrow> bool" where
  "header_checks h \<longleftrightarrow> sh_checkword h = ecc_over (le_bytes 4 (sh_word h))"

definition header_for :: "disk_geometry \<Rightarrow> u32 \<Rightarrow> u32 \<Rightarrow> u32 \<Rightarrow> sector_header" where
  "header_for g cylinder head block =
     (let word = header_of g cylinder head block in \<lparr>sh_word = word, sh_checkword = ecc_over (le_bytes 4 word)\<rparr>)"

section \<open>The unit\<close>

record drive_unit =
  un_geometry :: disk_geometry
  un_image :: "u8 list option"
  un_writable :: bool
  un_written :: "(u32 \<times> u32 list) list"
  un_headers :: "(u32 \<times> sector_header) list"
  un_data_checkwords :: "(u32 \<times> u8 list) list"
  un_read_only :: bool
  un_cylinder :: u32
  un_head :: u32
  un_block :: u32
  un_seek_error :: bool
  un_fault :: bool
  un_attention_at :: u64

definition unit_blank :: "disk_geometry \<Rightarrow> drive_unit" where
  "unit_blank g = \<lparr>un_geometry = g, un_image = None, un_writable = False, un_written = [], un_headers = [],
     un_data_checkwords = [], un_read_only = False, un_cylinder = 0, un_head = 0, un_block = 0,
     un_seek_error = False, un_fault = False, un_attention_at = - 1\<rparr>"

datatype unit_error = Not_the_size nat nat

definition unit_open_with :: "u8 list \<Rightarrow> disk_geometry \<Rightarrow> bool \<Rightarrow> unit_error + drive_unit" where
  "unit_open_with file g writable =
     (let want = unat (dg_blocks g) * BLOCK_WORDS * 4; got = length file
      in if got \<noteq> want then Inl (Not_the_size got want)
         else Inr ((unit_blank g)\<lparr>un_image := Some file, un_writable := writable\<rparr>))"

definition unit_open :: "u8 list \<Rightarrow> disk_geometry \<Rightarrow> unit_error + drive_unit" where
  "unit_open file g = unit_open_with file g False"

definition unit_open_rw :: "u8 list \<Rightarrow> disk_geometry \<Rightarrow> unit_error + drive_unit" where
  "unit_open_rw file g = unit_open_with file g True"

definition unit_attention :: "u64 \<Rightarrow> drive_unit \<Rightarrow> bool" where
  "unit_attention now u \<longleftrightarrow> un_attention_at u \<le> now"

definition raise_attention :: "u64 \<Rightarrow> drive_unit \<Rightarrow> drive_unit" where
  "raise_attention at u = u\<lparr>un_attention_at := at\<rparr>"

definition clear_attention :: "drive_unit \<Rightarrow> drive_unit" where
  "clear_attention u = u\<lparr>un_attention_at := - 1\<rparr>"

definition unit_position :: "drive_unit \<Rightarrow> u32 \<times> u32 \<times> u32" where
  "unit_position u = (un_cylinder u, un_head u, un_block u)"

definition lba_of :: "drive_unit \<Rightarrow> u32 \<Rightarrow> u32 \<Rightarrow> u32 \<Rightarrow> u32 option" where
  "lba_of u cylinder head block =
     (let g = un_geometry u
      in if cylinder < dg_cylinders g \<and> head < dg_heads g \<and> block < dg_blocks_per_track g
         then Some (cylinder * blocks_per_cylinder g + head * dg_blocks_per_track g + block) else None)"

definition unit_file_block :: "u32 \<Rightarrow> drive_unit \<Rightarrow> u32 list option" where
  "unit_file_block lba u =
     (case un_image u of None \<Rightarrow> Some (replicate BLOCK_WORDS 0)
      | Some file \<Rightarrow> (case read_at file (unat lba * (BLOCK_WORDS * 4)) (BLOCK_WORDS * 4) of
                       Inl _ \<Rightarrow> None | Inr bytes \<Rightarrow> Some (words_of_bytes bytes)))"

definition block_at :: "drive_unit \<Rightarrow> u32 \<Rightarrow> u32 \<Rightarrow> u32 \<Rightarrow> u32 list option" where
  "block_at u cylinder head block =
     (case lba_of u cylinder head block of None \<Rightarrow> None
      | Some lba \<Rightarrow> (case map_of (un_written u) lba of Some b \<Rightarrow> Some b | None \<Rightarrow> unit_file_block lba u))"

definition sector_header_at :: "drive_unit \<Rightarrow> u32 \<Rightarrow> u32 \<Rightarrow> u32 \<Rightarrow> sector_header option" where
  "sector_header_at u cylinder head block =
     (case lba_of u cylinder head block of None \<Rightarrow> None
      | Some lba \<Rightarrow> Some (case map_of (un_headers u) lba of Some h \<Rightarrow> h
                          | None \<Rightarrow> header_for (un_geometry u) cylinder head block))"

definition data_checkword :: "u32 list \<Rightarrow> u8 list" where
  "data_checkword data = ecc_checkword (fold (\<lambda>w. ecc_feed (le_bytes 4 w)) data 0)"

definition data_checkword_at :: "drive_unit \<Rightarrow> u32 \<Rightarrow> u32 \<Rightarrow> u32 \<Rightarrow> u8 list option" where
  "data_checkword_at u cylinder head block =
     (case lba_of u cylinder head block of None \<Rightarrow> None
      | Some lba \<Rightarrow> (case map_of (un_data_checkwords u) lba of Some c \<Rightarrow> Some c
                     | None \<Rightarrow> map_option data_checkword (block_at u cylinder head block)))"

definition write_lba :: "u32 \<Rightarrow> u32 list \<Rightarrow> drive_unit \<Rightarrow> bool \<times> drive_unit" where
  "write_lba lba data u =
     (if dg_blocks (un_geometry u) \<le> lba then (False, u)
      else (True, case (un_writable u, un_image u) of
          (True, Some file) \<Rightarrow>
            u\<lparr>un_image := Some (write_at file (unat lba * (BLOCK_WORDS * 4)) (bytes_of_words data)),
              un_written := hm_remove lba (un_written u)\<rparr>
        | _ \<Rightarrow>
            if unit_file_block lba u = Some data then u\<lparr>un_written := hm_remove lba (un_written u)\<rparr>
            else u\<lparr>un_written := hm_insert lba data (un_written u)\<rparr>))"

definition write_block_at :: "u32 \<Rightarrow> u32 \<Rightarrow> u32 \<Rightarrow> u32 list \<Rightarrow> drive_unit \<Rightarrow> bool \<times> drive_unit" where
  "write_block_at cylinder head block data u =
     (case lba_of u cylinder head block of None \<Rightarrow> (False, u)
      | Some lba \<Rightarrow> write_lba lba data (u\<lparr>un_data_checkwords := hm_remove lba (un_data_checkwords u)\<rparr>))"

definition write_sector_at ::
  "u32 \<Rightarrow> u32 \<Rightarrow> u32 \<Rightarrow> sector_header \<Rightarrow> u32 list \<Rightarrow> u8 list \<Rightarrow> drive_unit \<Rightarrow> bool \<times> drive_unit" where
  "write_sector_at cylinder head block header data checkword u =
     (case lba_of u cylinder head block of None \<Rightarrow> (False, u)
      | Some lba \<Rightarrow>
        let (ok, u) = write_block_at cylinder head block data u
        in if \<not> ok then (False, u)
           else let u = (if header = header_for (un_geometry u) cylinder head block
                         then u\<lparr>un_headers := hm_remove lba (un_headers u)\<rparr>
                         else u\<lparr>un_headers := hm_insert lba header (un_headers u)\<rparr>)
                in (True, if checkword = data_checkword data
                          then u\<lparr>un_data_checkwords := hm_remove lba (un_data_checkwords u)\<rparr>
                          else u\<lparr>un_data_checkwords := hm_insert lba checkword (un_data_checkwords u)\<rparr>))"

definition unit_written_blocks :: "drive_unit \<Rightarrow> nat" where
  "unit_written_blocks u = length (un_written u)"

definition unit_da :: "u32 \<Rightarrow> drive_unit \<Rightarrow> u32" where
  "unit_da n u = push_bit 28 (n AND 7) OR push_bit 16 (un_cylinder u AND 0xfff) OR push_bit 8 (un_head u AND 0xff) OR
     (un_block u AND 0xff)"

definition unit_seek :: "u32 \<Rightarrow> u32 \<Rightarrow> u32 \<Rightarrow> drive_unit \<Rightarrow> bool \<times> drive_unit" where
  "unit_seek cylinder head block u =
     (if (cylinder, head, block) = (un_cylinder u, un_head u, un_block u) then (True, u)
      else if dg_cylinders (un_geometry u) \<le> cylinder \<or> dg_heads (un_geometry u) \<le> head \<or>
              dg_blocks_per_track (un_geometry u) \<le> block
      then (False, u\<lparr>un_seek_error := True\<rparr>)
      else (True, u\<lparr>un_cylinder := cylinder, un_head := head, un_block := block\<rparr>))"

definition next_block :: "drive_unit \<Rightarrow> bool \<times> drive_unit" where
  "next_block u =
     (let (cylinder, head, block) = (un_cylinder u, un_head u, un_block u + 1);
          (cylinder, head, block) =
            (if block = dg_blocks_per_track (un_geometry u)
             then if head + 1 = dg_heads (un_geometry u) then (cylinder + 1, 0, 0) else (cylinder, head + 1, 0)
             else (cylinder, head, block))
      in unit_seek cylinder head block u)"

definition unit_read_block :: "drive_unit \<Rightarrow> u32 list option" where
  "unit_read_block u = (let (c, h, b) = unit_position u in block_at u c h b)"

definition unit_write_block :: "u32 list \<Rightarrow> drive_unit \<Rightarrow> bool \<times> drive_unit" where
  "unit_write_block data u = (let (c, h, b) = unit_position u in write_block_at c h b data u)"

section \<open>The drive's times\<close>

definition REVOLUTION_NS :: u64 where "REVOLUTION_NS = 16666667"
definition BIT_NS :: u64 where "BIT_NS = 104"
definition SECTOR_PULSE_NS :: u64 where "SECTOR_PULSE_NS = 1240"
definition INDEX_PULSE_NS :: u64 where "INDEX_PULSE_NS = 4000"
definition SEEK_SETTLE_NS :: u64 where "SEEK_SETTLE_NS = 5939729"
definition SEEK_NS_PER_CYLINDER :: u64 where "SEEK_NS_PER_CYLINDER = 60271"
definition SECTOR_NS :: u64 where "SECTOR_NS = of_nat SECTOR_BYTES * 8 * BIT_NS"

definition seek_ns :: "u32 \<Rightarrow> u64" where
  "seek_ns cylinders = (if cylinders = 0 then 0 else SEEK_SETTLE_NS + ucast cylinders * SEEK_NS_PER_CYLINDER)"

definition began_of :: "u64 \<Rightarrow> u64" where
  "began_of k = k * SECTOR_NS"

definition until_region :: "u32 \<Rightarrow> u64 \<Rightarrow> u64" where
  "until_region k now =
     (let into = now mod REVOLUTION_NS; at = began_of (ucast k)
      in if into \<le> at then at - into else REVOLUTION_NS - into + at)"

definition turn :: "u32 \<Rightarrow> u64 \<Rightarrow> u64 \<Rightarrow> u32 \<times> u64" where
  "turn sectors phase now =
     (let t = (now + REVOLUTION_NS - phase mod REVOLUTION_NS) mod REVOLUTION_NS;
          k = min (t div SECTOR_NS) (ucast sectors)
      in (ucast k, t - began_of k))"

definition region_ns :: "u64 \<Rightarrow> u64 \<Rightarrow> u64" where
  "region_ns sectors k = (if sectors \<le> k then REVOLUTION_NS - began_of sectors else SECTOR_NS)"

definition pulse_ns :: "u32 \<Rightarrow> u64" where
  "pulse_ns sector = (if sector = 0 then INDEX_PULSE_NS else SECTOR_PULSE_NS)"

section \<open>Checkpoint\<close>

definition put_header :: "u32 \<times> sector_header \<Rightarrow> writer \<Rightarrow> writer" where
  "put_header kh = put_all [put_u32 (fst kh), put_u32 (sh_word (snd kh)), put_bytes (sh_checkword (snd kh))]"

definition put_checkword :: "u32 \<times> u8 list \<Rightarrow> writer \<Rightarrow> writer" where
  "put_checkword kc = put_all [put_u32 (fst kc), put_bytes (snd kc)]"

definition unit_save :: "drive_unit \<Rightarrow> writer \<Rightarrow> writer" where
  "unit_save u = put_all
     [put_u32 (dg_cylinders (un_geometry u)), put_u32 (dg_heads (un_geometry u)),
      put_u32 (dg_blocks_per_track (un_geometry u)),
      put_u64 (of_nat (length (un_written u))), fold put_block (un_written u),
      put_bool (un_read_only u), put_u32 (un_cylinder u), put_u32 (un_head u), put_u32 (un_block u),
      put_bool (un_seek_error u), put_bool (un_fault u), put_u64 (un_attention_at u),
      put_u64 (of_nat (length (un_headers u))), fold put_header (un_headers u),
      put_u64 (of_nat (length (un_data_checkwords u))), fold put_checkword (un_data_checkwords u)]"

definition get_checkword_bytes :: "u8 list rd" where
  "get_checkword_bytes = rd_bind get_bytes (\<lambda>c. if length c = 4 then rd_return c else rd_fail Bad_value)"

definition get_header :: "(u32 \<times> sector_header) rd" where
  "get_header = rd_bind get_u32 (\<lambda>lba. rd_bind get_u32 (\<lambda>word. rd_bind get_checkword_bytes (\<lambda>c.
     rd_return (lba, \<lparr>sh_word = word, sh_checkword = c\<rparr>))))"

definition get_checkword :: "(u32 \<times> u8 list) rd" where
  "get_checkword = rd_bind get_u32 (\<lambda>lba. rd_bind get_checkword_bytes (\<lambda>c. rd_return (lba, c)))"

text \<open>A counted map, its count held to the pack's blocks.\<close>

definition get_counted_map :: "u32 \<Rightarrow> (u32 \<times> 'a) rd \<Rightarrow> (u32 \<times> 'a) list rd" where
  "get_counted_map blocks get = rd_bind get_u64 (\<lambda>n.
     if ucast blocks < n then rd_fail Bad_value
     else rd_bind (get_many (unat n) get) (\<lambda>es. rd_return (fold (\<lambda>(k, v). hm_insert k v) es [])))"

definition unit_load :: "drive_unit \<Rightarrow> drive_unit rd" where
  "unit_load u = rd_bind get_u32 (\<lambda>cylinders. rd_bind get_u32 (\<lambda>heads. rd_bind get_u32 (\<lambda>bpt.
     let g = \<lparr>dg_cylinders = cylinders, dg_heads = heads, dg_blocks_per_track = bpt\<rparr>
     in if g \<noteq> un_geometry u then rd_fail Bad_value
        else rd_bind (get_counted_map (dg_blocks g) get_block) (\<lambda>written. rd_bind get_bool (\<lambda>ro.
          rd_bind get_u32 (\<lambda>cylinder. rd_bind get_u32 (\<lambda>head. rd_bind get_u32 (\<lambda>block.
          rd_bind get_bool (\<lambda>serr. rd_bind get_bool (\<lambda>flt. rd_bind get_u64 (\<lambda>att.
          rd_bind (get_counted_map (dg_blocks g) get_header) (\<lambda>headers.
          rd_bind (get_counted_map (dg_blocks g) get_checkword) (\<lambda>checkwords.
            rd_return (u\<lparr>un_written := written, un_read_only := ro, un_cylinder := cylinder, un_head := head,
              un_block := block, un_seek_error := serr, un_fault := flt, un_attention_at := att,
              un_headers := headers, un_data_checkwords := checkwords\<rparr>))))))))))))))"

section \<open>The pack's blocks, numbered\<close>

definition geometry_ok :: "disk_geometry \<Rightarrow> bool" where
  "geometry_ok g \<longleftrightarrow> 0 < dg_cylinders g \<and> 0 < dg_heads g \<and> 0 < dg_blocks_per_track g \<and>
     unat (dg_cylinders g) * (unat (dg_heads g) * unat (dg_blocks_per_track g)) < 2 ^ 32"

definition on_pack :: "disk_geometry \<Rightarrow> u32 \<Rightarrow> u32 \<Rightarrow> u32 \<Rightarrow> bool" where
  "on_pack g c h b \<longleftrightarrow> c < dg_cylinders g \<and> h < dg_heads g \<and> b < dg_blocks_per_track g"

text \<open>The number of the block at an address, and of all blocks.\<close>

definition block_number :: "disk_geometry \<Rightarrow> u32 \<Rightarrow> u32 \<Rightarrow> u32 \<Rightarrow> nat" where
  "block_number g c h b = (unat c * unat (dg_heads g) + unat h) * unat (dg_blocks_per_track g) + unat b"

definition block_count :: "disk_geometry \<Rightarrow> nat" where
  "block_count g = unat (dg_cylinders g) * (unat (dg_heads g) * unat (dg_blocks_per_track g))"

lemma mixed_radix: "i < m \<Longrightarrow> j < n \<Longrightarrow> i * n + j < m * (n :: nat)"
proof -
  assume "i < m" "j < n"
  then have "i * n + j < Suc i * n" "Suc i * n \<le> m * n" by (simp, intro mult_le_mono1 Suc_leI)
  then show ?thesis by (rule less_le_trans)
qed

lemma block_number_less: "on_pack g c h b \<Longrightarrow> block_number g c h b < block_count g"
  unfolding block_number_def block_count_def on_pack_def mult.assoc [symmetric]
  by (intro mixed_radix) (auto simp: word_less_nat_alt)

lemma block_number_inject:
  assumes "on_pack g c h b" "on_pack g c' h' b'" "block_number g c h b = block_number g c' h' b'"
  shows "c = c' \<and> h = h' \<and> b = b'"
proof -
  have digits: "(i * n + j) div n = i \<and> (i * n + j) mod n = j" if "j < n" for i j n :: nat using that by simp
  have lt: "unat h < unat (dg_heads g)" "unat h' < unat (dg_heads g)"
    "unat b < unat (dg_blocks_per_track g)" "unat b' < unat (dg_blocks_per_track g)"
    using assms(1,2) by (auto simp: on_pack_def word_less_nat_alt)
  then show ?thesis using assms(3) digits unfolding block_number_def
    by (metis word_unat_eq_iff)
qed

lemma block_count_32:
  assumes "geometry_ok g"
  shows "block_count g < 2 ^ 32" "unat (dg_blocks g) = block_count g"
    "unat (blocks_per_cylinder g) = unat (dg_heads g) * unat (dg_blocks_per_track g)"
proof -
  show c: "block_count g < 2 ^ 32" using assms by (simp add: geometry_ok_def block_count_def)
  have "unat (dg_heads g) * unat (dg_blocks_per_track g) \<le> block_count g"
    using assms by (simp add: geometry_ok_def block_count_def word_less_nat_alt)
  then show bpc: "unat (blocks_per_cylinder g) = unat (dg_heads g) * unat (dg_blocks_per_track g)"
    using c by (simp add: blocks_per_cylinder_def unat_word_ariths)
  show "unat (dg_blocks g) = block_count g"
    using c by (simp add: dg_blocks_def unat_word_ariths bpc) (simp add: block_count_def)
qed

lemma lba_of_none: "\<not> on_pack (un_geometry u) c h b \<Longrightarrow> lba_of u c h b = None"
  by (auto simp: lba_of_def on_pack_def Let_def)

lemma lba_of_on_pack:
  assumes "geometry_ok (un_geometry u)" "on_pack (un_geometry u) c h b"
  shows "lba_of u c h b = Some (of_nat (block_number (un_geometry u) c h b))"
    "unat (of_nat (block_number (un_geometry u) c h b) :: u32) = block_number (un_geometry u) c h b"
proof -
  have "c * blocks_per_cylinder g + h * dg_blocks_per_track g + b = of_nat (block_number g c h b)" for g
    by (simp add: block_number_def blocks_per_cylinder_def algebra_simps)
  then show "lba_of u c h b = Some (of_nat (block_number (un_geometry u) c h b))"
    using assms(2) by (simp add: lba_of_def on_pack_def Let_def)
  show "unat (of_nat (block_number (un_geometry u) c h b) :: u32) = block_number (un_geometry u) c h b"
    using block_number_less [OF assms(2)] block_count_32(1) [OF assms(1)] by (simp add: unat_of_nat take_bit_nat_eq_self)
qed

lemma lba_same:
  assumes "geometry_ok (un_geometry u)" "lba_of u c h b = Some n"
  shows "lba_of u c' h' b' = Some n \<longleftrightarrow> c' = c \<and> h' = h \<and> b' = b" "n < dg_blocks (un_geometry u)" "on_pack (un_geometry u) c h b"
proof -
  show o: "on_pack (un_geometry u) c h b" using assms(2) lba_of_none by fastforce
  note n = lba_of_on_pack [OF assms(1) o]
  show "lba_of u c' h' b' = Some n \<longleftrightarrow> c' = c \<and> h' = h \<and> b' = b"
  proof (cases "on_pack (un_geometry u) c' h' b'")
    case True
    then show ?thesis
      using lba_of_on_pack [OF assms(1) True] n assms(2) block_number_inject [OF o True] by (metis option.inject)
  qed (use o in \<open>auto simp: lba_of_none\<close>)
  show "n < dg_blocks (un_geometry u)"
    using n assms block_number_less [OF o] by (simp add: word_less_nat_alt block_count_32(2))
qed

section \<open>A unit in order\<close>

text \<open>The pack's file has the geometry's size, what is written over it lies on it, and the heads are over a block.\<close>

definition map_ok :: "drive_unit \<Rightarrow> ('a \<Rightarrow> bool) \<Rightarrow> (u32 \<times> 'a) list \<Rightarrow> bool" where
  "map_ok u P m \<longleftrightarrow> sorted_wrt (<) (map fst m) \<and> (\<forall>(n, x) \<in> set m. n < dg_blocks (un_geometry u) \<and> P x)"

definition unit_ok :: "drive_unit \<Rightarrow> bool" where
  "unit_ok u \<longleftrightarrow> geometry_ok (un_geometry u) \<and>
     (\<forall>file. un_image u = Some file \<longrightarrow> length file = block_count (un_geometry u) * (BLOCK_WORDS * 4)) \<and>
     map_ok u (\<lambda>b. length b = BLOCK_WORDS) (un_written u) \<and>
     map_ok u (\<lambda>h. length (sh_checkword h) = 4) (un_headers u) \<and>
     map_ok u (\<lambda>c. length c = 4) (un_data_checkwords u) \<and>
     on_pack (un_geometry u) (un_cylinder u) (un_head u) (un_block u)"

lemma map_ok_remove: "map_ok u P m \<Longrightarrow> map_ok u P (hm_remove k m)"
  unfolding map_ok_def using sorted_hm_remove [of m k] by (auto simp: hm_remove_def)

lemma map_ok_insert: "map_ok u P m \<Longrightarrow> k < dg_blocks (un_geometry u) \<Longrightarrow> P x \<Longrightarrow> map_ok u P (hm_insert k x m)"
  unfolding map_ok_def using set_hm_insert [of k x m] by (auto intro: sorted_hm_insert)

lemma unit_ok_blank: "geometry_ok g \<Longrightarrow> unit_ok (unit_blank g)"
  by (simp add: unit_ok_def unit_blank_def map_ok_def on_pack_def geometry_ok_def)

lemma unit_ok_open:
  assumes "geometry_ok g" "unit_open_with file g w = Inr u"
  shows "unit_ok u"
  using assms unit_ok_blank [OF assms(1)] block_count_32(2) [OF assms(1)]
  by (auto simp: unit_open_with_def Let_def unit_ok_def unit_blank_def map_ok_def split: if_splits)

lemma length_words_of_bytes [simp]: "length (words_of_bytes b) = BLOCK_WORDS"
proof -
  have "length (chunks_exact n k b) = n" for n k and b :: "u8 list" by (induction n arbitrary: b) simp_all
  then show ?thesis by (simp add: words_of_bytes_def)
qed

lemma unit_file_block_ok:
  assumes "unit_ok u" "lba < dg_blocks (un_geometry u)"
  shows "\<exists>b. unit_file_block lba u = Some b \<and> length b = BLOCK_WORDS"
proof (cases "un_image u")
  case (Some bytes)
  have "unat lba < block_count (un_geometry u)"
    using assms block_count_32(2) by (auto simp: unit_ok_def word_less_nat_alt)
  then have "unat lba * (BLOCK_WORDS * 4) + BLOCK_WORDS * 4 \<le> length bytes"
    using assms(1) Some mult_le_mono1 [of "Suc (unat lba)" "block_count (un_geometry u)" "BLOCK_WORDS * 4"]
    by (simp add: unit_ok_def)
  then show ?thesis using Some by (simp add: unit_file_block_def read_at_def)
qed (simp add: unit_file_block_def)

lemma block_at_ok:
  assumes "unit_ok u" "on_pack (un_geometry u) c h b"
  shows "\<exists>x. block_at u c h b = Some x \<and> length x = BLOCK_WORDS"
proof -
  have g: "geometry_ok (un_geometry u)" using assms(1) by (simp add: unit_ok_def)
  obtain n where n: "lba_of u c h b = Some n" "n < dg_blocks (un_geometry u)"
    using lba_of_on_pack(1) [OF g assms(2)] lba_same(2) [OF g] by blast
  have "length x = BLOCK_WORDS" if "map_of (un_written u) n = Some x" for x
    using assms(1) map_of_SomeD [OF that] by (auto simp: unit_ok_def map_ok_def)
  then show ?thesis using n unit_file_block_ok [OF assms(1) n(2)] by (cases "map_of (un_written u) n") (auto simp: block_at_def)
qed

section \<open>What was written is read back\<close>

text \<open>A sector as a read finds it: its header, its data, and the checkword after them.\<close>

definition sector_at :: "drive_unit \<Rightarrow> u32 \<Rightarrow> u32 \<Rightarrow> u32 \<Rightarrow> (sector_header \<times> u32 list \<times> u8 list) option" where
  "sector_at u c h b =
     (case (sector_header_at u c h b, block_at u c h b, data_checkword_at u c h b) of
        (Some header, Some data, Some cw) \<Rightarrow> Some (header, data, cw) | _ \<Rightarrow> None)"

text \<open>What an operation on the pack leaves of the unit beside the pack.\<close>

definition same_drive :: "drive_unit \<Rightarrow> drive_unit \<Rightarrow> bool" where
  "same_drive u u' \<longleftrightarrow> un_geometry u' = un_geometry u \<and> un_read_only u' = un_read_only u \<and>
     unit_position u' = unit_position u \<and> un_seek_error u' = un_seek_error u \<and> un_fault u' = un_fault u \<and>
     un_attention_at u' = un_attention_at u"

lemma write_block_lba:
  assumes ok: "unit_ok u" and n: "lba_of u c h b = Some n" and data: "length data = BLOCK_WORDS"
  shows "\<exists>u'. write_block_at c h b data u = (True, u') \<and> unit_ok u' \<and> same_drive u u' \<and> un_headers u' = un_headers u \<and>
    un_data_checkwords u' = hm_remove n (un_data_checkwords u) \<and>
    (\<forall>m < dg_blocks (un_geometry u). (case map_of (un_written u') m of Some x \<Rightarrow> Some x | None \<Rightarrow> unit_file_block m u') =
      (if m = n then Some data else case map_of (un_written u) m of Some x \<Rightarrow> Some x | None \<Rightarrow> unit_file_block m u))"
proof -
  have g: "geometry_ok (un_geometry u)" using ok by (simp add: unit_ok_def)
  have lt: "n < dg_blocks (un_geometry u)" using lba_same(2) [OF g n] .
  let ?u = "u\<lparr>un_data_checkwords := hm_remove n (un_data_checkwords u)\<rparr>"
  have "map_ok u (\<lambda>c. length c = 4) (hm_remove n (un_data_checkwords u))"
    using ok by (intro map_ok_remove) (simp add: unit_ok_def)
  then have u: "unit_ok ?u" using ok by (simp add: unit_ok_def map_ok_def)
  have w: "map_ok u (\<lambda>b. length b = BLOCK_WORDS) (un_written u)" using ok by (simp add: unit_ok_def)
  have fb: "unit_file_block m ?u = unit_file_block m u" for m by (simp add: unit_file_block_def)
  show ?thesis
  proof (cases "un_writable u \<and> un_image u \<noteq> None")
    case True
    then obtain bytes where f: "un_writable u" "un_image u = Some bytes" by blast
    let ?f = "write_at bytes (unat n * (BLOCK_WORDS * 4)) (bytes_of_words data)"
    let ?v = "?u\<lparr>un_image := Some ?f, un_written := hm_remove n (un_written u)\<rparr>"
    have len: "length bytes = block_count (un_geometry u) * (BLOCK_WORDS * 4)" using ok f(2) by (simp add: unit_ok_def)
    have fits: "unat k * (BLOCK_WORDS * 4) + BLOCK_WORDS * 4 \<le> length bytes" if "k < dg_blocks (un_geometry u)" for k
      using that mult_le_mono1 [of "Suc (unat k)" "block_count (un_geometry u)" "BLOCK_WORDS * 4"]
        block_count_32(2) [OF g] unfolding len by (simp add: word_less_nat_alt)
    have bw: "length (bytes_of_words data) = BLOCK_WORDS * 4" by (simp add: length_bytes_of_words data)
    have "write_block_at c h b data u = (True, ?v)"
      using f lt n by (simp add: write_block_at_def write_lba_def not_le)
    moreover have "unit_ok ?v"
      using u f(2) fits [OF lt] len bw map_ok_remove [OF w, of n]
      by (simp add: unit_ok_def length_write_at map_ok_def)
    moreover have "unit_file_block m ?v = (if m = n then Some data else unit_file_block m u)"
      if m: "m < dg_blocks (un_geometry u)" for m
    proof (cases "m = n")
      case False
      then have "unat m < unat n \<or> unat n < unat m" by (metis linorder_neqE_nat word_unat_eq_iff)
      then have "unat m * (BLOCK_WORDS * 4) + BLOCK_WORDS * 4 \<le> unat n * (BLOCK_WORDS * 4) \<or>
          unat n * (BLOCK_WORDS * 4) + BLOCK_WORDS * 4 \<le> unat m * (BLOCK_WORDS * 4)"
        using mult_le_mono1 [of "Suc (unat m)" "unat n" "BLOCK_WORDS * 4"]
          mult_le_mono1 [of "Suc (unat n)" "unat m" "BLOCK_WORDS * 4"] by auto
      then show ?thesis using False fits [OF m] f(2)
        by (simp add: unit_file_block_def read_write_apart bw)
    qed (simp add: unit_file_block_def read_write_same bw words_of_bytes_of_words data)
    ultimately show ?thesis
      by (intro exI [where x = ?v]) (auto simp: same_drive_def unit_position_def map_of_hm_remove split: option.split)
  next
    case False
    let ?v = "if unit_file_block n u = Some data then ?u\<lparr>un_written := hm_remove n (un_written u)\<rparr>
      else ?u\<lparr>un_written := hm_insert n data (un_written u)\<rparr>"
    have "write_block_at c h b data u = (True, ?v)"
      using False lt n fb by (auto simp: write_block_at_def write_lba_def not_le split: option.split bool.split)
    moreover have "unit_ok ?v"
      using u map_ok_remove [OF w, of n] map_ok_insert [OF w lt data]
      by (simp add: unit_ok_def map_ok_def)
    moreover have "unit_file_block m ?v = unit_file_block m u" for m by (simp add: unit_file_block_def)
    ultimately show ?thesis
      by (intro exI [where x = ?v]) (auto simp: same_drive_def unit_position_def map_of_hm_remove map_of_hm_insert split: option.split)
  qed
qed

lemma read_block_lba:
  assumes "same_drive u u'" "geometry_ok (un_geometry u)" "lba_of u c h b = Some n"
    and "\<And>m. m < dg_blocks (un_geometry u) \<Longrightarrow> (case map_of (un_written u') m of Some x \<Rightarrow> Some x | None \<Rightarrow> unit_file_block m u') =
      (if m = n then Some data else case map_of (un_written u) m of Some x \<Rightarrow> Some x | None \<Rightarrow> unit_file_block m u)"
  shows "block_at u' c' h' b' = (if (c', h', b') = (c, h, b) then Some data else block_at u c' h' b')"
proof -
  have l: "lba_of u' x y z = lba_of u x y z" for x y z using assms(1) by (simp add: lba_of_def same_drive_def)
  show ?thesis
  proof (cases "lba_of u c' h' b'")
    case None
    then show ?thesis using assms(3) l by (auto simp: block_at_def)
  next
    case (Some m)
    then show ?thesis
      using l assms(4) [OF lba_same(2) [OF assms(2) Some]] lba_same(1) [OF assms(2) Some, of c h b] assms(3)
      by (auto simp: block_at_def)
  qed
qed

lemma block_written:
  assumes ok: "unit_ok u" and p: "on_pack (un_geometry u) c h b" and data: "length data = BLOCK_WORDS"
  shows "\<exists>u'. write_block_at c h b data u = (True, u') \<and> unit_ok u' \<and> same_drive u u' \<and> un_headers u' = un_headers u \<and>
    (\<forall>c' h' b'. block_at u' c' h' b' = (if (c', h', b') = (c, h, b) then Some data else block_at u c' h' b') \<and>
      data_checkword_at u' c' h' b' =
        (if (c', h', b') = (c, h, b) then Some (data_checkword data) else data_checkword_at u c' h' b'))"
proof -
  have g: "geometry_ok (un_geometry u)" using ok by (simp add: unit_ok_def)
  obtain n where n: "lba_of u c h b = Some n" using lba_of_on_pack(1) [OF g p] by blast
  obtain u' where u': "write_block_at c h b data u = (True, u')" "unit_ok u'" "same_drive u u'" "un_headers u' = un_headers u"
    "un_data_checkwords u' = hm_remove n (un_data_checkwords u)"
    "\<And>m. m < dg_blocks (un_geometry u) \<Longrightarrow> (case map_of (un_written u') m of Some x \<Rightarrow> Some x | None \<Rightarrow> unit_file_block m u') =
      (if m = n then Some data else case map_of (un_written u) m of Some x \<Rightarrow> Some x | None \<Rightarrow> unit_file_block m u)"
    using write_block_lba [OF ok n data] by blast
  have l: "lba_of u' x y z = lba_of u x y z" for x y z using u'(3) by (simp add: lba_of_def same_drive_def)
  have blk: "block_at u' c' h' b' = (if (c', h', b') = (c, h, b) then Some data else block_at u c' h' b')" for c' h' b'
    by (rule read_block_lba [OF u'(3) g n u'(6)])
  have "data_checkword_at u' c' h' b' =
      (if (c', h', b') = (c, h, b) then Some (data_checkword data) else data_checkword_at u c' h' b')" for c' h' b'
  proof (cases "lba_of u c' h' b'")
    case None
    then show ?thesis using n l by (auto simp: data_checkword_at_def)
  next
    case (Some m)
    have "m = n \<longleftrightarrow> (c', h', b') = (c, h, b)" using n lba_same(1) [OF g Some, of c h b] by auto
    then show ?thesis
      using blk [of c' h' b'] Some
      by (cases "(c', h', b') = (c, h, b)") (auto simp: data_checkword_at_def l u'(5) map_of_hm_remove split: option.split)
  qed
  then show ?thesis using u'(1-4) blk by blast
qed

lemma sector_at_some:
  assumes "unit_ok u" "on_pack (un_geometry u) c h b"
  shows "\<exists>header data cw. sector_header_at u c h b = Some header \<and> block_at u c h b = Some data \<and>
    data_checkword_at u c h b = Some cw \<and> sector_at u c h b = Some (header, data, cw)"
proof -
  obtain n where "lba_of u c h b = Some n"
    using lba_of_on_pack(1) [OF _ assms(2)] assms(1) by (auto simp: unit_ok_def)
  then show ?thesis using block_at_ok [OF assms]
    by (cases "map_of (un_headers u) n"; cases "map_of (un_data_checkwords u) n")
      (auto simp: sector_at_def sector_header_at_def data_checkword_at_def)
qed

lemma sector_after_block:
  assumes ok: "unit_ok u" and p: "on_pack (un_geometry u) c h b" and data: "length data = BLOCK_WORDS"
  shows "\<exists>v. write_block_at c h b data u = (True, v) \<and> unit_ok v \<and> same_drive u v \<and> un_headers v = un_headers u \<and>
    (\<forall>x y z. sector_header_at v x y z = sector_header_at u x y z) \<and>
    block_at v c h b = Some data \<and> data_checkword_at v c h b = Some (data_checkword data) \<and>
    (\<forall>x y z. (x, y, z) \<noteq> (c, h, b) \<longrightarrow> block_at v x y z = block_at u x y z \<and> data_checkword_at v x y z = data_checkword_at u x y z)"
proof -
  obtain v where v: "write_block_at c h b data u = (True, v)" "unit_ok v" "same_drive u v" "un_headers v = un_headers u"
    "\<And>c' h' b'. block_at v c' h' b' = (if (c', h', b') = (c, h, b) then Some data else block_at u c' h' b')"
    "\<And>c' h' b'. data_checkword_at v c' h' b' =
      (if (c', h', b') = (c, h, b) then Some (data_checkword data) else data_checkword_at u c' h' b')"
    using block_written [OF ok p data] by blast
  have "sector_header_at v x y z = sector_header_at u x y z" for x y z
    using v(3,4) by (simp add: sector_header_at_def lba_of_def same_drive_def cong: option.case_cong)
  then show ?thesis using v by (intro exI [where x = v]) auto
qed

lemma sector_after_sector:
  assumes ok: "unit_ok u" and p: "on_pack (un_geometry u) c h b" and data: "length data = BLOCK_WORDS"
    and lens: "length (sh_checkword header) = 4" "length cw = 4"
  shows "\<exists>u'. write_sector_at c h b header data cw u = (True, u') \<and> unit_ok u' \<and> same_drive u u' \<and>
    (\<forall>x y z. sector_at u' x y z = (if (x, y, z) = (c, h, b) then Some (header, data, cw) else sector_at u x y z))"
proof -
  have g: "geometry_ok (un_geometry u)" using ok by (simp add: unit_ok_def)
  obtain n where n: "lba_of u c h b = Some n" using lba_of_on_pack(1) [OF g p] by blast
  obtain v where v: "write_block_at c h b data u = (True, v)" "unit_ok v" "same_drive u v"
    "\<And>x y z. sector_header_at v x y z = sector_header_at u x y z" "block_at v c h b = Some data"
    "\<And>x y z. (x, y, z) \<noteq> (c, h, b) \<Longrightarrow> block_at v x y z = block_at u x y z \<and> data_checkword_at v x y z = data_checkword_at u x y z"
    using sector_after_block [OF ok p data] by blast
  have gv: "un_geometry v = un_geometry u" using v(3) by (simp add: same_drive_def)
  define v1 where "v1 = (if header = header_for (un_geometry v) c h b then v\<lparr>un_headers := hm_remove n (un_headers v)\<rparr>
    else v\<lparr>un_headers := hm_insert n header (un_headers v)\<rparr>)"
  define v2 where "v2 = (if cw = data_checkword data then v1\<lparr>un_data_checkwords := hm_remove n (un_data_checkwords v1)\<rparr>
    else v1\<lparr>un_data_checkwords := hm_insert n cw (un_data_checkwords v1)\<rparr>)"
  have w: "write_sector_at c h b header data cw u = (True, v2)"
    by (simp add: write_sector_at_def n v(1) v1_def [symmetric] Let_def) (simp add: v2_def)
  have "map_ok v (\<lambda>h. length (sh_checkword h) = 4) (un_headers v)" "map_ok v (\<lambda>c. length c = 4) (un_data_checkwords v)"
    "n < dg_blocks (un_geometry v)" using v(2) lba_same(2) [OF g n] gv by (simp_all add: unit_ok_def)
  note maps = map_ok_remove [OF this(1), of n] map_ok_insert [OF this(1,3) lens(1)]
    map_ok_remove [OF this(2), of n] map_ok_insert [OF this(2,3) lens(2)]
  have ok2: "unit_ok v2" using v(2) maps by (auto simp: v1_def v2_def unit_ok_def map_ok_def)
  have l: "lba_of v2 x y z = lba_of u x y z" "lba_of v x y z = lba_of u x y z" for x y z
    by (simp_all add: lba_of_def gv v1_def v2_def)
  have "un_written v2 = un_written v" "unit_file_block m v2 = unit_file_block m v" for m
    by (simp_all add: unit_file_block_def v1_def v2_def)
  then have b: "block_at v2 x y z = block_at v x y z" for x y z
    by (simp add: block_at_def l cong: option.case_cong)
  have "sector_at v2 x y z = (if (x, y, z) = (c, h, b) then Some (header, data, cw) else sector_at u x y z)" for x y z
  proof (cases "(x, y, z) = (c, h, b)")
    case True
    have "(case map_of (un_headers v2) n of Some h \<Rightarrow> h | None \<Rightarrow> header_for (un_geometry v2) c h b) = header"
      by (simp add: v1_def v2_def map_of_hm_remove map_of_hm_insert)
    moreover have "(case map_of (un_data_checkwords v2) n of Some c \<Rightarrow> Some c | None \<Rightarrow> Some (data_checkword data)) = Some cw"
      by (simp add: v2_def map_of_hm_remove map_of_hm_insert)
    ultimately show ?thesis using True v(5) n
      by (simp add: sector_at_def sector_header_at_def data_checkword_at_def b l cong: option.case_cong)
  next
    case False
    have apart: "lba_of u x y z \<noteq> Some n" using lba_same(1) [OF g n, of x y z] False by auto
    have maps: "map_of (un_headers v2) m = map_of (un_headers v) m"
      "map_of (un_data_checkwords v2) m = map_of (un_data_checkwords v) m" if "m \<noteq> n" for m
      using that by (simp_all add: v1_def v2_def map_of_hm_remove map_of_hm_insert)
    have g2: "un_geometry v2 = un_geometry v" by (simp add: v1_def v2_def)
    have "sector_header_at v2 x y z = sector_header_at v x y z \<and> data_checkword_at v2 x y z = data_checkword_at v x y z"
    proof (cases "lba_of u x y z")
      case (Some m)
      then have "m \<noteq> n" using apart by simp
      from maps [OF this] show ?thesis by (simp add: sector_header_at_def data_checkword_at_def l b g2 Some cong: option.case_cong)
    qed (simp add: sector_header_at_def data_checkword_at_def l)
    then show ?thesis using v(4) v(6) [OF False] False unfolding sector_at_def b by auto
  qed
  moreover have "same_drive v v2" by (simp add: same_drive_def v1_def v2_def unit_position_def)
  ultimately show ?thesis using w ok2 v(3) by (auto simp: same_drive_def)
qed

text \<open>
  A pack reads back what was written. A sector written where the heads can go, its header, data and checkword
  whatever the writer gave, is read back as written, and every other sector as it was; a block written the
  ordinary way keeps its header and gets the checkword of its data. The unit stays in order and its conditions
  and heads are as they were.
\<close>

theorem unit_reads_what_was_written:
  assumes "unit_ok u" "on_pack (un_geometry u) c h b" "length data = BLOCK_WORDS"
    and "length (sh_checkword header) = 4" "length cw = 4"
  shows "(\<exists>u'. write_sector_at c h b header data cw u = (True, u') \<and> unit_ok u' \<and> same_drive u u' \<and>
      (\<forall>x y z. sector_at u' x y z = (if (x, y, z) = (c, h, b) then Some (header, data, cw) else sector_at u x y z))) \<and>
    (\<exists>u'. write_block_at c h b data u = (True, u') \<and> unit_ok u' \<and> same_drive u u' \<and>
      (\<forall>x y z. sector_at u' x y z = (if (x, y, z) = (c, h, b)
        then Some (the (sector_header_at u c h b), data, data_checkword data) else sector_at u x y z)))"
proof (intro conjI)
  obtain v where v: "write_block_at c h b data u = (True, v)" "unit_ok v" "same_drive u v"
    "\<And>x y z. sector_header_at v x y z = sector_header_at u x y z" "block_at v c h b = Some data"
    "data_checkword_at v c h b = Some (data_checkword data)"
    "\<And>x y z. (x, y, z) \<noteq> (c, h, b) \<Longrightarrow> block_at v x y z = block_at u x y z \<and> data_checkword_at v x y z = data_checkword_at u x y z"
    using sector_after_block [OF assms(1-3)] by blast
  have "sector_at v x y z = (if (x, y, z) = (c, h, b)
      then Some (the (sector_header_at u c h b), data, data_checkword data) else sector_at u x y z)" for x y z
    using sector_at_some [OF assms(1,2)] v(4-6) v(7) [of x y z] by (auto simp: sector_at_def cong: option.case_cong)
  then show "\<exists>u'. write_block_at c h b data u = (True, u') \<and> unit_ok u' \<and> same_drive u u' \<and>
      (\<forall>x y z. sector_at u' x y z = (if (x, y, z) = (c, h, b)
        then Some (the (sector_header_at u c h b), data, data_checkword data) else sector_at u x y z))"
    using v(1-3) by blast
qed (rule sector_after_sector [OF assms])

lemma unit_reads_what_was_written_witness:
  "\<exists>u. write_sector_at 3 2 1 \<lparr>sh_word = 7, sh_checkword = [1, 2, 3, 4]\<rparr> (replicate BLOCK_WORDS 5) [6, 7, 8, 9] (unit_blank T80)
      = (True, u) \<and>
    sector_at u 3 2 1 = Some (\<lparr>sh_word = 7, sh_checkword = [1, 2, 3, 4]\<rparr>, replicate BLOCK_WORDS 5, [6, 7, 8, 9])"
proof -
  have "geometry_ok T80" by (simp add: geometry_ok_def T80_def)
  moreover have "on_pack (un_geometry (unit_blank T80)) 3 2 1" by (simp add: unit_blank_def on_pack_def T80_def)
  ultimately show ?thesis
    using unit_reads_what_was_written [OF unit_ok_blank, of T80 3 2 1 "replicate BLOCK_WORDS 5"
      "\<lparr>sh_word = 7, sh_checkword = [1, 2, 3, 4]\<rparr>" "[6, 7, 8, 9]"] by auto
qed

section \<open>The order of a transfer\<close>

definition heads_at_block :: "drive_unit \<Rightarrow> nat" where
  "heads_at_block u = block_number (un_geometry u) (un_cylinder u) (un_head u) (un_block u)"

text \<open>What a move of the heads leaves as it was.\<close>

definition same_pack :: "drive_unit \<Rightarrow> drive_unit \<Rightarrow> bool" where
  "same_pack u u' \<longleftrightarrow> (\<exists>c h b e. u' = u\<lparr>un_cylinder := c, un_head := h, un_block := b, un_seek_error := e\<rparr>)"

lemma same_pack_at: "same_pack u u' \<Longrightarrow> un_geometry u' = un_geometry u \<and> block_at u' x y z = block_at u x y z \<and>
  sector_at u' x y z = sector_at u x y z"
  by (auto simp: same_pack_def block_at_def sector_at_def sector_header_at_def data_checkword_at_def lba_of_def
      unit_file_block_def cong: option.case_cong)

lemma word_below: "x < (n :: u32) \<Longrightarrow> unat (x + 1) = unat x + 1 \<and> (x + 1 = n \<longleftrightarrow> unat x + 1 = unat n) \<and> x + 1 \<noteq> x"
  using unsigned_less [where 'a=nat, of n] by (auto simp: word_less_nat_alt unat_word_ariths word_unat_eq_iff)

lemma seek_on_pack:
  assumes "unit_ok u" "on_pack (un_geometry u) c h b"
  shows "\<exists>u'. unit_seek c h b u = (True, u') \<and> same_pack u u' \<and> unit_ok u' \<and> unit_position u' = (c, h, b) \<and>
    un_seek_error u' = un_seek_error u"
proof (cases "(c, h, b) = (un_cylinder u, un_head u, un_block u)")
  case True
  have "same_pack u u" unfolding same_pack_def
    by (rule exI [where x = "un_cylinder u"], rule exI [where x = "un_head u"], rule exI [where x = "un_block u"],
        rule exI [where x = "un_seek_error u"]) simp
  then show ?thesis using True assms by (simp add: unit_seek_def unit_position_def)
next
  case False
  let ?u = "u\<lparr>un_cylinder := c, un_head := h, un_block := b\<rparr>"
  have "same_pack u ?u" unfolding same_pack_def
    by (rule exI [where x = c], rule exI [where x = h], rule exI [where x = b], rule exI [where x = "un_seek_error u"]) simp
  moreover have "unit_ok ?u" using assms by (simp add: unit_ok_def map_ok_def)
  ultimately show ?thesis using False assms(2) by (auto simp: unit_seek_def unit_position_def on_pack_def not_le)
qed

lemma same_pack_refl: "same_pack u u" unfolding same_pack_def
  by (rule exI [where x = "un_cylinder u"], rule exI [where x = "un_head u"], rule exI [where x = "un_block u"],
      rule exI [where x = "un_seek_error u"]) simp

lemma same_pack_trans: "same_pack u v \<Longrightarrow> same_pack v w \<Longrightarrow> same_pack u w"
  unfolding same_pack_def by auto metis

text \<open>Where the next block is: one higher, or off the end.\<close>

lemma next_block_cases:
  assumes u: "un_geometry u = g" "un_cylinder u = c" "un_head u = h" "un_block u = b" and here: "on_pack g c h b"
  shows "(\<exists>c' h' b'. next_block u = unit_seek c' h' b' u \<and> on_pack g c' h' b' \<and>
      block_number g c' h' b' = block_number g c h b + 1 \<and> next_block_code g c h b \<noteq> 3) \<or>
    next_block u = (False, u\<lparr>un_seek_error := True\<rparr>) \<and> block_number g c h b + 1 = block_count g \<and> next_block_code g c h b = 3"
proof -
  have lt: "c < dg_cylinders g" "h < dg_heads g" "b < dg_blocks_per_track g" using here by (simp_all add: on_pack_def)
  have zero: "0 < dg_heads g" "0 < dg_blocks_per_track g" using lt by (auto simp: word_gt_0)
  have up: "unat (c + 1) = unat c + 1" "unat (h + 1) = unat h + 1" "unat (b + 1) = unat b + 1"
    and last: "c + 1 = dg_cylinders g \<Longrightarrow> unat c + 1 = unat (dg_cylinders g)"
      "h + 1 = dg_heads g \<Longrightarrow> unat h + 1 = unat (dg_heads g)"
      "b + 1 = dg_blocks_per_track g \<Longrightarrow> unat b + 1 = unat (dg_blocks_per_track g)"
    using word_below [OF lt(1)] word_below [OF lt(2)] word_below [OF lt(3)] by blast+
  have num: "block_number g c h b = (unat c * unat (dg_heads g) + unat h) * unat (dg_blocks_per_track g) + unat b"
    by (simp add: block_number_def)
  consider (block) "b + 1 < dg_blocks_per_track g" | (head) "b + 1 = dg_blocks_per_track g" "h + 1 < dg_heads g"
    | (cylinder) "b + 1 = dg_blocks_per_track g" "h + 1 = dg_heads g" "c + 1 < dg_cylinders g"
    | (pack_end) "b + 1 = dg_blocks_per_track g" "h + 1 = dg_heads g" "c + 1 = dg_cylinders g"
    using lt up unfolding word_less_nat_alt word_unat_eq_iff [where 'a=32] by linarith
  then show ?thesis
  proof cases
    case block
    have "block_number g c h (b + 1) = block_number g c h b + 1" by (simp add: num block_number_def up)
    moreover have "on_pack g c h (b + 1)" using block here by (auto simp: on_pack_def)
    moreover have "next_block u = unit_seek c h (b + 1) u" using block u by (auto simp: next_block_def)
    moreover have "next_block_code g c h b \<noteq> 3" using block by (simp add: next_block_code_def)
    ultimately show ?thesis by blast
  next
    case head
    have "unat b + 1 = unat (dg_blocks_per_track g)" "unat (h + 1) = unat h + 1" by (rule last(3) [OF head(1)], rule up(2))
    then have "block_number g c (h + 1) 0 = block_number g c h b + 1" by (simp add: num block_number_def algebra_simps)
    moreover have "on_pack g c (h + 1) 0" using head here zero by (simp add: on_pack_def)
    moreover have "next_block u = unit_seek c (h + 1) 0 u" using head u by (auto simp: next_block_def)
    moreover have "next_block_code g c h b \<noteq> 3" using head by (simp add: next_block_code_def)
    ultimately show ?thesis by blast
  next
    case cylinder
    have n: "unat b + 1 = unat (dg_blocks_per_track g)" "unat h + 1 = unat (dg_heads g)" "unat (c + 1) = unat c + 1"
      by (rule last(3) [OF cylinder(1)], rule last(2) [OF cylinder(2)], rule up(1))
    have "block_number g (c + 1) 0 0 = block_number g c h b + 1"
      unfolding num block_number_def n(3) n(1,2) [symmetric] by (simp add: algebra_simps)
    moreover have "on_pack g (c + 1) 0 0" using cylinder here zero by (simp add: on_pack_def)
    moreover have "next_block u = unit_seek (c + 1) 0 0 u" using cylinder u by (auto simp: next_block_def)
    moreover have "next_block_code g c h b \<noteq> 3" using cylinder by (simp add: next_block_code_def)
    ultimately show ?thesis by blast
  next
    case pack_end
    have n: "unat b + 1 = unat (dg_blocks_per_track g)" "unat h + 1 = unat (dg_heads g)" "unat c + 1 = unat (dg_cylinders g)"
      by (rule last(3) [OF pack_end(1)], rule last(2) [OF pack_end(2)], rule last(1) [OF pack_end(3)])
    have "block_number g c h b + 1 = block_count g"
      unfolding num block_count_def n [symmetric] by (simp add: algebra_simps)
    moreover have "next_block u = (False, u\<lparr>un_seek_error := True\<rparr>)"
      using pack_end u lt(1) by (auto simp: next_block_def unit_seek_def)
    ultimately show ?thesis using pack_end by (simp add: next_block_code_def)
  qed
qed

lemma next_block_steps:
  assumes ok: "unit_ok u"
  shows "\<exists>moved u'. next_block u = (moved, u') \<and> same_pack u u' \<and> unit_ok u' \<and>
    (moved \<longleftrightarrow> heads_at_block u + 1 < block_count (un_geometry u)) \<and>
    heads_at_block u' = (if moved then heads_at_block u + 1 else heads_at_block u) \<and>
    un_seek_error u' = (un_seek_error u \<or> \<not> moved) \<and>
    (next_block_code (un_geometry u) (un_cylinder u) (un_head u) (un_block u) = 3 \<longleftrightarrow> \<not> moved)"
proof -
  have "on_pack (un_geometry u) (un_cylinder u) (un_head u) (un_block u)" using ok by (simp add: unit_ok_def)
  from next_block_cases [OF refl refl refl refl this] show ?thesis
  proof (elim disjE exE conjE)
    fix c h b
    assume to: "next_block u = unit_seek c h b u" "on_pack (un_geometry u) c h b"
      "block_number (un_geometry u) c h b = block_number (un_geometry u) (un_cylinder u) (un_head u) (un_block u) + 1"
      "next_block_code (un_geometry u) (un_cylinder u) (un_head u) (un_block u) \<noteq> 3"
    obtain u' where "unit_seek c h b u = (True, u')" "same_pack u u'" "unit_ok u'" "unit_position u' = (c, h, b)"
      "un_seek_error u' = un_seek_error u"
      using seek_on_pack [OF ok to(2)] by blast
    then show ?thesis using to block_number_less [OF to(2)] same_pack_at [of u u']
      by (intro exI [where x = True] exI [where x = u']) (auto simp: heads_at_block_def unit_position_def)
  next
    assume "next_block u = (False, u\<lparr>un_seek_error := True\<rparr>)"
      "block_number (un_geometry u) (un_cylinder u) (un_head u) (un_block u) + 1 = block_count (un_geometry u)"
      "next_block_code (un_geometry u) (un_cylinder u) (un_head u) (un_block u) = 3"
    moreover have "same_pack u (u\<lparr>un_seek_error := True\<rparr>)" unfolding same_pack_def
      by (rule exI [where x = "un_cylinder u"], rule exI [where x = "un_head u"], rule exI [where x = "un_block u"],
          rule exI [where x = True]) simp
    moreover have "unit_ok (u\<lparr>un_seek_error := True\<rparr>)" using ok by (simp add: unit_ok_def map_ok_def)
    ultimately show ?thesis
      by (intro exI [where x = False] exI [where x = "u\<lparr>un_seek_error := True\<rparr>"]) (simp add: heads_at_block_def)
  qed
qed

text \<open>
  How many blocks are left to a transfer, wherever the heads are and whatever the geometry: a block moved on leaves
  fewer.
\<close>

definition blocks_left :: "drive_unit \<Rightarrow> nat" where
  "blocks_left u = (let g = un_geometry u in
     if on_pack g (un_cylinder u) (un_head u) (un_block u) then block_count g - heads_at_block u else block_count g + 1)"

lemma next_block_fewer: "next_block u = (True, u') \<Longrightarrow> blocks_left u' < blocks_left u"
proof -
  assume moved: "next_block u = (True, u')"
  let ?g = "un_geometry u"
  have seek: "un_geometry v = ?g \<and> on_pack ?g c h b \<and> unit_position v = (c, h, b)"
    if "unit_seek c h b u = (True, v)" "(c, h, b) \<noteq> unit_position u" for c h b v
    using that by (auto simp: unit_seek_def unit_position_def on_pack_def not_le split: if_splits)
  show ?thesis
  proof (cases "on_pack ?g (un_cylinder u) (un_head u) (un_block u)")
    case True
    from next_block_cases [OF refl refl refl refl True] moved obtain c h b where
      to: "unit_seek c h b u = (True, u')" "on_pack ?g c h b" "block_number ?g c h b = heads_at_block u + 1"
      by (auto simp: heads_at_block_def)
    have "(c, h, b) \<noteq> unit_position u" using to(3) by (auto simp: heads_at_block_def unit_position_def)
    then have "un_geometry u' = ?g" "unit_position u' = (c, h, b)" using seek [OF to(1)] by blast+
    then show ?thesis using True to block_number_less [OF to(2)]
      by (auto simp: blocks_left_def Let_def heads_at_block_def unit_position_def)
  next
    case False
    obtain c h b where "next_block u = unit_seek c h b u" "(c, h, b) \<noteq> unit_position u"
    proof -
      let ?to = "if un_block u + 1 = dg_blocks_per_track ?g
        then if un_head u + 1 = dg_heads ?g then (un_cylinder u + 1, 0, 0) else (un_cylinder u, un_head u + 1, 0)
        else (un_cylinder u, un_head u, un_block u + 1)"
      have "?to \<noteq> unit_position u" by (auto simp: unit_position_def)
      then show thesis using that by (cases ?to) (auto simp: next_block_def)
    qed
    then have "un_geometry u' = ?g" "on_pack ?g (un_cylinder u') (un_head u') (un_block u')"
      using seek [of c h b u'] moved by (auto simp: unit_position_def)
    then show ?thesis using False by (simp add: blocks_left_def Let_def less_Suc_eq_le)
  qed
qed

text \<open>
  The heads go through the pack in order. Whatever block they are over, the next is the following block of the
  track, or the first of the next track or cylinder, which is the block numbered one higher; at the last block
  of the pack they stay, with the seek error. The header's next-block code says which of the four it is.
\<close>

theorem next_block_in_order:
  assumes ok: "unit_ok u"
  shows "\<exists>moved u'. next_block u = (moved, u') \<and> same_pack u u' \<and> unit_ok u' \<and>
    (moved \<longleftrightarrow> heads_at_block u + 1 < block_count (un_geometry u)) \<and>
    heads_at_block u' = (if moved then heads_at_block u + 1 else heads_at_block u) \<and>
    un_seek_error u' = (un_seek_error u \<or> \<not> moved) \<and>
    (next_block_code (un_geometry u) (un_cylinder u) (un_head u) (un_block u) = 3 \<longleftrightarrow> \<not> moved)"
  by (rule next_block_steps [OF ok])

lemma next_block_in_order_witness:
  "\<exists>u'. next_block ((unit_blank T80)\<lparr>un_head := 4, un_block := 16\<rparr>) = (True, u') \<and> heads_at_block u' = 85"
proof -
  let ?u = "(unit_blank T80)\<lparr>un_head := 4, un_block := 16\<rparr>"
  have "unit_ok ?u" by (simp add: unit_ok_def unit_blank_def map_ok_def on_pack_def geometry_ok_def T80_def)
  then obtain moved u' where "next_block ?u = (moved, u')" "moved \<longleftrightarrow> heads_at_block ?u + 1 < block_count (un_geometry ?u)"
    "heads_at_block u' = (if moved then heads_at_block ?u + 1 else heads_at_block ?u)"
    using next_block_in_order by blast
  moreover have "heads_at_block ?u = 84" "block_count (un_geometry ?u) = 69275"
    by (simp_all add: heads_at_block_def block_number_def block_count_def unit_blank_def T80_def)
  ultimately show ?thesis by auto
qed

section \<open>A checkpoint of the drive\<close>

lemma map_ok_fits:
  assumes "map_ok u P m"
  shows "length m \<le> unat (dg_blocks (un_geometry u))"
proof -
  have "distinct (map fst m)"
    using assms by (auto simp: map_ok_def distinct_conv_nth sorted_wrt_iff_nth_less) (metis less_irrefl linorder_neqE_nat)
  then have "length m = card (unat ` fst ` set m)"
    using card_image [OF inj_on_subset [OF inj_unsigned subset_UNIV]] by (metis distinct_card length_map list.set_map)
  also have "\<dots> \<le> card {0 ..< unat (dg_blocks (un_geometry u))}"
    using assms by (intro card_mono) (auto simp: map_ok_def word_less_nat_alt)
  finally show ?thesis by simp
qed

lemma codes_checkword_bytes: "length c = 4 \<Longrightarrow> codes n (put_bytes c) get_checkword_bytes c"
  unfolding get_checkword_bytes_def by (rule codes_then [OF codes_bytes]) simp_all

lemma codes_header: "length (sh_checkword (snd kh)) = 4 \<Longrightarrow> codes n (put_header kh) get_header kh"
  unfolding put_header_def get_header_def
  by (rule codes_cons [OF codes_u32], rule codes_cons [OF codes_u32], rule codes_cons [OF codes_checkword_bytes])
    (simp_all add: codes_end prod_eq_iff)

lemma codes_checkword: "length (snd kc) = 4 \<Longrightarrow> codes n (put_checkword kc) get_checkword kc"
  unfolding put_checkword_def get_checkword_def
  by (rule codes_cons [OF codes_u32], rule codes_cons [OF codes_checkword_bytes]) (simp_all add: codes_end)

text \<open>A counted map in the order of its blocks.\<close>

lemma codes_counted_map:
  assumes "map_ok u P m" "\<And>e. e \<in> set m \<Longrightarrow> codes n (put e) get e"
    and rest: "codes n (put_all ps) (get' m) v"
  shows "codes n (put_all (put_u64 (of_nat (length m)) # fold put m # ps))
    (rd_bind (get_counted_map (dg_blocks (un_geometry u)) get) get') v"
proof -
  have len: "length m \<le> unat (dg_blocks (un_geometry u))" by (rule map_ok_fits [OF assms(1)])
  then have n: "unat (of_nat (length m) :: u64) = length m"
    using unsigned_less [where 'a=nat, of "dg_blocks (un_geometry u)"] by (simp add: unat_of_nat take_bit_nat_eq_self)
  then have room: "((ucast (dg_blocks (un_geometry u)) :: u64) < of_nat (length m)) = False"
    using len unsigned_less [where 'a=nat, of "dg_blocks (un_geometry u)"]
    by (simp add: word_less_nat_alt unsigned_ucast_eq take_bit_nat_eq_self)
  have es: "codes n (fold put m) (get_many (length m) get) m" by (rule codes_many [OF assms(2)])
  have whole: "fold (\<lambda>(k, v). hm_insert k v) m [] = m" using hm_insert_all [of "[]" m] assms(1) by (simp add: map_ok_def)
  have assoc: "rd_bind (rd_bind a f) g = rd_bind a (\<lambda>x. rd_bind (f x) g)" for a :: "'x rd" and f :: "'x \<Rightarrow> 'y rd" and g :: "'y \<Rightarrow> 'z rd"
    by (rule ext) (simp add: rd_bind_def split: sum.split)
  have put: "rd_bind (rd_return a) g = g a" for a :: 'x and g :: "'x \<Rightarrow> 'y rd"
    by (rule ext) (simp add: rd_bind_def rd_return_def)
  show ?thesis
    unfolding get_counted_map_def assoc
    by (rule codes_cons [OF codes_u64], simp only: room n if_False assoc, rule codes_cons [OF es]) (simp add: put whole rest)
qed

text \<open>The fields that a checkpoint of a drive leaves as they are: the pack's file and how it was opened.\<close>

definition unit_saved :: "drive_unit \<Rightarrow> drive_unit \<Rightarrow> bool" where
  "unit_saved u0 u \<longleftrightarrow> unit_ok u \<and> un_geometry u = un_geometry u0 \<and> un_image u = un_image u0 \<and> un_writable u = un_writable u0"

lemma codes_unit:
  assumes "unit_saved u0 u"
  shows "codes n (unit_save u) (unit_load u0) u"
proof -
  have ok: "map_ok u (\<lambda>b. length b = BLOCK_WORDS) (un_written u)" "map_ok u (\<lambda>h. length (sh_checkword h) = 4) (un_headers u)"
    "map_ok u (\<lambda>c. length c = 4) (un_data_checkwords u)" using assms by (simp_all add: unit_saved_def unit_ok_def)
  define g where "g = un_geometry u"
  have g: "un_geometry u0 = g" "(g \<noteq> g) = False" "un_geometry u = g" using assms by (simp_all add: unit_saved_def g_def)
  have geo: "\<lparr>dg_cylinders = dg_cylinders (un_geometry u), dg_heads = dg_heads (un_geometry u),
      dg_blocks_per_track = dg_blocks_per_track (un_geometry u)\<rparr> = un_geometry u" by simp
  note maps = codes_counted_map [OF ok(1) codes_block] codes_counted_map [OF ok(2) codes_header]
    codes_counted_map [OF ok(3) codes_checkword]
  have whole: "u0\<lparr>un_written := un_written u, un_read_only := un_read_only u, un_cylinder := un_cylinder u,
      un_head := un_head u, un_block := un_block u, un_seek_error := un_seek_error u, un_fault := un_fault u,
      un_attention_at := un_attention_at u, un_headers := un_headers u, un_data_checkwords := un_data_checkwords u\<rparr> = u"
    using assms by (cases u; cases u0) (simp add: unit_saved_def)
  show ?thesis
    unfolding unit_save_def unit_load_def
    by (rule codes_step, rule codes_step, rule codes_step, simp only: Let_def geo g(1) g(3) [symmetric] simp_thms if_False)
      (rule maps(1), use ok in \<open>fastforce simp: map_ok_def\<close>, (rule codes_step)+,
       rule maps(2), use ok in \<open>fastforce simp: map_ok_def\<close>, rule maps(3), use ok in \<open>fastforce simp: map_ok_def\<close>,
       simp only: whole codes_nil)
qed

interpretation drive_codec: codec n "unit_saved u0" unit_save "unit_load u0" for n u0
  by unfold_locales (rule codes_unit)

end
