(* ===== verification/DiskController.thy ===== *)
theory DiskController
  imports DiskUnit BlockDisk Busint
begin

text \<open>
  The disk controller, \<open>src/disk_controller.rs\<close>: its registers and status word, the commands START runs, the command
  list of pages a transfer follows between a drive and main memory, and Read All and Write All, which move a
  track's bytes. A read or write ends because each block moves the heads on; a Read All or Write All goes round its
  track for as long as its command list has the More flag set, and is a partial function.
\<close>

section \<open>The registers\<close>

definition TIMEOUT_DIVIDER :: nat where "TIMEOUT_DIVIDER = 128"

text \<open>\<open>DISK_TIMEOUT_VCO_PERIOD\<close> of \<open>src/chip.rs\<close>, the timeout clock's period as a fraction.\<close>

definition DISK_TIMEOUT_VCO_PERIOD :: "nat \<times> nat" where "DISK_TIMEOUT_VCO_PERIOD = (20000000, 1)"

definition TIMEOUT_NS :: nat where
  "TIMEOUT_NS = fst DISK_TIMEOUT_VCO_PERIOD * TIMEOUT_DIVIDER div snd DISK_TIMEOUT_VCO_PERIOD"

definition UNITS :: nat where "UNITS = 8"

record disk_controller =
  dc_timed :: bool
  dc_timing :: timing_model
  dc_done_at :: u64
  dc_now :: u64
  dc_cmd :: u32
  dc_clp :: u32
  dc_da :: u32
  dc_header_ecc :: bool
  dc_header_compare :: bool
  dc_ecc_hard :: bool
  dc_ecc_soft :: bool
  dc_ecc :: u32
  dc_read_compare_difference :: bool
  dc_dma_written :: "nat list"
  dc_ccw_cycle :: bool
  dc_nxm :: bool
  dc_timeout :: bool
  dc_overrun :: bool
  dc_last_memory_address :: u32
  dc_units :: "drive_unit option list"

definition disk_controller_default :: disk_controller where
  "disk_controller_default =
     \<lparr>dc_timed = False, dc_timing = Cadr, dc_done_at = 0, dc_now = 0, dc_cmd = 0, dc_clp = 0, dc_da = 0,
      dc_header_ecc = False, dc_header_compare = False, dc_ecc_hard = False, dc_ecc_soft = False, dc_ecc = 0,
      dc_read_compare_difference = False, dc_dma_written = [], dc_ccw_cycle = False, dc_nxm = False,
      dc_timeout = False, dc_overrun = False, dc_last_memory_address = 0, dc_units = replicate UNITS None\<rparr>"

definition dc_attach :: "nat \<Rightarrow> drive_unit \<Rightarrow> disk_controller \<Rightarrow> disk_controller" where
  "dc_attach n u d = d\<lparr>dc_units := (dc_units d)[n := Some u]\<rparr>"

definition dc_selected :: "disk_controller \<Rightarrow> nat" where
  "dc_selected d = unat (drop_bit 28 (dc_da d)) mod 8"

definition dc_advance :: "u64 \<Rightarrow> disk_controller \<Rightarrow> disk_controller" where
  "dc_advance now d = d\<lparr>dc_now := now\<rparr>"

definition dc_set_timing_model :: "timing_model \<Rightarrow> disk_controller \<Rightarrow> disk_controller" where
  "dc_set_timing_model t d = d\<lparr>dc_timing := t\<rparr>"

text \<open>A span on the controller's time, \<open>timing.triggered\<close>.\<close>

definition dc_triggered :: "u64 \<Rightarrow> disk_controller \<Rightarrow> u64" where
  "dc_triggered ns d = of_nat (triggered (dc_timing d) (unat ns))"

definition dc_done_in :: "u64 \<Rightarrow> disk_controller \<Rightarrow> disk_controller" where
  "dc_done_in ns d = d\<lparr>dc_done_at := dc_now d + (if dc_timed d then dc_triggered ns d else 0)\<rparr>"

definition dc_attention_in :: "u64 \<Rightarrow> disk_controller \<Rightarrow> disk_controller" where
  "dc_attention_in ns d =
     (let at = dc_now d + (if dc_timed d then dc_triggered ns d else 0)
      in d\<lparr>dc_units := (dc_units d)[dc_selected d := map_option (raise_attention at) (dc_units d ! dc_selected d)]\<rparr>)"

definition abs_diff :: "u32 \<Rightarrow> u32 \<Rightarrow> u32" where
  "abs_diff a b = (if a < b then b - a else a - b)"

definition dc_access_ns :: "u32 \<Rightarrow> u32 \<Rightarrow> u32 \<Rightarrow> u32 \<Rightarrow> disk_controller \<Rightarrow> u64" where
  "dc_access_ns from to block blocks d =
     (let seek = seek_ns (abs_diff from to); latency = until_region block (dc_now d + seek)
      in seek + latency + ucast blocks * SECTOR_NS)"

definition dc_track_ns :: "u32 \<Rightarrow> u32 \<Rightarrow> u32 \<Rightarrow> disk_controller \<Rightarrow> u64" where
  "dc_track_ns from to block d =
     (let seek = seek_ns (abs_diff from to) in seek + until_region block (dc_now d + seek) + REVOLUTION_NS)"

definition dc_heads_at :: "disk_controller \<Rightarrow> u32" where
  "dc_heads_at d = (case dc_units d ! dc_selected d of None \<Rightarrow> 0 | Some u \<Rightarrow> un_cylinder u)"

definition dc_not_active :: "disk_controller \<Rightarrow> bool" where
  "dc_not_active d \<longleftrightarrow> dc_done_at d \<le> dc_now d"

definition dc_any_attention :: "disk_controller \<Rightarrow> bool" where
  "dc_any_attention d \<longleftrightarrow> list_ex (\<lambda>s. case s of None \<Rightarrow> False | Some u \<Rightarrow> unit_attention (dc_now d) u) (dc_units d)"

definition dc_block_counter :: "disk_controller \<Rightarrow> u32" where
  "dc_block_counter d =
     (case dc_units d ! dc_selected d of None \<Rightarrow> 0
      | Some u \<Rightarrow>
        let n = dg_blocks_per_track (un_geometry u); (k, into) = turn n 0 (dc_now d)
        in if pulse_ns k \<le> into then k else if k = 0 then n else k - 1)"

definition dc_lossage :: "disk_controller \<Rightarrow> bool" where
  "dc_lossage d \<longleftrightarrow>
     (dc_timeout d \<and> dc_not_active d \<or> dc_nxm d \<or> dc_overrun d \<or> dc_header_ecc d \<or> dc_header_compare d \<or>
      dc_ecc_hard d \<or> dc_ecc_soft d) \<or>
     (dc_cmd d AND 4 = 0 \<and>
      (case dc_units d ! dc_selected d of None \<Rightarrow> True | Some u \<Rightarrow> un_fault u \<or> un_seek_error u))"

definition dc_interrupt :: "disk_controller \<Rightarrow> bool" where
  "dc_interrupt d \<longleftrightarrow> dc_not_active d \<and>
     (dc_cmd d AND push_bit 11 1 \<noteq> 0 \<or> dc_cmd d AND push_bit 10 1 \<noteq> 0 \<and> dc_any_attention d)"

definition status_bit :: "nat \<Rightarrow> bool \<Rightarrow> u32" where
  "status_bit n b = (if b then push_bit n 1 else 0)"

definition dc_status :: "disk_controller \<Rightarrow> u32" where
  "dc_status d =
     push_bit 24 (dc_block_counter d) OR status_bit 22 (dc_read_compare_difference d) OR
     status_bit 21 (dc_ccw_cycle d) OR status_bit 20 (dc_nxm d) OR
     status_bit 11 (dc_timeout d \<and> dc_not_active d) OR status_bit 14 (dc_overrun d) OR
     status_bit 17 (dc_header_ecc d) OR status_bit 18 (dc_header_compare d) OR
     status_bit 16 (dc_ecc_hard d) OR status_bit 15 (dc_ecc_soft d) OR
     status_bit 13 (dc_lossage d) OR status_bit 3 (dc_interrupt d) OR
     (case dc_units d ! dc_selected d of
        Some u \<Rightarrow> status_bit 10 (un_seek_error u) OR status_bit 7 (un_read_only u) OR status_bit 6 (un_fault u) OR
                  status_bit 2 (unit_attention (dc_now d) u)
      | None \<Rightarrow> push_bit 9 1 OR push_bit 8 1 OR push_bit 5 1) OR
     status_bit 1 (dc_any_attention d) OR status_bit 0 (dc_not_active d)"

definition dc_read :: "u32 \<Rightarrow> disk_controller \<Rightarrow> u32" where
  "dc_read r d =
     (let r = r AND 3
      in if r = 0 then dc_status d else if r = 1 then dc_last_memory_address d
         else if r = 2 then dc_da d else dc_ecc d)"

definition decode_da :: "u32 \<Rightarrow> u32 \<times> u32 \<times> u32" where
  "decode_da da = (drop_bit 16 da AND 0xfff, drop_bit 8 da AND 0xff, da AND 0xff)"

definition dc_hang :: "disk_controller \<Rightarrow> disk_controller" where
  "dc_hang d = d\<lparr>dc_timeout := True, dc_done_at := dc_now d + dc_triggered (of_nat TIMEOUT_NS) d\<rparr>"

definition dc_reset_errors :: "disk_controller \<Rightarrow> disk_controller" where
  "dc_reset_errors d =
     d\<lparr>dc_header_ecc := False, dc_header_compare := False, dc_ecc_hard := False, dc_ecc_soft := False,
       dc_read_compare_difference := False, dc_ccw_cycle := False, dc_nxm := False, dc_overrun := False,
       dc_timeout := (if dc_not_active d then False else dc_timeout d)\<rparr>"

definition dc_reset :: "disk_controller \<Rightarrow> disk_controller" where
  "dc_reset d = dc_reset_errors (d\<lparr>dc_done_at := dc_now d\<rparr>)"

definition dc_xbus_init :: "disk_controller \<Rightarrow> disk_controller" where
  "dc_xbus_init d = (dc_reset d)\<lparr>dc_cmd := 0\<rparr>"

section \<open>A read, read-compare or write\<close>

text \<open>The flags a transfer begins with.\<close>

definition dc_clear :: "disk_controller \<Rightarrow> disk_controller" where
  "dc_clear d =
     d\<lparr>dc_read_compare_difference := False, dc_dma_written := [], dc_ccw_cycle := False, dc_nxm := False,
       dc_timeout := False, dc_overrun := False, dc_header_ecc := False, dc_header_compare := False,
       dc_ecc_hard := False, dc_ecc_soft := False\<rparr>"

text \<open>The header a block carries against the address, and its checkword: whether the transfer goes on.\<close>

definition dc_check_header :: "drive_unit \<Rightarrow> disk_controller \<Rightarrow> bool \<times> disk_controller" where
  "dc_check_header u d =
     (let (c, h, b) = unit_position u; carried = sector_header_at u c h b; expected = header_of (un_geometry u) c h b
      in case carried of None \<Rightarrow> (True, d)
         | Some x \<Rightarrow>
           if sh_word x AND 0x0fffffff \<noteq> expected AND 0x0fffffff then (False, d\<lparr>dc_header_compare := True\<rparr>)
           else if \<not> header_checks x then (False, d\<lparr>dc_header_ecc := True\<rparr>)
           else (True, d))"

text \<open>The data read and the checkword after it, through the check code.\<close>

definition dc_check_data :: "drive_unit \<Rightarrow> u32 list \<Rightarrow> disk_controller \<Rightarrow> bool \<times> disk_controller" where
  "dc_check_data u data d =
     (let (c, h, b) = unit_position u
      in case data_checkword_at u c h b of None \<Rightarrow> (True, d)
         | Some cw \<Rightarrow>
           let e = ecc_feed cw (fold (\<lambda>w. ecc_feed (le_bytes 4 w)) data 0)
           in if e = 0 then (True, d)
              else (False, case ecc_trap (BLOCK_WORDS * 32) e of
                  Some (p, at) \<Rightarrow> d\<lparr>dc_ecc_soft := True, dc_ecc := push_bit 16 (ucast p) OR ((of_nat at + 1) AND 0xffff)\<rparr>
                | None \<Rightarrow> d\<lparr>dc_ecc_hard := True\<rparr>))"

text \<open>One block between the drive and the page: whether it moved, and the drive, memory and controller after it.\<close>

definition dc_move_block ::
  "bool \<Rightarrow> bool \<Rightarrow> nat \<Rightarrow> drive_unit \<Rightarrow> u64 list \<Rightarrow> disk_controller \<Rightarrow> bool \<times> drive_unit \<times> u64 list \<times> disk_controller" where
  "dc_move_block read compare page u main d =
     (let (ok, d) = dc_check_header u d
      in if \<not> ok then (False, u, main, d)
      else case (if read then unit_read_block u else Some (replicate BLOCK_WORDS 0)) of
        None \<Rightarrow> (False, u\<lparr>un_fault := True\<rparr>, main, d)
      | Some from_disk \<Rightarrow>
        let (ok, d) = (if read then dc_check_data u from_disk d else (True, d))
        in if \<not> ok then (False, u, main, d)
        else if length main < page + BLOCK_WORDS then (False, u, main, d\<lparr>dc_nxm := True\<rparr>)
        else let in_memory = take BLOCK_WORDS (drop page main)
        in if read then
             if compare then
               (True, u, main, if list_ex (\<lambda>(m, w). m \<noteq> mw_of w) (zip in_memory from_disk)
                               then d\<lparr>dc_read_compare_difference := True\<rparr> else d)
             else (True, u, put_at page (map mw_of from_disk) main, d\<lparr>dc_dma_written := dc_dma_written d @ [page]\<rparr>)
           else let (ok, u) = unit_write_block (map mw_low in_memory) u
                in if \<not> ok then (False, u\<lparr>un_fault := True\<rparr>, main, d) else (True, u, main, d))"

lemma write_block_heads:
  "write_block_at c h b data u = (ok, u') \<Longrightarrow> un_geometry u' = un_geometry u \<and> unit_position u' = unit_position u"
  by (auto simp: write_block_at_def write_lba_def unit_position_def split: option.splits if_splits bool.splits)

lemma move_block_heads:
  assumes "dc_move_block read compare page u main d = (ok, u', main', d')"
  shows "blocks_left u' = blocks_left u"
proof -
  have "un_geometry u' = un_geometry u \<and> unit_position u' = unit_position u"
    using assms write_block_heads
    by (auto simp: dc_move_block_def Let_def unit_write_block_def unit_position_def
        split: prod.splits if_splits option.splits)
  then show ?thesis by (simp add: blocks_left_def heads_at_block_def unit_position_def Let_def)
qed

function dc_list ::
  "bool \<Rightarrow> bool \<Rightarrow> drive_unit \<Rightarrow> u64 list \<Rightarrow> u32 \<Rightarrow> u32 \<Rightarrow> disk_controller \<Rightarrow> u32 \<times> drive_unit \<times> u64 list \<times> disk_controller" where
  "dc_list read compare u main moved n d =
     (let clp = clp_at (dc_clp d) n;
          d = d\<lparr>dc_last_memory_address := clp, dc_ccw_cycle := True\<rparr>
      in if length main \<le> unat clp then (moved, u, main, d\<lparr>dc_nxm := True\<rparr>)
         else let d = d\<lparr>dc_ccw_cycle := False\<rparr>; ccw = mw_low (main ! unat clp); page = unat (ccw AND 0x003fff00)
         in case dc_move_block read compare page u main d of (ok, u', main', d) \<Rightarrow>
           if \<not> ok then (moved, u', main', d)
           else let d = d\<lparr>dc_last_memory_address := of_nat (page + BLOCK_WORDS - 1)\<rparr>; moved = moved + 1
           in if ccw AND 1 = 0 then (moved, u', main', d)
              else case next_block u' of (on, u'') \<Rightarrow>
                if \<not> on then (moved, u'', main', d\<lparr>dc_header_ecc := True\<rparr>)
                else dc_list read compare u'' main' moved (n + 1) d)"
  by pat_completeness auto
termination
  by (relation "measure (\<lambda>(_, _, u, _). blocks_left u)")
    (auto dest!: next_block_fewer [OF sym] move_block_heads [OF sym])

declare dc_list.simps [simp del]

definition dc_transfer :: "bool \<Rightarrow> bool \<Rightarrow> u64 list \<Rightarrow> disk_controller \<Rightarrow> u32 \<times> u64 list \<times> disk_controller" where
  "dc_transfer read compare main d =
     (let d = dc_clear d; i = dc_selected d; u = the (dc_units d ! i); d = d\<lparr>dc_units := (dc_units d)[i := None]\<rparr>;
          (c, h, b) = decode_da (dc_da d);
          (ok, u) = unit_seek c h b u
      in if ok then
           case dc_list read compare u main 0 0 d of (blocks, u, main, d) \<Rightarrow>
             (blocks, main, d\<lparr>dc_da := unit_da (of_nat i) u, dc_units := (dc_units d)[i := Some u]\<rparr>)
         else (0, main, d\<lparr>dc_units := (dc_units d)[i := Some u]\<rparr>))"

section \<open>Read All and Write All\<close>

text \<open>
  The command list walked page by page, as long as \<open>each\<close> goes on and the entry has the More flag: \<open>each\<close> works on
  main memory and on what it gathers.
\<close>

partial_function (option) each_ccw ::
  "(nat \<Rightarrow> u64 list \<Rightarrow> 'a \<Rightarrow> disk_controller \<Rightarrow> bool \<times> u64 list \<times> 'a \<times> disk_controller) \<Rightarrow> u32 \<Rightarrow>
   u64 list \<Rightarrow> 'a \<Rightarrow> disk_controller \<Rightarrow> (u64 list \<times> 'a \<times> disk_controller) option" where
  "each_ccw each n main x d =
     (let clp = clp_at (dc_clp d) n;
          d = d\<lparr>dc_last_memory_address := clp, dc_ccw_cycle := True\<rparr>
      in if length main \<le> unat clp then Some (main, x, d\<lparr>dc_nxm := True\<rparr>)
         else let d = d\<lparr>dc_ccw_cycle := False\<rparr>; ccw = mw_low (main ! unat clp); page = unat (ccw AND 0x003fff00)
         in case each page main x d of (go, main, x, d) \<Rightarrow>
           if \<not> go then Some (main, x, d)
           else let d = d\<lparr>dc_last_memory_address := of_nat (page + BLOCK_WORDS - 1)\<rparr>
           in if ccw AND 1 = 0 then Some (main, x, d) else each_ccw each (n + 1) main x d)"

text \<open>Four bytes of the track a word, round and round, from the byte \<open>at\<close>.\<close>

definition track_words :: "u8 list \<Rightarrow> nat \<Rightarrow> u32 list" where
  "track_words bytes at =
     map (\<lambda>w. from_le_bytes (map (\<lambda>k. bytes ! ((at + 4 * w + k) mod length bytes)) [0..<4])) [0..<BLOCK_WORDS]"

definition read_all_page ::
  "u8 list \<Rightarrow> nat \<Rightarrow> u64 list \<Rightarrow> nat \<Rightarrow> disk_controller \<Rightarrow> bool \<times> u64 list \<times> nat \<times> disk_controller" where
  "read_all_page bytes page main at d =
     (if length main < page + BLOCK_WORDS then (False, main, at, d\<lparr>dc_nxm := True\<rparr>)
      else (True, put_at page (map mw_of (track_words bytes at)) main, at + 4 * BLOCK_WORDS,
            d\<lparr>dc_dma_written := dc_dma_written d @ [page]\<rparr>))"

definition dc_read_all :: "u8 list \<Rightarrow> u64 list \<Rightarrow> disk_controller \<Rightarrow> (u64 list \<times> disk_controller) option" where
  "dc_read_all bytes main d =
     map_option (\<lambda>(main, at, d). (main, d)) (each_ccw (read_all_page bytes) 0 main 0 d)"

definition write_all_page ::
  "nat \<Rightarrow> u64 list \<Rightarrow> u8 list \<Rightarrow> disk_controller \<Rightarrow> bool \<times> u64 list \<times> u8 list \<times> disk_controller" where
  "write_all_page page main bytes d =
     (if length main < page + BLOCK_WORDS then (False, main, bytes, d\<lparr>dc_nxm := True\<rparr>)
      else (True, main, bytes @ concat (map (\<lambda>w. le_bytes 4 (mw_low w)) (take BLOCK_WORDS (drop page main))), d))"

definition dc_write_all_bytes :: "u64 list \<Rightarrow> disk_controller \<Rightarrow> (u8 list \<times> disk_controller) option" where
  "dc_write_all_bytes main d =
     map_option (\<lambda>(main, bytes, d). (bytes, d)) (each_ccw write_all_page 0 main [] d)"

text \<open>The track under the heads, from a block round to itself, the leftover where the track ends.\<close>

definition track_bytes :: "drive_unit \<Rightarrow> u32 \<Rightarrow> u32 \<Rightarrow> u32 \<Rightarrow> u8 list" where
  "track_bytes u cylinder head block =
     (let g = un_geometry u; n = dg_blocks_per_track g
      in concat (map (\<lambda>k.
           let b = (block + of_nat k) mod n;
               data = (case block_at u cylinder head b of Some x \<Rightarrow> x | None \<Rightarrow> replicate BLOCK_WORDS 0);
               header = (case sector_header_at u cylinder head b of Some x \<Rightarrow> x | None \<Rightarrow> header_for g cylinder head b);
               cw = (case data_checkword_at u cylinder head b of Some x \<Rightarrow> x | None \<Rightarrow> ecc_over [])
           in sector_image_laid (sh_word header) (sh_checkword header) data cw @
              (if b + 1 = n then replicate LEFTOVER 0xff else [])) [0..<unat n]))"

text \<open>The sectors of the bytes written, put on the track where the heads are, one after the other.\<close>

function lay_down_track :: "u32 \<Rightarrow> u32 \<Rightarrow> u32 \<Rightarrow> u8 list \<Rightarrow> u32 \<Rightarrow> drive_unit \<Rightarrow> drive_unit" where
  "lay_down_track cylinder head from bytes k u =
     (if length bytes < SECTOR_BYTES then u
      else case parse_sector (disk_bits (take SECTOR_BYTES bytes)) of None \<Rightarrow> u
        | Some s \<Rightarrow>
          let block = (from + k) mod dg_blocks_per_track (un_geometry u);
              laid = \<lparr>sh_word = sc_header s, sh_checkword = sc_header_checkword s\<rparr>;
              (ok, u') = write_sector_at cylinder head block laid (sc_data s) (sc_data_checkword s) u
          in if \<not> ok then u' else lay_down_track cylinder head from (drop SECTOR_BYTES bytes) (k + 1) u')"
  by pat_completeness auto
termination
  by (relation "measure (\<lambda>(_, _, _, bytes, _, _). length bytes)") (auto simp: SECTOR_BYTES_def)

declare lay_down_track.simps [simp del]

definition dc_transfer_all :: "bool \<Rightarrow> u64 list \<Rightarrow> disk_controller \<Rightarrow> (u64 list \<times> disk_controller) option" where
  "dc_transfer_all read main d =
     (let d = dc_clear d; i = dc_selected d; u = the (dc_units d ! i); d = d\<lparr>dc_units := (dc_units d)[i := None]\<rparr>;
          (c, h, b) = decode_da (dc_da d);
          (ok, u) = unit_seek c h b u
      in if ok then
           if read then
             map_option (\<lambda>(main, d). (main, d\<lparr>dc_da := unit_da (of_nat i) u, dc_units := (dc_units d)[i := Some u]\<rparr>))
               (dc_read_all (track_bytes u c h b) main d)
           else
             map_option (\<lambda>(bytes, d). let u = lay_down_track c h b bytes 0 u
                 in (main, d\<lparr>dc_da := unit_da (of_nat i) u, dc_units := (dc_units d)[i := Some u]\<rparr>))
               (dc_write_all_bytes main d)
         else Some (main, d\<lparr>dc_units := (dc_units d)[i := Some u]\<rparr>))"

section \<open>START\<close>

text \<open>The selected unit, changed in place.\<close>

definition dc_on_unit :: "(drive_unit \<Rightarrow> drive_unit) \<Rightarrow> disk_controller \<Rightarrow> disk_controller" where
  "dc_on_unit f d = d\<lparr>dc_units := (dc_units d)[dc_selected d := map_option f (dc_units d ! dc_selected d)]\<rparr>"

definition dc_read_only :: "disk_controller \<Rightarrow> bool" where
  "dc_read_only d \<longleftrightarrow> (case dc_units d ! dc_selected d of None \<Rightarrow> False | Some u \<Rightarrow> un_read_only u)"

definition dc_seek :: "u32 \<Rightarrow> disk_controller \<Rightarrow> disk_controller" where
  "dc_seek from d =
     (let (c, h, b) = decode_da (dc_da d)
      in if dc_units d ! dc_selected d \<noteq> None then
           let d = dc_on_unit (\<lambda>u. snd (unit_seek c h b u)) d; ns = seek_ns (abs_diff from c)
           in dc_attention_in ns (dc_done_in ns d)
         else dc_hang d)"

definition dc_at_ease :: "disk_controller \<Rightarrow> disk_controller" where
  "dc_at_ease d =
     (let recalibrate = dc_cmd d AND push_bit 9 1 \<noteq> 0; fault_clear = dc_cmd d AND push_bit 8 1 \<noteq> 0
      in case dc_units d ! dc_selected d of None \<Rightarrow> d
         | Some u \<Rightarrow>
           let u = clear_attention u; was = fst (unit_position u);
               u = (if recalibrate then (snd (unit_seek 0 0 0 u))\<lparr>un_fault := False, un_seek_error := False\<rparr> else u);
               u = (if fault_clear then u\<lparr>un_fault := False\<rparr> else u);
               d = d\<lparr>dc_units := (dc_units d)[dc_selected d := Some u]\<rparr>
           in if recalibrate then dc_attention_in (seek_ns was) d else d)"

definition dc_start :: "u64 list \<Rightarrow> disk_controller \<Rightarrow> (u64 list \<times> disk_controller) option" where
  "dc_start main d =
     (if dc_units d ! dc_selected d = None \<and> dc_cmd d AND 4 = 0 then Some (main, d)
      else let from = dc_heads_at d; (to, _, block) = decode_da (dc_da d); c = dc_cmd d AND 0xf
      in if c = 0 \<or> c = 8 then
           (case dc_transfer True (c = 8) main d of (n, main, d) \<Rightarrow> Some (main, dc_done_in (dc_access_ns from to block n d) d))
         else if c = 9 then
           (if dc_read_only d then Some (main, dc_on_unit (\<lambda>u. u\<lparr>un_fault := True\<rparr>) d)
            else case dc_transfer False False main d of (n, main, d) \<Rightarrow>
              Some (main, dc_done_in (dc_access_ns from to block n d) d))
         else if c = 4 \<or> c = 12 then Some (main, dc_seek from d)
         else if c = 5 \<or> c = 13 then Some (main, dc_at_ease d)
         else if c = 6 then Some (main, if dc_units d ! dc_selected d = None then dc_hang d else d)
         else if c = 14 then Some (main, d)
         else if c = 7 \<or> c = 15 then Some (main, dc_hang d)
         else if c = 2 then
           map_option (\<lambda>(main, d). (main, dc_done_in (dc_track_ns from to block d) d)) (dc_transfer_all True main d)
         else if c = 11 then
           (if dc_read_only d then Some (main, dc_on_unit (\<lambda>u. u\<lparr>un_fault := True\<rparr>) d)
            else map_option (\<lambda>(main, d). (main, dc_done_in (dc_track_ns from to block d) d)) (dc_transfer_all False main d))
         else if c = 10 then Some (main, dc_hang d)
         else if c = 3 then
           Some (main, let d = d\<lparr>dc_overrun := True\<rparr> in dc_done_in (dc_access_ns from to block 1 d) d)
         else Some (main, dc_done_in (dc_access_ns from to block 1 d) d))"

definition dc_write :: "u32 \<Rightarrow> u32 \<Rightarrow> u64 list \<Rightarrow> disk_controller \<Rightarrow> (u64 list \<times> disk_controller) option" where
  "dc_write r v main d =
     (let r = r AND 3
      in if r = 0 then
           let d = dc_reset_errors (d\<lparr>dc_cmd := v\<rparr>) in Some (main, if v AND 0xf = 0xe then dc_reset d else d)
         else if r = 1 then Some (main, d\<lparr>dc_clp := v\<rparr>)
         else if r = 2 then Some (main, d\<lparr>dc_da := v\<rparr>)
         else dc_start main d)"

section \<open>Checkpoint\<close>

definition put_drive :: "drive_unit option \<Rightarrow> writer \<Rightarrow> writer" where
  "put_drive s w = (let w = put_bool (s \<noteq> None) w in case s of None \<Rightarrow> w | Some u \<Rightarrow> unit_save u w)"

definition dc_save :: "disk_controller \<Rightarrow> writer \<Rightarrow> writer" where
  "dc_save d = put_all
     [put_u64 (if dc_timed d then 1 else 0), put_u64 (dc_done_at d), put_u64 (dc_now d), put_u32 (dc_cmd d),
      put_u32 (dc_clp d), put_u32 (dc_da d), put_bool (dc_header_ecc d), put_bool (dc_header_compare d),
      put_bool (dc_ecc_hard d), put_bool (dc_ecc_soft d), put_u32 (dc_ecc d), put_bool (dc_read_compare_difference d),
      put_u64s (map of_nat (dc_dma_written d)), put_bool (dc_ccw_cycle d), put_bool (dc_nxm d), put_bool (dc_timeout d),
      put_bool (dc_overrun d), put_u32 (dc_last_memory_address d), fold put_drive (dc_units d)]"

fun get_drives :: "drive_unit option list \<Rightarrow> drive_unit option list rd" where
  "get_drives [] = rd_return []"
| "get_drives (s # ss) = rd_bind get_bool (\<lambda>there.
     case (there, s) of
       (True, Some u) \<Rightarrow> rd_bind (unit_load u) (\<lambda>u. rd_bind (get_drives ss) (\<lambda>us. rd_return (Some u # us)))
     | (False, None) \<Rightarrow> rd_bind (get_drives ss) (\<lambda>us. rd_return (None # us))
     | _ \<Rightarrow> rd_fail Bad_value)"

definition dc_load :: "disk_controller \<Rightarrow> disk_controller rd" where
  "dc_load d = rd_bind get_u64 (\<lambda>timed. rd_bind get_u64 (\<lambda>done_at. rd_bind get_u64 (\<lambda>now. rd_bind get_u32 (\<lambda>cmd.
     rd_bind get_u32 (\<lambda>clp. rd_bind get_u32 (\<lambda>da. rd_bind get_bool (\<lambda>header_ecc. rd_bind get_bool (\<lambda>header_compare.
     rd_bind get_bool (\<lambda>ecc_hard. rd_bind get_bool (\<lambda>ecc_soft. rd_bind get_u32 (\<lambda>ecc. rd_bind get_bool (\<lambda>difference.
     rd_bind get_u64s (\<lambda>dma. rd_bind get_bool (\<lambda>ccw_cycle. rd_bind get_bool (\<lambda>nxm. rd_bind get_bool (\<lambda>timeout.
     rd_bind get_bool (\<lambda>overrun. rd_bind get_u32 (\<lambda>last. rd_bind (get_drives (dc_units d)) (\<lambda>units.
       rd_return (d\<lparr>dc_timed := timed \<noteq> 0, dc_done_at := done_at, dc_now := now, dc_cmd := cmd, dc_clp := clp,
         dc_da := da, dc_header_ecc := header_ecc, dc_header_compare := header_compare, dc_ecc_hard := ecc_hard,
         dc_ecc_soft := ecc_soft, dc_ecc := ecc, dc_read_compare_difference := difference,
         dc_dma_written := map unat dma, dc_ccw_cycle := ccw_cycle, dc_nxm := nxm, dc_timeout := timeout,
         dc_overrun := overrun, dc_last_memory_address := last, dc_units := units\<rparr>))))))))))))))))))))"

lemma codes_drives:
  "list_all2 (rel_option unit_saved) ss0 ss \<Longrightarrow> codes n (fold put_drive ss) (get_drives ss0) ss"
proof (induction rule: list_all2_induct)
  case Nil
  have "fold put_drive [] = put_all []" by (rule ext) simp
  then show ?case by (simp only: get_drives.simps codes_nil)
next
  case (Cons s0 ss0 s ss)
  show ?case
  proof (cases s)
    case None
    then have "fold put_drive (s # ss) = put_all [put_bool False, fold put_drive ss]" "s0 = None"
      using Cons.hyps(1) by (auto simp: fun_eq_iff put_drive_def)
    moreover have "codes n (put_all [put_bool False, fold put_drive ss]) (get_drives (None # ss0)) (None # ss)"
      unfolding get_drives.simps
      by (rule codes_step, simp only: prod.case bool.case option.case, rule codes_cons [OF Cons.IH], rule codes_nil)
    ultimately show ?thesis by (simp only: None)
  next
    case (Some u)
    then obtain u0 where u0: "s0 = Some u0" "unit_saved u0 u" using Cons.hyps(1) by (cases s0) auto
    have "fold put_drive (s # ss) = put_all [put_bool True, unit_save u, fold put_drive ss]"
      using Some by (auto simp: fun_eq_iff put_drive_def)
    moreover have "codes n (put_all [put_bool True, unit_save u, fold put_drive ss]) (get_drives (Some u0 # ss0)) (Some u # ss)"
      unfolding get_drives.simps
      by (rule codes_step, simp only: prod.case bool.case option.case)
        (rule codes_cons [OF codes_unit [OF u0(2)]], rule codes_cons [OF Cons.IH], rule codes_nil)
    ultimately show ?thesis by (simp only: Some u0(1))
  qed
qed

text \<open>What a checkpoint of the controller leaves as it is: the timing, and which units have a drive, of which pack.\<close>

definition dc_saved :: "disk_controller \<Rightarrow> disk_controller \<Rightarrow> bool" where
  "dc_saved d0 d \<longleftrightarrow> dc_timing d = dc_timing d0 \<and> list_all2 (rel_option unit_saved) (dc_units d0) (dc_units d) \<and>
     length (dc_dma_written d) < 2 ^ 64 \<and> (\<forall>p \<in> set (dc_dma_written d). p < 2 ^ 64)"

lemma codes_controller:
  assumes "dc_saved d0 d"
  shows "codes n (dc_save d) (dc_load d0) d"
proof -
  have dma: "map unat (map of_nat (dc_dma_written d) :: u64 list) = dc_dma_written d" "length (map of_nat (dc_dma_written d) :: u64 list) < 2 ^ 64"
    using assms by (auto simp: dc_saved_def unat_of_nat take_bit_nat_eq_self intro!: map_idI)
  have timed: "(if dc_timed d then 1 else 0 :: u64) \<noteq> 0 \<longleftrightarrow> dc_timed d" by simp
  have whole: "d0\<lparr>dc_timed := dc_timed d, dc_done_at := dc_done_at d, dc_now := dc_now d, dc_cmd := dc_cmd d, dc_clp := dc_clp d,
      dc_da := dc_da d, dc_header_ecc := dc_header_ecc d, dc_header_compare := dc_header_compare d,
      dc_ecc_hard := dc_ecc_hard d, dc_ecc_soft := dc_ecc_soft d, dc_ecc := dc_ecc d,
      dc_read_compare_difference := dc_read_compare_difference d, dc_dma_written := dc_dma_written d,
      dc_ccw_cycle := dc_ccw_cycle d, dc_nxm := dc_nxm d, dc_timeout := dc_timeout d, dc_overrun := dc_overrun d,
      dc_last_memory_address := dc_last_memory_address d, dc_units := dc_units d\<rparr> = d"
    using assms by (cases d; cases d0) (simp add: dc_saved_def)
  have units: "list_all2 (rel_option unit_saved) (dc_units d0) (dc_units d)" using assms by (simp add: dc_saved_def)
  show ?thesis
    unfolding dc_save_def dc_load_def
    by ((rule codes_step)+, rule codes_cons [OF codes_u64s [OF dma(2)]], (rule codes_step)+, rule codes_cons [OF codes_drives [OF units]],
        simp only: dma(1) timed whole codes_nil)
qed

interpretation controller_codec: codec n "dc_saved d0" dc_save "dc_load d0" for n d0
  by unfold_locales (rule codes_controller)

end
