(* ===== verification/DiskEcc.thy ===== *)
theory DiskEcc
  imports DiskFormat
begin

text \<open>
  What the check code's burst trap finds, \<open>Ecc::trap\<close> of \<open>src/disk_unit.rs\<close>. The register's shift with nothing
  coming in is linear and comes back on itself after 42987 shifts; so the pattern the trap gives, put back at the
  place it gives, makes the block check.
\<close>

section \<open>The register's shift\<close>

definition code_shift :: "ecc \<Rightarrow> ecc" where
  "code_shift = ecc_shift False True"

lemma code_shift_bits: "code_shift e = (if bit e 0 then drop_bit 1 e XOR ECC_TAPS else drop_bit 1 e)"
  by (simp add: code_shift_def ecc_shift_def ecc_out_bit Let_def)

lemma code_shift_even: "\<not> bit e 0 \<Longrightarrow> code_shift e = drop_bit 1 e"
  by (simp add: code_shift_bits)

lemma code_shift_linear: "code_shift (a XOR b) = code_shift a XOR code_shift b"
  by (rule bit_word_eqI) (auto simp: code_shift_bits bit_xor_iff bit_drop_bit_eq)

lemma ecc_shift_code: "ecc_shift d True e = code_shift (e XOR of_flag d)"
  by (rule bit_word_eqI) (auto simp: code_shift_bits ecc_shift_def ecc_out_bit Let_def of_flag_def bit_xor_iff bit_drop_bit_eq bit_1_iff)

lemma code_shift_zero [simp]: "code_shift 0 = 0"
  by (simp add: code_shift_bits)

lemma shifts_linear: "(code_shift ^^ n) (a XOR b) = (code_shift ^^ n) a XOR (code_shift ^^ n) b"
  by (induction n) (simp_all add: code_shift_linear)

lemma shifts_zero [simp]: "(code_shift ^^ n) 0 = 0"
  by (induction n) simp_all

lemma shifts_even: "(\<And>k. k < n \<Longrightarrow> \<not> bit e k) \<Longrightarrow> (code_shift ^^ n) e = drop_bit n e"
  by (induction n) (simp_all add: code_shift_even bit_drop_bit_eq drop_bit_drop_bit)

section \<open>It comes back on itself\<close>

text \<open>A register as the sum of the top stage's images, each stage the one above it shifted.\<close>

definition horner :: "nat list \<Rightarrow> ecc \<Rightarrow> ecc \<Rightarrow> ecc \<Rightarrow> ecc" where
  "horner ks e v = fold (\<lambda>k acc. code_shift acc XOR (if bit e k then v else 0)) ks"

lemma top_stage: "bit (0x80000000 :: u32) m \<longleftrightarrow> m = 31"
proof -
  have "(0x80000000 :: u32) = 2 ^ 31" by simp
  then show ?thesis by (simp only: bit_exp_iff) auto
qed

lemma horner_self:
  assumes top: "\<And>m. bit u m \<longleftrightarrow> m = 31"
  shows "n \<le> 32 \<Longrightarrow> horner [0..<n] e u 0 = push_bit (32 - n) e"
proof (induction n)
  case (Suc n)
  have "horner [0..<Suc n] e u 0 = code_shift (push_bit (32 - n) e) XOR (if bit e n then u else 0)"
    using Suc by (simp add: horner_def)
  also have "\<dots> = drop_bit 1 (push_bit (32 - n) e) XOR (if bit e n then u else 0)"
    using Suc.prems by (subst code_shift_even) (auto simp: bit_push_bit_iff)
  also have "\<dots> = push_bit (32 - Suc n) e"
  proof (rule bit_word_eqI)
    fix m
    assume "m < LENGTH(32)"
    then have m: "m = 31 \<or> m < 31" by auto
    have i: "Suc m - (32 - n) = m - (32 - Suc n)" "Suc m < 32 - n \<longleftrightarrow> m < 32 - Suc n"
      using Suc.prems by arith+
    show "bit (drop_bit 1 (push_bit (32 - n) e) XOR (if bit e n then u else 0)) m = bit (push_bit (32 - Suc n) e) m"
      using m Suc.prems i by (auto simp: bit_xor_iff bit_drop_bit_eq bit_push_bit_iff top)
  qed
  finally show ?case .
qed (simp add: horner_def)

lemma shifts_horner: "(code_shift ^^ n) (horner ks e v acc) = horner ks e ((code_shift ^^ n) v) ((code_shift ^^ n) acc)"
proof (induction ks arbitrary: acc)
  case (Cons k ks)
  have "(code_shift ^^ n) (code_shift acc XOR (if bit e k then v else 0)) =
      code_shift ((code_shift ^^ n) acc) XOR (if bit e k then (code_shift ^^ n) v else 0)"
    by (simp add: shifts_linear funpow_swap1)
  then show ?case using Cons by (simp add: horner_def)
qed (simp add: horner_def)

lemma shifts_from_top: "(code_shift ^^ n) e = horner [0..<32] e ((code_shift ^^ n) 0x80000000) 0"
  using horner_self [OF top_stage, of 32 e] shifts_horner [of n "[0..<32]" e "0x80000000" 0] by simp

lemma twice:
  "(code_shift ^^ n) 0x80000000 = v \<Longrightarrow> m = n + n \<Longrightarrow> horner [0..<32] v v 0 = w \<Longrightarrow> (code_shift ^^ m) 0x80000000 = w"
  by (simp add: funpow_add shifts_from_top [of n v])

lemma twice_more:
  assumes "(code_shift ^^ n) 0x80000000 = v" "m = Suc (n + n)" "code_shift (horner [0..<32] v v 0) = w"
  shows "(code_shift ^^ m) 0x80000000 = w"
  using twice [OF assms(1) refl refl] assms(2,3) by simp

lemma taps_value: "ECC_TAPS = 0xa0100500"
  by (simp add: ECC_TAPS_def)

lemma stages: "[0..<32] = [0, 1, 2, 3, 4, 5, 6, 7, 8, 9, 10, 11, 12, 13, 14, 15, 16, 17, 18, 19, 20, 21, 22, 23, 24, 25, 26,
    27, 28, 29, 30, 31 :: nat]"
  by (simp add: upt_rec)

lemma horner_run: "horner (k # ks) e v acc = horner ks e v (code_shift acc XOR (if bit e k then v else 0))" "horner [] e v acc = acc"
  by (simp_all add: horner_def)

lemmas run_stages = stages horner_run code_shift_bits taps_value

lemma code_returns: "(code_shift ^^ 42987) e = e"
proof -
  have s1: "(code_shift ^^ 1) 0x80000000 = 0x40000000" by (simp add: code_shift_bits taps_value)
  have s2: "(code_shift ^^ 2) 0x80000000 = 0x20000000"
    by (rule twice [OF s1]) (simp, simp add: run_stages)
  have s5: "(code_shift ^^ 5) 0x80000000 = 0x4000000"
    by (rule twice_more [OF s2]) (simp, simp add: run_stages)
  have s10: "(code_shift ^^ 10) 0x80000000 = 0x200000"
    by (rule twice [OF s5]) (simp, simp add: run_stages)
  have s20: "(code_shift ^^ 20) 0x80000000 = 0x800"
    by (rule twice [OF s10]) (simp, simp add: run_stages)
  have s41: "(code_shift ^^ 41) 0x80000000 = 0xa0400d02"
    by (rule twice_more [OF s20]) (simp, simp add: run_stages)
  have s83: "(code_shift ^^ 83) 0x80000000 = 0xed200f69"
    by (rule twice_more [OF s41]) (simp, simp add: run_stages)
  have s167: "(code_shift ^^ 167) 0x80000000 = 0x7f000bf8"
    by (rule twice_more [OF s83]) (simp, simp add: run_stages)
  have s335: "(code_shift ^^ 335) 0x80000000 = 0x1b4008da"
    by (rule twice_more [OF s167]) (simp, simp add: run_stages)
  have s671: "(code_shift ^^ 671) 0x80000000 = 0x180008c0"
    by (rule twice_more [OF s335]) (simp, simp add: run_stages)
  have s1343: "(code_shift ^^ 1343) 0x80000000 = 0xf3a00f9d"
    by (rule twice_more [OF s671]) (simp, simp add: run_stages)
  have s2686: "(code_shift ^^ 2686) 0x80000000 = 0x84001420"
    by (rule twice [OF s1343]) (simp, simp add: run_stages)
  have s5373: "(code_shift ^^ 5373) 0x80000000 = 0x7d6023eb"
    by (rule twice_more [OF s2686]) (simp, simp add: run_stages)
  have s10746: "(code_shift ^^ 10746) 0x80000000 = 0x71210389"
    by (rule twice [OF s5373]) (simp, simp add: run_stages)
  have s21493: "(code_shift ^^ 21493) 0x80000000 = 0xf0800785"
    by (rule twice_more [OF s10746]) (simp, simp add: run_stages)
  have s42987: "(code_shift ^^ 42987) 0x80000000 = 0x80000000"
    by (rule twice_more [OF s21493]) (simp, simp add: run_stages)
  show ?thesis using shifts_from_top [of 42987 e] s42987 horner_self [OF top_stage, of 32 e] by simp
qed

section \<open>Feeding bits\<close>

definition feed_bits :: "bool list \<Rightarrow> ecc \<Rightarrow> ecc" where
  "feed_bits bs = fold (\<lambda>b. ecc_shift b True) bs"

lemma feed_bits_simps [simp]:
  "feed_bits [] e = e" "feed_bits (b # bs) e = feed_bits bs (code_shift (e XOR of_flag b))"
  "feed_bits (xs @ ys) e = feed_bits ys (feed_bits xs e)"
  by (simp_all add: feed_bits_def ecc_shift_code)

lemma feed_false: "feed_bits (replicate n False) e = (code_shift ^^ n) e"
  by (induction n arbitrary: e) (simp_all add: of_flag_def funpow_swap1)

lemma feed_xor:
  "length xs = length ys \<Longrightarrow> feed_bits (map2 (\<noteq>) xs ys) (a XOR b) = feed_bits xs a XOR feed_bits ys b"
proof (induction xs ys arbitrary: a b rule: list_induct2)
  case (Cons x xs y ys)
  have "code_shift ((a XOR b) XOR of_flag (x \<noteq> y)) = code_shift (a XOR of_flag x) XOR code_shift (b XOR of_flag y)"
    unfolding code_shift_linear [symmetric] by (simp add: of_flag_def ac_simps)
  then show ?case using Cons by simp
qed simp

lemma feed_word:
  assumes "\<And>k. n \<le> k \<Longrightarrow> \<not> bit p k"
  shows "feed_bits (map (bit p) [0..<n]) e = (code_shift ^^ n) (e XOR p)"
  using assms
proof (induction n arbitrary: p e)
  case 0
  then have "p = 0" by (intro bit_word_eqI) simp
  then show ?case by simp
next
  case (Suc n)
  have bits: "map (bit p) [0..<Suc n] = bit p 0 # map (bit (drop_bit 1 p)) [0..<n]"
    unfolding upt_conv_Cons [OF zero_less_Suc] map_Suc_upt [symmetric] by (simp add: bit_drop_bit_eq o_def)
  have even: "code_shift (p XOR of_flag (bit p 0)) = drop_bit 1 (p XOR of_flag (bit p 0))"
    by (rule code_shift_even) (simp add: bit_xor_iff)
  have "code_shift (e XOR of_flag (bit p 0)) XOR drop_bit 1 p = code_shift (e XOR of_flag (bit p 0)) XOR code_shift (p XOR of_flag (bit p 0))"
    unfolding even by (rule bit_word_eqI) (simp add: bit_xor_iff bit_drop_bit_eq)
  also have "\<dots> = code_shift (e XOR p)"
    unfolding code_shift_linear [symmetric] by (simp add: of_flag_def ac_simps)
  finally have step: "code_shift (e XOR of_flag (bit p 0)) XOR drop_bit 1 p = code_shift (e XOR p)" .
  have "feed_bits (map (bit (drop_bit 1 p)) [0..<n]) (code_shift (e XOR of_flag (bit p 0))) = (code_shift ^^ n) (code_shift (e XOR p))"
    unfolding step [symmetric] by (rule Suc.IH) (simp add: bit_drop_bit_eq Suc.prems)
  then show ?case by (simp only: bits feed_bits_simps funpow_Suc_right o_apply)
qed

section \<open>What the scan gives\<close>

lemma scan_some:
  assumes "ecc_scan step n r = Some (p, at)"
  shows "\<exists>j < n. let w = (code_shift ^^ j) r in drop_bit 11 w = 0 \<and> p = ucast (drop_bit (trailing_zeros w) w) \<and>
    ilog2 p \<le> step + j \<and> at = step + j - ilog2 p \<and> (\<forall>i < j. drop_bit 11 ((code_shift ^^ i) r) \<noteq> 0)"
  using assms
proof (induction n arbitrary: step r)
  case (Suc n)
  show ?case
  proof (cases "drop_bit 11 r = 0")
    case True
    then show ?thesis using Suc.prems by (intro exI [of _ 0]) (auto simp: Let_def split: if_splits)
  next
    case False
    then have "ecc_scan (Suc step) n (code_shift r) = Some (p, at)" using Suc.prems by (simp add: code_shift_def)
    from Suc.IH [OF this] obtain j where j: "j < n" "let w = (code_shift ^^ j) (code_shift r) in drop_bit 11 w = 0 \<and>
      p = ucast (drop_bit (trailing_zeros w) w) \<and> ilog2 p \<le> Suc step + j \<and> at = Suc step + j - ilog2 p \<and>
      (\<forall>i < j. drop_bit 11 ((code_shift ^^ i) (code_shift r)) \<noteq> 0)" by blast
    have "drop_bit 11 ((code_shift ^^ i) r) \<noteq> 0" if "i < Suc j" for i
      using that j(2) False by (cases i) (auto simp: Let_def funpow_swap1)
    then show ?thesis using j by (intro exI [of _ "Suc j"]) (auto simp: Let_def funpow_swap1)
  qed
qed simp

end
