(* ===== verification/DiskTrap.thy ===== *)
theory DiskTrap
  imports DiskEcc
begin

text \<open>
  What the trap's scan leaves: the pattern it names, put in at the place it names, makes the block check, except when
  the scan ends at its first step.
\<close>

lemma trailing_zeros_bit:
  assumes "w \<noteq> 0"
  shows "bit w (trailing_zeros w)" "k < trailing_zeros w \<Longrightarrow> \<not> bit w k" "trailing_zeros w < 32"
proof -
  obtain n where n: "bit w n" using assms by (auto simp: bit_eq_iff)
  have "n < 32" using bit_imp_le_length [OF n] by simp
  let ?P = "\<lambda>k. \<not> bit w k"
  have lt: "trailing_zeros w < 32"
  proof (rule ccontr)
    assume "\<not> trailing_zeros w < 32"
    then have "takeWhile ?P [0..<32] = [0..<32]"
      using length_takeWhile_le [of ?P "[0..<32]"] takeWhile_eq_take [of ?P "[0..<32]"] by (simp add: trailing_zeros_def)
    then show False using n \<open>n < 32\<close> by (auto simp: takeWhile_eq_all_conv)
  qed
  show "trailing_zeros w < 32" by (rule lt)
  show "bit w (trailing_zeros w)"
    using nth_length_takeWhile [of ?P "[0..<32]"] lt by (simp add: trailing_zeros_def)
  show "k < trailing_zeros w \<Longrightarrow> \<not> bit w k"
    using takeWhile_nth [of k ?P "[0..<32]"] lt nth_mem [of k "takeWhile ?P [0..<32]"] set_takeWhileD [of "takeWhile ?P [0..<32] ! k" ?P "[0..<32]"]
    by (simp add: trailing_zeros_def)
qed

lemma ilog2_bit:
  assumes "p \<noteq> 0"
  shows "bit p (ilog2 p)" "ilog2 p < k \<Longrightarrow> \<not> bit p k"
proof -
  obtain n where n: "bit p n" using assms by (auto simp: bit_eq_iff)
  have "n < 16" using bit_imp_le_length [OF n] by simp
  let ?P = "\<lambda>k. \<not> bit p (15 - k)"
  define z where "z = length (takeWhile ?P [0..<16])"
  have lt: "z < 16"
  proof (rule ccontr)
    assume "\<not> z < 16"
    then have "takeWhile ?P [0..<16] = [0..<16]"
      using length_takeWhile_le [of ?P "[0..<16]"] takeWhile_eq_take [of ?P "[0..<16]"] by (simp add: z_def)
    then have "\<forall>k \<in> set [0..<16]. ?P k" by (simp only: takeWhile_eq_all_conv)
    moreover have "15 - n \<in> set [0..<16]" by simp
    ultimately have "?P (15 - n)" by blast
    then show False using n \<open>n < 16\<close> by simp
  qed
  show "bit p (ilog2 p)"
    using nth_length_takeWhile [of ?P "[0..<16]"] lt by (simp add: ilog2_def z_def)
  show "\<not> bit p k" if "ilog2 p < k"
  proof
    assume k: "bit p k"
    then have "k < 16" using bit_imp_le_length [OF k] by simp
    then have "15 - k < z" using that by (simp add: ilog2_def z_def)
    then have "?P (15 - k)"
      using takeWhile_nth [of "15 - k" ?P "[0..<16]"] nth_mem [of "15 - k" "takeWhile ?P [0..<16]"]
        set_takeWhileD [of "takeWhile ?P [0..<16] ! (15 - k)" ?P "[0..<16]"] lt by (simp add: z_def)
    then show False using k \<open>k < 16\<close> by simp
  qed
qed

text \<open>The bits with the pattern put in at a place.\<close>

definition corrected :: "u16 \<Rightarrow> nat \<Rightarrow> bool list \<Rightarrow> bool list" where
  "corrected p at xs = map (\<lambda>i. xs ! i \<noteq> (at \<le> i \<and> bit p (i - at))) [0..<length xs]"

lemma corrected_feed:
  assumes "at + 16 \<le> length xs"
  shows "feed_bits (corrected p at xs) 0 = feed_bits xs 0 XOR (code_shift ^^ (length xs - at)) (ucast p)"
proof -
  let ?ys = "replicate at False @ map (bit (ucast p :: u32)) [0..<16] @ replicate (length xs - at - 16) False"
  have p: "bit (ucast p :: u32) k \<longleftrightarrow> bit p k" for k
    using bit_imp_le_length [of p k] by (auto simp: bit_ucast_iff)
  have len: "length xs = length ?ys" using assms by simp
  have "corrected p at xs = map2 (\<noteq>) xs ?ys"
  proof (rule nth_equalityI)
    fix i
    assume "i < length (corrected p at xs)"
    then have i: "i < length xs" by (simp add: corrected_def)
    have "?ys ! i \<longleftrightarrow> at \<le> i \<and> bit p (i - at)"
      using i bit_imp_le_length [of p "i - at"] by (auto simp: nth_append p)
    then show "corrected p at xs ! i = map2 (\<noteq>) xs ?ys ! i" using i len by (simp add: corrected_def)
  qed (simp add: corrected_def assms)
  moreover have "feed_bits ?ys 0 = (code_shift ^^ (length xs - at)) (ucast p)"
  proof -
    have "feed_bits (map (bit (ucast p :: u32)) [0..<16]) 0 = (code_shift ^^ 16) (0 XOR ucast p)"
      by (rule feed_word) (use bit_imp_le_length [of p] in \<open>force simp: p\<close>)
    then have "feed_bits ?ys 0 = (code_shift ^^ (length xs - at - 16 + 16)) (ucast p)"
      by (simp add: feed_false funpow_add del: funpow.simps)
    then show ?thesis using assms by simp
  qed
  ultimately show ?thesis using feed_xor [OF len, of 0 0] by simp
qed

lemma code_shift_inj: "code_shift a = code_shift b \<longleftrightarrow> a = b"
proof
  assume "code_shift a = code_shift b"
  then have "(code_shift ^^ 42986) (code_shift a) = (code_shift ^^ 42986) (code_shift b)" by simp
  moreover have "(code_shift ^^ 42986) (code_shift e) = e" for e
  proof -
    have "(code_shift ^^ 42986) (code_shift e) = (code_shift ^^ Suc 42986) e" by (simp only: funpow_Suc_right o_apply)
    then show ?thesis using code_returns [of e] by simp
  qed
  ultimately show "a = b" by simp
qed simp

lemma shifts_inj: "(code_shift ^^ n) a = (code_shift ^^ n) b \<longleftrightarrow> a = b"
  by (induction n) (simp_all add: code_shift_inj)

lemma shifts_period: "m mod 42987 = n mod 42987 \<Longrightarrow> (code_shift ^^ m) e = (code_shift ^^ n) e"
  using funpow_mod_eq [OF code_returns] by metis

lemma drop_bit_clear: "drop_bit n w = 0 \<Longrightarrow> n \<le> k \<Longrightarrow> \<not> bit w k" for w :: "'a::len word"
proof
  assume zero: "drop_bit n w = 0"
  assume "n \<le> k" "bit w k"
  then have "bit (drop_bit n w) (k - n)" by (simp add: bit_drop_bit_eq)
  then show False by (simp add: zero)
qed

text \<open>A burst that is found after the first step reaches the last of the eleven stages.\<close>

lemma found_late:
  assumes "drop_bit 11 w = 0" "w = code_shift x" "drop_bit 11 x \<noteq> 0"
  shows "bit w 10"
proof -
  have low: "\<not> bit w k" if "11 \<le> k" for k
    by (rule drop_bit_clear [OF assms(1) that])
  have x0: "\<not> bit x 0"
  proof
    assume "bit x 0"
    moreover have "\<not> bit x 32" using bit_imp_le_length [of x 32] by auto
    ultimately have "bit w 31"
      by (simp add: assms(2) code_shift_bits bit_xor_iff bit_drop_bit_eq ECC_TAPS_def bit_or_iff bit_push_bit_iff)
    then show False using low by simp
  qed
  obtain k where k: "bit (drop_bit 11 x) k" using assms(3) by (auto simp: bit_eq_iff)
  then have "bit w (10 + k)" using x0 by (simp add: assms(2) code_shift_even bit_drop_bit_eq)
  moreover then have "k = 0" using low [of "10 + k"] by (cases k) auto
  ultimately show ?thesis by simp
qed

lemma trap_corrects_bits:
  assumes "length xs = bits + 32" "ecc_trap bits (feed_bits xs 0) = Some (p, at)" "0 < at + ilog2 p"
  shows "feed_bits (corrected p at xs) 0 = 0 \<and> bit p 0 \<and> ilog2 p \<le> 10 \<and> at \<le> bits"
proof -
  let ?e = "feed_bits xs 0"
  define r where "r = (code_shift ^^ (ECC_CYCLE - bits)) ?e"
  have e: "?e \<noteq> 0" "bits \<le> ECC_CYCLE" and scan: "ecc_scan 0 (bits + 1) r = Some (p, at)"
    using assms(2) by (auto simp: ecc_trap_def r_def code_shift_def split: if_splits)
  define w where "w j = (code_shift ^^ j) r" for j
  from scan_some [OF scan] obtain j where j: "j \<le> bits" "drop_bit 11 (w j) = 0"
    "p = ucast (drop_bit (trailing_zeros (w j)) (w j))" "ilog2 p \<le> j" "at = j - ilog2 p" "\<And>i. i < j \<Longrightarrow> drop_bit 11 (w i) \<noteq> 0"
    by (auto simp: Let_def w_def less_Suc_eq_le)
  define tz where "tz = trailing_zeros (w j)"
  have w0: "w j \<noteq> 0"
  proof
    assume "w j = 0"
    then have "(code_shift ^^ (j + (ECC_CYCLE - bits))) ?e = (code_shift ^^ (j + (ECC_CYCLE - bits))) 0"
      by (simp add: w_def r_def funpow_add)
    then show False using e(1) unfolding shifts_inj by simp
  qed
  note tz = trailing_zeros_bit [OF w0, folded tz_def]
  have low: "\<not> bit (w j) k" if "11 \<le> k" for k
    by (rule drop_bit_clear [OF j(2) that])
  have pbit: "bit p k \<longleftrightarrow> bit (w j) (tz + k)" for k
  proof -
    have "bit p k \<longleftrightarrow> k < 16 \<and> bit (w j) (tz + k)"
      by (auto simp: j(3) tz_def [symmetric] bit_ucast_iff bit_drop_bit_eq)
    moreover have "k < 16" if "bit (w j) (tz + k)" using low [of "tz + k"] that by (cases "11 \<le> tz + k") auto
    ultimately show ?thesis by blast
  qed
  have p0: "bit p 0" using tz(1) by (simp add: pbit)
  then have "p \<noteq> 0" by auto
  note top = ilog2_bit [OF this]
  have "tz + ilog2 p \<le> 10" 
  proof (rule ccontr)
    assume "\<not> tz + ilog2 p \<le> 10"
    then have "11 \<le> tz + ilog2 p" by simp
    then show False using low [of "tz + ilog2 p"] top(1) by (simp add: pbit)
  qed
  moreover have "10 \<le> tz + ilog2 p"
  proof -
    obtain i where "j = Suc i" using assms(3) j(4,5) by (cases j) auto
    then have "bit (w j) 10" using found_late [of "w j" "w i"] j(2,6) by (simp add: w_def)
    then have "bit p (10 - tz)" using tz(2) [of 10] by (cases "tz \<le> 10") (auto simp: pbit)
    then show ?thesis using top(2) [of "10 - tz"] by linarith
  qed
  ultimately have ten: "tz + ilog2 p = 10" by simp
  have wide: "(ucast p :: u32) = (code_shift ^^ tz) (w j)"
  proof -
    have "(code_shift ^^ tz) (w j) = drop_bit tz (w j)" by (rule shifts_even) (rule tz(2))
    also have "\<dots> = ucast p"
      by (rule bit_word_eqI) (simp add: bit_ucast_iff bit_drop_bit_eq pbit)
    finally show ?thesis by simp
  qed
  have fits: "at + 16 \<le> length xs" using assms(1) j(1,5) by simp
  have "(code_shift ^^ (length xs - at)) (ucast p) = (code_shift ^^ (length xs - at + tz + j + (ECC_CYCLE - bits))) ?e"
    by (simp add: wide w_def r_def funpow_add)
  also have "length xs - at + tz + j + (ECC_CYCLE - bits) = 42987 + j - j"
  proof -
    have "j = at + ilog2 p" using j(4,5) by simp
    then show ?thesis using ten assms(1) e(2) j(1) by (simp add: ECC_CYCLE_def)
  qed
  also have "(code_shift ^^ (42987 + j - j)) ?e = ?e" using code_returns by simp
  finally show ?thesis using corrected_feed [OF fits, of p] p0 ten j(1,5) by simp
qed

text \<open>The bits of a list of bytes of any length are those of some bytes.\<close>

lemma bits_are_bytes:
  assumes "length xs = 8 * n"
  obtains bytes where "length bytes = n" "disk_bits bytes = xs"
proof -
  let ?byte = "\<lambda>j. fold (\<lambda>k w. if xs ! (8 * j + k) then w OR push_bit k 1 else w) [0..<8] (0 :: u8)"
  have byte: "bit (fold (\<lambda>k w. if f k then w OR push_bit k 1 else w) ks (0 :: u8) ) m \<longleftrightarrow> m < 8 \<and> m \<in> set ks \<and> f m" for f ks m
  proof -
    have "bit (fold (\<lambda>k w. if f k then w OR push_bit k 1 else w) ks (w :: u8)) m \<longleftrightarrow> bit w m \<or> m < 8 \<and> m \<in> set ks \<and> f m" for w
      by (induction ks arbitrary: w) (auto simp: bit_or_iff bit_exp_iff)
    then show ?thesis by simp
  qed
  have "disk_bits (map ?byte [0..<n]) = xs"
  proof (rule nth_equalityI)
    fix i
    assume "i < length (disk_bits (map ?byte [0..<n]))"
    then have i: "i < 8 * n" "i div 8 < n" by simp_all
    have "disk_bits (map ?byte [0..<n]) ! i = bit (?byte (i div 8)) (i mod 8)"
      using i by (subst nth_disk_bits) simp_all
    also have "\<dots> = xs ! i" using byte [of "\<lambda>k. xs ! (8 * (i div 8) + k)" "[0..<8]" "i mod 8"] by simp
    finally show "disk_bits (map ?byte [0..<n]) ! i = xs ! i" .
  qed (simp add: assms)
  then show thesis using that [of "map ?byte [0..<n]"] by simp
qed

lemma ecc_feed_feed_bits: "ecc_feed bytes e = feed_bits (disk_bits bytes) e"
  by (simp add: ecc_feed_bits feed_bits_def)

end
