(* ===== verification/DiskFire.thy ===== *)
theory DiskFire
  imports DiskTrap
begin

text \<open>
  Why the trap finds every burst. The code's polynomial is \<open>(x^21 + 1) (x^11 + x^9 + 1)\<close>, a Fire code: the register run
  backwards multiplies by \<open>x\<close>, so its remainders by the two factors are registers of their own, one that rotates 21
  stages and one whose 2047 nonzero values lie on one cycle. A burst of eleven bits rotated is no such burst again before
  both come round, which is after 42987 steps.
\<close>

section \<open>Sums over a register's stages\<close>

primrec xsum :: "(nat \<Rightarrow> 'a::len word) \<Rightarrow> nat \<Rightarrow> 'a word" where
  "xsum f 0 = 0"
| "xsum f (Suc n) = xsum f n XOR f n"

lemma xsum_cong: "(\<And>k. k < n \<Longrightarrow> f k = g k) \<Longrightarrow> xsum f n = xsum g n"
  by (induction n) simp_all

lemma xsum_xor: "xsum (\<lambda>k. f k XOR g k) n = xsum f n XOR xsum g n"
  by (induction n) (simp_all add: ac_simps)

lemma xsum_one: "(\<And>j. j \<noteq> k \<Longrightarrow> f j = 0) \<Longrightarrow> xsum f n = (if k < n then f k else 0)"
  by (induction n) (auto simp: less_Suc_eq)

lemma xsum_bits: "xsum (\<lambda>k. if bit u k then push_bit k 1 else 0) n = take_bit n (ucast (u :: 'b::len word) :: 'a::len word)"
proof (induction n)
  case (Suc n)
  have "take_bit (Suc n) (ucast u :: 'a word) = take_bit n (ucast u) XOR (if bit u n then push_bit n 1 else 0)"
    by (rule bit_word_eqI) (auto simp: bit_take_bit_iff bit_xor_iff bit_ucast_iff bit_exp_iff less_Suc_eq)
  then show ?case using Suc by simp
qed simp

section \<open>Registers\<close>

locale linear_register =
  fixes step :: "'a::len word \<Rightarrow> 'a word"
  assumes linear: "step (a XOR b) = step a XOR step b"
begin

lemma steps_linear: "(step ^^ n) (a XOR b) = (step ^^ n) a XOR (step ^^ n) b"
  by (induction n) (simp_all add: linear)

lemma steps_zero [simp]: "(step ^^ n) 0 = 0"
  using steps_linear [of n 0 0] by simp

lemma steps_sum: "(step ^^ n) (xsum f m) = xsum (\<lambda>k. (step ^^ n) (f k)) m"
  by (induction m) (simp_all add: steps_linear)

end

text \<open>A register that moves each stage but the last to the next: every value is a sum of the first stage's images.\<close>

locale shift_register = linear_register step for step :: "'a::len word \<Rightarrow> 'a word" +
  assumes moves: "Suc k < LENGTH('a) \<Longrightarrow> step (push_bit k 1) = push_bit (Suc k) 1"
begin

lemma stage: "k < LENGTH('a) \<Longrightarrow> (step ^^ k) 1 = push_bit k 1"
proof (induction k)
  case (Suc k)
  then show ?case using moves [of k] by (simp del: push_bit_of_1)
qed simp

lemma value_sum: "u = xsum (\<lambda>k. if bit u k then (step ^^ k) 1 else 0) LENGTH('a)"
proof -
  have "xsum (\<lambda>k. if bit u k then (step ^^ k) 1 else 0) LENGTH('a) = xsum (\<lambda>k. if bit u k then push_bit k 1 else 0) LENGTH('a)"
    by (rule xsum_cong) (simp only: stage)
  also have "\<dots> = u" using xsum_bits [of u "LENGTH('a)", where 'a = 'a] by simp
  finally show ?thesis by simp
qed

lemma steps_value: "(step ^^ n) u = xsum (\<lambda>k. if bit u k then (step ^^ k) ((step ^^ n) 1) else 0) LENGTH('a)"
proof -
  have "(step ^^ n) u = (step ^^ n) (xsum (\<lambda>k. if bit u k then (step ^^ k) 1 else 0) LENGTH('a))"
    using value_sum [of u] by simp
  also have "\<dots> = xsum (\<lambda>k. if bit u k then (step ^^ k) ((step ^^ n) 1) else 0) LENGTH('a)"
    unfolding steps_sum by (rule xsum_cong) (simp add: funpow_add [THEN fun_cong, unfolded o_apply, symmetric] add.commute)
  finally show ?thesis .
qed

text \<open>What returns the first stage returns every value.\<close>

lemma returns: "(step ^^ n) 1 = 1 \<Longrightarrow> (step ^^ n) u = u"
  unfolding steps_value [of n u] by (simp only: value_sum [symmetric])

text \<open>No value but zero returns after \<open>n\<close> steps when \<open>x^n + 1\<close> has an inverse.\<close>

lemma kernel:
  fixes q :: "'a word"
  assumes inverse: "xsum (\<lambda>k. if bit q k then (step ^^ k) ((step ^^ n) 1 XOR 1) else 0) LENGTH('a) = 1"
    and "(step ^^ n) x = x"
  shows "x = 0"
proof -
  define F where "F y = xsum (\<lambda>k. if bit q k then (step ^^ k) ((step ^^ n) y XOR y) else 0) LENGTH('a)" for y
  have F_linear: "F (a XOR b) = F a XOR F b" for a b
    unfolding F_def xsum_xor [symmetric] by (rule xsum_cong) (simp add: steps_linear ac_simps)
  have F_zero: "F 0 = 0" using F_linear [of 0 0] by simp
  have F_sum: "F (xsum f m) = xsum (\<lambda>k. F (f k)) m" for f m
    by (induction m) (simp_all add: F_linear F_zero)
  have swap: "(step ^^ k) ((step ^^ m) y) = (step ^^ m) ((step ^^ k) y)" for k m y
    by (metis add.commute comp_apply funpow_add)
  have F_stage: "F ((step ^^ m) 1) = (step ^^ m) 1" for m
  proof -
    have "F ((step ^^ m) 1) = (step ^^ m) (F 1)"
      unfolding F_def steps_sum by (rule xsum_cong) (simp add: steps_linear swap [of _ m])
    then show ?thesis using inverse by (simp add: F_def)
  qed
  have "F x = F (xsum (\<lambda>k. if bit x k then (step ^^ k) 1 else 0) LENGTH('a))" using value_sum [of x] by simp
  also have "\<dots> = xsum (\<lambda>k. if bit x k then (step ^^ k) 1 else 0) LENGTH('a)"
    unfolding F_sum by (rule xsum_cong) (simp add: F_stage F_zero)
  finally have "F x = x" using value_sum [of x] by simp
  moreover have "F x = 0"
  proof -
    have "F x = xsum (\<lambda>k. 0) LENGTH('a)" unfolding F_def by (rule xsum_cong) (simp add: assms(2))
    also have "xsum (\<lambda>k. 0) m = (0 :: 'a word)" for m by (induction m) simp_all
    finally show ?thesis .
  qed
  ultimately show ?thesis by simp
qed

end

text \<open>A factor of the code: a register whose first stage satisfies the code's polynomial.\<close>

locale code_factor = shift_register step for step :: "'a::len word \<Rightarrow> 'a word" +
  assumes divides: "(step ^^ 32) 1 = (step ^^ 30) 1 XOR (step ^^ 21) 1 XOR (step ^^ 11) 1 XOR (step ^^ 9) 1 XOR 1"

definition code_back :: "ecc \<Rightarrow> ecc" where
  "code_back e = push_bit 1 e XOR (if bit e 31 then 0x40200a01 else 0)"

text \<open>The remainder of a value of the code's register.\<close>

definition remainder :: "('a::len word \<Rightarrow> 'a word) \<Rightarrow> ecc \<Rightarrow> 'a word" where
  "remainder step e = xsum (\<lambda>k. if bit e k then (step ^^ k) 1 else 0) 32"

lemma code_back_linear: "code_back (a XOR b) = code_back a XOR code_back b"
  by (rule bit_word_eqI) (auto simp: code_back_def bit_xor_iff bit_push_bit_iff)

lemma code_back_moves: "Suc k < 32 \<Longrightarrow> code_back (push_bit k 1) = push_bit (Suc k) 1"
  by (simp add: code_back_def bit_exp_iff)

interpretation code_register: shift_register code_back
  by unfold_locales (simp_all add: code_back_linear code_back_moves del: push_bit_of_1)

lemma bit_code_back: "bit (code_back e) k \<longleftrightarrow> (0 < k \<and> k < 32 \<and> bit e (k - 1)) \<noteq> (bit e 31 \<and> bit (0x40200a01 :: u32) k)"
proof -
  have "bit (push_bit 1 e) k \<longleftrightarrow> 0 < k \<and> k < 32 \<and> bit e (k - 1)"
    using bit_imp_le_length [of "push_bit 1 e" k] by (auto simp only: bit_push_bit_iff len_of_numeral_defs) auto
  then show ?thesis by (auto simp only: code_back_def bit_xor_iff bit_0_eq bot_apply bot_bool_def split: if_splits)
qed

lemma bit_code_shift: "bit (code_shift e) n \<longleftrightarrow> bit e (Suc n) \<noteq> (bit e 0 \<and> bit ECC_TAPS n)"
  by (auto simp: code_shift_bits bit_xor_iff bit_drop_bit_eq)

lemma polynomial_bits:
  "bit (0x40200a01 :: u32) k \<longleftrightarrow> k \<in> {0, 9, 11, 21, 30}" "bit ECC_TAPS k \<longleftrightarrow> k \<in> {8, 10, 20, 29, 31}"
proof -
  have "(0x40200a01 :: u32) = push_bit 30 1 OR push_bit 21 1 OR push_bit 11 1 OR push_bit 9 1 OR push_bit 0 1" by simp
  then show "bit (0x40200a01 :: u32) k \<longleftrightarrow> k \<in> {0, 9, 11, 21, 30}"
    by (simp only: bit_or_iff bit_push_bit_iff bit_1_iff) auto
  show "bit ECC_TAPS k \<longleftrightarrow> k \<in> {8, 10, 20, 29, 31}"
    by (simp only: ECC_TAPS_def bit_or_iff bit_push_bit_iff bit_1_iff) auto
qed

lemma shift_back: "code_shift (code_back e) = e"
proof (rule bit_word_eqI)
  fix n
  assume "n < LENGTH(32)"
  then consider "n = 31" | "n < 31" by fastforce
  then show "bit (code_shift (code_back e)) n = bit e n"
    by cases (simp_all only: bit_code_shift bit_code_back polynomial_bits, auto)
qed

lemma shifts_back: "(code_shift ^^ n) ((code_back ^^ n) e) = e"
proof (induction n arbitrary: e)
  case (Suc n)
  have "(code_shift ^^ Suc n) ((code_back ^^ Suc n) e) = (code_shift ^^ n) (code_shift (code_back ((code_back ^^ n) e)))"
    by (simp only: funpow_Suc_right [of n code_shift] funpow.simps(2) [of n code_back] o_apply)
  then show ?case using Suc by (simp only: shift_back)
qed simp

context code_factor
begin

lemma remainder_linear: "remainder step (a XOR b) = remainder step a XOR remainder step b"
  unfolding remainder_def xsum_xor [symmetric] by (rule xsum_cong) (simp add: bit_xor_iff)

lemma remainder_stage:
  assumes "k < 32"
  shows "remainder step (push_bit k 1) = (step ^^ k) 1"
  using assms unfolding remainder_def by (subst xsum_one [of k]) (auto simp: bit_exp_iff)

lemma remainder_sum: "remainder step (xsum f n) = xsum (\<lambda>k. remainder step (f k)) n"
  by (induction n) (simp_all add: remainder_linear, simp add: remainder_def xsum_one [of 0])

text \<open>Going back in the code's register steps the remainder.\<close>

lemma remainder_step: "remainder step (code_back e) = step (remainder step e)"
proof -
  have one: "remainder step (code_back (push_bit k 1)) = step ((step ^^ k) 1)" if "k < 32" for k
  proof (cases "k = 31")
    case True
    have "code_back (push_bit 31 1) = push_bit 30 1 XOR push_bit 21 1 XOR push_bit 11 1 XOR push_bit 9 1 XOR push_bit 0 1"
      by (simp add: code_back_def)
    also have "remainder step \<dots> = (step ^^ 30) 1 XOR (step ^^ 21) 1 XOR (step ^^ 11) 1 XOR (step ^^ 9) 1 XOR (step ^^ 0) 1"
    proof -
      have "remainder step (push_bit k 1) = (step ^^ k) 1" if "k \<in> {30, 21, 11, 9, 0}" for k
        by (rule remainder_stage) (use that in auto)
      then show ?thesis by (simp only: remainder_linear insert_iff simp_thms)
    qed
    also have "\<dots> = (step ^^ 32) 1" using divides by simp
    also have "\<dots> = step ((step ^^ 31) 1)" using funpow.simps(2) [of 31 step] by simp
    finally show ?thesis using True by simp
  next
    case False
    then have "code_back (push_bit k 1) = push_bit (Suc k) 1" using that by (intro code_back_moves) simp
    moreover have "remainder step (push_bit (Suc k) 1) = (step ^^ Suc k) 1" by (rule remainder_stage) (use False that in simp)
    ultimately show ?thesis by (simp only: funpow.simps o_apply)
  qed
  have "remainder step (code_back e) = remainder step (code_back (xsum (\<lambda>k. if bit e k then push_bit k 1 else 0) 32))"
    using xsum_bits [of e 32, where 'a = 32] take_bit_length_eq [of e] by simp
  also have "\<dots> = xsum (\<lambda>k. if bit e k then step ((step ^^ k) 1) else 0) 32"
  proof -
    have sum: "code_back (xsum f n) = xsum (\<lambda>k. code_back (f k)) n" for f n
      using code_register.steps_sum [of 1 f n] by simp
    have zero: "remainder step (code_back 0) = 0"
      using code_register.steps_zero [of 1] remainder_linear [of 0 0] by simp
    show ?thesis
      unfolding sum remainder_sum
    proof (rule xsum_cong)
      fix k :: nat
      assume "k < 32"
      then show "remainder step (code_back (if bit e k then push_bit k 1 else 0)) = (if bit e k then step ((step ^^ k) 1) else 0)"
        by (cases "bit e k") (simp_all only: one zero if_True if_False)
    qed
  qed
  also have "\<dots> = step (remainder step e)"
    using steps_sum [of 1 "\<lambda>k. if bit e k then (step ^^ k) 1 else 0" 32] linear [of 0 0]
    by (simp add: remainder_def if_distrib cong: if_cong)
  finally show ?thesis .
qed

lemma remainder_steps: "remainder step ((code_back ^^ n) e) = (step ^^ n) (remainder step e)"
  by (induction n) (simp_all add: remainder_step)

text \<open>A value in the first eleven stages is its own remainder.\<close>

lemma remainder_small:
  assumes "drop_bit 11 e = 0" "11 \<le> LENGTH('a)"
  shows "remainder step e = ucast e"
proof -
  have "remainder step e = xsum (\<lambda>k. if bit e k then push_bit k 1 else 0) 32"
    unfolding remainder_def
  proof (rule xsum_cong)
    fix k
    have "k < LENGTH('a)" if "bit e k" using drop_bit_clear [OF assms(1), of k] that assms(2) by (cases "11 \<le> k") auto
    then show "(if bit e k then (step ^^ k) 1 else 0) = (if bit e k then push_bit k 1 else 0)"
      by (cases "bit e k") (simp_all only: stage if_True if_False)
  qed
  also have "\<dots> = ucast e"
    unfolding xsum_bits by (rule bit_word_eqI) (use bit_imp_le_length [of e] in \<open>auto simp: bit_take_bit_iff bit_ucast_iff\<close>)
  finally show ?thesis .
qed

end

section \<open>The two factors\<close>

definition rotated :: "21 word \<Rightarrow> 21 word" where
  "rotated u = push_bit 1 u XOR of_flag (bit u 20)"

definition residue :: "11 word \<Rightarrow> 11 word" where
  "residue u = push_bit 1 u XOR (if bit u 10 then 0x201 else 0)"

lemma rotated_linear: "rotated (a XOR b) = rotated a XOR rotated b"
  by (rule bit_word_eqI) (auto simp: rotated_def of_flag_def bit_xor_iff bit_push_bit_iff bit_1_iff)

lemma residue_linear: "residue (a XOR b) = residue a XOR residue b"
  by (rule bit_word_eqI) (auto simp: residue_def bit_xor_iff bit_push_bit_iff)

lemma rotated_moves: "Suc k < 21 \<Longrightarrow> rotated (push_bit k 1) = push_bit (Suc k) 1"
  by (rule bit_word_eqI) (auto simp: rotated_def of_flag_def bit_xor_iff bit_push_bit_iff bit_1_iff simp del: push_bit_of_1)

lemma residue_moves: "Suc k < 11 \<Longrightarrow> residue (push_bit k 1) = push_bit (Suc k) 1"
  by (rule bit_word_eqI) (auto simp: residue_def bit_xor_iff bit_push_bit_iff bit_1_iff simp del: push_bit_of_1)

lemma funpow_once_more: "(f ^^ numeral n) x = f ((f ^^ pred_numeral n) x)"
  by (simp add: numeral_eq_Suc)

lemma rotated_divides:
  "(rotated ^^ 32) 1 = (rotated ^^ 30) 1 XOR (rotated ^^ 21) 1 XOR (rotated ^^ 11) 1 XOR (rotated ^^ 9) 1 XOR 1"
  by (simp add: funpow_once_more rotated_def of_flag_def)

lemma residue_divides:
  "(residue ^^ 32) 1 = (residue ^^ 30) 1 XOR (residue ^^ 21) 1 XOR (residue ^^ 11) 1 XOR (residue ^^ 9) 1 XOR 1"
  by (simp add: funpow_once_more residue_def)

interpretation rotated: code_factor rotated
  by unfold_locales (simp_all only: rotated_linear rotated_divides, rule rotated_moves, simp)

interpretation residue: code_factor residue
  by unfold_locales (simp_all only: residue_linear residue_divides, rule residue_moves, simp)

section \<open>The residue's cycle\<close>

lemma residue_twice_more:
  assumes "(residue ^^ n) 1 = v" "m = Suc (n + n)" "residue (xsum (\<lambda>k. if bit v k then (residue ^^ k) v else 0) 11) = w"
  shows "(residue ^^ m) 1 = w"
proof -
  have "(residue ^^ n) v = xsum (\<lambda>k. if bit v k then (residue ^^ k) v else 0) 11"
    using residue.steps_value [of n v] unfolding assms(1) by simp
  then show ?thesis using assms(3) by (simp add: assms(1,2) funpow_add)
qed

lemma xsum_run: "xsum f (numeral n) = xsum f (pred_numeral n) XOR f (pred_numeral n)"
  by (simp add: numeral_eq_Suc)

lemma residue_run:
  "(residue ^^ 23) 1 = 0x357" "(residue ^^ 89) 1 = 0x633" "(residue ^^ 2047) 1 = 1"
proof -
  note run = funpow_once_more residue_def xsum_run
  show "(residue ^^ 23) 1 = 0x357" "(residue ^^ 89) 1 = 0x633" by (simp_all add: funpow_once_more residue_def)
  have r1: "(residue ^^ 1) 1 = 2" by (simp add: residue_def)
  have r3: "(residue ^^ 3) 1 = 0x8" by (rule residue_twice_more [OF r1]) (simp, simp add: run)
  have r7: "(residue ^^ 7) 1 = 0x80" by (rule residue_twice_more [OF r3]) (simp, simp add: run)
  have r15: "(residue ^^ 15) 1 = 0x215" by (rule residue_twice_more [OF r7]) (simp, simp add: run)
  have r31: "(residue ^^ 31) 1 = 0x177" by (rule residue_twice_more [OF r15]) (simp, simp add: run)
  have r63: "(residue ^^ 63) 1 = 0x7b" by (rule residue_twice_more [OF r31]) (simp, simp add: run)
  have r127: "(residue ^^ 127) 1 = 0x28e" by (rule residue_twice_more [OF r63]) (simp, simp add: run)
  have r255: "(residue ^^ 255) 1 = 0x1e8" by (rule residue_twice_more [OF r127]) (simp, simp add: run)
  have r511: "(residue ^^ 511) 1 = 0xc4" by (rule residue_twice_more [OF r255]) (simp, simp add: run)
  have r1023: "(residue ^^ 1023) 1 = 0x30" by (rule residue_twice_more [OF r511]) (simp, simp add: run)
  have r2047: "(residue ^^ 2047) 1 = 0x1" by (rule residue_twice_more [OF r1023]) (simp, simp add: run)
  show "(residue ^^ 2047) 1 = 1" using r2047 by simp
qed

lemma inverse_23: "xsum (\<lambda>k. if bit (574 :: 11 word) k then (residue ^^ k) ((residue ^^ 23) 1 XOR 1) else 0) 11 = 1"
  unfolding residue_run by (simp add: xsum_run funpow_once_more residue_def)

lemma inverse_89: "xsum (\<lambda>k. if bit (964 :: 11 word) k then (residue ^^ k) ((residue ^^ 89) 1 XOR 1) else 0) 11 = 1"
  unfolding residue_run by (simp add: xsum_run funpow_once_more residue_def)

lemma residue_kernel: "(residue ^^ 23) x = x \<Longrightarrow> x = 0" "(residue ^^ 89) x = x \<Longrightarrow> x = 0"
  using residue.kernel [of 574 23 x] residue.kernel [of 964 89 x] inverse_23 inverse_89 by simp_all

lemma small_numbers: "[0..<46] =
    [0, 1, 2, 3, 4, 5, 6, 7, 8, 9, 10, 11, 12, 13, 14, 15, 16, 17, 18, 19, 20, 21, 22, 23, 24, 25, 26, 27, 28, 29, 30, 31, 32, 33, 34, 35, 36, 37, 38, 39, 40, 41, 42, 43, 44, 45 :: nat]"
  by (simp add: upt_rec)

lemma divisors_2047:
  assumes "g dvd (2047 :: nat)"
  shows "g \<in> {1, 23, 89, 2047}"
proof -
  have small: "g = 1 \<or> g = 23" if "g dvd 2047" "g \<le> 45" for g :: nat
  proof -
    have "g \<in> set [0..<46]" using that(2) by simp
    then show ?thesis using that(1) unfolding small_numbers by auto
  qed
  obtain h where h: "2047 = g * h" using assms by (elim dvdE)
  have "g \<le> 45 \<or> h \<le> 45"
  proof (rule ccontr)
    assume "\<not> (g \<le> 45 \<or> h \<le> 45)"
    then have "46 * 46 \<le> g * h" by (intro mult_le_mono) simp_all
    then show False using h by simp
  qed
  then show ?thesis
  proof
    assume "h \<le> 45"
    then have "h = 1 \<or> h = 23" using small [of h] h by simp
    then show ?thesis using h by auto
  qed (use small [OF assms] in auto)
qed

lemma residue_cycle:
  assumes "(residue ^^ d) x = x" "x \<noteq> 0"
  shows "2047 dvd d"
proof -
  have many: "(residue ^^ (n * m)) y = y" if "(residue ^^ n) y = y" for n m y
    using that by (induction m) (simp_all add: funpow_add)
  have all: "(residue ^^ 2047) y = y" for y by (rule residue.returns) (rule residue_run)
  define g where "g = gcd d 2047"
  have g: "(residue ^^ g) x = x"
  proof (cases "d = 0")
    case True
    then show ?thesis using all by (simp add: g_def)
  next
    case False
    then obtain a b where ab: "d * a = 2047 * b + g" using bezout_nat [of d 2047] by (auto simp: g_def)
    have "(residue ^^ (2047 * b + g)) x = x" using many [OF assms(1), of a] ab by simp
    then show ?thesis using many [of 2047 x b, OF all] by (simp add: funpow_add add.commute)
  qed
  have "g \<in> {1, 23, 89, 2047}" by (rule divisors_2047) (simp add: g_def)
  moreover have "g \<noteq> 23" "g \<noteq> 89" using residue_kernel [of x] g assms(2) by auto
  moreover have "g \<noteq> 1"
  proof
    assume "g = 1"
    then have "(residue ^^ 23) x = x" using many [of 1 x 23] g by simp
    then show False using residue_kernel(1) assms(2) by blast
  qed
  ultimately have "g = 2047" by simp
  then show ?thesis unfolding g_def by (metis gcd_dvd1)
qed

section \<open>No burst comes round early\<close>

lemma bit_rotated: "k < 21 \<Longrightarrow> bit ((rotated ^^ d) u) k \<longleftrightarrow> bit u ((k + 20 * d) mod 21)"
proof (induction d arbitrary: k)
  case (Suc d)
  have one: "bit (rotated v) k \<longleftrightarrow> bit v ((k + 20) mod 21)" for v
  proof (cases k)
    case 0
    then show ?thesis by (simp add: rotated_def bit_0 even_xor_iff of_flag_def)
  next
    case (Suc j)
    then have "(k + 20) mod 21 = j" using Suc.prems by simp
    moreover have "bit (push_bit 1 v) (Suc j) \<longleftrightarrow> bit v j" using Suc Suc.prems by (simp only: bit_push_bit_iff) simp
    ultimately show ?thesis using Suc by (simp only: rotated_def bit_xor_iff) (simp add: of_flag_def bit_1_iff)
  qed
  have "((k + 20) mod 21 + 20 * d) mod 21 = (k + 20 * Suc d) mod 21" by (simp add: mod_add_left_eq add.assoc)
  then show ?case using one [of "(residue' ^^ d) u" for residue'] Suc.IH [of "(k + 20) mod 21"] by (simp add: one)
qed simp

lemma comes_round_late:
  assumes "(code_back ^^ d) u = u" "drop_bit 11 u = 0" "u \<noteq> 0" "21 dvd d"
  shows "42987 dvd d"
proof -
  have "remainder residue u = ucast u" by (rule residue.remainder_small [OF assms(2)]) simp
  then have "(residue ^^ d) (ucast u) = (ucast u :: 11 word)"
    using residue.remainder_steps [of d u] assms(1) by simp
  moreover have "(ucast u :: 11 word) \<noteq> 0"
  proof -
    obtain k where k: "bit u k" using assms(3) by (auto simp: bit_eq_iff)
    then have "k < 11" using drop_bit_clear [OF assms(2), of k] by (cases "11 \<le> k") auto
    then have "bit (ucast u :: 11 word) k" using k by (simp add: bit_ucast_iff)
    then show ?thesis by auto
  qed
  ultimately have "2047 dvd d" by (rule residue_cycle)
  moreover have "coprime (21 :: nat) 2047" by (simp add: coprime_iff_gcd_eq_1 gcd_nat.simps)
  ultimately have "21 * 2047 dvd d" using assms(4) by (intro divides_mult)
  then show ?thesis by simp
qed

lemma no_burst_early:
  assumes w: "drop_bit 11 w = 0" "bit w 10" and d: "0 < d" "d \<le> ECC_CYCLE"
  shows "drop_bit 11 ((code_back ^^ d) w) \<noteq> 0"
proof
  define v where "v = (code_back ^^ d) w"
  assume "drop_bit 11 ((code_back ^^ d) w) = 0"
  then have v: "drop_bit 11 v = 0" by (simp add: v_def)
  note low = drop_bit_clear [OF w(1)] drop_bit_clear [OF v]
  have "(ucast v :: 21 word) = (rotated ^^ d) (ucast w)"
    using rotated.remainder_steps [of d w] rotated.remainder_small [OF v] rotated.remainder_small [OF w(1)] by (simp add: v_def)
  then have turned: "bit (ucast v :: 21 word) k \<longleftrightarrow> bit (ucast w :: 21 word) ((k + 20 * d) mod 21)" if "k < 21" for k
    using bit_rotated [OF that, of d "ucast w"] by simp
  have turn: "bit v k \<longleftrightarrow> bit w ((k + 20 * d) mod 21)" if "k < 21" for k
    using turned [OF that] that by (simp add: bit_ucast_iff)
  have moved: "bit v ((k + d) mod 21) \<longleftrightarrow> bit w k" if "k < 21" for k
  proof -
    have "((k + d) mod 21 + 20 * d) mod 21 = (k + 21 * d) mod 21" by (simp add: mod_add_left_eq)
    also have "\<dots> = k" using that by simp
    finally show ?thesis using turn [of "(k + d) mod 21"] by simp
  qed
  have high: "k < 11" if "bit v k" for k using low(2) [of k] that by (cases "11 \<le> k") auto
  have "bit v ((10 + d) mod 21)" using moved [of 10] w(2) by simp
  from high [OF this] have "(10 + d) mod 21 < 11" .
  moreover define q where "q = d mod 21"
  ultimately have "(10 + q) mod 21 < 11" "q < 21" by (simp_all add: mod_add_right_eq)
  then consider "q = 0" | "11 \<le> q" by (cases "q = 0"; cases "11 \<le> q") auto
  then show False
  proof cases
    case 1
    have "v = w"
    proof (rule bit_word_eqI)
      fix k
      show "bit v k = bit w k"
      proof (cases "k < 11")
        case True
        then have "(k + d) mod 21 = k" using 1 mod_add_right_eq [of k d 21] by (simp add: q_def)
        then show ?thesis using moved [of k] True by simp
      qed (use low in \<open>simp add: not_less\<close>)
    qed
    then have "42987 dvd d"
      using 1 w by (intro comes_round_late [of d w]) (auto simp: v_def q_def)
    then show False using d by (auto simp: ECC_CYCLE_def dest: dvd_imp_le)
  next
    case 2
    define c where "c = 21 - q"
    have c: "1 \<le> c" "c \<le> 10" "q + c = 21" using 2 \<open>q < 21\<close> by (simp_all add: c_def)
    have back_by: "(k + d) mod 21 = k - c" if "c \<le> k" "k < 21" for k
    proof -
      have "(k + d) mod 21 = (k + q) mod 21" by (simp add: q_def mod_add_right_eq)
      also have "k + q = (k - c) + 21" using that c(3) by simp
      also have "((k - c) + 21) mod 21 = k - c" by (simp only: mod_add_self2) (use that in simp)
      finally show ?thesis .
    qed
    have zeros: "\<not> bit w k" if "k < c" for k
    proof
      assume "bit w k"
      then have "bit v ((k + d) mod 21)" using moved [of k] that c(2) by simp
      moreover have "(k + d) mod 21 = k + q"
      proof -
        have "(k + d) mod 21 = (k + q) mod 21" by (simp add: q_def mod_add_right_eq)
        then show ?thesis using that c(3) by simp
      qed
      ultimately show False using high [of "k + q"] 2 by simp
    qed
    have shifted: "v = drop_bit c w"
    proof (rule bit_word_eqI)
      fix k
      show "bit v k = bit (drop_bit c w) k"
      proof (cases "k + c < 21")
        case True
        then show ?thesis using moved [of "k + c"] back_by [of "k + c"] by (simp add: bit_drop_bit_eq add.commute)
      next
        case False
        then show ?thesis using low c(2) by (simp add: bit_drop_bit_eq)
      qed
    qed
    have "(code_shift ^^ c) w = v" unfolding shifted by (rule shifts_even) (rule zeros)
    then have "(code_back ^^ c) v = w"
      using shifts_back [of c v] shifts_inj [of c "(code_back ^^ c) v" w] by simp
    then have "(code_back ^^ (d + c)) v = v" by (simp add: funpow_add v_def)
    moreover have "v \<noteq> 0" using \<open>bit v ((10 + d) mod 21)\<close> by auto
    moreover have "21 dvd d + c"
    proof -
      have "d + c = 21 * (d div 21) + (q + c)" by (simp add: q_def)
      then show ?thesis using c(3) by simp
    qed
    ultimately have "42987 dvd d + c" using v by (intro comes_round_late)
    then show False using d c by (auto simp: ECC_CYCLE_def dest: dvd_imp_le)
  qed
qed

section \<open>Every burst is located\<close>

lemma scan_finds:
  "(\<And>i. i < s \<Longrightarrow> drop_bit 11 ((code_shift ^^ i) r) \<noteq> 0) \<Longrightarrow> drop_bit 11 ((code_shift ^^ s) r) = 0 \<Longrightarrow> s < n \<Longrightarrow>
    ecc_scan step n r = (let w = (code_shift ^^ s) r; p = ucast (drop_bit (trailing_zeros w) w)
      in if ilog2 p \<le> step + s then Some (p, step + s - ilog2 p) else None)"
proof (induction s arbitrary: step n r)
  case 0
  then show ?case by (cases n) (auto simp: Let_def)
next
  case (Suc s)
  obtain k where k: "n = Suc k" "s < k" using Suc.prems(3) by (cases n) auto
  have "drop_bit 11 r \<noteq> 0" using Suc.prems(1) [of 0] by simp
  moreover have "drop_bit 11 ((code_shift ^^ i) (code_shift r)) \<noteq> 0" if "i < s" for i
    using Suc.prems(1) [of "Suc i"] that by (simp add: funpow_swap1)
  moreover have "drop_bit 11 ((code_shift ^^ s) (code_shift r)) = 0"
    using Suc.prems(2) by (simp add: funpow_swap1)
  ultimately show ?case
    using Suc.IH [of "code_shift r" k "Suc step"] k by (simp add: code_shift_def [symmetric] funpow_swap1 Let_def)
qed

lemma burst_located_bits:
  assumes len: "length xs = bits + 32" "bits \<le> ECC_CYCLE" and good: "feed_bits xs 0 = 0"
    and p: "bit p 0" "ilog2 p \<le> 10" "a + ilog2 p \<le> bits"
  shows "ecc_trap bits (feed_bits (corrected p a xs) 0) = Some (p, a)"
proof -
  define m where "m = ilog2 p"
  define s where "s = a + m"
  define w where "w = push_bit (10 - m) (ucast p :: u32)"
  define e where "e = feed_bits (corrected p a xs) 0"
  have "p \<noteq> 0" using p(1) by auto
  note top = ilog2_bit [OF this, folded m_def]
  have pw: "bit (ucast p :: u32) k \<longleftrightarrow> bit p k" for k
    using bit_imp_le_length [of p k] by (auto simp: bit_ucast_iff)
  have w: "bit w k \<longleftrightarrow> 10 - m \<le> k \<and> bit p (k - (10 - m))" for k
  proof -
    have "k < 32" if "10 - m \<le> k" "bit p (k - (10 - m))" using bit_imp_le_length [OF that(2)] that(1) by simp
    then show ?thesis unfolding w_def by (auto simp: bit_push_bit_iff pw)
  qed
  have w10: "bit w 10" using top(1) p(2) by (simp add: w m_def [symmetric])
  have small: "drop_bit 11 w = 0"
  proof (rule bit_word_eqI)
    fix k
    have "m < 11 + k - (10 - m)" using p(2) by (simp add: m_def)
    then show "bit (drop_bit 11 w) k = bit 0 k" using top(2) [of "11 + k - (10 - m)"] by (simp add: bit_drop_bit_eq w)
  qed
  have w0: "w \<noteq> 0" using w10 by auto
  have tz: "trailing_zeros w = 10 - m"
  proof (rule antisym)
    show "trailing_zeros w \<le> 10 - m"
    proof (rule ccontr)
      assume "\<not> trailing_zeros w \<le> 10 - m"
      then have "10 - m < trailing_zeros w" by simp
      from trailing_zeros_bit(2) [OF w0 this] p(1) show False by (simp add: w)
    qed
    show "10 - m \<le> trailing_zeros w" using trailing_zeros_bit(1) [OF w0] by (simp add: w)
  qed
  have down: "drop_bit (10 - m) w = ucast p"
    by (rule bit_word_eqI) (simp add: bit_drop_bit_eq w pw)
  have raised: "(code_shift ^^ (10 - m)) w = ucast p"
    unfolding down [symmetric] by (rule shifts_even) (simp add: w)
  have "e = (code_shift ^^ (bits + 32 - a)) (ucast p)"
    unfolding e_def using corrected_feed [of a xs p] len(1) p(3) good by simp
  then have e: "e = (code_shift ^^ (bits + 32 - a + (10 - m))) w" by (simp add: funpow_add raised)
  have e0: "e \<noteq> 0" unfolding e using shifts_inj [of "bits + 32 - a + (10 - m)" w 0] w0 by simp
  define r where "r = (code_shift ^^ (ECC_CYCLE - bits)) e"
  have "ECC_CYCLE - bits + (bits + 32 - a + (10 - m)) = 42987 - s"
    using len(2) p(2,3) by (simp add: ECC_CYCLE_def s_def m_def)
  then have r: "r = (code_shift ^^ (42987 - s)) w"
    unfolding r_def e by (simp add: funpow_add [THEN fun_cong, unfolded o_apply, symmetric])
  have fits: "s \<le> ECC_CYCLE" using len(2) p(3) by (simp add: s_def m_def)
  have at: "(code_shift ^^ j) r = (code_back ^^ (s - j)) w" if "j \<le> s" for j
  proof -
    have "(code_shift ^^ (s - j)) ((code_shift ^^ j) r) = (code_shift ^^ (s - j + j + (42987 - s))) w"
      unfolding r by (simp add: funpow_add)
    also have "s - j + j + (42987 - s) = 42987" using that fits by (simp add: ECC_CYCLE_def)
    also have "(code_shift ^^ 42987) w = (code_shift ^^ (s - j)) ((code_back ^^ (s - j)) w)"
      by (simp only: code_returns shifts_back)
    finally show ?thesis by (simp only: shifts_inj)
  qed
  have early: "drop_bit 11 ((code_shift ^^ i) r) \<noteq> 0" if "i < s" for i
    unfolding at [OF less_imp_le [OF that]] by (rule no_burst_early [OF small w10]) (use that fits in auto)
  have found: "(code_shift ^^ s) r = w" using at [of s] by simp
  have "ecc_scan 0 (bits + 1) r = Some (p, a)"
  proof (subst scan_finds [of s])
    show "drop_bit 11 ((code_shift ^^ i) r) \<noteq> 0" if "i < s" for i by (rule early [OF that])
    show "drop_bit 11 ((code_shift ^^ s) r) = 0" by (simp only: found small)
    show "s < bits + 1" using p(3) by (simp add: s_def m_def)
    have "(ucast (ucast p :: u32) :: u16) = p" by (rule bit_word_eqI) (simp add: bit_ucast_iff pw)
    then show "(let w = (code_shift ^^ s) r; p = ucast (drop_bit (trailing_zeros w) w)
      in if ilog2 p \<le> 0 + s then Some (p, 0 + s - ilog2 p) else None) = Some (p, a)"
      unfolding found Let_def tz down by (simp add: m_def [symmetric]) (simp add: s_def)
  qed
  then show ?thesis
    using e0 len(2) by (simp add: ecc_trap_def e_def [symmetric] r_def code_shift_def)
qed

text \<open>A block of zeros struck by two errors ten bits apart: what a struck block is, and what the trap says of it.\<close>

lemma zero_block: "disk_bits (replicate n 0) = replicate (8 * n) False" "feed_bits (replicate n False) 0 = 0"
  by (rule nth_equalityI) (simp_all add: nth_disk_bits feed_false)

lemma struck_zeros:
  obtains received where "length received = 1028"
    "disk_bits received = corrected p a (disk_bits (replicate 1028 0))"
proof -
  have "length (corrected p a (disk_bits (replicate 1028 0))) = 8 * 1028" by (simp add: corrected_def)
  then show thesis by (rule bits_are_bytes) (rule that)
qed

lemma spans_ten: "ilog2 0x401 = 10"
  by (simp add: ilog2_def upt_rec)

text \<open>
  C32: what the trap locates it corrects. When a block read with its checkword does not check and the trap names
  a pattern and a place, past the first step of its scan, the pattern spans at most eleven bits and starts with an
  error, and the block with the pattern put in at the place checks.
\<close>

theorem trap_corrects:
  assumes "length received = bytes + 4" "ecc_trap (8 * bytes) (ecc_feed received 0) = Some (p, at)" "0 < at + ilog2 p"
  shows "bit p 0 \<and> ilog2 p \<le> 10 \<and> at \<le> 8 * bytes \<and>
    (\<exists>block. length block = length received \<and> disk_bits block = corrected p at (disk_bits received) \<and>
      ecc_checks (ecc_feed block 0))"
proof -
  have "length (corrected p at (disk_bits received)) = 8 * length received" by (simp add: corrected_def)
  then obtain block where block: "length block = length received" "disk_bits block = corrected p at (disk_bits received)"
    by (rule bits_are_bytes)
  have "feed_bits (corrected p at (disk_bits received)) 0 = 0 \<and> bit p 0 \<and> ilog2 p \<le> 10 \<and> at \<le> 8 * bytes"
    by (rule trap_corrects_bits) (use assms in \<open>simp_all add: ecc_feed_feed_bits\<close>)
  then show ?thesis using block by (auto simp: ecc_checks_def ecc_feed_feed_bits)
qed

lemma trap_corrects_witness:
  "\<exists>received block. length received = 1028 \<and> ecc_trap 8192 (ecc_feed received 0) = Some (0x401, 4000) \<and>
    disk_bits block = corrected 0x401 4000 (disk_bits received) \<and> ecc_checks (ecc_feed block 0)"
proof -
  obtain received where r: "length received = 1028"
    "disk_bits received = corrected 0x401 4000 (disk_bits (replicate 1028 0))" by (rule struck_zeros)
  have "ecc_trap (8 * 1024) (feed_bits (corrected 0x401 4000 (disk_bits (replicate 1028 0))) 0) = Some (0x401, 4000)"
    by (rule burst_located_bits) (simp_all add: ECC_CYCLE_def zero_block spans_ten)
  then have t: "ecc_trap (8 * 1024) (ecc_feed received 0) = Some (0x401, 4000)"
    by (simp only: ecc_feed_feed_bits r(2))
  from trap_corrects [OF _ t] r(1) t show ?thesis by auto
qed

text \<open>
  C31: every burst is located. When one burst of at most eleven bits, wherever it lies in a block's data, strikes a
  block that checks, the trap gives that burst's pattern and place, for every block up to the code's cycle.
\<close>

theorem burst_located:
  assumes "length block = bytes + 4" "8 * bytes \<le> ECC_CYCLE" "ecc_checks (ecc_feed block 0)"
    and "bit p 0" "ilog2 p \<le> 10" "a + ilog2 p \<le> 8 * bytes"
    and "disk_bits received = corrected p a (disk_bits block)"
  shows "ecc_trap (8 * bytes) (ecc_feed received 0) = Some (p, a)"
  using burst_located_bits [of "disk_bits block" "8 * bytes" p a] assms
  by (simp add: ecc_feed_feed_bits ecc_checks_def)

lemma burst_located_witness:
  "\<exists>received. length received = 1028 \<and> ecc_trap 8192 (ecc_feed received 0) = Some (0x401, 4000)"
proof -
  obtain received where r: "length received = 1028"
    "disk_bits received = corrected 0x401 4000 (disk_bits (replicate 1028 0))" by (rule struck_zeros)
  then have "ecc_trap (8 * 1024) (ecc_feed received 0) = Some (0x401, 4000)"
    by (intro burst_located [of "replicate 1028 0"])
      (simp_all add: ECC_CYCLE_def ecc_checks_def ecc_feed_feed_bits zero_block spans_ten)
  then show ?thesis using r(1) by auto
qed

section \<open>At the scan's first step\<close>

text \<open>
  At the step the scan starts with, the upper stages can be clear because the burst would start before the block:
  the trap then still names a pattern at the block's start, and putting it in does not restore the block.
\<close>

lemma trap_misplaces:
  "\<exists>received. length received = 1028 \<and> ecc_trap 8192 (ecc_feed received 0) = Some (1, 0) \<and>
    (\<forall>block. disk_bits block = corrected 1 0 (disk_bits received) \<longrightarrow> \<not> ecc_checks (ecc_feed block 0))"
proof -
  define e where "e = (code_shift ^^ 8234) 2"
  define w where "w = (code_back ^^ 32) e"
  let ?xs = "replicate 8192 False @ map (bit w) [0..<32]"
  have "length ?xs = 8 * 1028" by simp
  then obtain received where r: "length received = 1028" "disk_bits received = ?xs" by (rule bits_are_bytes)
  have "feed_bits (map (bit w) [0..<32]) 0 = (code_shift ^^ 32) (0 XOR w)"
    by (rule feed_word) (simp add: impossible_bit)
  then have fed: "feed_bits ?xs 0 = e" by (simp add: feed_false w_def shifts_back)
  have walked: "(code_shift ^^ 34753) e = 2"
  proof -
    have "(code_shift ^^ 34753) e = (code_shift ^^ (34753 + 8234)) 2" unfolding e_def funpow_add by simp
    then show ?thesis by (simp add: code_returns)
  qed
  then have "e \<noteq> 0" by auto
  moreover have "trailing_zeros 2 = 1" by (simp add: trailing_zeros_def upt_rec)
  moreover have "ilog2 1 = 0" by (simp add: ilog2_def upt_rec)
  ultimately have trap: "ecc_trap 8192 e = Some (1, 0)"
    using walked ecc_scan.simps(2) [of 0 8192 2] by (simp del: ecc_scan.simps add: ecc_trap_def ECC_CYCLE_def Let_def code_shift_def [symmetric])
  have "(code_shift ^^ 10) 2 XOR 1 \<noteq> 0" by (simp add: funpow_once_more code_shift_bits taps_value)
  then have "(code_shift ^^ 8224) ((code_shift ^^ 10) 2 XOR 1) \<noteq> (code_shift ^^ 8224) 0" by (simp only: shifts_inj not_False_eq_True)
  moreover have "e = (code_shift ^^ 8224) ((code_shift ^^ 10) 2)"
    using funpow_add [of 8224 10 code_shift] by (simp add: e_def)
  ultimately have "feed_bits (corrected 1 0 ?xs) 0 \<noteq> 0"
    using corrected_feed [of 0 ?xs 1] fed by (simp add: shifts_linear)
  then show ?thesis using r trap fed by (auto simp: ecc_checks_def ecc_feed_feed_bits)
qed

end
