(* ===== verification/DiskTransfer.thy ===== *)
theory DiskTransfer
  imports DiskController DiskFire
begin

text \<open>
  What the disk controller's transfers do: the pages a command list names and the blocks of the pack from the disk
  address on, along a list of entries, and a read of them.
\<close>

section \<open>Blocks by number\<close>

definition address_of :: "disk_geometry \<Rightarrow> nat \<Rightarrow> u32 \<times> u32 \<times> u32" where
  "address_of g n =
     (let B = unat (dg_blocks_per_track g); H = unat (dg_heads g)
      in (of_nat (n div B div H), of_nat (n div B mod H), of_nat (n mod B)))"

lemma address_of_number: "on_pack g c h b \<Longrightarrow> address_of g (block_number g c h b) = (c, h, b)"
proof -
  assume "on_pack g c h b"
  then have "unat h < unat (dg_heads g)" "unat b < unat (dg_blocks_per_track g)" by (auto simp: on_pack_def word_less_nat_alt)
  then show ?thesis by (simp add: address_of_def block_number_def Let_def)
qed

lemma address_on_pack:
  assumes "geometry_ok g" "n < block_count g" "address_of g n = (c, h, b)"
  shows "on_pack g c h b" "block_number g c h b = n"
proof -
  let ?B = "unat (dg_blocks_per_track g)" and ?H = "unat (dg_heads g)" and ?C = "unat (dg_cylinders g)"
  have pos: "0 < ?B" "0 < ?H" using assms(1) by (auto simp: geometry_ok_def word_less_nat_alt)
  have "n < ?C * ?H * ?B" using assms(2) by (simp add: block_count_def)
  then have lt: "n div ?B div ?H < ?C" "n div ?B mod ?H < ?H" "n mod ?B < ?B" using pos by (simp_all add: less_mult_imp_div_less)
  have small: "?C < 2 ^ 32" "?H < 2 ^ 32" "?B < 2 ^ 32"
    using unsigned_less [where 'a=nat, of "dg_cylinders g"] unsigned_less [where 'a=nat, of "dg_heads g"]
      unsigned_less [where 'a=nat, of "dg_blocks_per_track g"] by simp_all
  have "unat c = n div ?B div ?H" "unat h = n div ?B mod ?H" "unat b = n mod ?B"
    using assms(3) lt small by (auto simp: address_of_def Let_def unat_of_nat take_bit_nat_eq_self)
  then show "on_pack g c h b" "block_number g c h b = n" using lt
    by (simp_all add: on_pack_def word_less_nat_alt block_number_def)
qed

definition block_of :: "drive_unit \<Rightarrow> nat \<Rightarrow> u32 list" where
  "block_of u n = (case address_of (un_geometry u) n of (c, h, b) \<Rightarrow> the (block_at u c h b))"

text \<open>A sector whose header is the one its address asks for and checks, and one whose data checks.\<close>

definition header_good :: "drive_unit \<Rightarrow> nat \<Rightarrow> bool" where
  "header_good u n \<longleftrightarrow> (case address_of (un_geometry u) n of (c, h, b) \<Rightarrow>
     \<exists>x. sector_header_at u c h b = Some x \<and>
       sh_word x AND 0x0fffffff = header_of (un_geometry u) c h b AND 0x0fffffff \<and> header_checks x)"

definition data_good :: "drive_unit \<Rightarrow> nat \<Rightarrow> bool" where
  "data_good u n \<longleftrightarrow> (case address_of (un_geometry u) n of (c, h, b) \<Rightarrow>
     \<exists>data cw. block_at u c h b = Some data \<and> data_checkword_at u c h b = Some cw \<and>
       ecc_feed cw (fold (\<lambda>w. ecc_feed (le_bytes 4 w)) data 0) = 0)"

lemma heads_address:
  "unit_ok u \<Longrightarrow> address_of (un_geometry u) (heads_at_block u) = unit_position u"
  by (simp add: unit_ok_def heads_at_block_def unit_position_def address_of_number)

lemma check_header_good: "unit_ok u \<Longrightarrow> header_good u (heads_at_block u) \<Longrightarrow> dc_check_header u d = (True, d)"
  by (auto simp: header_good_def heads_address dc_check_header_def unit_position_def)

lemma read_block_heads:
  assumes "unit_ok u"
  shows "unit_read_block u = Some (block_of u (heads_at_block u))" "length (block_of u (heads_at_block u)) = BLOCK_WORDS"
proof -
  have "on_pack (un_geometry u) (un_cylinder u) (un_head u) (un_block u)" using assms by (simp add: unit_ok_def)
  from block_at_ok [OF assms this] show "unit_read_block u = Some (block_of u (heads_at_block u))"
    "length (block_of u (heads_at_block u)) = BLOCK_WORDS"
    by (auto simp: unit_read_block_def block_of_def heads_address [OF assms] unit_position_def)
qed

lemma check_data_good:
  assumes "unit_ok u" "data_good u (heads_at_block u)"
  shows "dc_check_data u (block_of u (heads_at_block u)) d = (True, d)"
  using assms(2) by (auto simp: data_good_def block_of_def heads_address [OF assms(1)] dc_check_data_def unit_position_def Let_def)

lemma same_pack_of:
  assumes "same_pack u u'"
  shows "block_of u' n = block_of u n" "header_good u' n = header_good u n" "data_good u' n = data_good u n"
    "un_geometry u' = un_geometry u"
  using assms by (auto simp: same_pack_def block_of_def header_good_def data_good_def block_at_def sector_header_at_def
      data_checkword_at_def lba_of_def unit_file_block_def cong: option.case_cong)

lemma same_pack_header: "same_pack u u' \<Longrightarrow> sector_header_at u' c h b = sector_header_at u c h b"
  by (auto simp: same_pack_def sector_header_at_def lba_of_def cong: option.case_cong)

lemma same_pack_data: "same_pack u u' \<Longrightarrow> data_checkword_at u' c h b = data_checkword_at u c h b"
  by (auto simp: same_pack_def data_checkword_at_def block_at_def lba_of_def unit_file_block_def cong: option.case_cong)

section \<open>The command list\<close>

text \<open>Entries that all have the More flag.\<close>

fun command_prefix :: "u64 list \<Rightarrow> u32 \<Rightarrow> u32 \<Rightarrow> nat list \<Rightarrow> bool" where
  "command_prefix m clp n [] \<longleftrightarrow> True"
| "command_prefix m clp n (p # ps) \<longleftrightarrow> entry m (entry_at clp n) p True \<and> command_prefix m clp (n + 1) ps"

lemma command_list_last:
  "command_list m clp n (ps @ [q]) \<longleftrightarrow> command_prefix m clp n ps \<and> entry m (entry_at clp (n + of_nat (length ps))) q False"
  by (induction ps arbitrary: n) (simp_all add: add.assoc)

lemma entry_kept:
  assumes "length b = BLOCK_WORDS" "p + BLOCK_WORDS \<le> length m" "a < p \<or> p + BLOCK_WORDS \<le> a"
  shows "entry (put_at p b m) a q again = entry m a q again"
  using assms by (auto simp: entry_def nth_put_at)

lemma command_prefix_kept:
  assumes "length b = BLOCK_WORDS" "p + BLOCK_WORDS \<le> length m" "clear_of clp n (length ps) p"
  shows "command_prefix (put_at p b m) clp n ps = command_prefix m clp n ps"
  using assms(3) by (induction ps arbitrary: n) (simp_all add: entry_kept [OF assms(1,2)])

lemma clear_of_last: "clear_of clp n (Suc k) p \<longleftrightarrow> clear_of clp n k p \<and>
  (entry_at clp (n + of_nat k) < p \<or> p + BLOCK_WORDS \<le> entry_at clp (n + of_nat k))"
proof (induction k arbitrary: n)
  case (Suc k)
  show ?case using Suc [of "n + 1"] by (subst clear_of.simps(2)) (simp add: add.assoc)
qed simp

lemma entry_pages: "entry m a p again \<Longrightarrow> p + BLOCK_WORDS \<le> length m"
  by (simp add: entry_def)

text \<open>The controller at an entry of the list, and the step an entry takes.\<close>

definition at_entry :: "u32 \<Rightarrow> disk_controller \<Rightarrow> disk_controller" where
  "at_entry n d = d\<lparr>dc_last_memory_address := clp_at (dc_clp d) n, dc_ccw_cycle := False\<rparr>"

lemma dc_list_entry:
  assumes "entry main (entry_at (dc_clp d) n) p again"
  shows "dc_list read compare u main moved n d =
    (case dc_move_block read compare p u main (at_entry n d) of (ok, u', main', d') \<Rightarrow>
       if \<not> ok then (moved, u', main', d')
       else let d' = d'\<lparr>dc_last_memory_address := of_nat (p + BLOCK_WORDS - 1)\<rparr>
         in if \<not> again then (moved + 1, u', main', d')
            else case next_block u' of (on, u'') \<Rightarrow>
              if \<not> on then (moved + 1, u'', main', d'\<lparr>dc_header_ecc := True\<rparr>)
              else dc_list read compare u'' main' (moved + 1) (n + 1) d')"
  using assms
  by (subst dc_list.simps) (auto simp: entry_def entry_at_def at_entry_def Let_def not_le not_less split: prod.split)

text \<open>What a run of entries leaves of the controller.\<close>

definition read_pages :: "nat list \<Rightarrow> disk_controller \<Rightarrow> disk_controller" where
  "read_pages ps d = (if ps = [] then d else
     d\<lparr>dc_last_memory_address := of_nat (last ps + BLOCK_WORDS - 1), dc_ccw_cycle := False,
       dc_dma_written := dc_dma_written d @ ps\<rparr>)"

lemma read_pages_simps [simp]: "read_pages [] d = d" "dc_clp (read_pages ps d) = dc_clp d"
  "read_pages ps (read_pages qs d) = read_pages (qs @ ps) d"
  by (auto simp: read_pages_def)

lemma move_reads:
  assumes "unit_ok u" "header_good u (heads_at_block u)" "data_good u (heads_at_block u)" "p + BLOCK_WORDS \<le> length main"
  shows "dc_move_block True False p u main d =
    (True, u, put_at p (map mw_of (block_of u (heads_at_block u))) main, d\<lparr>dc_dma_written := dc_dma_written d @ [p]\<rparr>)"
  using assms
  by (simp add: dc_move_block_def check_header_good read_block_heads(1) check_data_good not_less)

lemma noted_page:
  "(at_entry n d)\<lparr>dc_dma_written := dc_dma_written d @ [p], dc_last_memory_address := of_nat (p + BLOCK_WORDS - Suc 0)\<rparr> =
    read_pages [p] d" "dc_dma_written (at_entry n d) = dc_dma_written d"
  by (cases d, simp add: at_entry_def read_pages_def) (simp add: at_entry_def)

lemma prefix_reads:
  assumes "unit_ok u"
  shows "\<lbrakk>command_prefix main (dc_clp d) n ps; \<forall>p \<in> set ps. clear_of (dc_clp d) n (length ps) p;
      heads_at_block u + length ps < block_count (un_geometry u);
      \<forall>i < length ps. header_good u (heads_at_block u + i) \<and> data_good u (heads_at_block u + i)\<rbrakk> \<Longrightarrow>
    \<exists>u'. same_pack u u' \<and> unit_ok u' \<and> heads_at_block u' = heads_at_block u + length ps \<and> un_seek_error u' = un_seek_error u \<and>
      dc_list True False u main moved n d = dc_list True False u'
        (pages_put (\<lambda>k. block_of u (heads_at_block u + k)) ps main) (moved + of_nat (length ps)) (n + of_nat (length ps))
        (read_pages ps d)"
  using assms
proof (induction ps arbitrary: u main moved n d)
  case Nil
  then show ?case by (intro exI [where x = u]) (simp add: same_pack_refl)
next
  case (Cons p ps)
  have good: "header_good u (heads_at_block u)" "data_good u (heads_at_block u)" using Cons.prems(4) by auto
  have en: "entry main (entry_at (dc_clp d) n) p True" using Cons.prems(1) by simp
  let ?b = "map mw_of (block_of u (heads_at_block u))"
  let ?m = "put_at p ?b main"
  have len: "length ?b = BLOCK_WORDS" using read_block_heads(2) [OF Cons.prems(5)] by simp
  obtain v where v: "next_block u = (True, v)" "same_pack u v" "unit_ok v" "heads_at_block v = heads_at_block u + 1"
    "un_seek_error v = un_seek_error u"
    using next_block_steps [OF Cons.prems(5)] Cons.prems(3) by auto
  have step: "dc_list True False u main moved n d = dc_list True False v ?m (moved + 1) (n + 1) (read_pages [p] d)"
    by (simp add: dc_list_entry [OF en] move_reads [OF Cons.prems(5) good entry_pages [OF en]] v(1) noted_page Let_def)
  have rest: "\<forall>i < length ps. header_good u (heads_at_block u + 1 + i) \<and> data_good u (heads_at_block u + 1 + i)"
    using Cons.prems(4) by auto
  have "command_prefix ?m (dc_clp d) (n + 1) ps"
    using command_prefix_kept [OF len entry_pages [OF en], of "dc_clp d" "n + 1" ps] Cons.prems(1,2) by simp
  then obtain u' where "same_pack v u'" "unit_ok u'" "heads_at_block u' = heads_at_block v + length ps" "un_seek_error u' = un_seek_error v"
    "dc_list True False v ?m (moved + 1) (n + 1) (read_pages [p] d) = dc_list True False u'
        (pages_put (\<lambda>k. block_of v (heads_at_block v + k)) ps ?m) (moved + 1 + of_nat (length ps)) (n + 1 + of_nat (length ps))
        (read_pages ps (read_pages [p] d))"
    using Cons.IH [of ?m "read_pages [p] d" "n + 1" v "moved + 1"] Cons.prems(2,3) rest v(3-5) same_pack_of [OF v(2)] by auto
  then show ?case using step v(2,4,5) same_pack_trans [of u v u'] same_pack_of [OF v(2)]
    by (intro exI [where x = u']) (simp add: ac_simps)
qed

lemma block_of_length:
  assumes "unit_ok u" "n < block_count (un_geometry u)"
  shows "length (block_of u n) = BLOCK_WORDS"
proof -
  obtain c h b where a: "address_of (un_geometry u) n = (c, h, b)" by (cases "address_of (un_geometry u) n")
  have "on_pack (un_geometry u) c h b" using address_on_pack [OF _ assms(2) a] assms(1) by (simp add: unit_ok_def)
  then show ?thesis using block_at_ok [OF assms(1)] a by (force simp: block_of_def)
qed

lemma pages_put_append: "pages_put f (ps @ qs) m = pages_put (\<lambda>k. f (length ps + k)) qs (pages_put f ps m)"
  by (induction ps arbitrary: f m) simp_all

lemma entry_after_pages:
  assumes "\<forall>p \<in> set ps. p + BLOCK_WORDS \<le> length m" "\<forall>i < length ps. length (f i) = BLOCK_WORDS"
    and "\<forall>p \<in> set ps. a < p \<or> p + BLOCK_WORDS \<le> a" "entry m a q again"
  shows "entry (pages_put f ps m) a q again"
  using assms
proof (induction ps arbitrary: f m)
  case (Cons p ps)
  have b: "length (map mw_of (f 0)) = BLOCK_WORDS" using Cons.prems(2) by auto
  then show ?case using Cons.prems entry_kept [OF b, of p m a q again]
    by (simp, intro Cons.IH) auto
qed simp

lemma list_reads:
  assumes "unit_ok u" "command_list main (dc_clp d) n ps" "ps \<noteq> []"
    and "\<forall>p \<in> set ps. clear_of (dc_clp d) n (length ps) p"
    and "heads_at_block u + length ps \<le> block_count (un_geometry u)"
    and good: "\<forall>i < length ps. header_good u (heads_at_block u + i) \<and> data_good u (heads_at_block u + i)"
  shows "\<exists>u'. same_pack u u' \<and> unit_ok u' \<and> heads_at_block u' = heads_at_block u + length ps - 1 \<and>
    un_seek_error u' = un_seek_error u \<and> dc_list True False u main moved n d =
      (moved + of_nat (length ps), u', pages_put (\<lambda>k. block_of u (heads_at_block u + k)) ps main, read_pages ps d)"
proof -
  obtain qs q where ps: "ps = qs @ [q]" using assms(3) by (cases ps rule: rev_cases) auto
  have pre: "command_prefix main (dc_clp d) n qs" "entry main (entry_at (dc_clp d) (n + of_nat (length qs))) q False"
    using assms(2) by (simp_all add: ps command_list_last)
  have clr: "\<forall>p \<in> set qs. clear_of (dc_clp d) n (length qs) p \<and>
      (entry_at (dc_clp d) (n + of_nat (length qs)) < p \<or> p + BLOCK_WORDS \<le> entry_at (dc_clp d) (n + of_nat (length qs)))"
    using assms(4) by (simp add: ps clear_of_last del: clear_of.simps)
  let ?f = "\<lambda>k. block_of u (heads_at_block u + k)"
  obtain u' where u': "same_pack u u'" "unit_ok u'" "heads_at_block u' = heads_at_block u + length qs"
    "un_seek_error u' = un_seek_error u" "dc_list True False u main moved n d =
      dc_list True False u' (pages_put ?f qs main) (moved + of_nat (length qs)) (n + of_nat (length qs)) (read_pages qs d)"
    using prefix_reads [OF assms(1) pre(1), of moved] clr assms(5) good by (auto simp: ps)
  note same = same_pack_of [OF u'(1)]
  have lens: "length (?f i) = BLOCK_WORDS" if "i < length ps" for i
  proof -
    have "heads_at_block u + i < block_count (un_geometry u)" using assms(5) that by simp
    then show ?thesis using block_of_length [OF assms(1)] by blast
  qed
  have fits: "\<forall>p \<in> set qs. p + BLOCK_WORDS \<le> length main" using command_list_fits [OF assms(2)] by (simp add: ps)
  have en: "entry (pages_put ?f qs main) (entry_at (dc_clp d) (n + of_nat (length qs))) q False"
    using entry_after_pages [OF fits _ _ pre(2)] clr lens by (simp add: ps)
  have g: "header_good u' (heads_at_block u')" "data_good u' (heads_at_block u')" using good by (simp_all add: ps same u'(3))
  have "dc_list True False u' (pages_put ?f qs main) (moved + of_nat (length qs)) (n + of_nat (length qs)) (read_pages qs d) =
      (moved + of_nat (length qs) + 1, u', put_at q (map mw_of (block_of u' (heads_at_block u'))) (pages_put ?f qs main),
       read_pages [q] (read_pages qs d))"
    by (simp add: dc_list_entry [OF en [folded read_pages_simps(2) [of qs d]]] move_reads [OF u'(2) g entry_pages [OF en]]
      noted_page Let_def del: read_pages_simps(3))
  moreover have "pages_put ?f (qs @ [q]) main = put_at q (map mw_of (?f (length qs))) (pages_put ?f qs main)"
    by (simp add: pages_put_append)
  ultimately show ?thesis using u' same by (intro exI [where x = u']) (simp add: ps)
qed

section \<open>START of a read\<close>

text \<open>An error that stops a transfer, and the controller a transfer leaves otherwise as it was.\<close>

definition dc_stopped :: "disk_controller \<Rightarrow> bool" where
  "dc_stopped d \<longleftrightarrow> dc_timeout d \<or> dc_nxm d \<or> dc_overrun d \<or> dc_header_ecc d \<or> dc_header_compare d \<or> dc_ecc_hard d \<or> dc_ecc_soft d"

definition same_registers :: "disk_controller \<Rightarrow> disk_controller \<Rightarrow> bool" where
  "same_registers d d' \<longleftrightarrow> dc_timed d' = dc_timed d \<and> dc_timing d' = dc_timing d \<and> dc_now d' = dc_now d \<and>
     dc_cmd d' = dc_cmd d \<and> dc_clp d' = dc_clp d"

text \<open>What is ready for a transfer: a drive in order on the selected unit, and a disk address on its pack.\<close>

definition ready :: "disk_controller \<Rightarrow> drive_unit \<Rightarrow> nat \<Rightarrow> bool" where
  "ready d u n \<longleftrightarrow> length (dc_units d) = UNITS \<and> dc_units d ! dc_selected d = Some u \<and> unit_ok u \<and>
     (case decode_da (dc_da d) of (c, h, b) \<Rightarrow>
       on_pack (un_geometry u) c h b \<and> block_number (un_geometry u) c h b = n)"

lemma selected_less: "dc_selected d < UNITS"
  by (simp add: dc_selected_def UNITS_def)

lemma ready_seek:
  assumes "ready d u n"
  obtains c h b v where "decode_da (dc_da d) = (c, h, b)" "unit_seek c h b u = (True, v)" "same_pack u v" "unit_ok v"
    "heads_at_block v = n" "un_seek_error v = un_seek_error u" "unit_position v = (c, h, b)"
proof -
  obtain c h b where a: "decode_da (dc_da d) = (c, h, b)" by (cases "decode_da (dc_da d)")
  then have p: "on_pack (un_geometry u) c h b" "block_number (un_geometry u) c h b = n" and ok: "unit_ok u"
    using assms by (simp_all add: ready_def)
  from seek_on_pack [OF ok p(1)] obtain v where "unit_seek c h b u = (True, v)" "same_pack u v" "unit_ok v"
    "unit_position v = (c, h, b)" "un_seek_error v = un_seek_error u" by blast
  moreover from this have "heads_at_block v = n"
    using p(2) same_pack_of(4) [of u v] by (simp add: heads_at_block_def unit_position_def)
  ultimately show thesis using that a by blast
qed

text \<open>The controller within a transfer: the flags clear, the drive taken off its unit.\<close>

definition taken :: "disk_controller \<Rightarrow> disk_controller" where
  "taken d = (dc_clear d)\<lparr>dc_units := (dc_units d)[dc_selected d := None]\<rparr>"

lemma taken_simps [simp]:
  "dc_clp (taken d) = dc_clp d" "dc_units (taken d) = (dc_units d)[dc_selected d := None]" "dc_da (taken d) = dc_da d"
  "dc_dma_written (taken d) = []" "same_registers d (taken d)" "\<not> dc_stopped (taken d)"
  by (simp_all add: taken_def dc_clear_def same_registers_def dc_stopped_def)

lemma dc_transfer_runs:
  assumes "ready d u n" "unit_seek c h b u = (True, v)" "decode_da (dc_da d) = (c, h, b)"
    and "dc_list read compare v main 0 0 (taken d) = (blocks, w, main', d')"
  shows "dc_transfer read compare main d = (blocks, main',
    d'\<lparr>dc_da := unit_da (of_nat (dc_selected d)) w, dc_units := (dc_units d')[dc_selected d := Some w]\<rparr>)"
proof -
  have "dc_selected (dc_clear d) = dc_selected d" "dc_units (dc_clear d) = dc_units d" "dc_da (dc_clear d) = dc_da d"
    by (simp_all add: dc_clear_def dc_selected_def)
  then show ?thesis using assms by (simp add: dc_transfer_def Let_def taken_def ready_def)
qed

lemma command_nibble: "dc_cmd d AND 0xf = k \<Longrightarrow> k AND 4 = 0 \<Longrightarrow> dc_cmd d AND 4 = 0" for k :: u32
proof -
  assume "dc_cmd d AND 0xf = k" "k AND 4 = 0"
  then have "dc_cmd d AND (0xf AND 4) = 0" by (simp only: and.assoc [symmetric])
  then show ?thesis by simp
qed

section \<open>A blank pack on a controller\<close>

lemma good_sector:
  assumes "address_of (un_geometry u) n = (c, h, b)" "sector_at u c h b = Some (header, data, cw)"
  shows "sector_header_at u c h b = Some header" "data_checkword_at u c h b = Some cw" "block_of u n = data"
    "header_good u n \<longleftrightarrow> sh_word header AND 0x0fffffff = header_of (un_geometry u) c h b AND 0x0fffffff \<and> header_checks header"
    "data_good u n \<longleftrightarrow> ecc_feed cw (fold (\<lambda>w. ecc_feed (le_bytes 4 w)) data 0) = 0"
  using assms by (auto simp: sector_at_def header_good_def data_good_def block_of_def split: option.splits)

lemma header_for_checks: "header_checks (header_for g c h b)" "sh_word (header_for g c h b) = header_of g c h b"
  by (simp_all add: header_checks_def header_for_def Let_def)

lemma data_good_written: "ecc_feed (data_checkword data) (fold (\<lambda>w. ecc_feed (le_bytes 4 w)) data 0) = 0"
  by (simp add: data_checkword_def ecc_own_checkword)

lemma blank_good:
  assumes "geometry_ok g" "n < block_count g"
  shows "header_good (unit_blank g) n" "data_good (unit_blank g) n" "block_of (unit_blank g) n = replicate BLOCK_WORDS 0"
    "address_of g n = (c, h, b) \<Longrightarrow> sector_at (unit_blank g) c h b =
      Some (header_for g c h b, replicate BLOCK_WORDS 0, data_checkword (replicate BLOCK_WORDS 0))"
proof -
  have at: "sector_at (unit_blank g) c h b =
      Some (header_for g c h b, replicate BLOCK_WORDS 0, data_checkword (replicate BLOCK_WORDS 0))"
    if a: "address_of g n = (c, h, b)" for c h b
  proof -
    have "on_pack g c h b" by (rule address_on_pack(1) [OF assms a])
    then obtain k where "lba_of (unit_blank g) c h b = Some k" using lba_of_on_pack(1) [of "unit_blank g" c h b] assms(1) by (auto simp: unit_blank_def)
    moreover have "un_written (unit_blank g) = []" "un_headers (unit_blank g) = []" "un_data_checkwords (unit_blank g) = []"
      "un_geometry (unit_blank g) = g" "unit_file_block n (unit_blank g) = Some (replicate BLOCK_WORDS 0)" for n
      by (simp_all add: unit_blank_def unit_file_block_def)
    ultimately show ?thesis by (simp add: sector_at_def sector_header_at_def data_checkword_at_def block_at_def)
  qed
  obtain x y z where a: "address_of (un_geometry (unit_blank g)) n = (x, y, z)" by (cases "address_of (un_geometry (unit_blank g)) n")
  have g: "un_geometry (unit_blank g) = g" by (simp add: unit_blank_def)
  note good = good_sector [OF a at [OF a [unfolded g]]]
  show "header_good (unit_blank g) n" "data_good (unit_blank g) n" "block_of (unit_blank g) n = replicate BLOCK_WORDS 0"
    unfolding good by (simp_all add: header_for_checks data_good_written g del: fold_replicate)
  show "address_of g n = (c, h, b) \<Longrightarrow> sector_at (unit_blank g) c h b =
      Some (header_for g c h b, replicate BLOCK_WORDS 0, data_checkword (replicate BLOCK_WORDS 0))" by (rule at)
qed

text \<open>A drive on unit 0, a command in the register, the command list and the disk address at 0.\<close>

definition attached :: "drive_unit \<Rightarrow> u32 \<Rightarrow> disk_controller" where
  "attached u cmd = (dc_attach 0 u disk_controller_default)\<lparr>dc_cmd := cmd\<rparr>"

lemma attached_simps [simp]:
  "dc_cmd (attached u cmd) = cmd" "dc_clp (attached u cmd) = 0" "dc_da (attached u cmd) = 0" "dc_selected (attached u cmd) = 0"
  "dc_units (attached u cmd) = (replicate UNITS None)[0 := Some u]"
  by (simp_all add: attached_def dc_attach_def disk_controller_default_def dc_selected_def)

lemma T80_ok: "geometry_ok T80" "block_count T80 = 69275" "un_geometry (unit_blank T80) = T80" "address_of T80 1 = (0, 0, 1)"
  by (simp_all add: geometry_ok_def T80_def block_count_def unit_blank_def address_of_def)

lemma attached_ready: "unit_ok u \<Longrightarrow> un_geometry u = T80 \<Longrightarrow> ready (attached u cmd) u 0"
  by (simp add: ready_def UNITS_def decode_da_def on_pack_def block_number_def T80_def)

section \<open>A read\<close>

text \<open>
  C25: a read moves the blocks the command list names. START with a drive in order on the selected unit, a list of
  pages in main memory, apart from one another and from the list, and as many blocks of the pack from the disk
  address on whose headers and data check, leaves each page holding the words of its block and the rest of
  memory as it was, with no error, the heads and the disk address at the last block, and the controller busy for
  the time the drive takes.
\<close>

theorem disk_reads_pages:
  assumes rdy: "ready d u n" and cmd: "dc_cmd d AND 0xf = 0"
    and list: "ps \<noteq> []" "command_list main (dc_clp d) 0 ps"
    and apart: "\<forall>p \<in> set ps. clear_of (dc_clp d) 0 (length ps) p" "sorted_wrt page_apart ps"
    and within: "n + length ps \<le> block_count (un_geometry u)"
    and good: "\<forall>i < length ps. header_good u (n + i) \<and> data_good u (n + i)"
  shows "\<exists>main' d' u' c h b. dc_start main d = Some (main', d') \<and> same_registers d d' \<and> \<not> dc_stopped d' \<and>
    same_pack u u' \<and> heads_at_block u' = n + length ps - 1 \<and> decode_da (dc_da d) = (c, h, b) \<and>
    dc_units d' = (dc_units d)[dc_selected d := Some u'] \<and> dc_da d' = unit_da (of_nat (dc_selected d)) u' \<and>
    dc_done_at d' = dc_now d + (if dc_timed d then dc_triggered (dc_access_ns (un_cylinder u) c b (of_nat (length ps)) d) d else 0) \<and>
    length main' = length main \<and> (\<forall>i < length ps. page_at (ps ! i) main' = block_of u (n + i)) \<and>
    (\<forall>a < length main. (\<forall>p \<in> set ps. \<not> in_page p a) \<longrightarrow> main' ! a = main ! a)"
proof -
  obtain c h b v where v: "decode_da (dc_da d) = (c, h, b)" "unit_seek c h b u = (True, v)" "same_pack u v" "unit_ok v"
    "heads_at_block v = n" "un_seek_error v = un_seek_error u" using ready_seek [OF rdy] by metis
  note same = same_pack_of [OF v(3)]
  let ?m = "pages_put (\<lambda>k. block_of u (n + k)) ps main"
  obtain w where w: "same_pack v w" "heads_at_block w = n + length ps - 1"
    "dc_list True False v main 0 0 (taken d) = (of_nat (length ps), w, ?m, read_pages ps (taken d))"
    using list_reads [OF v(4), of main "taken d" 0 ps 0] list apart(1) within good same v(5) by auto
  let ?d = "(read_pages ps (taken d))\<lparr>dc_da := unit_da (of_nat (dc_selected d)) w, dc_units := (dc_units d)[dc_selected d := Some w]\<rparr>"
  have rp: "dc_units (read_pages ps (taken d)) = (dc_units d)[dc_selected d := None]" by (simp add: read_pages_def)
  have tr: "dc_transfer True False main d = (of_nat (length ps), ?m, ?d)"
    using dc_transfer_runs [OF rdy v(2,1) w(3)] by (simp add: rp)
  have u: "dc_units d ! dc_selected d = Some u" "unit_ok u" using rdy by (simp_all add: ready_def)
  have d: "same_registers d ?d" "\<not> dc_stopped ?d"
    by (simp_all add: read_pages_def list(1) taken_def dc_clear_def same_registers_def dc_stopped_def)
  define t where "t = dc_access_ns (un_cylinder u) c b (of_nat (length ps)) d"
  have "dc_access_ns (un_cylinder u) c b (of_nat (length ps)) ?d = t" "dc_triggered t ?d = dc_triggered t d"
    using d(1) by (simp_all add: t_def dc_access_ns_def dc_triggered_def same_registers_def Let_def)
  then have start: "dc_start main d = Some (?m, dc_done_in t ?d)"
    using cmd tr u(1) v(1) by (simp add: dc_start_def Let_def dc_heads_at_def)
  have fits: "\<forall>p \<in> set ps. p + BLOCK_WORDS \<le> length main" using command_list_fits [OF list(2)] by blast
  have lens: "\<forall>i < length ps. length (block_of u (n + i)) = BLOCK_WORDS" using block_of_length [OF u(2)] within by auto
  note r = pages_put_nth [OF fits apart(2) lens]
  have "page_at (ps ! i) ?m = block_of u (n + i)" if "i < length ps" for i
    using r that fits lens by (intro page_atI) auto
  moreover have "dc_done_at (dc_done_in t ?d) = dc_now d + (if dc_timed d then dc_triggered t d else 0)"
    "same_registers d (dc_done_in t ?d)" "\<not> dc_stopped (dc_done_in t ?d)"
    "dc_units (dc_done_in t ?d) = (dc_units d)[dc_selected d := Some w]" "dc_da (dc_done_in t ?d) = unit_da (of_nat (dc_selected d)) w"
    using d \<open>dc_triggered t ?d = dc_triggered t d\<close> by (simp_all add: dc_done_in_def same_registers_def dc_stopped_def)
  ultimately show ?thesis
    using start r w(2) same_pack_trans [OF v(3) w(1)] v(1) unfolding t_def
    by (intro exI [where x = ?m] exI [where x = "dc_done_in t ?d"] exI [where x = w] exI [where x = c] exI [where x = h] exI [where x = b])
      (simp add: t_def)
qed

lemma disk_reads_pages_witness:
  "\<exists>main' d'. dc_start two_pages (attached (unit_blank T80) 0) = Some (main', d') \<and> \<not> dc_stopped d' \<and>
     page_at 512 main' = replicate BLOCK_WORDS 0"
proof -
  have "\<forall>i < length [256, 512::nat]. header_good (unit_blank T80) (0 + i) \<and> data_good (unit_blank T80) (0 + i)"
    using blank_good [OF T80_ok(1)] T80_ok(2) by simp
  then obtain main' d' where "dc_start two_pages (attached (unit_blank T80) 0) = Some (main', d')" "\<not> dc_stopped d'"
    "\<forall>i < length [256, 512::nat]. page_at ([256, 512] ! i) main' = block_of (unit_blank T80) (0 + i)"
    using disk_reads_pages [OF attached_ready [OF unit_ok_blank [OF T80_ok(1)] T80_ok(3), of 0], of "[256, 512]" two_pages]
      two_pages_listed T80_ok by (auto simp: page_apart_def BLOCK_WORDS_def)
  then show ?thesis using blank_good(3) [OF T80_ok(1), of 1] T80_ok(2) by force
qed

end
