(* ===== verification/DiskErrors.thy ===== *)
theory DiskErrors
  imports DiskTransfer
begin

text \<open>
  The errors that stop a disk transfer: a header that is not the one its address asks for, and data the check code
  finds struck, with the place of the burst in the error correction register.
\<close>

section \<open>A transfer that an error stops\<close>

text \<open>The pages before the block that stops a read, and the entry of that block.\<close>

definition stops_at :: "disk_controller \<Rightarrow> drive_unit \<Rightarrow> nat \<Rightarrow> u64 list \<Rightarrow> nat list \<Rightarrow> nat \<Rightarrow> bool \<Rightarrow> bool" where
  "stops_at d u n main ps q again \<longleftrightarrow> ready d u n \<and> dc_cmd d AND 0xf = 0 \<and> command_prefix main (dc_clp d) 0 ps \<and>
     entry main (entry_at (dc_clp d) (of_nat (length ps))) q again \<and>
     (\<forall>p \<in> set ps. clear_of (dc_clp d) 0 (Suc (length ps)) p) \<and> sorted_wrt page_apart ps \<and>
     n + length ps < block_count (un_geometry u) \<and>
     (\<forall>i < length ps. header_good u (n + i) \<and> data_good u (n + i))"

lemma command_prefix_fits: "command_prefix m clp n ps \<Longrightarrow> p \<in> set ps \<Longrightarrow> p + BLOCK_WORDS \<le> length m"
  by (induction ps arbitrary: n) (auto simp: entry_def)

text \<open>What a read stopped leaves: the pages before, and the drive and the disk address at the block that stopped it.\<close>

definition stopped_at ::
  "disk_controller \<Rightarrow> drive_unit \<Rightarrow> nat \<Rightarrow> u64 list \<Rightarrow> nat list \<Rightarrow> u64 list \<Rightarrow> disk_controller \<Rightarrow> bool" where
  "stopped_at d u n main ps main' d' \<longleftrightarrow> same_registers d d' \<and> length main' = length main \<and>
     (\<forall>i < length ps. page_at (ps ! i) main' = block_of u (n + i)) \<and>
     (\<forall>a < length main. (\<forall>p \<in> set ps. \<not> in_page p a) \<longrightarrow> main' ! a = main ! a) \<and>
     (\<exists>u'. same_pack u u' \<and> heads_at_block u' = n + length ps \<and> dc_units d' = (dc_units d)[dc_selected d := Some u'] \<and>
       dc_da d' = unit_da (of_nat (dc_selected d)) u')"

definition dc_errors :: "disk_controller \<Rightarrow> bool \<times> bool \<times> bool \<times> bool \<times> bool \<times> bool \<times> bool \<times> u32" where
  "dc_errors d = (dc_timeout d, dc_nxm d, dc_overrun d, dc_header_ecc d, dc_header_compare d, dc_ecc_hard d, dc_ecc_soft d, dc_ecc d)"

lemma read_stops:
  assumes s: "stops_at d u n main ps q again"
    and move: "\<And>w m e. same_pack u w \<Longrightarrow> unit_ok w \<Longrightarrow> heads_at_block w = n + length ps \<Longrightarrow> length m = length main \<Longrightarrow>
      dc_move_block True False q w m e = (False, w, m, f e)"
    and f: "\<And>e. same_registers d e \<Longrightarrow> same_registers d (f e)" "\<And>e. dc_units (f e) = dc_units e"
  shows "\<exists>main' d' e. dc_start main d = Some (main', d') \<and> stopped_at d u n main ps main' d' \<and>
    \<not> dc_stopped e \<and> dc_errors d' = dc_errors (f e)"
proof -
  have rdy: "ready d u n" and cmd: "dc_cmd d AND 0xf = 0" and pre: "command_prefix main (dc_clp d) 0 ps"
    and en: "entry main (entry_at (dc_clp d) (of_nat (length ps))) q again"
    and clr: "\<forall>p \<in> set ps. clear_of (dc_clp d) 0 (length ps) p"
      "\<forall>p \<in> set ps. entry_at (dc_clp d) (of_nat (length ps)) < p \<or> p + BLOCK_WORDS \<le> entry_at (dc_clp d) (of_nat (length ps))"
    and apart: "sorted_wrt page_apart ps" and within: "n + length ps < block_count (un_geometry u)"
    and good: "\<forall>i < length ps. header_good u (n + i) \<and> data_good u (n + i)"
    using s by (auto simp: stops_at_def clear_of_last simp del: clear_of.simps)
  obtain c h b v where v: "decode_da (dc_da d) = (c, h, b)" "unit_seek c h b u = (True, v)" "same_pack u v" "unit_ok v"
    "heads_at_block v = n" using ready_seek [OF rdy] by metis
  note same = same_pack_of [OF v(3)]
  let ?m = "pages_put (\<lambda>k. block_of u (n + k)) ps main"
  have fits: "\<forall>p \<in> set ps. p + BLOCK_WORDS \<le> length main" using command_prefix_fits [OF pre] by blast
  have u: "dc_units d ! dc_selected d = Some u" "unit_ok u" using rdy by (simp_all add: ready_def)
  have lens: "\<forall>i < length ps. length (block_of u (n + i)) = BLOCK_WORDS" using block_of_length [OF u(2)] within by auto
  note r = pages_put_nth [OF fits apart lens]
  obtain w where w: "same_pack v w" "unit_ok w" "heads_at_block w = n + length ps"
    "dc_list True False v main 0 0 (taken d) =
      dc_list True False w ?m (of_nat (length ps)) (of_nat (length ps)) (read_pages ps (taken d))"
    using prefix_reads [OF v(4), of main "taken d" 0 ps 0] pre clr(1) within good same v(5) by auto
  let ?e = "at_entry (of_nat (length ps)) (read_pages ps (taken d))"
  have "dc_move_block True False q w ?m ?e = (False, w, ?m, f ?e)"
    by (rule move [OF same_pack_trans [OF v(3) w(1)] w(2,3) conjunct1 [OF r]])
  then have "dc_list True False v main 0 0 (taken d) = (of_nat (length ps), w, ?m, f ?e)"
    unfolding w(4) using entry_after_pages [OF fits lens clr(2) en]
    by (subst dc_list_entry [where p = q and again = again]) simp_all
  note tr = dc_transfer_runs [OF rdy v(2,1) this]
  let ?da = "unit_da (of_nat (dc_selected d)) w" and ?us = "(dc_units d)[dc_selected d := Some w]"
  have e: "same_registers d ?e" "\<not> dc_stopped ?e" "dc_units ?e = (dc_units d)[dc_selected d := None]"
    by (simp_all add: at_entry_def read_pages_def same_registers_def dc_stopped_def taken_def dc_clear_def)
  define t where "t = dc_access_ns (un_cylinder u) c b (of_nat (length ps)) d"
  let ?d = "(f ?e)\<lparr>dc_da := ?da, dc_units := ?us\<rparr>"
  have "dc_access_ns (un_cylinder u) c b (of_nat (length ps)) ?d = t"
    using f(1) [OF e(1)] by (simp add: t_def dc_access_ns_def same_registers_def Let_def)
  then have start: "dc_start main d = Some (?m, dc_done_in t ?d)"
    using cmd tr u(1) v(1) f(2) e(3) by (simp add: dc_start_def Let_def dc_heads_at_def)
  have "page_at (ps ! i) ?m = block_of u (n + i)" if "i < length ps" for i
    using r that fits lens by (intro page_atI) auto
  then have "stopped_at d u n main ps ?m (dc_done_in t ?d)"
    using f(1) [OF e(1)] r w(3) same_pack_trans [OF v(3) w(1)] by (auto simp: stopped_at_def same_registers_def dc_done_in_def)
  moreover have "dc_errors (dc_done_in t ?d) = dc_errors (f ?e)" by (simp add: dc_errors_def dc_done_in_def)
  ultimately show ?thesis using start e(2) by blast
qed

text \<open>The blank pack with a sector laid down at block 1.\<close>

lemma laid_at_1:
  assumes "length data = BLOCK_WORDS" "length (sh_checkword header) = 4" "length cw = 4"
  obtains u where "unit_ok u" "un_geometry u = T80" "sector_at u 0 0 1 = Some (header, data, cw)"
    "header_good u 0" "data_good u 0" "block_of u 0 = replicate BLOCK_WORDS 0"
proof -
  let ?z = "unit_blank T80"
  have on: "on_pack (un_geometry ?z) 0 0 1" by (simp add: on_pack_def T80_ok) (simp add: T80_def)
  obtain u where u: "write_sector_at 0 0 1 header data cw ?z = (True, u)" "unit_ok u" "same_drive ?z u"
    "\<And>x y z. sector_at u x y z = (if (x, y, z) = (0, 0, 1) then Some (header, data, cw) else sector_at ?z x y z)"
    using sector_after_sector [OF unit_ok_blank [OF T80_ok(1)] on assms] by blast
  have g: "un_geometry u = T80" using u(3) by (simp add: same_drive_def T80_ok)
  have a: "address_of T80 0 = (0, 0, 0)" by (simp add: address_of_def)
  have "sector_at u 0 0 0 = Some (header_for T80 0 0 0, replicate BLOCK_WORDS 0, data_checkword (replicate BLOCK_WORDS 0))"
    using u(4) [of 0 0 0] blank_good(4) [OF T80_ok(1) _ a] T80_ok(2) by simp
  note good = good_sector [OF a [folded g] this]
  show thesis
    by (rule that [OF u(2) g]) (simp_all add: u(4) good header_for_checks data_good_written g del: fold_replicate)
qed

lemma two_pages_stops:
  assumes "unit_ok u" "un_geometry u = T80" "header_good u 0" "data_good u 0"
  shows "stops_at (attached u 0) u 0 two_pages [256] 512 False"
  using attached_ready [OF assms(1,2)] two_pages_listed assms
  by (simp add: stops_at_def T80_ok)

text \<open>
  C28: a header that is not the address's stops the read. The pages before it hold their blocks, the rest of memory is
  as it was, and the header compare error is the only one; the heads and the disk address are at the block, as a
  header whose checkword fails does with the header ECC error.
\<close>

theorem bad_header_stops:
  assumes s: "stops_at d u n main ps q again" and a: "address_of (un_geometry u) (n + length ps) = (c, h, b)"
    and x: "sector_header_at u c h b = Some x" "\<not> header_good u (n + length ps)"
  shows "\<exists>main' d'. dc_start main d = Some (main', d') \<and> stopped_at d u n main ps main' d' \<and> dc_lossage d' \<and>
    (let compare = (sh_word x AND 0x0fffffff \<noteq> header_of (un_geometry u) c h b AND 0x0fffffff)
     in dc_header_compare d' = compare \<and> dc_header_ecc d' = (\<not> compare)) \<and>
    \<not> (dc_timeout d' \<or> dc_nxm d' \<or> dc_overrun d' \<or> dc_ecc_hard d' \<or> dc_ecc_soft d')"
proof -
  define f where "f = (\<lambda>e. if sh_word x AND 0x0fffffff \<noteq> header_of (un_geometry u) c h b AND 0x0fffffff
    then e\<lparr>dc_header_compare := True\<rparr> else e\<lparr>dc_header_ecc := True\<rparr> :: disk_controller)"
  have bad: "sh_word x AND 0x0fffffff \<noteq> header_of (un_geometry u) c h b AND 0x0fffffff \<or> \<not> header_checks x"
    using x a by (auto simp: header_good_def)
  have "dc_move_block True False q w m e = (False, w, m, f e)"
    if w: "same_pack u w" "unit_ok w" "heads_at_block w = n + length ps" for w m e
  proof -
    have "unit_position w = (c, h, b)" using heads_address [OF w(2)] w(3) a same_pack_of(4) [OF w(1)] by simp
    moreover have "sector_header_at w c h b = Some x" using x(1) w(1) by (simp add: same_pack_header)
    ultimately show ?thesis using bad same_pack_of(4) [OF w(1)] by (auto simp: dc_move_block_def dc_check_header_def f_def)
  qed
  moreover have "same_registers d (f e)" if "same_registers d e" for e using that by (simp add: f_def same_registers_def)
  moreover have "dc_units (f e) = dc_units e" for e by (simp add: f_def)
  ultimately obtain main' d' e where r: "dc_start main d = Some (main', d')" "stopped_at d u n main ps main' d'"
    "\<not> dc_stopped e" "dc_errors d' = dc_errors (f e)"
    using read_stops [OF s, of f] by blast
  then show ?thesis
    by (intro exI [where x = main'] exI [where x = d'])
      (auto simp: dc_errors_def dc_stopped_def f_def dc_lossage_def Let_def split: if_splits)
qed

lemma bad_header_stops_witness:
  "\<exists>u main' d'. dc_start two_pages (attached u 0) = Some (main', d') \<and> dc_header_compare d' \<and> \<not> dc_header_ecc d' \<and> dc_lossage d'"
proof -
  obtain u where u: "unit_ok u" "un_geometry u = T80" "header_good u 0" "data_good u 0"
    "sector_at u 0 0 1 = Some (\<lparr>sh_word = 7, sh_checkword = [1, 2, 3, 4]\<rparr>, replicate BLOCK_WORDS 0, [5, 6, 7, 8])"
    by (rule laid_at_1 [of "replicate BLOCK_WORDS 0" "\<lparr>sh_word = 7, sh_checkword = [1, 2, 3, 4]\<rparr>" "[5, 6, 7, 8]"]) auto
  have a: "address_of (un_geometry u) (0 + length [256::nat]) = (0, 0, 1)" using T80_ok(4) by (simp add: u(2))
  note x = good_sector [OF a u(5)]
  have differs: "(7 :: u32) AND 0x0fffffff \<noteq> header_of (un_geometry u) 0 0 1 AND 0x0fffffff"
    by (simp add: u(2) header_of_def next_block_code_def T80_def)
  have "\<not> header_good u (0 + length [256::nat])" using differs unfolding x(4) by simp
  from bad_header_stops [OF two_pages_stops [OF u(1-4)] a x(1) this]
  show ?thesis using differs by (auto simp: Let_def)
qed

lemma of_nat_mask16: "k + 1 < 2 ^ 16 \<Longrightarrow> ((of_nat k + 1) AND 0xffff :: u32) = of_nat (k + 1)"
proof -
  assume "k + 1 < 2 ^ 16"
  then have "unat (of_nat (k + 1) :: u32) = k + 1" by (simp only: unat_of_nat) (simp add: take_bit_nat_eq_self)
  moreover have "(0xffff :: u32) = mask 16" by (simp add: mask_eq_exp_minus_1)
  moreover have "of_nat k + 1 = (of_nat (k + 1) :: u32)" by simp
  ultimately show ?thesis using \<open>k + 1 < 2 ^ 16\<close>
    by (metis unat_and_mask_mod mod_less word_unat_eq_iff)
qed

section \<open>A soft error\<close>

lemma ecc_feed_append: "ecc_feed (xs @ ys) e = ecc_feed ys (ecc_feed xs e)"
  by (simp add: ecc_feed_def)

lemma ecc_feed_words: "fold (\<lambda>w. ecc_feed (le_bytes 4 w)) ws e = ecc_feed (bytes_of_words ws) e"
  by (induction ws arbitrary: e) (simp_all add: bytes_of_words_def ecc_feed_append, simp add: ecc_feed_def)

lemma corrected_append:
  assumes "p \<noteq> 0" "a + ilog2 p < length xs"
  shows "corrected p a (xs @ ys) = corrected p a xs @ ys"
proof (rule nth_equalityI)
  fix i
  assume "i < length (corrected p a (xs @ ys))"
  moreover have "\<not> bit p (i - a)" if "\<not> i < length xs" using ilog2_bit(2) [OF assms(1), of "i - a"] that assms(2) by simp
  ultimately show "corrected p a (xs @ ys) ! i = (corrected p a xs @ ys) ! i"
    by (auto simp: corrected_def nth_append)
qed (simp add: corrected_def)

text \<open>The checkword of the words written, under the words a burst has struck.\<close>

lemma burst_in_block:
  assumes "length data = BLOCK_WORDS" "bit p 0" "ilog2 p \<le> 10" "a + ilog2 p < 8192"
    and struck: "disk_bits (bytes_of_words struck) = corrected p a (disk_bits (bytes_of_words data))"
  shows "ecc_trap (BLOCK_WORDS * 32) (ecc_feed (data_checkword data) (ecc_feed (bytes_of_words struck) 0)) = Some (p, a)"
    "ecc_feed (data_checkword data) (ecc_feed (bytes_of_words struck) 0) \<noteq> 0"
proof -
  let ?xs = "disk_bits (bytes_of_words data)" and ?cw = "disk_bits (data_checkword data)"
  have p: "p \<noteq> 0" using assms(2) by auto
  have len: "length ?xs = 8192" "length ?cw = 32"
    using assms(1) by (simp_all add: length_bytes_of_words BLOCK_WORDS_def data_checkword_def)
  have "ecc_feed (data_checkword data) (ecc_feed (bytes_of_words data) 0) = 0"
    by (simp add: data_checkword_def ecc_feed_words ecc_own_checkword)
  then have good: "feed_bits (?xs @ ?cw) 0 = 0" by (simp add: ecc_feed_feed_bits)
  have "ecc_feed (data_checkword data) (ecc_feed (bytes_of_words struck) 0) = feed_bits (corrected p a (?xs @ ?cw)) 0"
    using assms(4) len by (simp add: ecc_feed_feed_bits struck corrected_append [OF p])
  moreover have "ecc_trap 8192 (feed_bits (corrected p a (?xs @ ?cw)) 0) = Some (p, a)"
    by (rule burst_located_bits) (use assms good len in \<open>simp_all add: ECC_CYCLE_def del: feed_bits_simps\<close>)
  ultimately show "ecc_trap (BLOCK_WORDS * 32) (ecc_feed (data_checkword data) (ecc_feed (bytes_of_words struck) 0)) = Some (p, a)"
    by (simp add: BLOCK_WORDS_def)
  then show "ecc_feed (data_checkword data) (ecc_feed (bytes_of_words struck) 0) \<noteq> 0" by (auto simp: ecc_trap_def)
qed

text \<open>A block of zeros that a burst of two errors, ten bits apart, has struck at its bit 4000.\<close>

lemma le_from_le_bytes: "length b = 4 \<Longrightarrow> le_bytes 4 (from_le_bytes b :: u32) = b"
proof (rule nth_equalityI)
  fix i
  assume b: "length b = 4" and i: "i < length (le_bytes 4 (from_le_bytes b :: u32))"
  then show "le_bytes 4 (from_le_bytes b :: u32) ! i = b ! i"
    by (intro bit_word_eqI) (auto simp: le_bytes_def bit_from_le_bytes bit_drop_bit_eq bit_ucast_iff)
qed simp

lemma bytes_words: "length b = BLOCK_WORDS * 4 \<Longrightarrow> bytes_of_words (words_of_bytes b) = b"
proof -
  have "length b = n * 4 \<Longrightarrow> bytes_of_words (map from_le_bytes (chunks_exact n 4 b)) = b" for n
    by (induction n arbitrary: b) (simp_all add: bytes_of_words_def le_from_le_bytes)
  then show "length b = BLOCK_WORDS * 4 \<Longrightarrow> ?thesis" by (simp add: words_of_bytes_def)
qed

lemma struck_words:
  obtains struck where "length struck = BLOCK_WORDS"
    "disk_bits (bytes_of_words struck) = corrected p a (disk_bits (bytes_of_words (replicate BLOCK_WORDS 0)))"
proof -
  let ?z = "replicate BLOCK_WORDS (0 :: u32)"
  have "length (corrected p a (disk_bits (bytes_of_words ?z))) = 8 * (BLOCK_WORDS * 4)"
    by (simp add: corrected_def length_bytes_of_words BLOCK_WORDS_def)
  then obtain bytes where b: "length bytes = BLOCK_WORDS * 4" "disk_bits bytes = corrected p a (disk_bits (bytes_of_words ?z))"
    by (rule bits_are_bytes)
  show thesis by (rule that [of "words_of_bytes bytes"]) (simp_all add: bytes_words b)
qed

text \<open>
  C27: a burst the code can carry is a soft error that register 3 locates. When the block a read comes to carries the
  checkword of other data, from which it differs by a burst of at most eleven bits, the read stops with the soft
  error alone; the error correction register holds the burst's pattern and, counted from one, the place of its
  first bit. The pages before the block are read; memory is otherwise as it was, the block's own page included.
\<close>

theorem soft_error_located:
  assumes s: "stops_at d u n main ps q again" and a: "address_of (un_geometry u) (n + length ps) = (c, h, b)"
    and sector: "header_good u (n + length ps)" "data_checkword_at u c h b = Some (data_checkword data)" "length data = BLOCK_WORDS"
    and burst: "bit p 0" "ilog2 p \<le> 10" "at + ilog2 p < 8192"
      "disk_bits (bytes_of_words (block_of u (n + length ps))) = corrected p at (disk_bits (bytes_of_words data))"
  shows "\<exists>main' d'. dc_start main d = Some (main', d') \<and> stopped_at d u n main ps main' d' \<and> dc_lossage d' \<and>
    dc_ecc_soft d' \<and> dc_read 3 d' = (push_bit 16 (ucast p) OR of_nat (at + 1)) \<and>
    \<not> (dc_timeout d' \<or> dc_nxm d' \<or> dc_overrun d' \<or> dc_header_ecc d' \<or> dc_header_compare d' \<or> dc_ecc_hard d')"
proof -
  define f where "f = (\<lambda>e. e\<lparr>dc_ecc_soft := True, dc_ecc := push_bit 16 (ucast p) OR of_nat (at + 1)\<rparr> :: disk_controller)"
  have "at + 1 < 2 ^ 16" using burst(3) by simp
  then have low: "((of_nat at + 1) AND 0xffff :: u32) = of_nat (at + 1)" by (rule of_nat_mask16)
  let ?struck = "block_of u (n + length ps)"
  note located = burst_in_block [OF sector(3) burst]
  have "dc_move_block True False q w m e = (False, w, m, f e)"
    if w: "same_pack u w" "unit_ok w" "heads_at_block w = n + length ps" for w m e
  proof -
    note same = same_pack_of [OF w(1)]
    have pos: "unit_position w = (c, h, b)" using heads_address [OF w(2)] w(3) a same(4) by simp
    have "dc_check_data w (block_of w (heads_at_block w)) e = (False, f e)"
      using located sector(2) low by (simp add: dc_check_data_def pos same w(3) same_pack_data [OF w(1)] ecc_feed_words f_def Let_def)
    then show ?thesis using sector(1)
      by (simp add: dc_move_block_def check_header_good [OF w(2)] same w(3) read_block_heads(1) [OF w(2)])
  qed
  moreover have "same_registers d (f e)" if "same_registers d e" for e using that by (simp add: f_def same_registers_def)
  moreover have "dc_units (f e) = dc_units e" for e by (simp add: f_def)
  ultimately obtain main' d' e where r: "dc_start main d = Some (main', d')" "stopped_at d u n main ps main' d'"
    "\<not> dc_stopped e" "dc_errors d' = dc_errors (f e)"
    using read_stops [OF s, of f] by blast
  then show ?thesis
    by (intro exI [where x = main'] exI [where x = d'])
      (auto simp: dc_errors_def dc_stopped_def f_def dc_lossage_def dc_read_def)
qed

lemma soft_error_located_witness:
  "\<exists>u main' d'. dc_start two_pages (attached u 0) = Some (main', d') \<and> dc_ecc_soft d' \<and> dc_read 3 d' = 0x04010fa1"
proof -
  let ?z = "replicate BLOCK_WORDS (0 :: u32)"
  obtain struck where w: "length struck = BLOCK_WORDS"
    "disk_bits (bytes_of_words struck) = corrected 0x401 4000 (disk_bits (bytes_of_words ?z))" by (rule struck_words)
  obtain u where u: "unit_ok u" "un_geometry u = T80" "header_good u 0" "data_good u 0"
    "sector_at u 0 0 1 = Some (header_for T80 0 0 1, struck, data_checkword ?z)"
    by (rule laid_at_1 [of struck "header_for T80 0 0 1" "data_checkword ?z"])
      (auto simp: w header_for_def ecc_over_def data_checkword_def Let_def simp del: fold_replicate)
  have a: "address_of (un_geometry u) (0 + length [256::nat]) = (0, 0, 1)" using T80_ok(4) by (simp add: u(2))
  note x = good_sector [OF a u(5)]
  have "header_good u (0 + length [256::nat])" unfolding x(4) by (simp add: header_for_checks u(2))
  from soft_error_located [OF two_pages_stops [OF u(1-4)] a this x(2), where p = "0x401" and at = 4000]
  show ?thesis using w(2) x(3) by (auto simp: spans_ten)
qed

end
