(* ===== verification/DiskWrites.thy ===== *)
theory DiskWrites
  imports DiskErrors
begin

text \<open>
  The disk controller's writes: the blocks of the pack after a transfer along a command list.
\<close>

section \<open>One block\<close>

text \<open>The header and the data's checkword of a block.\<close>

definition header_on :: "drive_unit \<Rightarrow> nat \<Rightarrow> sector_header option" where
  "header_on u n = (case address_of (un_geometry u) n of (c, h, b) \<Rightarrow> sector_header_at u c h b)"

definition checkword_on :: "drive_unit \<Rightarrow> nat \<Rightarrow> u8 list option" where
  "checkword_on u n = (case address_of (un_geometry u) n of (c, h, b) \<Rightarrow> data_checkword_at u c h b)"

text \<open>
  The pack with pages written from a block on: each block written holds its page, with the page's own checkword, and
  checks; every other block has the words and the checkword it had; and every header of the pack is the header it was.
\<close>

definition written_pack :: "drive_unit \<Rightarrow> nat \<Rightarrow> u32 list list \<Rightarrow> drive_unit \<Rightarrow> bool" where
  "written_pack u n pages u' \<longleftrightarrow> unit_ok u' \<and> un_geometry u' = un_geometry u \<and> un_seek_error u' = un_seek_error u \<and>
     un_fault u' = un_fault u \<and> un_headers u' = un_headers u \<and>
     (\<forall>m < block_count (un_geometry u). header_on u' m = header_on u m \<and> header_good u' m = header_good u m \<and>
       (if n \<le> m \<and> m < n + length pages
        then block_of u' m = pages ! (m - n) \<and> checkword_on u' m = Some (data_checkword (pages ! (m - n))) \<and> data_good u' m
        else block_of u' m = block_of u m \<and> checkword_on u' m = checkword_on u m \<and> data_good u' m = data_good u m))"

lemma same_pack_on: "same_pack u u' \<Longrightarrow> header_on u' n = header_on u n \<and> checkword_on u' n = checkword_on u n \<and> un_headers u' = un_headers u"
  using same_pack_of(4) [of u u'] same_pack_header [of u u'] same_pack_data [of u u']
  by (simp add: header_on_def checkword_on_def) (auto simp: same_pack_def)

lemma written_pack_nil: "unit_ok u \<Longrightarrow> written_pack u n [] u"
  by (auto simp: written_pack_def)

lemma written_pack_moved:
  "written_pack u n ps v \<Longrightarrow> same_pack v w \<Longrightarrow> unit_ok w \<Longrightarrow> un_seek_error w = un_seek_error v \<Longrightarrow> written_pack u n ps w"
  by (auto simp: written_pack_def same_pack_of same_pack_on) (auto simp: same_pack_def)

lemma written_pack_Cons:
  assumes "written_pack u n [p] v" "written_pack v (n + 1) ps w"
  shows "written_pack u n (p # ps) w"
proof -
  let ?page = "\<lambda>u m q. block_of u m = q \<and> checkword_on u m = Some (data_checkword q) \<and> data_good u m"
  let ?same = "\<lambda>u' u m. block_of u' m = block_of u m \<and> checkword_on u' m = checkword_on u m \<and> data_good u' m = data_good u m"
  have "header_on w m = header_on u m \<and> header_good w m = header_good u m \<and>
      (if n \<le> m \<and> m < n + length (p # ps) then ?page w m ((p # ps) ! (m - n)) else ?same w u m)" if m: "m < block_count (un_geometry u)" for m
  proof -
    have v: "header_on v m = header_on u m \<and> header_good v m = header_good u m" "m = n \<Longrightarrow> ?page v m p" "m \<noteq> n \<Longrightarrow> ?same v u m"
      using assms(1) m by (auto simp: written_pack_def split: if_splits)
    have w: "header_on w m = header_on v m \<and> header_good w m = header_good v m"
      "n + 1 \<le> m \<and> m < n + 1 + length ps \<Longrightarrow> ?page w m (ps ! (m - (n + 1)))"
      "\<not> (n + 1 \<le> m \<and> m < n + 1 + length ps) \<Longrightarrow> ?same w v m"
      using assms m by (auto simp: written_pack_def split: if_splits)
    consider "m = n" | "n + 1 \<le> m \<and> m < n + 1 + length ps" | "m \<noteq> n" "\<not> (n + 1 \<le> m \<and> m < n + 1 + length ps)" by blast
    then show ?thesis
    proof cases
      case 2
      then show ?thesis using v(1) w(1,2) by (simp add: nth_Cons')
    qed (use v w in auto)
  qed
  then show ?thesis using assms by (simp add: written_pack_def)
qed

lemma move_writes:
  assumes ok: "unit_ok u" and hg: "header_good u (heads_at_block u)" and fits: "p + BLOCK_WORDS \<le> length main"
  shows "\<exists>u'. dc_move_block False c p u main d = (True, u', main, d) \<and> written_pack u (heads_at_block u) [page_at p main] u' \<and>
    unit_position u' = unit_position u"
proof -
  let ?g = "un_geometry u" and ?page = "page_at p main"
  have on: "on_pack ?g (un_cylinder u) (un_head u) (un_block u)" using ok by (simp add: unit_ok_def)
  have len: "length ?page = BLOCK_WORDS" using fits by (simp add: page_at_def)
  obtain v where v: "write_block_at (un_cylinder u) (un_head u) (un_block u) ?page u = (True, v)" "unit_ok v" "same_drive u v" "un_headers v = un_headers u"
    "\<And>x y z. sector_header_at v x y z = sector_header_at u x y z" "block_at v (un_cylinder u) (un_head u) (un_block u) = Some ?page"
    "data_checkword_at v (un_cylinder u) (un_head u) (un_block u) = Some (data_checkword ?page)"
    "\<And>x y z. (x, y, z) \<noteq> (un_cylinder u, un_head u, un_block u) \<Longrightarrow>
      block_at v x y z = block_at u x y z \<and> data_checkword_at v x y z = data_checkword_at u x y z"
    using sector_after_block [OF ok on len] by blast
  have g: "un_geometry v = ?g" "unit_position v = unit_position u" using v(3) by (simp_all add: same_drive_def)
  have "header_on v m = header_on u m \<and> header_good v m = header_good u m \<and>
      (if m = heads_at_block u then block_of v m = ?page \<and> checkword_on v m = Some (data_checkword ?page) \<and> data_good v m
       else block_of v m = block_of u m \<and> checkword_on v m = checkword_on u m \<and> data_good v m = data_good u m)" if m: "m < block_count ?g" for m
  proof -
    obtain x y z where a: "address_of ?g m = (x, y, z)" by (cases "address_of ?g m")
    have at: "(x, y, z) = (un_cylinder u, un_head u, un_block u) \<longleftrightarrow> m = heads_at_block u"
    proof
      assume "(x, y, z) = (un_cylinder u, un_head u, un_block u)"
      then show "m = heads_at_block u"
        using address_on_pack(2) [OF _ m a] ok by (simp add: unit_ok_def heads_at_block_def)
    next
      assume "m = heads_at_block u"
      then show "(x, y, z) = (un_cylinder u, un_head u, un_block u)"
        using heads_address [OF ok] a by (simp add: unit_position_def)
    qed
    have "header_on v m = header_on u m \<and> header_good v m = header_good u m" by (simp add: header_on_def header_good_def g a v(5))
    moreover have "block_of v m = ?page \<and> checkword_on v m = Some (data_checkword ?page) \<and> data_good v m" if "m = heads_at_block u"
      using at a that v(6,7) by (simp add: block_of_def checkword_on_def data_good_def g data_good_written)
    moreover have "block_of v m = block_of u m \<and> checkword_on v m = checkword_on u m \<and> data_good v m = data_good u m"
      if "m \<noteq> heads_at_block u"
      using at a that v(8) [of x y z] by (simp add: block_of_def checkword_on_def data_good_def g)
    ultimately show ?thesis by simp
  qed
  then have "written_pack u (heads_at_block u) [?page] v"
    using v(2,3,4) by (auto simp: written_pack_def same_drive_def le_Suc_eq split: if_splits)
  moreover have "dc_move_block False c p u main d = (True, v, main, d)"
    using fits v(1) by (simp add: dc_move_block_def check_header_good [OF ok hg] unit_write_block_def unit_position_def page_at_def)
  ultimately show ?thesis using g(2) by blast
qed

section \<open>The list\<close>

lemma written_heads: "un_geometry u' = un_geometry u \<Longrightarrow> unit_position u' = unit_position u \<Longrightarrow> heads_at_block u' = heads_at_block u"
  by (simp add: heads_at_block_def unit_position_def)

lemma list_writes:
  assumes "unit_ok u"
  shows "\<lbrakk>ps \<noteq> []; command_list main (dc_clp d) n ps; heads_at_block u + length ps \<le> block_count (un_geometry u);
      \<forall>i < length ps. header_good u (heads_at_block u + i)\<rbrakk> \<Longrightarrow>
    \<exists>u' d'. dc_list False c u main moved n d = (moved + of_nat (length ps), u', main, d') \<and>
      written_pack u (heads_at_block u) (map (\<lambda>p. page_at p main) ps) u' \<and> heads_at_block u' = heads_at_block u + length ps - 1 \<and>
      same_registers d d' \<and> dc_errors d' = dc_errors d \<and> dc_units d' = dc_units d"
  using assms
proof (induction ps arbitrary: u moved n d)
  case (Cons p ps)
  have en: "entry main (entry_at (dc_clp d) n) p (ps \<noteq> [])" using Cons.prems(2) by simp
  have "header_good u (heads_at_block u)" using Cons.prems(4) by auto
  then obtain v where v: "dc_move_block False c p u main (at_entry n d) = (True, v, main, at_entry n d)"
    "written_pack u (heads_at_block u) [page_at p main] v" "unit_position v = unit_position u"
    using move_writes [OF Cons.prems(5) _ entry_pages [OF en]] by blast
  have vg: "unit_ok v" "un_geometry v = un_geometry u" using v(2) by (simp_all add: written_pack_def)
  have vh: "heads_at_block v = heads_at_block u" by (rule written_heads [OF vg(2) v(3)])
  let ?d = "(at_entry n d)\<lparr>dc_last_memory_address := of_nat (p + BLOCK_WORDS - 1)\<rparr>"
  have d: "same_registers d ?d" "dc_errors ?d = dc_errors d" "dc_units ?d = dc_units d" "dc_clp ?d = dc_clp d"
    by (simp_all add: at_entry_def same_registers_def dc_errors_def)
  show ?case
  proof (cases "ps = []")
    case True
    then show ?thesis using v(2) vh d dc_list_entry [OF en] v(1)
      by (intro exI [where x = v] exI [where x = ?d]) simp
  next
    case False
    obtain w where w: "next_block v = (True, w)" "same_pack v w" "unit_ok w" "heads_at_block w = heads_at_block u + 1"
      "un_seek_error w = un_seek_error v"
      using next_block_steps [OF vg(1)] vg(2) vh Cons.prems(3) False by (cases ps) auto
    have step: "dc_list False c u main moved n d = dc_list False c w main (moved + 1) (n + 1) ?d"
      using dc_list_entry [OF en] v(1) w(1) False by simp
    have hg: "\<forall>i < length ps. header_good w (heads_at_block w + i)"
    proof (intro allI impI)
      fix i
      assume "i < length ps"
      then have "header_good u (heads_at_block u + Suc i)" "heads_at_block u + Suc i < block_count (un_geometry u)"
        using Cons.prems(3,4) by (auto simp del: add_Suc_right)
      then show "header_good w (heads_at_block w + i)"
        using v(2) w(4) same_pack_of(2) [OF w(2)] by (simp add: written_pack_def)
    qed
    have "command_list main (dc_clp ?d) (n + 1) ps" "heads_at_block w + length ps \<le> block_count (un_geometry w)"
      using Cons.prems(2,3) d(4) w(4) same_pack_of(4) [OF w(2)] vg(2) by simp_all
    from Cons.IH [OF False this hg w(3), of "moved + 1"] obtain u' d' where
      r: "dc_list False c w main (moved + 1) (n + 1) ?d = (moved + 1 + of_nat (length ps), u', main, d')"
      "written_pack w (heads_at_block w) (map (\<lambda>p. page_at p main) ps) u'" "heads_at_block u' = heads_at_block w + length ps - 1"
      "same_registers ?d d'" "dc_errors d' = dc_errors ?d" "dc_units d' = dc_units ?d"
      by blast
    have "written_pack u (heads_at_block u) (map (\<lambda>p. page_at p main) (p # ps)) u'"
      using written_pack_Cons [OF written_pack_moved [OF v(2) w(2,3,5)], of "map (\<lambda>p. page_at p main) ps" u'] r(2) w(4) by simp
    then show ?thesis using step r w(4) d by (intro exI [where x = u'] exI [where x = d']) (auto simp: same_registers_def)
  qed
qed simp

text \<open>
  C26: a write moves the pages the command list names. START with a drive in order that may be written, a list of
  pages in main memory and as many blocks of the pack from the disk address on whose headers are right, leaves
  each block holding the low words of its page with the checkword made of them, every other block with the words and
  the checkword it had, every header of the pack the header it was, and memory as it was, with no error and the heads
  at the last block.
\<close>

theorem disk_writes_pages:
  assumes rdy: "ready d u n" and cmd: "dc_cmd d AND 0xf = 9" "\<not> un_read_only u"
    and list: "ps \<noteq> []" "command_list main (dc_clp d) 0 ps"
    and within: "n + length ps \<le> block_count (un_geometry u)"
    and good: "\<forall>i < length ps. header_good u (n + i)"
  shows "\<exists>d' u'. dc_start main d = Some (main, d') \<and> same_registers d d' \<and> \<not> dc_stopped d' \<and>
    dc_units d' = (dc_units d)[dc_selected d := Some u'] \<and> dc_da d' = unit_da (of_nat (dc_selected d)) u' \<and>
    heads_at_block u' = n + length ps - 1 \<and> written_pack u n (map (\<lambda>p. page_at p main) ps) u'"
proof -
  obtain c h b v where v: "decode_da (dc_da d) = (c, h, b)" "unit_seek c h b u = (True, v)" "same_pack u v" "unit_ok v"
    "heads_at_block v = n" "un_seek_error v = un_seek_error u" using ready_seek [OF rdy] by metis
  note same = same_pack_of [OF v(3)]
  have u: "dc_units d ! dc_selected d = Some u" "unit_ok u" using rdy by (simp_all add: ready_def)
  have wp: "written_pack u n [] v" using written_pack_moved [OF written_pack_nil [OF u(2)] v(3,4,6)] .
  obtain w e where w: "dc_list False False v main 0 0 (taken d) = (of_nat (length ps), w, main, e)"
    "written_pack v n (map (\<lambda>p. page_at p main) ps) w" "heads_at_block w = n + length ps - 1"
    "same_registers (taken d) e" "dc_errors e = dc_errors (taken d)" "dc_units e = dc_units (taken d)"
    using list_writes [OF v(4) list(1), of main "taken d" 0 False 0] list(2) within good same v(5) by auto
  let ?d = "e\<lparr>dc_da := unit_da (of_nat (dc_selected d)) w, dc_units := (dc_units d)[dc_selected d := Some w]\<rparr>"
  have tr: "dc_transfer False False main d = (of_nat (length ps), main, ?d)"
    using dc_transfer_runs [OF rdy v(2,1) w(1)] by (simp add: w(6))
  have "same_registers d ?d" using w(4) by (simp add: same_registers_def taken_def dc_clear_def)
  moreover have "\<not> dc_stopped ?d" using w(5) by (simp add: dc_errors_def dc_stopped_def taken_def dc_clear_def)
  moreover have "written_pack u n (map (\<lambda>p. page_at p main) ps) w"
    using w(2) wp by (auto simp: written_pack_def same same_pack_on [OF v(3)])
  moreover have "dc_start main d = Some (main, dc_done_in (dc_access_ns (un_cylinder u) c b (of_nat (length ps)) ?d) ?d)"
    using cmd tr u(1) v(1) by (simp add: dc_start_def Let_def dc_heads_at_def dc_read_only_def)
  ultimately show ?thesis using w(3)
    by (intro exI [where x = "dc_done_in (dc_access_ns (un_cylinder u) c b (of_nat (length ps)) ?d) ?d"] exI [where x = w])
      (simp add: dc_done_in_def same_registers_def dc_stopped_def)
qed

lemma disk_writes_pages_witness:
  "\<exists>d' u'. dc_start two_pages (attached (unit_blank T80) 9) = Some (two_pages, d') \<and> dc_units d' ! 0 = Some u' \<and>
     block_of u' 1 = page_at 512 two_pages \<and> block_of u' 2 = replicate BLOCK_WORDS 0"
proof -
  have good: "\<forall>i < length [256, 512::nat]. header_good (unit_blank T80) (0 + i)"
    using blank_good [OF T80_ok(1)] T80_ok(2) by simp
  have ro: "\<not> un_read_only (unit_blank T80)" by (simp add: unit_blank_def)
  obtain d' u' where r: "dc_start two_pages (attached (unit_blank T80) 9) = Some (two_pages, d')"
    "dc_units d' = ((replicate UNITS None)[0 := Some (unit_blank T80)])[0 := Some u']"
    "written_pack (unit_blank T80) 0 (map (\<lambda>p. page_at p two_pages) [256, 512]) u'"
    using disk_writes_pages [OF attached_ready [OF unit_ok_blank [OF T80_ok(1)] T80_ok(3), of 9], of "[256, 512]" two_pages]
      good ro two_pages_listed T80_ok by auto
  from r(3) have p: "\<forall>m < 69275. block_of u' m = (if 0 \<le> m \<and> m < 0 + length [page_at 256 two_pages, page_at 512 two_pages]
        then [page_at 256 two_pages, page_at 512 two_pages] ! (m - 0) else block_of (unit_blank T80) m)"
    unfolding written_pack_def T80_ok by (auto simp del: One_nat_def)
  have "block_of u' 1 = page_at 512 two_pages" "block_of u' 2 = replicate BLOCK_WORDS 0"
    using p [rule_format, of 1] p [rule_format, of 2] blank_good(3) [OF T80_ok(1), of 2] T80_ok(2) by simp_all
  moreover have "dc_units d' ! 0 = Some u'" using r(2) by (simp add: UNITS_def)
  ultimately show ?thesis using r(1) by blast
qed

end
