(* ===== verification/DiskTrack.thy ===== *)
theory DiskTrack
  imports DiskWrites
begin

text \<open>
  Read All and Write All: the track's bytes as they are read and laid down again, and when the two commands return.
\<close>

section \<open>When START returns\<close>

text \<open>An entry of the command list that sends Write All on to the next one.\<close>

definition goes_on :: "u64 list \<Rightarrow> u32 \<Rightarrow> u32 \<Rightarrow> bool" where
  "goes_on main clp n \<longleftrightarrow> (\<exists>p. entry main (entry_at clp n) p True)"

lemma goes_on_entry:
  "goes_on main clp n \<longleftrightarrow> entry_at clp n < length main \<and> mw_low (main ! entry_at clp n) AND 1 \<noteq> 0 \<and>
     unat (mw_low (main ! entry_at clp n) AND 0x003fff00) + BLOCK_WORDS \<le> length main"
  by (auto simp: goes_on_def entry_def)

lemma write_all_page_entry: "\<exists>x'. write_all_page p main x d =
    (p + BLOCK_WORDS \<le> length main, main, x', if p + BLOCK_WORDS \<le> length main then d else d\<lparr>dc_nxm := True\<rparr>)"
  by (auto simp: write_all_page_def)

text \<open>One step of the walk: on, with more bytes, or done.\<close>

lemma write_all_step:
  "if goes_on main (dc_clp d) n
   then \<exists>x' d'. dc_clp d' = dc_clp d \<and> each_ccw write_all_page n main x d = each_ccw write_all_page (n + 1) main x' d'
   else each_ccw write_all_page n main x d \<noteq> None"
proof -
  let ?a = "entry_at (dc_clp d) n" and ?d = "at_entry n d"
  let ?p = "unat (mw_low (main ! ?a) AND 0x003fff00)"
  obtain x' where x': "write_all_page ?p main x ?d =
    (?p + BLOCK_WORDS \<le> length main, main, x', if ?p + BLOCK_WORDS \<le> length main then ?d else ?d\<lparr>dc_nxm := True\<rparr>)"
    using write_all_page_entry by blast
  have clp: "dc_clp ?d = dc_clp d" by (simp add: at_entry_def)
  have here: "each_ccw write_all_page n main x d =
    (if length main \<le> ?a then Some (main, x, (d\<lparr>dc_last_memory_address := clp_at (dc_clp d) n, dc_ccw_cycle := True\<rparr>)\<lparr>dc_nxm := True\<rparr>)
     else if \<not> ?p + BLOCK_WORDS \<le> length main then Some (main, x', ?d\<lparr>dc_nxm := True\<rparr>)
     else if mw_low (main ! ?a) AND 1 = 0 then Some (main, x', ?d\<lparr>dc_last_memory_address := of_nat (?p + BLOCK_WORDS - 1)\<rparr>)
     else each_ccw write_all_page (n + 1) main x' (?d\<lparr>dc_last_memory_address := of_nat (?p + BLOCK_WORDS - 1)\<rparr>))"
    using x' by (subst each_ccw.simps) (simp add: entry_at_def at_entry_def Let_def)
  show ?thesis
  proof (cases "goes_on main (dc_clp d) n")
    case True
    then have "each_ccw write_all_page n main x d =
        each_ccw write_all_page (n + 1) main x' (?d\<lparr>dc_last_memory_address := of_nat (?p + BLOCK_WORDS - 1)\<rparr>)"
      using here by (simp add: goes_on_entry)
    moreover have "dc_clp (?d\<lparr>dc_last_memory_address := of_nat (?p + BLOCK_WORDS - 1)\<rparr>) = dc_clp d" by (simp add: clp)
    ultimately show ?thesis using True by (simp only: if_True) blast
  next
    case False
    then have "length main \<le> ?a \<or> \<not> ?p + BLOCK_WORDS \<le> length main \<or> mw_low (main ! ?a) AND 1 = 0"
      by (auto simp: goes_on_entry)
    then have "each_ccw write_all_page n main x d \<noteq> None" unfolding here by auto
    then show ?thesis using False by simp
  qed
qed

lemma write_all_ends:
  "\<not> goes_on main (dc_clp d) (n + of_nat k) \<Longrightarrow> each_ccw write_all_page n main x d \<noteq> None"
proof (induction k arbitrary: n x d)
  case 0
  then show ?case using write_all_step [of main d n x] by simp
next
  case (Suc k)
  show ?case
  proof (cases "goes_on main (dc_clp d) n")
    case True
    then obtain x' d' where "dc_clp d' = dc_clp d"
      "each_ccw write_all_page n main x d = each_ccw write_all_page (n + 1) main x' d'"
      using write_all_step [of main d n x] by auto
    then show ?thesis using Suc.IH [of d' "n + 1" x'] Suc.prems by (simp add: ac_simps)
  qed (use write_all_step [of main d n x] in simp)
qed

lemma write_all_never:
  assumes "each_ccw write_all_page n main x d = Some r"
  shows "\<exists>k. \<not> goes_on main (dc_clp d) k"
proof -
  let ?P = "\<lambda>f n main x d r. f = write_all_page \<longrightarrow> (\<exists>k. \<not> goes_on main (dc_clp d) k)"
  have "?P write_all_page n main x d r"
  proof (rule each_ccw.raw_induct [where P = ?P and xa = "((((write_all_page, n), main), x), d)" and y = r, unfolded prod.case])
    show "each_ccw write_all_page n main x d = Some r" by (rule assms)
    fix rec f n main x d r
    assume IH: "\<And>n main x d b y. rec n main x d b = Some y \<Longrightarrow> ?P n main x d b y"
      and step: "(let clp = clp_at (dc_clp d) n; d = d\<lparr>dc_last_memory_address := clp, dc_ccw_cycle := True\<rparr>
      in if length main \<le> unat clp then Some (main, x, d\<lparr>dc_nxm := True\<rparr>)
         else let d = d\<lparr>dc_ccw_cycle := False\<rparr>; ccw = mw_low (main ! unat clp); page = unat (ccw AND 0x003fff00)
         in case f page main x d of (go, main, x, d) \<Rightarrow>
           if \<not> go then Some (main, x, d)
           else let d = d\<lparr>dc_last_memory_address := of_nat (page + BLOCK_WORDS - 1)\<rparr>
           in if ccw AND 1 = 0 then Some (main, x, d) else rec f (n + 1) main x d) = Some r"
    show "?P f n main x d r"
    proof (intro impI, rule ccontr)
      assume f: "f = write_all_page" and all: "\<not> (\<exists>k. \<not> goes_on main (dc_clp d) k)"
      let ?a = "entry_at (dc_clp d) n"
      let ?p = "unat (mw_low (main ! ?a) AND 0x003fff00)"
      have on: "?a < length main" "mw_low (main ! ?a) AND 1 \<noteq> 0" "?p + BLOCK_WORDS \<le> length main"
        using all by (auto simp: goes_on_entry)
      obtain x' where "write_all_page ?p main x (at_entry n d) = (True, main, x', at_entry n d)"
        using write_all_page_entry [of ?p main x "at_entry n d"] on(3) by auto
      then have "rec f (n + 1) main x' ((at_entry n d)\<lparr>dc_last_memory_address := of_nat (?p + BLOCK_WORDS - 1)\<rparr>) = Some r"
        using step on(1,2) f by (simp add: entry_at_def at_entry_def Let_def)
      from IH [OF this] f all show False by (simp add: at_entry_def)
    qed
  qed
  then show ?thesis by simp
qed

text \<open>
  C29: when START returns. START returns for every command but a Read All, whatever the registers, the pack and memory
  are, except for a Write All, with a drive that may be written and a disk address on its pack, whose command list
  never comes to an entry without the More flag, or out of main memory: that one never does.
\<close>

theorem start_returns:
  assumes "dc_cmd d AND 0xf \<noteq> 2"
  shows "dc_start main d \<noteq> None \<longleftrightarrow>
    \<not> (dc_cmd d AND 0xf = 11 \<and> (\<exists>u. dc_units d ! dc_selected d = Some u \<and> \<not> un_read_only u \<and>
        (case decode_da (dc_da d) of (c, h, b) \<Rightarrow> fst (unit_seek c h b u))) \<and>
      (\<forall>n. goes_on main (dc_clp d) n))"
proof (cases "dc_cmd d AND 0xf = 11 \<and> \<not> dc_read_only d")
  case False
  then have "dc_start main d \<noteq> None" using assms by (auto simp: dc_start_def Let_def split: prod.split)
  moreover have "\<not> (dc_cmd d AND 0xf = 11 \<and> (\<exists>u. dc_units d ! dc_selected d = Some u \<and> \<not> un_read_only u))"
    using False by (auto simp: dc_read_only_def)
  ultimately show ?thesis by blast
next
  case True
  then have cmd: "dc_cmd d AND 0xf = 11" and ro: "\<not> dc_read_only d" by auto
  have channel: "dc_cmd d AND 4 = 0" by (rule command_nibble [OF cmd]) simp
  obtain c h b where a: "decode_da (dc_da d) = (c, h, b)" by (cases "decode_da (dc_da d)")
  show ?thesis
  proof (cases "dc_units d ! dc_selected d")
    case None
    then show ?thesis by (simp add: dc_start_def channel)
  next
    case (Some u)
    have sel: "dc_selected (dc_clear d) = dc_selected d" "dc_units (dc_clear d) = dc_units d" "dc_da (dc_clear d) = dc_da d"
      by (simp_all add: dc_clear_def dc_selected_def)
    have "dc_start main d \<noteq> None \<longleftrightarrow> dc_transfer_all False main d \<noteq> None"
      using cmd ro Some a by (simp add: dc_start_def)
    also have "\<dots> \<longleftrightarrow> \<not> fst (unit_seek c h b u) \<or> each_ccw write_all_page 0 main [] (taken d) \<noteq> None"
      by (cases "unit_seek c h b u") (auto simp: dc_transfer_all_def Let_def sel Some a taken_def dc_write_all_bytes_def)
    also have "\<dots> \<longleftrightarrow> \<not> fst (unit_seek c h b u) \<or> (\<exists>k. \<not> goes_on main (dc_clp d) k)"
    proof -
      have "each_ccw write_all_page 0 main [] (taken d) \<noteq> None \<longleftrightarrow> (\<exists>k. \<not> goes_on main (dc_clp d) k)"
      proof
        assume "\<exists>k. \<not> goes_on main (dc_clp d) k"
        then obtain k :: u32 where "\<not> goes_on main (dc_clp (taken d)) (0 + of_nat (unat k))" by auto
        then show "each_ccw write_all_page 0 main [] (taken d) \<noteq> None" by (rule write_all_ends)
      qed (use write_all_never in fastforce)
      then show ?thesis by simp
    qed
    finally show ?thesis using Some a cmd ro by (auto simp: dc_read_only_def)
  qed
qed

text \<open>A Write All of memory that is all entries with the More flag.\<close>

lemma start_returns_witness:
  "dc_start (replicate 65536 1) ((dc_attach 0 (unit_blank T80) disk_controller_default)\<lparr>dc_cmd := 11\<rparr>) = None"
proof -
  let ?d = "(dc_attach 0 (unit_blank T80) disk_controller_default)\<lparr>dc_cmd := 11\<rparr>"
  have u: "dc_units ?d ! dc_selected ?d = Some (unit_blank T80)"
    by (simp add: dc_attach_def disk_controller_default_def dc_selected_def UNITS_def)
  have a: "decode_da (dc_da ?d) = (0, 0, 0)" by (simp add: decode_da_def dc_attach_def disk_controller_default_def)
  have "goes_on (replicate 65536 1) (dc_clp ?d) n" for n
  proof -
    have "entry_at (dc_clp ?d) n < 65536"
      using unat_and_mask_mod [of n 16] by (simp add: entry_at_def clp_at_def dc_attach_def disk_controller_default_def mask_eq_exp_minus_1)
    then show ?thesis by (simp add: goes_on_entry mw_low_def BLOCK_WORDS_def)
  qed
  then have "\<not> (dc_start (replicate 65536 1) ?d \<noteq> None)"
    using start_returns [of ?d "replicate 65536 1"] u a by (simp add: unit_seek_def unit_blank_def)
  then show ?thesis by blast
qed

section \<open>A track read is a track to lay down\<close>

text \<open>The sector of a block, as Read All finds it.\<close>

definition laid :: "drive_unit \<Rightarrow> u32 \<Rightarrow> u32 \<Rightarrow> u32 \<Rightarrow> u8 list" where
  "laid u c h b = (case the (sector_at u c h b) of (header, data, cw) \<Rightarrow>
     sector_image_laid (sh_word header) (sh_checkword header) data cw)"

definition sector_fits :: "drive_unit \<Rightarrow> u32 \<Rightarrow> u32 \<Rightarrow> u32 \<Rightarrow> bool" where
  "sector_fits u c h b \<longleftrightarrow> (\<exists>header data cw. sector_at u c h b = Some (header, data, cw) \<and> length data = BLOCK_WORDS \<and>
     length (sh_checkword header) = 4 \<and> length cw = 4 \<and> sector_header_at u c h b = Some header \<and>
     block_at u c h b = Some data \<and> data_checkword_at u c h b = Some cw)"

lemma sector_fits_ok:
  assumes "unit_ok u" "on_pack (un_geometry u) c h b"
  shows "sector_fits u c h b"
proof -
  have g: "geometry_ok (un_geometry u)" using assms(1) by (simp add: unit_ok_def)
  obtain n where n: "lba_of u c h b = Some n" using lba_of_on_pack(1) [OF g assms(2)] by blast
  obtain header data cw where s: "sector_header_at u c h b = Some header" "block_at u c h b = Some data"
    "data_checkword_at u c h b = Some cw" "sector_at u c h b = Some (header, data, cw)"
    using sector_at_some [OF assms] by blast
  have "length (sh_checkword x) = 4" if "map_of (un_headers u) n = Some x" for x
    using assms(1) map_of_SomeD [OF that] by (auto simp: unit_ok_def map_ok_def)
  then have "length (sh_checkword header) = 4"
    using s(1) n by (auto simp: sector_header_at_def header_for_def ecc_over_def Let_def split: option.splits)
  moreover have "length x = 4" if "map_of (un_data_checkwords u) n = Some x" for x
    using assms(1) map_of_SomeD [OF that] by (auto simp: unit_ok_def map_ok_def)
  then have "length cw = 4"
    using s(3) n by (auto simp: data_checkword_at_def data_checkword_def split: option.splits)
  moreover have "length data = BLOCK_WORDS" using block_at_ok [OF assms] s(2) by auto
  ultimately show ?thesis using s by (auto simp: sector_fits_def)
qed

lemma length_laid: "sector_fits u c h b \<Longrightarrow> length (laid u c h b) = SECTOR_BYTES"
  by (auto simp: sector_fits_def laid_def sector_image_laid_def length_bytes_of_words format_sizes)

lemma parse_laid_sector:
  assumes "sector_at u c h b = Some (header, data, cw)" "sector_fits u c h b"
  shows "\<exists>s. parse_sector (disk_bits (laid u c h b)) = Some s \<and> sc_data s = data \<and> sc_data_checkword s = cw \<and>
    \<lparr>sh_word = sc_header s, sh_checkword = sc_header_checkword s\<rparr> = header"
  using assms parse_laid [of "sh_checkword header" data cw "sh_word header" "[]"]
  by (auto simp: sector_fits_def laid_def)

text \<open>One sector laid down.\<close>

lemma lay_one:
  assumes ok: "unit_ok v" and p: "on_pack (un_geometry v) c h b" and s: "sector_fits u c h b"
    and here: "b = (from + k) mod dg_blocks_per_track (un_geometry v)"
  shows "\<exists>w. lay_down_track c h from (laid u c h b @ rest) k v = lay_down_track c h from rest (k + 1) w \<and>
    unit_ok w \<and> same_drive v w \<and>
    (\<forall>x y z. sector_at w x y z = (if (x, y, z) = (c, h, b) then sector_at u c h b else sector_at v x y z))"
proof -
  obtain header data cw where f: "sector_at u c h b = Some (header, data, cw)" "length data = BLOCK_WORDS"
    "length (sh_checkword header) = 4" "length cw = 4" using s by (auto simp: sector_fits_def)
  obtain w where w: "write_sector_at c h b header data cw v = (True, w)" "unit_ok w" "same_drive v w"
    "\<forall>x y z. sector_at w x y z = (if (x, y, z) = (c, h, b) then Some (header, data, cw) else sector_at v x y z)"
    using sector_after_sector [OF ok p f(2-4)] by blast
  obtain t where t: "parse_sector (disk_bits (laid u c h b)) = Some t" "sc_data t = data" "sc_data_checkword t = cw"
    "\<lparr>sh_word = sc_header t, sh_checkword = sc_header_checkword t\<rparr> = header"
    using parse_laid_sector [OF f(1) s] by blast
  have "lay_down_track c h from (laid u c h b @ rest) k v = lay_down_track c h from rest (k + 1) w"
    using t w(1) here [symmetric] length_laid [OF s] by (subst lay_down_track.simps) (simp add: Let_def)
  then show ?thesis using w f(1) by auto
qed

lemma mod_below: "x < (n :: u32) \<Longrightarrow> x mod n = x"
  by (simp add: word_unat_eq_iff unat_mod_distrib word_less_nat_alt)

lemma lay_run:
  assumes u: "\<And>b. b < dg_blocks_per_track g \<Longrightarrow> sector_fits u c h b"
    and c: "c < dg_cylinders g" "h < dg_heads g"
  shows "\<lbrakk>unit_ok v; un_geometry v = g; f + k + m \<le> unat (dg_blocks_per_track g)\<rbrakk> \<Longrightarrow>
    \<exists>w. lay_down_track c h (of_nat f) (concat (map (\<lambda>b. laid u c h (of_nat b)) [f + k..<f + k + m]) @ rest) (of_nat k) v =
        lay_down_track c h (of_nat f) rest (of_nat (k + m)) w \<and> unit_ok w \<and> same_drive v w \<and>
      (\<forall>x y z. sector_at w x y z = (if x = c \<and> y = h \<and> f + k \<le> unat z \<and> unat z < f + k + m
        then sector_at u x y z else sector_at v x y z))"
proof (induction m arbitrary: k v)
  case 0
  then show ?case by (intro exI [where x = v]) (auto simp: same_drive_def)
next
  case (Suc m)
  let ?b = "of_nat (f + k) :: u32"
  have n: "f + k < unat (dg_blocks_per_track g)" using Suc.prems(3) by simp
  then have b: "unat ?b = f + k"
    using unsigned_less [where 'a=nat, of "dg_blocks_per_track g"] by (simp only: unat_of_nat) (simp add: take_bit_nat_eq_self)
  then have less: "?b < dg_blocks_per_track g" using n by (simp only: word_less_nat_alt)
  have on: "on_pack (un_geometry v) c h ?b" using c less Suc.prems(2) by (simp add: on_pack_def)
  have here: "?b = (of_nat f + of_nat k) mod dg_blocks_per_track (un_geometry v)"
    using less Suc.prems(2) by (simp add: mod_below)
  obtain w where w: "lay_down_track c h (of_nat f)
      (laid u c h ?b @ concat (map (\<lambda>b. laid u c h (of_nat b)) [f + Suc k..<f + Suc k + m]) @ rest) (of_nat k) v =
      lay_down_track c h (of_nat f) (concat (map (\<lambda>b. laid u c h (of_nat b)) [f + Suc k..<f + Suc k + m]) @ rest) (of_nat k + 1) w"
    "unit_ok w" "same_drive v w"
    "\<And>x y z. sector_at w x y z = (if (x, y, z) = (c, h, ?b) then sector_at u c h ?b else sector_at v x y z)"
    using lay_one [OF Suc.prems(1) on u [OF less] here] by blast
  have g: "un_geometry w = g" using w(3) Suc.prems(2) by (simp add: same_drive_def)
  obtain w' where w': "lay_down_track c h (of_nat f)
      (concat (map (\<lambda>b. laid u c h (of_nat b)) [f + Suc k..<f + Suc k + m]) @ rest) (of_nat (Suc k)) w =
      lay_down_track c h (of_nat f) rest (of_nat (Suc k + m)) w'" "unit_ok w'" "same_drive w w'"
    "\<And>x y z. sector_at w' x y z = (if x = c \<and> y = h \<and> f + Suc k \<le> unat z \<and> unat z < f + Suc k + m
      then sector_at u x y z else sector_at w x y z)"
    using Suc.IH [OF w(2) g, of "Suc k"] Suc.prems(3) by auto
  have split: "[f + k..<f + k + Suc m] = (f + k) # [f + Suc k..<f + Suc k + m]"
    by (subst upt_conv_Cons) (simp_all del: upt_Suc)
  have "sector_at w' x y z = (if x = c \<and> y = h \<and> f + k \<le> unat z \<and> unat z < f + k + Suc m
      then sector_at u x y z else sector_at v x y z)" for x y z
  proof -
    have "z = ?b \<longleftrightarrow> unat z = f + k" using b by (metis word_unat_eq_iff)
    then show ?thesis using w(4) w'(4) by auto
  qed
  moreover have "same_drive v w'" using w(3) w'(3) by (simp add: same_drive_def)
  moreover have "lay_down_track c h (of_nat f) (concat (map (\<lambda>b. laid u c h (of_nat b)) [f + k..<f + k + Suc m]) @ rest) (of_nat k) v =
      lay_down_track c h (of_nat f) rest (of_nat (k + Suc m)) w'"
    using w(1) w'(1) unfolding split by (simp add: ac_simps)
  ultimately show ?case using w'(2) by blast
qed

text \<open>The leftover at the track's end stops it: what follows does not lie where a sector would.\<close>

lemma sync_after_ones:
  "8 \<le> n \<Longrightarrow> length pre = at \<Longrightarrow> after_sync (pre @ disk_bits (replicate n 0xff @ SYNC # rest)) at = Some (at + 8 * n + 8)"
  using after_sync_found [of pre at n "disk_bits rest"] disk_bits_append [of "[SYNC]" rest] by (simp add: disk_bits_append)

lemma leftover_parses_not:
  assumes "length hc = 4" "length x = 700"
  shows "parse_sector (disk_bits (replicate 433 0xff @ SYNC # le_bytes 4 w @ hc @ replicate 20 0xff @ SYNC # PAD # x)) = None"
proof -
  let ?tail = "replicate 20 0xff @ SYNC # PAD # x"
  let ?bits = "disk_bits (replicate 433 0xff @ SYNC # le_bytes 4 w @ hc @ ?tail)"
  let ?pre = "disk_bits (replicate 433 0xff @ SYNC # le_bytes 4 w @ hc)"
  have at: "after_sync ?bits 0 = Some 3472" using sync_after_ones [of 433 "[]" 0 "le_bytes 4 w @ hc @ ?tail"] by simp
  have len: "length ?bits = 9312" "length ?pre = 3536" using assms by simp_all
  have "?bits = ?pre @ disk_bits ?tail" using disk_bits_append [of "replicate 433 0xff @ SYNC # le_bytes 4 w @ hc" ?tail] by simp
  then have at2: "after_sync ?bits 3536 = Some 3704" using sync_after_ones [of 20 ?pre 3536 "PAD # x"] len(2) by simp
  have "take_bits ?bits 3712 (DATA_BYTES * 8) = None" by (simp add: take_bits_def assms format_sizes)
  then show ?thesis unfolding parse_sector_def using at at2
    by (simp split: option.split)
qed

lemma lay_leftover:
  assumes "length hc = 4" "length data = BLOCK_WORDS"
  shows "lay_down_track c h from (replicate LEFTOVER 0xff @ sector_image_laid w hc data dc @ rest) k v = v"
proof -
  let ?x = "take 700 (bytes_of_words data)"
  have len: "length (bytes_of_words data) = 1024" using assms(2) by (simp add: length_bytes_of_words BLOCK_WORDS_def)
  have "take SECTOR_BYTES (replicate LEFTOVER 0xff @ sector_image_laid w hc data dc @ rest) =
      replicate 433 0xff @ SYNC # le_bytes 4 w @ hc @ replicate 20 0xff @ SYNC # PAD # ?x"
    using assms(1) len by (simp add: sector_image_laid_def format_sizes replicate_add [symmetric] flip: append_assoc)
  moreover have "SECTOR_BYTES \<le> length (replicate LEFTOVER 0xff @ sector_image_laid w hc data dc @ rest)"
    using assms(1) len by (simp add: sector_image_laid_def format_sizes)
  ultimately show ?thesis
    using leftover_parses_not [of hc ?x w] assms(1) len by (subst lay_down_track.simps) simp
qed

text \<open>The track from a block: the sectors to its end, the leftover, and the sectors before it.\<close>

lemma track_bytes_from:
  assumes ok: "unit_ok u" and c: "c < dg_cylinders (un_geometry u)" "h < dg_heads (un_geometry u)"
    and B: "unat (dg_blocks_per_track (un_geometry u)) = B" "f < B" "B \<le> 2 ^ 31"
  shows "track_bytes u c h (of_nat f) = concat (map (\<lambda>b. laid u c h (of_nat b)) [f..<B]) @ replicate LEFTOVER 0xff @
    concat (map (\<lambda>b. laid u c h (of_nat b)) [0..<f])"
proof -
  define n where "n = dg_blocks_per_track (un_geometry u)"
  have small: "unat (of_nat k :: u32) = k" if "k < 2 * B" for k
    using that B(3) by (simp add: unat_of_nat take_bit_nat_eq_self)
  have at: "(of_nat f + of_nat k) mod n = of_nat ((f + k) mod B)" if "k < B" for k
  proof -
    have "unat (of_nat (f + k) :: u32) = f + k" by (rule small) (use that B(2) in simp)
    moreover have "unat (of_nat ((f + k) mod B) :: u32) = (f + k) mod B" by (rule small) (use mod_less_divisor [of B "f + k"] B(2) in linarith)
    ultimately show ?thesis using B(1) by (simp add: word_unat_eq_iff unat_mod_distrib n_def flip: of_nat_add)
  qed
  have last: "(of_nat j + 1 = n) \<longleftrightarrow> j + 1 = B" if "j < B" for j
  proof -
    have "unat (of_nat (j + 1) :: u32) = j + 1" by (rule small) (use that in simp)
    moreover have "of_nat j + 1 = (of_nat (j + 1) :: u32)" by simp
    ultimately show ?thesis using B(1) by (metis n_def word_unat_eq_iff)
  qed
  have sect: "sector_image_laid (sh_word (case sector_header_at u c h b of Some x \<Rightarrow> x | None \<Rightarrow> header_for (un_geometry u) c h b))
      (sh_checkword (case sector_header_at u c h b of Some x \<Rightarrow> x | None \<Rightarrow> header_for (un_geometry u) c h b))
      (case block_at u c h b of Some x \<Rightarrow> x | None \<Rightarrow> replicate BLOCK_WORDS 0)
      (case data_checkword_at u c h b of Some x \<Rightarrow> x | None \<Rightarrow> ecc_over []) = laid u c h b" if "b < n" for b
  proof -
    have "sector_fits u c h b" by (rule sector_fits_ok [OF ok]) (use that c in \<open>simp add: on_pack_def n_def\<close>)
    then show ?thesis by (auto simp: sector_fits_def laid_def)
  qed
  define g where "g j = laid u c h (of_nat j) @ (if j + 1 = B then replicate LEFTOVER 0xff else [])" for j
  have piece: "(let data = (case block_at u c h b of Some x \<Rightarrow> x | None \<Rightarrow> replicate BLOCK_WORDS 0);
        header = (case sector_header_at u c h b of Some x \<Rightarrow> x | None \<Rightarrow> header_for (un_geometry u) c h b);
        cw = (case data_checkword_at u c h b of Some x \<Rightarrow> x | None \<Rightarrow> ecc_over [])
      in sector_image_laid (sh_word header) (sh_checkword header) data cw @ (if b + 1 = n then replicate LEFTOVER 0xff else [])) =
      g ((f + k) mod B)" if b: "b = (of_nat f + of_nat k) mod n" and k: "k < B" for b k
  proof -
    have j: "(f + k) mod B < B" using B(2) by simp
    then have "(of_nat ((f + k) mod B) :: u32) < n" using small [of "(f + k) mod B"] B(1) by (simp add: word_less_nat_alt n_def)
    from sect [OF this] last [OF j] show ?thesis unfolding b at [OF k] g_def Let_def by simp
  qed
  have "track_bytes u c h (of_nat f) = concat (map (\<lambda>k. g ((f + k) mod B)) [0..<unat n])"
    unfolding track_bytes_def Let_def [where s = "un_geometry u"] Let_def [where s = "dg_blocks_per_track (un_geometry u)"]
      Let_def [where s = "(x + y) mod z" for x y z :: u32] n_def [symmetric] Let_def [where s = n]
    by (intro arg_cong [where f = concat] map_cong refl piece) (use B(1) in \<open>simp_all add: n_def\<close>)
  also have "unat n = B" using B(1) by (simp add: n_def)
  also have "[0..<B] = [0..<B - f] @ [B - f..<B]" using B(2) upt_add_eq_append [of 0 "B - f" f] by simp
  also have "concat (map (\<lambda>k. g ((f + k) mod B)) ([0..<B - f] @ [B - f..<B])) = concat (map g [f..<B]) @ concat (map g [0..<f])"
  proof -
    have "map (\<lambda>k. g ((f + k) mod B)) [0..<B - f] = map g [f..<B]"
      using B(2) by (intro nth_equalityI) simp_all
    moreover have "map (\<lambda>k. g ((f + k) mod B)) [B - f..<B] = map g [0..<f]"
      using B(2) by (intro nth_equalityI) (auto simp: mod_if)
    ultimately show ?thesis by simp
  qed
  also have "map g [0..<f] = map (\<lambda>b. laid u c h (of_nat b)) [0..<f]" using B(2) by (auto simp: g_def)
  also have "concat (map g [f..<B]) = concat (map (\<lambda>b. laid u c h (of_nat b)) [f..<B]) @ replicate LEFTOVER 0xff"
  proof -
    obtain b where b: "B = Suc b" using B(2) by (cases B) auto
    have "map g [f..<b] = map (\<lambda>b. laid u c h (of_nat b)) [f..<b]" by (auto simp: g_def b)
    then have "concat (map g [f..<b]) = concat (map (\<lambda>b. laid u c h (of_nat b)) [f..<b])" by (rule arg_cong)
    moreover have "g b = laid u c h (of_nat b) @ replicate LEFTOVER 0xff" by (simp add: b g_def)
    ultimately show ?thesis using B(2) by (simp add: b del: map_eq_conv)
  qed
  finally show ?thesis by simp
qed

text \<open>
  C30: a track read all and written all. The bytes Read All takes off a track from a block on, laid down by Write All on
  a drive of the same geometry, its heads at the same place, make every sector from that block to the track's end
  the sector read, header, data and checkword, and leave every other sector as it was: from block 0, the whole
  track is copied. (From a later block the sectors before it are not, since the walk over the bytes does not pass
  the leftover at the track's end.)
\<close>

theorem track_copied:
  assumes ok: "unit_ok u" "unit_ok v" "un_geometry v = un_geometry u"
    and on: "on_pack (un_geometry u) c h b" "dg_blocks_per_track (un_geometry u) \<le> 0x80000000"
  shows "\<exists>w. lay_down_track c h b (track_bytes u c h b) 0 v = w \<and> unit_ok w \<and> same_drive v w \<and>
    (\<forall>x y z. sector_at w x y z = (if x = c \<and> y = h \<and> b \<le> z \<and> z < dg_blocks_per_track (un_geometry u)
      then sector_at u x y z else sector_at v x y z))"
proof -
  define g where "g = un_geometry u"
  define B where "B = unat (dg_blocks_per_track g)"
  have c: "c < dg_cylinders g" "h < dg_heads g" and f: "unat b < B"
    using on(1) by (simp_all add: on_pack_def g_def B_def word_less_nat_alt)
  have "B \<le> 2 ^ 31" using on(2) by (simp add: B_def g_def word_le_nat_alt)
  then have bytes: "track_bytes u c h b = concat (map (\<lambda>b. laid u c h (of_nat b)) [unat b..<B]) @ replicate LEFTOVER 0xff @
      concat (map (\<lambda>b. laid u c h (of_nat b)) [0..<unat b])"
    using track_bytes_from [OF ok(1), of c h B "unat b"] c f by (simp add: g_def B_def)
  have fits: "sector_fits u c h z" if "z < dg_blocks_per_track g" for z
    by (rule sector_fits_ok [OF ok(1)]) (use that c in \<open>simp add: on_pack_def g_def\<close>)
  let ?rest = "replicate LEFTOVER 0xff @ concat (map (\<lambda>b. laid u c h (of_nat b)) [0..<unat b])"
  obtain w where w: "lay_down_track c h b (track_bytes u c h b) 0 v = lay_down_track c h b ?rest (of_nat (B - unat b)) w"
    "unit_ok w" "same_drive v w"
    "\<And>x y z. sector_at w x y z = (if x = c \<and> y = h \<and> unat b \<le> unat z \<and> unat z < B then sector_at u x y z else sector_at v x y z)"
    using lay_run [OF fits c ok(2), of "unat b" 0 "B - unat b" ?rest] f ok(3) by (auto simp: bytes g_def B_def)
  have "lay_down_track c h b ?rest (of_nat (B - unat b)) w = w"
  proof (cases "unat b = 0")
    case True
    then show ?thesis by (subst lay_down_track.simps) (simp add: format_sizes)
  next
    case False
    have "sector_fits u c h 0" by (rule fits) (use f in \<open>simp add: word_less_nat_alt B_def\<close>)
    then obtain header data cw where f: "sector_at u c h 0 = Some (header, data, cw)"
      "length (sh_checkword header) = 4" "length data = BLOCK_WORDS" by (auto simp: sector_fits_def)
    then have s: "laid u c h 0 = sector_image_laid (sh_word header) (sh_checkword header) data cw" by (simp add: laid_def)
    have "concat (map (\<lambda>b. laid u c h (of_nat b)) [0..<unat b]) = laid u c h 0 @ concat (map (\<lambda>b. laid u c h (of_nat b)) [1..<unat b])"
      using False by (simp add: upt_conv_Cons)
    then show ?thesis using lay_leftover [OF f(2,3)] by (simp add: s)
  qed
  then show ?thesis using w by (intro exI [where x = w]) (simp add: word_le_nat_alt word_less_nat_alt B_def g_def)
qed

lemma track_copied_witness:
  "\<exists>u. sector_at (lay_down_track 7 1 0 (track_bytes u 7 1 0) 0 (unit_blank T80)) 7 1 3 =
    Some (\<lparr>sh_word = 7, sh_checkword = [1, 2, 3, 4]\<rparr>, replicate BLOCK_WORDS 5, [6, 7, 8, 9])"
proof -
  have g: "geometry_ok T80" by (simp add: geometry_ok_def T80_def)
  note blank = unit_ok_blank [OF g]
  have bg: "un_geometry (unit_blank T80) = T80" by (simp add: unit_blank_def)
  have on: "on_pack (un_geometry (unit_blank T80)) 7 1 3" "on_pack T80 7 1 0" by (simp_all only: bg, simp_all add: on_pack_def T80_def)
  obtain u where u: "unit_ok u" "same_drive (unit_blank T80) u"
    "sector_at u 7 1 3 = Some (\<lparr>sh_word = 7, sh_checkword = [1, 2, 3, 4]\<rparr>, replicate BLOCK_WORDS 5, [6, 7, 8, 9])"
    using sector_after_sector [OF blank on(1), of "replicate BLOCK_WORDS 5" "\<lparr>sh_word = 7, sh_checkword = [1, 2, 3, 4]\<rparr>" "[6, 7, 8, 9]"]
    by auto
  have "un_geometry u = T80" using u(2) bg by (simp add: same_drive_def)
  then show ?thesis using track_copied [OF u(1) blank, of 7 1 0] on(2) u(3) bg
    by (intro exI [where x = u]) (simp add: T80_def)
qed

end
