(* ===== verification/Mouse.thy ===== *)
theory Mouse
  imports Codec
begin

text \<open>
  The mouse, \<open>src/terminal/mouse.rs\<close>, and the I/O board's mouse interface, \<open>src/ioboard.rs\<close>: a viewer's pointer
  turned into motion, the two quadrature encoders that step it out a phase at a time, and the counters that the
  board's 125 kHz clock samples them into. Whatever the clock is sampled in, every count of motion reaches the
  counters. Times are \<open>nat\<close>, the machine's nanoseconds in 64 bits.
\<close>

section \<open>The encoders\<close>

definition MOUSE_STEP_NS :: nat where "MOUSE_STEP_NS = 16000"

record encoders =
  en_dx :: u32
  en_dy :: u32
  en_x_phase :: u8
  en_y_phase :: u8
  en_next :: nat

definition encoders_default :: encoders where
  "encoders_default = \<lparr>en_dx = 0, en_dy = 0, en_x_phase = 2, en_y_phase = 2, en_next = 0\<rparr>"

text \<open>\<open>i32::signum\<close>.\<close>

definition signum32 :: "u32 \<Rightarrow> u32" where
  "signum32 d = word_of_int (sgn (sint d))"

definition en_send :: "u32 \<Rightarrow> u32 \<Rightarrow> encoders \<Rightarrow> encoders" where
  "en_send dx dy e = e\<lparr>en_dx := en_dx e + dx, en_dy := en_dy e + dy\<rparr>"

definition en_busy :: "encoders \<Rightarrow> bool" where
  "en_busy e \<longleftrightarrow> en_dx e \<noteq> 0 \<or> en_dy e \<noteq> 0"

definition en_next_change :: "nat \<Rightarrow> encoders \<Rightarrow> nat option" where
  "en_next_change now e = (if en_busy e then Some (max (en_next e) now) else None)"

text \<open>The sum is an \<open>i8\<close>, which wraps; \<open>rem_euclid\<close> is \<open>mod\<close>.\<close>

definition turned :: "u8 \<Rightarrow> u32 \<Rightarrow> u8" where
  "turned phase d = word_of_int (sint (phase + ucast (signum32 d)) mod 4)"

definition en_step :: "nat \<Rightarrow> encoders \<Rightarrow> bool \<times> encoders" where
  "en_step now e =
     (if \<not> en_busy e \<or> now < en_next e then (False, e)
      else let e = (if en_dx e \<noteq> 0 then e\<lparr>en_x_phase := turned (en_x_phase e) (en_dx e), en_dx := en_dx e - signum32 (en_dx e)\<rparr> else e);
               e = (if en_dy e \<noteq> 0 then e\<lparr>en_y_phase := turned (en_y_phase e) (en_dy e), en_dy := en_dy e - signum32 (en_dy e)\<rparr> else e)
           in (True, e\<lparr>en_next := now + MOUSE_STEP_NS\<rparr>))"

definition levels :: "u8 \<Rightarrow> bool \<times> bool" where
  "levels phase = (let g = phase XOR drop_bit 1 phase in (g AND 2 \<noteq> 0, g AND 1 \<noteq> 0))"

definition en_lines :: "encoders \<Rightarrow> bool list" where
  "en_lines e = (let (xa, xb) = levels (en_x_phase e); (ya, yb) = levels (en_y_phase e) in [xa, xb, ya, yb])"

definition en_save :: "encoders \<Rightarrow> writer \<Rightarrow> writer" where
  "en_save e = put_all
     [put_u32 (en_dx e), put_u32 (en_dy e), put_u8 (en_x_phase e), put_u8 (en_y_phase e), put_u64 (of_nat (en_next e))]"

definition en_load :: "encoders rd" where
  "en_load = rd_bind get_u32 (\<lambda>dx. rd_bind get_u32 (\<lambda>dy. rd_bind get_u8 (\<lambda>x. rd_bind get_u8 (\<lambda>y. rd_bind get_u64 (\<lambda>at.
     rd_return \<lparr>en_dx = dx, en_dy = dy, en_x_phase = x, en_y_phase = y, en_next = unat at\<rparr>)))))"

section \<open>The pointer\<close>

definition BUTTONS :: u8 where "BUTTONS = 7"

record mouse =
  mo_last :: "(u16 \<times> u16) option"
  mo_buttons :: u8
  mo_dx :: u32
  mo_dy :: u32

definition mouse_new :: mouse where
  "mouse_new = \<lparr>mo_last = None, mo_buttons = 0, mo_dx = 0, mo_dy = 0\<rparr>"

definition mo_pointer :: "u8 \<Rightarrow> u16 \<Rightarrow> u16 \<Rightarrow> mouse \<Rightarrow> mouse" where
  "mo_pointer pressed x y m =
     (let m = (case mo_last m of None \<Rightarrow> m
               | Some (lx, ly) \<Rightarrow> m\<lparr>mo_dx := mo_dx m + (ucast x - ucast lx), mo_dy := mo_dy m + (ucast y - ucast ly)\<rparr>)
      in m\<lparr>mo_last := Some (x, y), mo_buttons := pressed AND BUTTONS\<rparr>)"

definition mo_take_motion :: "mouse \<Rightarrow> (u32 \<times> u32) \<times> mouse" where
  "mo_take_motion m = ((mo_dx m, mo_dy m), m\<lparr>mo_dx := 0, mo_dy := 0\<rparr>)"

definition mo_pending :: "u8 \<Rightarrow> mouse \<Rightarrow> bool" where
  "mo_pending board_buttons m \<longleftrightarrow> mo_dx m \<noteq> 0 \<or> mo_dy m \<noteq> 0 \<or> mo_buttons m \<noteq> board_buttons"

text \<open>
  The board's operations are arguments, \<open>KeyboardMouse\<close>'s \<open>mouse_move\<close> and \<open>mouse_buttons\<close>.
\<close>

definition mo_deliver :: "(u32 \<Rightarrow> u32 \<Rightarrow> 'b \<Rightarrow> 'b) \<Rightarrow> (u8 \<Rightarrow> 'b \<Rightarrow> 'b) \<Rightarrow> mouse \<Rightarrow> 'b \<Rightarrow> mouse \<times> 'b" where
  "mo_deliver move buttons m board =
     (let ((dx, dy), m) = mo_take_motion m in (m, buttons (mo_buttons m) (move dx dy board)))"

section \<open>The board's interface\<close>

definition KB_CLK_NS :: nat where "KB_CLK_NS = 8000"

definition MOUSE_COUNT :: u16 where "MOUSE_COUNT = 0xfff"

record mouse_interface =
  mq_encoders :: encoders
  mq_switches :: u8
  mq_new :: u8
  mq_old :: u8
  mq_x :: u16
  mq_y :: u16
  mq_sampled :: nat

definition mq_lines :: "mouse_interface \<Rightarrow> u8" where
  "mq_lines m =
     (let quadrature = sum_list (map (\<lambda>(k, high). push_bit k (of_flag (\<not> high))) (enumerate 0 (en_lines (mq_encoders m))))
      in quadrature OR push_bit 4 (mq_switches m))"

definition mouse_interface_default :: mouse_interface where
  "mouse_interface_default =
     (let m = \<lparr>mq_encoders = encoders_default, mq_switches = 0, mq_new = 0, mq_old = 0, mq_x = 0, mq_y = 0, mq_sampled = 0\<rparr>;
          m = m\<lparr>mq_new := mq_lines m\<rparr>
      in m\<lparr>mq_old := mq_new m\<rparr>)"

definition mq_count :: "u16 \<Rightarrow> u8 \<Rightarrow> u8 \<Rightarrow> u16" where
  "mq_count q old new =
     (let a0 = old AND 1; b0 = drop_bit 1 old AND 1; a1 = new AND 1; b1 = drop_bit 1 new AND 1
      in if (a0 XOR a1) XOR (b0 XOR b1) = 0 then q
         else (if a0 XOR b1 \<noteq> 0 then q + 1 else q - 1) AND MOUSE_COUNT)"

text \<open>One edge of \<open>KB CLK^\<close>: the mouse's step if it is due by then, and what the latches and the counters take.\<close>

definition mq_edge :: "nat \<Rightarrow> mouse_interface \<Rightarrow> mouse_interface" where
  "mq_edge edge m =
     (let e = (case en_next_change (mq_sampled m) (mq_encoders m) of
                 Some due \<Rightarrow> if due \<le> edge then snd (en_step due (mq_encoders m)) else mq_encoders m
               | None \<Rightarrow> mq_encoders m);
          m = m\<lparr>mq_encoders := e\<rparr>; m = m\<lparr>mq_old := mq_new m\<rparr>; m = m\<lparr>mq_new := mq_lines m\<rparr>
      in m\<lparr>mq_x := mq_count (mq_x m) (mq_old m) (mq_new m),
           mq_y := mq_count (mq_y m) (drop_bit 2 (mq_old m)) (drop_bit 2 (mq_new m)), mq_sampled := edge\<rparr>)"

definition mq_settled :: "mouse_interface \<Rightarrow> bool" where
  "mq_settled m \<longleftrightarrow> \<not> en_busy (mq_encoders m) \<and> mq_new m = mq_old m \<and> mq_new m = mq_lines m"

function mq_edges :: "nat \<Rightarrow> nat \<Rightarrow> bool \<Rightarrow> mouse_interface \<Rightarrow> bool \<times> mouse_interface" where
  "mq_edges now edge changed m =
     (if now < edge then (changed, m)
      else if mq_settled m then (changed, m\<lparr>mq_sampled := now - now mod KB_CLK_NS\<rparr>)
      else let m = mq_edge edge m in mq_edges now (edge + KB_CLK_NS) (changed \<or> mq_new m \<noteq> mq_old m) m)"
  by pat_completeness auto
termination
  by (relation "measure (\<lambda>(now, edge, _). Suc now - edge)") (auto simp: KB_CLK_NS_def)

declare mq_edges.simps [simp del]

definition mq_sample :: "nat \<Rightarrow> mouse_interface \<Rightarrow> bool \<times> mouse_interface" where
  "mq_sample now m = mq_edges now (mq_sampled m + KB_CLK_NS) False m"

definition mq_save :: "mouse_interface \<Rightarrow> writer \<Rightarrow> writer" where
  "mq_save m = put_all
     [en_save (mq_encoders m), put_u8 (mq_switches m), put_u8 (mq_new m), put_u8 (mq_old m), put_u16 (mq_x m),
      put_u16 (mq_y m), put_u64 (of_nat (mq_sampled m))]"

definition mq_load :: "mouse_interface rd" where
  "mq_load = rd_bind en_load (\<lambda>e. rd_bind get_u8 (\<lambda>switches. rd_bind get_u8 (\<lambda>new. rd_bind get_u8 (\<lambda>old.
     rd_bind get_u16 (\<lambda>x. rd_bind get_u16 (\<lambda>y. rd_bind get_u64 (\<lambda>sampled.
       rd_return \<lparr>mq_encoders = e, mq_switches = switches, mq_new = new, mq_old = old, mq_x = x, mq_y = y,
         mq_sampled = unat sampled\<rparr>)))))))"

section \<open>The lines\<close>

lemma levels_cases:
  "levels 0 = (False, False)" "levels 1 = (False, True)" "levels 2 = (True, True)" "levels 3 = (True, False)"
  by (simp_all add: levels_def Let_def)

lemma phase_cases: "p < 4 \<Longrightarrow> p = 0 \<or> p = 1 \<or> p = 2 \<or> p = 3" for p :: u8
proof -
  assume "p < 4"
  then have "unat p = 0 \<or> unat p = 1 \<or> unat p = 2 \<or> unat p = 3" by (auto simp: word_less_nat_alt)
  then show ?thesis by (auto simp: word_unat_eq_iff)
qed

text \<open>The bits of the lines: each encoder's pair, inverted, and the switches above them.\<close>

lemma bit_lines:
  "bit (mq_lines m) 0 \<longleftrightarrow> \<not> fst (levels (en_x_phase (mq_encoders m)))"
  "bit (mq_lines m) 1 \<longleftrightarrow> \<not> snd (levels (en_x_phase (mq_encoders m)))"
  "bit (mq_lines m) 2 \<longleftrightarrow> \<not> fst (levels (en_y_phase (mq_encoders m)))"
  "bit (mq_lines m) 3 \<longleftrightarrow> \<not> snd (levels (en_y_phase (mq_encoders m)))"
proof -
  obtain a b c d where l: "levels (en_x_phase (mq_encoders m)) = (a, b)" "levels (en_y_phase (mq_encoders m)) = (c, d)" by fastforce
  have "mq_lines m = (of_flag (\<not> a) + (2 * of_flag (\<not> b) + (4 * of_flag (\<not> c) + 8 * of_flag (\<not> d)))) OR push_bit 4 (mq_switches m)"
    by (simp add: mq_lines_def en_lines_def l push_bit_eq_mult mult.commute)
  then show "bit (mq_lines m) 0 \<longleftrightarrow> \<not> fst (levels (en_x_phase (mq_encoders m)))"
    "bit (mq_lines m) 1 \<longleftrightarrow> \<not> snd (levels (en_x_phase (mq_encoders m)))"
    "bit (mq_lines m) 2 \<longleftrightarrow> \<not> fst (levels (en_y_phase (mq_encoders m)))"
    "bit (mq_lines m) 3 \<longleftrightarrow> \<not> snd (levels (en_y_phase (mq_encoders m)))"
    by (cases a; cases b; cases c; cases d; simp add: l bit_or_iff bit_push_bit_iff of_flag_def)+
qed

lemma mq_count_bits:
  "mq_count q old new = (if (bit old 0 \<noteq> bit new 0) = (bit old 1 \<noteq> bit new 1) then q
     else (if bit old 0 \<noteq> bit new 1 then q + 1 else q - 1) AND MOUSE_COUNT)"
proof -
  have f: "w AND 1 = of_flag (bit w 0)" for w :: u8 by (rule bit_word_eqI) (auto simp: bit_and_iff bit_1_iff)
  have d: "bit (drop_bit 1 w) 0 \<longleftrightarrow> bit w 1" for w :: u8 by (simp only: bit_drop_bit_eq o_apply) simp
  show ?thesis unfolding mq_count_def Let_def f d by (auto simp: of_flag_def)
qed

text \<open>A phase turned: the neighbor it is going to.\<close>

lemma signum_cases: "signum32 d = (if d = 0 then 0 else if sint d < 0 then - 1 else 1)"
  by (auto simp: signum32_def sgn_if signed_eq_0_iff)

lemma turned_cases:
  "p < 4 \<Longrightarrow> turned p d = (if d = 0 then p else if sint d < 0 then (p + 3) AND 3 else (p + 1) AND 3)"
proof -
  have m: "(ucast (- 1 :: u32) :: u8) = - 1" by (rule bit_word_eqI) (simp add: bit_ucast_iff)
  assume "p < 4"
  then show ?thesis using phase_cases [of p] by (auto simp: turned_def signum_cases m)
qed

lemma turned_less: "turned p d < 4"
proof -
  have "0 \<le> sint (p + ucast (signum32 d)) mod 4 \<and> sint (p + ucast (signum32 d)) mod 4 < 4" by simp
  then show ?thesis by (auto simp: turned_def word_less_alt uint_word_of_int_eq take_bit_int_eq_self)
qed

text \<open>What the counter does at a step of one axis.\<close>

lemma count_step:
  assumes p: "p < 4" and old: "bit old 0 \<longleftrightarrow> \<not> fst (levels p)" "bit old 1 \<longleftrightarrow> \<not> snd (levels p)"
    and new: "bit new 0 \<longleftrightarrow> \<not> fst (levels (turned p d))" "bit new 1 \<longleftrightarrow> \<not> snd (levels (turned p d))"
  shows "mq_count q old new = (if d = 0 then q else (if sint d < 0 then q - 1 else q + 1) AND MOUSE_COUNT)"
  using phase_cases [OF p] old new unfolding mq_count_bits turned_cases [OF p]
  by (elim disjE) (simp_all add: levels_cases)

lemma uint_counted:
  assumes "q \<le> MOUSE_COUNT"
  shows "uint ((q + 1) AND MOUSE_COUNT) = (uint q + 1) mod 4096" "uint ((q - 1) AND MOUSE_COUNT) = (uint q - 1) mod 4096"
    "v AND MOUSE_COUNT \<le> MOUSE_COUNT"
proof -
  have m: "(MOUSE_COUNT :: u16) = mask 12" by (simp add: MOUSE_COUNT_def mask_eq_exp_minus_1)
  have mm: "(a mod 65536) mod 4096 = a mod 4096" for a :: int by (rule mod_mod_cancel) simp
  show "uint ((q + 1) AND MOUSE_COUNT) = (uint q + 1) mod 4096" "uint ((q - 1) AND MOUSE_COUNT) = (uint q - 1) mod 4096"
    unfolding m uint_and_mask_mod by (simp_all add: uint_word_ariths mm)
  show "v AND MOUSE_COUNT \<le> MOUSE_COUNT" by (rule word_and_le1)
qed

section \<open>An edge of the clock\<close>

text \<open>
  The interface on every state it reaches: the phases and counts within range, the sampling on the clock's edges, and
  the encoders' lines latched as they stand, since they only step at an edge.
\<close>

definition mq_ok :: "mouse_interface \<Rightarrow> bool" where
  "mq_ok m \<longleftrightarrow> en_x_phase (mq_encoders m) < 4 \<and> en_y_phase (mq_encoders m) < 4 \<and> mq_x m \<le> MOUSE_COUNT \<and> mq_y m \<le> MOUSE_COUNT \<and>
     mq_sampled m mod KB_CLK_NS = 0 \<and> (\<forall>k < 4. bit (mq_new m) k = bit (mq_lines m) k)"

definition mq_tick :: "mouse_interface \<Rightarrow> mouse_interface" where
  "mq_tick m = mq_edge (mq_sampled m + KB_CLK_NS) m"

text \<open>The encoders over an edge.\<close>

definition stepped :: "mouse_interface \<Rightarrow> encoders" where
  "stepped m = (let e = mq_encoders m; due = max (en_next e) (mq_sampled m)
     in if en_busy e \<and> due \<le> mq_sampled m + KB_CLK_NS
        then e\<lparr>en_x_phase := if en_dx e = 0 then en_x_phase e else turned (en_x_phase e) (en_dx e), en_dx := en_dx e - signum32 (en_dx e),
               en_y_phase := if en_dy e = 0 then en_y_phase e else turned (en_y_phase e) (en_dy e), en_dy := en_dy e - signum32 (en_dy e),
               en_next := due + MOUSE_STEP_NS\<rparr>
        else e)"

lemma signum_0 [simp]: "signum32 0 = 0"
  by (simp add: signum32_def)

lemma tick_encoders: "mq_encoders (mq_tick m) = stepped m"
  by (cases "mq_encoders m") (auto simp: mq_tick_def mq_edge_def stepped_def en_next_change_def en_step_def Let_def)

lemma tick_lines: "mq_new (mq_tick m) = mq_lines (mq_tick m)" "mq_old (mq_tick m) = mq_new m"
  "mq_sampled (mq_tick m) = mq_sampled m + KB_CLK_NS" "mq_switches (mq_tick m) = mq_switches m"
  "mq_x (mq_tick m) = mq_count (mq_x m) (mq_old (mq_tick m)) (mq_new (mq_tick m))"
  "mq_y (mq_tick m) = mq_count (mq_y m) (drop_bit 2 (mq_old (mq_tick m))) (drop_bit 2 (mq_new (mq_tick m)))"
  by (simp_all add: mq_tick_def mq_edge_def Let_def mq_lines_def)

lemma sint_less_signum: "sint (d - signum32 d) = sint d - sgn (sint d)"
proof -
  have "- (2 ^ 31) \<le> sint d" "sint d < 2 ^ 31" using sint_range_size [of d] by (simp_all add: word_size)
  then have "- (2 ^ 31) \<le> sint d - sgn (sint d) \<and> sint d - sgn (sint d) < 2 ^ 31" by (auto simp: sgn_if)
  moreover have "sint (signum32 d) = sgn (sint d)" by (simp add: signum_cases sgn_if signed_eq_0_iff)
  then have "sint (d - signum32 d) = signed_take_bit 31 (sint d - sgn (sint d))" by (simp add: sint_word_ariths)
  ultimately show ?thesis by (simp add: signed_take_bit_int_eq_self_iff)
qed

text \<open>Over an edge each count moves by what its encoder gave up.\<close>

lemma axis_counted:
  assumes "p < 4" "q \<le> MOUSE_COUNT"
    and "bit old 0 \<longleftrightarrow> \<not> fst (levels p)" "bit old 1 \<longleftrightarrow> \<not> snd (levels p)"
    and "bit new 0 \<longleftrightarrow> \<not> fst (levels (if d = 0 then p else turned p d))" "bit new 1 \<longleftrightarrow> \<not> snd (levels (if d = 0 then p else turned p d))"
  shows "uint (mq_count q old new) = (uint q + sint d - sint (d - signum32 d)) mod 4096" "mq_count q old new \<le> MOUSE_COUNT"
proof -
  have "turned p 0 = p" using turned_cases [OF assms(1), of 0] by simp
  then have c: "mq_count q old new = (if d = 0 then q else (if sint d < 0 then q - 1 else q + 1) AND MOUSE_COUNT)"
    using assms by (intro count_step) (auto split: if_splits)
  have "uint q < 4096" using assms(2) by (simp add: MOUSE_COUNT_def word_le_def)
  then show "uint (mq_count q old new) = (uint q + sint d - sint (d - signum32 d)) mod 4096"
    using uint_counted [OF assms(2)] signed_eq_0_iff [of d] unfolding c sint_less_signum by (auto simp: sgn_if)
  show "mq_count q old new \<le> MOUSE_COUNT" using assms(2) uint_counted(3) by (auto simp: c)
qed

lemma tick_counts:
  assumes ok: "mq_ok m"
  defines "e \<equiv> mq_encoders m" and "e' \<equiv> mq_encoders (mq_tick m)"
  shows "mq_ok (mq_tick m)" "uint (mq_x (mq_tick m)) = (uint (mq_x m) + sint (en_dx e) - sint (en_dx e')) mod 4096"
    "uint (mq_y (mq_tick m)) = (uint (mq_y m) + sint (en_dy e) - sint (en_dy e')) mod 4096"
proof -
  define b where "b \<longleftrightarrow> en_busy e \<and> max (en_next e) (mq_sampled m) \<le> mq_sampled m + KB_CLK_NS"
  define dx where "dx = (if b then en_dx e else 0)"
  define dy where "dy = (if b then en_dy e else 0)"
  have st: "en_x_phase e' = (if dx = 0 then en_x_phase e else turned (en_x_phase e) dx)" "en_dx e' = en_dx e - signum32 dx"
    "en_y_phase e' = (if dy = 0 then en_y_phase e else turned (en_y_phase e) dy)" "en_dy e' = en_dy e - signum32 dy"
    by (auto simp: e'_def e_def tick_encoders stepped_def Let_def dx_def dy_def b_def)
  have old: "bit (mq_old (mq_tick m)) k = bit (mq_lines m) k" if "k < 4" for k using ok that by (simp add: tick_lines mq_ok_def)
  have new: "bit (mq_new (mq_tick m)) k = bit (mq_lines (mq_tick m)) k" for k by (simp add: tick_lines)
  have p: "en_x_phase e < 4" "en_y_phase e < 4" and q: "mq_x m \<le> MOUSE_COUNT" "mq_y m \<le> MOUSE_COUNT"
    using ok by (simp_all add: mq_ok_def e_def)
  have d2: "bit (drop_bit 2 w) 0 = bit w 2" "bit (drop_bit 2 w) 1 = bit w 3" for w :: u8
    by (simp_all only: bit_drop_bit_eq o_apply) simp_all
  have dd: "sint dx - sint (dx - signum32 dx) = sint (en_dx e) - sint (en_dx e')" "sint dy - sint (dy - signum32 dy) = sint (en_dy e) - sint (en_dy e')"
    using st(2,4) sint_less_signum by (auto simp: dx_def dy_def)
  note x = axis_counted [OF p(1) q(1), of "mq_old (mq_tick m)" "mq_new (mq_tick m)" dx]
  note y = axis_counted [OF p(2) q(2), of "drop_bit 2 (mq_old (mq_tick m))" "drop_bit 2 (mq_new (mq_tick m))" dy]
  have b: "bit (mq_old (mq_tick m)) 0 \<longleftrightarrow> \<not> fst (levels (en_x_phase e))" "bit (mq_old (mq_tick m)) 1 \<longleftrightarrow> \<not> snd (levels (en_x_phase e))"
    "bit (mq_old (mq_tick m)) 2 \<longleftrightarrow> \<not> fst (levels (en_y_phase e))" "bit (mq_old (mq_tick m)) 3 \<longleftrightarrow> \<not> snd (levels (en_y_phase e))"
    using old [of 0] old [of 1] old [of 2] old [of 3] bit_lines [of m] by (simp_all add: e_def)
  have b': "bit (mq_new (mq_tick m)) 0 \<longleftrightarrow> \<not> fst (levels (if dx = 0 then en_x_phase e else turned (en_x_phase e) dx))"
    "bit (mq_new (mq_tick m)) 1 \<longleftrightarrow> \<not> snd (levels (if dx = 0 then en_x_phase e else turned (en_x_phase e) dx))"
    "bit (mq_new (mq_tick m)) 2 \<longleftrightarrow> \<not> fst (levels (if dy = 0 then en_y_phase e else turned (en_y_phase e) dy))"
    "bit (mq_new (mq_tick m)) 3 \<longleftrightarrow> \<not> snd (levels (if dy = 0 then en_y_phase e else turned (en_y_phase e) dy))"
    unfolding st(1,3) [symmetric] using new bit_lines [of "mq_tick m"] by (simp_all add: e'_def)
  note x = x [OF b(1,2) b'(1,2)] and y = y [unfolded d2, OF b(3,4) b'(3,4)]
  show "uint (mq_x (mq_tick m)) = (uint (mq_x m) + sint (en_dx e) - sint (en_dx e')) mod 4096"
    using x(1) dd(1) by (simp only: tick_lines(5) add_diff_eq [symmetric])
  show "uint (mq_y (mq_tick m)) = (uint (mq_y m) + sint (en_dy e) - sint (en_dy e')) mod 4096"
    using y(1) dd(2) by (simp only: tick_lines(6) add_diff_eq [symmetric])
  have "mq_x (mq_tick m) \<le> MOUSE_COUNT" "mq_y (mq_tick m) \<le> MOUSE_COUNT"
    using x(2) y(2) by (simp_all only: tick_lines(5,6))
  then show "mq_ok (mq_tick m)"
    using ok st(1,3) turned_less p new by (simp add: mq_ok_def tick_lines(3) e'_def [symmetric] mod_add_self2)
qed

section \<open>The clock, edge after edge\<close>

primrec mq_run :: "nat \<Rightarrow> mouse_interface \<Rightarrow> bool \<times> mouse_interface" where
  "mq_run 0 m = (False, m)"
| "mq_run (Suc n) m = (let m = mq_tick m; (changed, m') = mq_run n m in (mq_new m \<noteq> mq_old m \<or> changed, m'))"

lemma same_lines: "mq_encoders m' = mq_encoders m \<Longrightarrow> mq_switches m' = mq_switches m \<Longrightarrow> mq_lines m' = mq_lines m"
  by (simp add: mq_lines_def)

lemma settled_tick:
  assumes "mq_settled m"
  shows "mq_tick m = m\<lparr>mq_sampled := mq_sampled m + KB_CLK_NS\<rparr>"
proof -
  have e: "stepped m = mq_encoders m" using assms by (simp add: stepped_def mq_settled_def Let_def)
  have "mq_lines (mq_tick m) = mq_lines m" by (rule same_lines) (simp_all add: tick_encoders tick_lines e)
  then have "mq_new (mq_tick m) = mq_new m" "mq_old (mq_tick m) = mq_old m"
    using assms unfolding tick_lines mq_settled_def by metis+
  moreover have "mq_count q w w = q" for q w by (simp add: mq_count_bits)
  ultimately show ?thesis using assms e tick_encoders [of m] tick_lines [of m]
    by (intro mouse_interface.equality) (simp_all add: mq_settled_def)
qed

lemma settled_run: "mq_settled m \<Longrightarrow> mq_run n m = (False, m\<lparr>mq_sampled := mq_sampled m + n * KB_CLK_NS\<rparr>)"
proof (induction n arbitrary: m)
  case (Suc n)
  have "mq_settled (m\<lparr>mq_sampled := t\<rparr>)" for t
    using Suc.prems same_lines [of "m\<lparr>mq_sampled := t\<rparr>" m] by (auto simp: mq_settled_def)
  then show ?case using Suc.prems Suc.IH [of "m\<lparr>mq_sampled := mq_sampled m + KB_CLK_NS\<rparr>"]
    by (simp add: settled_tick mq_settled_def algebra_simps)
qed simp

text \<open>How many edges have come by then.\<close>

definition edges_to :: "nat \<Rightarrow> mouse_interface \<Rightarrow> nat" where
  "edges_to now m = (now - mq_sampled m) div KB_CLK_NS"

lemma whole_edges: "s mod c = 0 \<Longrightarrow> s \<le> t \<Longrightarrow> (t - s) div c = k \<Longrightarrow> t - t mod c = s + k * c" for s t c k :: nat
proof -
  assume "s mod c = 0" "s \<le> t" "(t - s) div c = k"
  then obtain q where "s = c * q" "t = s + (t - s)" by auto
  then have "t mod c = (t - s) mod c" by (metis mod_mult_self3 mult.commute)
  moreover have "t - s = k * c + (t - s) mod c" using \<open>(t - s) div c = k\<close> by (metis div_mult_mod_eq)
  ultimately show "t - t mod c = s + k * c" using \<open>s \<le> t\<close> by linarith
qed

lemma edges_run:
  "edge = mq_sampled m + KB_CLK_NS \<Longrightarrow> mq_sampled m mod KB_CLK_NS = 0 \<Longrightarrow>
    mq_edges now edge changed m = (case mq_run (edges_to now m) m of (c, m') \<Rightarrow> (changed \<or> c, m'))"
proof (induction now edge changed m rule: mq_edges.induct)
  case (1 now edge changed m)
  show ?case
  proof (cases "now < edge")
    case True
    then have "edges_to now m = 0" using "1.prems" by (simp add: edges_to_def KB_CLK_NS_def)
    then show ?thesis using True by (simp add: mq_edges.simps)
  next
    case False
    then obtain n where n: "edges_to now m = Suc n" "edges_to now (mq_tick m) = n"
      using "1.prems" by (cases "edges_to now m") (auto simp: edges_to_def KB_CLK_NS_def tick_lines div_eq_0_iff le_div_geq)
    show ?thesis
    proof (cases "mq_settled m")
      case True
      have "now - now mod KB_CLK_NS = mq_sampled m + Suc n * KB_CLK_NS"
        using False "1.prems" n(1) by (intro whole_edges) (simp_all add: edges_to_def)
      then show ?thesis using True False n(1) by (simp add: mq_edges.simps settled_run del: mq_run.simps)
    next
      case unsettled: False
      have t: "mq_edge edge m = mq_tick m" using "1.prems" by (simp add: mq_tick_def)
      have "mq_edges now (edge + KB_CLK_NS) (changed \<or> mq_new (mq_tick m) \<noteq> mq_old (mq_tick m)) (mq_tick m) =
          (case mq_run (edges_to now (mq_tick m)) (mq_tick m) of (c, m') \<Rightarrow> ((changed \<or> mq_new (mq_tick m) \<noteq> mq_old (mq_tick m)) \<or> c, m'))"
        using "1.IH" [OF False unsettled refl] "1.prems" unfolding t by (simp add: tick_lines(3) mod_add_self2)
      then show ?thesis using False unsettled n
        by (subst mq_edges.simps) (auto simp: t Let_def split: prod.splits)
    qed
  qed
qed

lemma sample_run: "mq_sampled m mod KB_CLK_NS = 0 \<Longrightarrow> mq_sample now m = mq_run (edges_to now m) m"
  unfolding mq_sample_def by (subst edges_run) (auto split: prod.split)

lemma run_add: "mq_run (a + b) m = (case mq_run a m of (c, m') \<Rightarrow> case mq_run b m' of (c', m'') \<Rightarrow> (c \<or> c', m''))"
  by (induction a arbitrary: m) (simp_all add: Let_def split_beta)

lemma snd_run: "snd (mq_run n m) = (mq_tick ^^ n) m"
  by (induction n arbitrary: m) (simp_all add: Let_def split_beta funpow_swap1)

lemma ticks_sampled: "mq_sampled ((mq_tick ^^ n) m) = mq_sampled m + n * KB_CLK_NS"
  by (induction n) (simp_all add: tick_lines)

section \<open>No count is lost\<close>

text \<open>What the mouse and the board do to the interface, and the motion it is given.\<close>

datatype mouse_op = Moved u32 u32 | Pressed u8 | Clocked nat

fun mq_apply :: "mouse_op \<Rightarrow> mouse_interface \<Rightarrow> mouse_interface" where
  "mq_apply (Moved dx dy) m = m\<lparr>mq_encoders := en_send dx dy (mq_encoders m)\<rparr>"
| "mq_apply (Pressed pressed) m = m\<lparr>mq_switches := pressed AND BUTTONS\<rparr>"
| "mq_apply (Clocked now) m = snd (mq_sample now m)"

definition x_motion :: "mouse_op list \<Rightarrow> int" where
  "x_motion ops = sum_list (map (\<lambda>op. case op of Moved dx dy \<Rightarrow> sint dx | _ \<Rightarrow> 0) ops)"

definition y_motion :: "mouse_op list \<Rightarrow> int" where
  "y_motion ops = sum_list (map (\<lambda>op. case op of Moved dx dy \<Rightarrow> sint dy | _ \<Rightarrow> 0) ops)"

text \<open>The counts with what the encoders have still to step out.\<close>

definition x_count :: "mouse_interface \<Rightarrow> int" where
  "x_count m = (uint (mq_x m) + sint (en_dx (mq_encoders m))) mod 4096"

definition y_count :: "mouse_interface \<Rightarrow> int" where
  "y_count m = (uint (mq_y m) + sint (en_dy (mq_encoders m))) mod 4096"

lemma ticks_count:
  "mq_ok m \<Longrightarrow> mq_ok ((mq_tick ^^ n) m) \<and> x_count ((mq_tick ^^ n) m) = x_count m \<and> y_count ((mq_tick ^^ n) m) = y_count m"
proof (induction n)
  case (Suc n)
  then have "mq_ok ((mq_tick ^^ n) m)" by simp
  from tick_counts [OF this] show ?case using Suc by (simp add: x_count_def y_count_def mod_add_left_eq)
qed simp

lemma sint_sum_mod: "sint (a + b :: u32) mod 4096 = (sint a + sint b) mod 4096"
proof -
  have "take_bit 12 (sint (a + b)) = take_bit 12 (sint a + sint b)"
    by (simp add: sint_word_ariths take_bit_signed_take_bit)
  then show ?thesis by (simp add: take_bit_eq_mod)
qed

lemma sample_ticks: "mq_ok m \<Longrightarrow> snd (mq_sample now m) = (mq_tick ^^ edges_to now m) m"
  by (simp add: sample_run mq_ok_def snd_run)

lemma apply_counts:
  assumes "mq_ok m"
  shows "mq_ok (mq_apply op m)" "x_count (mq_apply op m) = (x_count m + x_motion [op]) mod 4096"
    "y_count (mq_apply op m) = (y_count m + y_motion [op]) mod 4096"
proof -
  have add: "(q + sint (d + dd :: u32)) mod 4096 = ((q + sint d) mod 4096 + sint dd) mod 4096" for q d dd
  proof -
    have "(q + sint (d + dd)) mod 4096 = (q + (sint d + sint dd) mod 4096) mod 4096"
      unfolding sint_sum_mod [symmetric] by (simp add: mod_add_right_eq)
    then show ?thesis by (simp add: mod_add_right_eq mod_add_left_eq add.assoc)
  qed
  have "mq_ok (mq_apply op m) \<and> x_count (mq_apply op m) = (x_count m + x_motion [op]) mod 4096 \<and>
    y_count (mq_apply op m) = (y_count m + y_motion [op]) mod 4096"
  proof (cases op)
    case (Moved dx dy)
    have "mq_lines (mq_apply op m) = mq_lines m" by (simp add: Moved mq_lines_def en_send_def en_lines_def)
    then show ?thesis using assms add
      by (simp add: Moved mq_ok_def en_send_def x_count_def y_count_def x_motion_def y_motion_def)
  next
    case (Pressed b)
    have "bit (mq_lines (mq_apply op m)) k = bit (mq_lines m) k" if "k < 4" for k
      using that by (simp add: Pressed mq_lines_def bit_or_iff bit_push_bit_iff bit_and_iff)
    then show ?thesis using assms by (simp add: Pressed mq_ok_def x_count_def y_count_def x_motion_def y_motion_def)
  next
    case (Clocked now)
    then show ?thesis using ticks_count [OF assms] assms
      by (simp add: sample_ticks x_motion_def y_motion_def) (simp add: x_count_def y_count_def)
  qed
  then show "mq_ok (mq_apply op m)" "x_count (mq_apply op m) = (x_count m + x_motion [op]) mod 4096"
    "y_count (mq_apply op m) = (y_count m + y_motion [op]) mod 4096" by simp_all
qed

lemma history_counts:
  assumes "mq_ok m"
  shows "mq_ok (fold mq_apply ops m) \<and> x_count (fold mq_apply ops m) = (x_count m + x_motion ops) mod 4096 \<and>
    y_count (fold mq_apply ops m) = (y_count m + y_motion ops) mod 4096"
  using assms
proof (induction ops arbitrary: m)
  case Nil
  then show ?case by (simp add: x_motion_def y_motion_def x_count_def y_count_def)
next
  case (Cons op ops)
  from Cons.IH [OF apply_counts(1) [OF Cons.prems], of op] apply_counts(2,3) [OF Cons.prems, of op] show ?case
    by (simp add: x_motion_def y_motion_def mod_add_left_eq add.assoc)
qed

lemma mq_ok_default: "mq_ok mouse_interface_default" "x_count mouse_interface_default = 0" "y_count mouse_interface_default = 0"
proof -
  have "mq_lines mouse_interface_default = mq_new mouse_interface_default"
    by (simp add: mouse_interface_default_def Let_def mq_lines_def)
  then show "mq_ok mouse_interface_default"
    by (simp add: mq_ok_def) (simp add: mouse_interface_default_def Let_def encoders_default_def)
  show "x_count mouse_interface_default = 0" "y_count mouse_interface_default = 0"
    by (simp_all add: x_count_def y_count_def mouse_interface_default_def Let_def encoders_default_def)
qed

section \<open>When the motion has been stepped out\<close>

text \<open>The counts still to go on the longer axis, and the time by which they have gone.\<close>

definition to_go :: "encoders \<Rightarrow> nat" where
  "to_go e = nat (max \<bar>sint (en_dx e)\<bar> \<bar>sint (en_dy e)\<bar>)"

definition at_rest_by :: "mouse_interface \<Rightarrow> nat" where
  "at_rest_by m = max (en_next (mq_encoders m)) (mq_sampled m) + to_go (mq_encoders m) * MOUSE_STEP_NS"

lemma busy_to_go: "en_busy e \<longleftrightarrow> 0 < to_go e"
  by (auto simp: en_busy_def to_go_def signed_eq_0_iff less_max_iff_disj)

lemma one_less: "0 \<le> a \<Longrightarrow> 0 \<le> b \<Longrightarrow> 0 < max a b \<Longrightarrow> nat (max (max 0 (a - 1)) (max 0 (b - 1))) + 1 = nat (max a b)" for a b :: int
  by (auto simp: max_def split: if_splits)

lemma tick_at_rest_by: "en_busy (mq_encoders (mq_tick m)) \<Longrightarrow> at_rest_by (mq_tick m) = at_rest_by m"
proof -
  assume busy: "en_busy (mq_encoders (mq_tick m))"
  let ?e = "mq_encoders m"
  show "at_rest_by (mq_tick m) = at_rest_by m"
  proof (cases "en_busy ?e \<and> max (en_next ?e) (mq_sampled m) \<le> mq_sampled m + KB_CLK_NS")
    case True
    have less: "\<bar>sint (d - signum32 d)\<bar> = max 0 (\<bar>sint d\<bar> - 1)" for d by (auto simp: sint_less_signum sgn_if)
    have "to_go (stepped m) + 1 = to_go ?e"
      using True one_less [of "\<bar>sint (en_dx ?e)\<bar>" "\<bar>sint (en_dy ?e)\<bar>"]
      by (simp add: stepped_def Let_def to_go_def less en_busy_def signed_eq_0_iff less_max_iff_disj)
    then show ?thesis using True
      by (simp add: at_rest_by_def tick_encoders tick_lines) (auto simp: stepped_def Let_def KB_CLK_NS_def MOUSE_STEP_NS_def)
  next
    case False
    then have e: "stepped m = ?e" by (auto simp: stepped_def Let_def)
    then have "mq_sampled m + KB_CLK_NS < en_next ?e" using False busy by (auto simp: tick_encoders not_le less_max_iff_disj)
    then show ?thesis by (simp add: at_rest_by_def tick_encoders tick_lines e max_def)
  qed
qed

lemma ticks_at_rest_by:
  "en_busy (mq_encoders ((mq_tick ^^ n) m)) \<Longrightarrow> at_rest_by ((mq_tick ^^ n) m) = at_rest_by m"
proof (induction n)
  case (Suc n)
  then have "en_busy (stepped ((mq_tick ^^ n) m))" by (simp add: tick_encoders)
  then have "en_busy (mq_encoders ((mq_tick ^^ n) m))" by (auto simp: stepped_def Let_def split: if_splits)
  then show ?case using Suc tick_at_rest_by by simp
qed simp

lemma comes_to_rest:
  assumes "mq_ok m" "at_rest_by m \<le> now"
  shows "\<not> en_busy (mq_encoders (snd (mq_sample now m)))"
proof
  let ?m = "(mq_tick ^^ edges_to now m) m"
  assume "en_busy (mq_encoders (snd (mq_sample now m)))"
  then have busy: "en_busy (mq_encoders ?m)" by (simp only: sample_ticks [OF assms(1)])
  then have "mq_sampled ?m + MOUSE_STEP_NS \<le> at_rest_by ?m"
    using busy_to_go [of "mq_encoders ?m"] by (simp add: at_rest_by_def) (metis add_mono le_add_same_cancel1 max.cobounded2 mult_le_mono1 One_nat_def Suc_leI mult_1)
  also have "at_rest_by ?m \<le> now" using ticks_at_rest_by [OF busy] assms(2) by simp
  finally have "mq_sampled m + edges_to now m * KB_CLK_NS + MOUSE_STEP_NS \<le> now" by (simp add: ticks_sampled)
  then have "edges_to now m * KB_CLK_NS + 16000 \<le> now - mq_sampled m" by (simp add: MOUSE_STEP_NS_def)
  moreover have "now - mq_sampled m < edges_to now m * KB_CLK_NS + KB_CLK_NS"
    by (simp add: edges_to_def) (metis KB_CLK_NS_def add.commute dividend_less_div_times mult.commute zero_less_numeral)
  ultimately show False by (simp add: KB_CLK_NS_def)
qed

text \<open>
  C36: no count of the mouse's motion is lost. After any history of motion, buttons and samplings, a sampling of the
  board's mouse interface at or past the time the encoders need finds them at rest, and each counter holds the whole
  motion sent since power-on, modulo the twelve bits of the counter.
\<close>

theorem mouse_counts_every_move:
  assumes "m = fold mq_apply ops mouse_interface_default" "at_rest_by m \<le> now" "m' = snd (mq_sample now m)"
  shows "\<not> en_busy (mq_encoders m') \<and> uint (mq_x m') = x_motion ops mod 4096 \<and> uint (mq_y m') = y_motion ops mod 4096"
proof -
  have ok: "mq_ok m" "x_count m = x_motion ops mod 4096" "y_count m = y_motion ops mod 4096"
    using history_counts [OF mq_ok_default(1), of ops] by (simp_all add: assms(1) mq_ok_default)
  have rest: "\<not> en_busy (mq_encoders m')" using comes_to_rest [OF ok(1) assms(2)] assms(3) by simp
  have "mq_ok m'" "x_count m' = x_count m" "y_count m' = y_count m"
    using ticks_count [OF ok(1)] assms(3) by (simp_all add: sample_ticks [OF ok(1)])
  moreover from this(1) have "uint (mq_x m') < 4096" "uint (mq_y m') < 4096"
    by (simp_all add: mq_ok_def MOUSE_COUNT_def word_le_def)
  ultimately show ?thesis using rest ok(2,3) by (simp add: x_count_def y_count_def en_busy_def)
qed

lemma mouse_counts_every_move_witness:
  "\<exists>m. uint (mq_x (snd (mq_sample 112000 m))) = 7 \<and> uint (mq_y (snd (mq_sample 112000 m))) = 4093"
proof -
  let ?ops = "[Moved 5 (- 1), Pressed 1, Moved 2 (- 2)]"
  let ?m = "fold mq_apply ?ops mouse_interface_default"
  have e: "en_dx (mq_encoders ?m) = 7" "en_dy (mq_encoders ?m) = - 3" "en_next (mq_encoders ?m) = 0" "mq_sampled ?m = 0"
    by (simp_all add: mouse_interface_default_def Let_def encoders_default_def en_send_def)
  have "at_rest_by ?m \<le> 112000" unfolding at_rest_by_def to_go_def e by (simp add: MOUSE_STEP_NS_def)
  from mouse_counts_every_move [OF refl this refl] show ?thesis
    by (intro exI [where x = ?m]) (simp add: x_motion_def y_motion_def)
qed

section \<open>Sampling in pieces\<close>

text \<open>However often the board is advanced on the way, the interface has sampled the same edges.\<close>

lemma edges_in_pieces:
  assumes "mq_sampled m mod KB_CLK_NS = 0" "s \<le> t"
  shows "edges_to t m = edges_to s m + edges_to t ((mq_tick ^^ edges_to s m) m)"
proof (cases "mq_sampled m \<le> s")
  case True
  define k where "k = edges_to s m"
  have "k * KB_CLK_NS \<le> s - mq_sampled m" by (simp add: k_def edges_to_def)
  then have "t - mq_sampled m = (t - (mq_sampled m + k * KB_CLK_NS)) + k * KB_CLK_NS" using True assms(2) by simp
  then have "(t - mq_sampled m) div KB_CLK_NS = (t - (mq_sampled m + k * KB_CLK_NS)) div KB_CLK_NS + k"
    by (simp only:) (simp add: KB_CLK_NS_def)
  then show ?thesis by (simp add: k_def [symmetric]) (simp add: edges_to_def ticks_sampled)
qed (simp add: edges_to_def)

lemma mouse_sampled_in_pieces:
  assumes "mq_ok m" "s \<le> t" "mq_sample s m = (c, m')" "mq_sample t m' = (c', m'')"
  shows "mq_sample t m = (c \<or> c', m'')"
proof -
  have ok: "mq_ok m'" using ticks_count [OF assms(1)] assms(3) sample_ticks [OF assms(1), of s] by simp
  have run: "mq_sample u n = mq_run (edges_to u n) n" if "mq_ok n" for u n using that by (simp add: sample_run mq_ok_def)
  have "m' = (mq_tick ^^ edges_to s m) m" using sample_ticks [OF assms(1), of s] assms(3) by simp
  then have "edges_to t m = edges_to s m + edges_to t m'" using edges_in_pieces assms(1,2) by (simp add: mq_ok_def)
  then show ?thesis using assms(3,4) by (simp add: run [OF assms(1)] run [OF ok] run_add)
qed

section \<open>Checkpoint\<close>

lemma codes_encoders: "en_next e < 2 ^ 64 \<Longrightarrow> codes n (en_save e) en_load e"
  unfolding en_save_def en_load_def by ((rule codes_step)+, rule codes_end) (simp add: unat_of_nat_64)

interpretation encoders_codec: codec n "\<lambda>e. en_next e < 2 ^ 64" en_save en_load for n
  by unfold_locales (rule codes_encoders)

lemma codes_mouse_interface: "en_next (mq_encoders m) < 2 ^ 64 \<Longrightarrow> mq_sampled m < 2 ^ 64 \<Longrightarrow> codes n (mq_save m) mq_load m"
  unfolding mq_save_def mq_load_def
  by (rule codes_cons [OF codes_encoders], assumption, (rule codes_step)+, rule codes_end) (simp add: unat_of_nat_64)

interpretation mouse_codec: codec n "\<lambda>m. en_next (mq_encoders m) < 2 ^ 64 \<and> mq_sampled m < 2 ^ 64" mq_save mq_load for n
  by unfold_locales (simp add: codes_mouse_interface)

end
