(* ===== verification/Serial.thy ===== *)
theory Serial
  imports Codec
begin

text \<open>
  The serial port, \<open>src/serial.rs\<close>: the 2651 on the I/O board as the behavioral engines have it, a character at a
  time on the machine's clock, and the cable on it. Times are \<open>nat\<close>, the machine's nanoseconds in 64 bits.
\<close>

section \<open>The registers' bits\<close>

definition BRCLK_HZ :: nat where "BRCLK_HZ = 5068800"

definition DIVISORS :: "nat list" where
  "DIVISORS = [6336, 4224, 2880, 2355, 2112, 1056, 528, 264, 176, 158, 132, 88, 66, 44, 33, 16]"

definition bit_ns :: "u8 \<Rightarrow> nat" where
  "bit_ns rate = 16 * (DIVISORS ! unat (rate AND 0xf)) * 1000000000 div BRCLK_HZ"

definition M1_RATE_MASK :: u8 where "M1_RATE_MASK = 3"
definition M1_SYNCHRONOUS :: u8 where "M1_SYNCHRONOUS = 0"
definition M1_LENGTH_SHIFT :: nat where "M1_LENGTH_SHIFT = 2"
definition M1_LENGTH_MASK :: u8 where "M1_LENGTH_MASK = 0x0c"
definition M1_PARITY :: u8 where "M1_PARITY = 0x10"
definition M1_EVEN :: u8 where "M1_EVEN = 0x20"
definition M1_STOP_SHIFT :: nat where "M1_STOP_SHIFT = 6"
definition M1_STOP_MASK :: u8 where "M1_STOP_MASK = 0xc0"

definition M2_RATE_MASK :: u8 where "M2_RATE_MASK = 0xf"
definition M2_RX_INTERNAL :: u8 where "M2_RX_INTERNAL = 0x10"
definition M2_TX_INTERNAL :: u8 where "M2_TX_INTERNAL = 0x20"

definition CR_TX_ENABLE :: u8 where "CR_TX_ENABLE = 1"
definition CR_DTR :: u8 where "CR_DTR = 2"
definition CR_RX_ENABLE :: u8 where "CR_RX_ENABLE = 4"
definition CR_RESET_ERROR :: u8 where "CR_RESET_ERROR = 0x10"
definition CR_RTS :: u8 where "CR_RTS = 0x20"
definition CR_MODE_MASK :: u8 where "CR_MODE_MASK = 0xc0"
definition CR_NORMAL :: u8 where "CR_NORMAL = 0"
definition CR_AUTO_ECHO :: u8 where "CR_AUTO_ECHO = 0x40"
definition CR_LOCAL_LOOP_BACK :: u8 where "CR_LOCAL_LOOP_BACK = 0x80"
definition CR_REMOTE_LOOP_BACK :: u8 where "CR_REMOTE_LOOP_BACK = 0xc0"

definition SR_TX_READY :: u8 where "SR_TX_READY = 1"
definition SR_RX_READY :: u8 where "SR_RX_READY = 2"
definition SR_TX_EMPTY_OR_DSCHG :: u8 where "SR_TX_EMPTY_OR_DSCHG = 4"
definition SR_PARITY_ERROR :: u8 where "SR_PARITY_ERROR = 8"
definition SR_OVERRUN :: u8 where "SR_OVERRUN = 0x10"
definition SR_FRAMING_ERROR :: u8 where "SR_FRAMING_ERROR = 0x20"
definition SR_DCD :: u8 where "SR_DCD = 0x40"
definition SR_DSR :: u8 where "SR_DSR = 0x80"
definition SR_ERRORS :: u8 where "SR_ERRORS = SR_PARITY_ERROR OR SR_OVERRUN OR SR_FRAMING_ERROR"

section \<open>The character frame\<close>

record framing =
  fr_bits :: u8
  fr_parity :: "bool option"
  fr_stop_halves :: u8

definition framing_of :: "u8 \<Rightarrow> framing" where
  "framing_of mr1 =
     \<lparr>fr_bits = 5 + drop_bit M1_LENGTH_SHIFT (mr1 AND M1_LENGTH_MASK),
      fr_parity = (if mr1 AND M1_PARITY \<noteq> 0 then Some (mr1 AND M1_EVEN \<noteq> 0) else None),
      fr_stop_halves = (let s = drop_bit M1_STOP_SHIFT (mr1 AND M1_STOP_MASK) in if s = 2 then 3 else if s = 3 then 4 else 2)\<rparr>"

definition fr_mask :: "framing \<Rightarrow> u8" where
  "fr_mask f = ucast (drop_bit (unat (8 - fr_bits f)) (0xff :: u16))"

text \<open>\<open>u8::count_ones\<close>, odd.\<close>

definition odd_ones :: "u8 \<Rightarrow> bool" where
  "odd_ones b \<longleftrightarrow> odd (length (filter (bit b) [0..<8]))"

definition fr_parity_bit :: "u8 \<Rightarrow> framing \<Rightarrow> bool option" where
  "fr_parity_bit byte f = map_option (\<lambda>even. odd_ones (byte AND fr_mask f) \<noteq> even) (fr_parity f)"

definition fr_half_bits :: "framing \<Rightarrow> nat" where
  "fr_half_bits f = 2 + 2 * unat (fr_bits f) + (if fr_parity f \<noteq> None then 2 else 0) + unat (fr_stop_halves f)"

definition fr_frame_ns :: "u8 \<Rightarrow> framing \<Rightarrow> nat" where
  "fr_frame_ns rate f = fr_half_bits f * 8 * (DIVISORS ! unat (rate AND 0xf)) * 1000000000 div BRCLK_HZ"

definition fr_encode :: "u8 \<Rightarrow> framing \<Rightarrow> bool list" where
  "fr_encode byte f =
     [False] @ map (bit byte) [0..<unat (fr_bits f)] @ (case fr_parity_bit byte f of None \<Rightarrow> [] | Some p \<Rightarrow> [p]) @
     replicate ((unat (fr_stop_halves f) + 1) div 2) True"

section \<open>The cable\<close>

record serial_cable =
  cb_plugged :: "nat option"
  cb_inbound :: "(nat \<times> u8) list"
  cb_outbound :: "(nat \<times> u8) list"

definition serial_cable_default :: serial_cable where
  "serial_cable_default = \<lparr>cb_plugged = None, cb_inbound = [], cb_outbound = []\<rparr>"

definition cb_plug :: "nat \<Rightarrow> serial_cable \<Rightarrow> serial_cable" where
  "cb_plug at c = c\<lparr>cb_plugged := Some at\<rparr>"

definition cb_unplug :: "serial_cable \<Rightarrow> serial_cable" where
  "cb_unplug c = c\<lparr>cb_plugged := None\<rparr>"

definition cb_up :: "serial_cable \<Rightarrow> bool" where
  "cb_up c \<longleftrightarrow> cb_plugged c \<noteq> None"

definition cb_send :: "u8 \<Rightarrow> nat \<Rightarrow> serial_cable \<Rightarrow> serial_cable" where
  "cb_send byte at c = c\<lparr>cb_inbound := cb_inbound c @ [(at, byte)]\<rparr>"

definition cb_take :: "serial_cable \<Rightarrow> (nat \<times> u8) option \<times> serial_cable" where
  "cb_take c = (case cb_outbound c of [] \<Rightarrow> (None, c) | x # xs \<Rightarrow> (Some x, c\<lparr>cb_outbound := xs\<rparr>))"

definition cb_sent :: "serial_cable \<Rightarrow> u8 list" where
  "cb_sent c = map snd (cb_outbound c)"

definition cb_pending :: "serial_cable \<Rightarrow> nat" where
  "cb_pending c = length (cb_inbound c)"

section \<open>The crystal\<close>

text \<open>\<open>IOB_OSCILLATOR_PERIOD\<close> and \<open>toggle_at\<close> of \<open>src/chip.rs\<close>.\<close>

definition IOB_OSCILLATOR_PERIOD :: "nat \<times> nat" where "IOB_OSCILLATOR_PERIOD = (78125, 396)"

definition toggle_at :: "nat \<times> nat \<Rightarrow> nat \<Rightarrow> nat" where
  "toggle_at period k = k * fst period div (2 * snd period)"

definition crystal_rise :: "nat \<Rightarrow> nat" where
  "crystal_rise j = toggle_at IOB_OSCILLATOR_PERIOD (2 * j)"

text \<open>The two loops that correct the quotient: up to the time and down to its first edge.\<close>

lemma rise_at: "crystal_rise j = 156250 * j div 792"
  by (simp add: crystal_rise_def toggle_at_def IOB_OSCILLATOR_PERIOD_def)

function rise_up :: "nat \<Rightarrow> nat \<Rightarrow> nat" where
  "rise_up t j = (if crystal_rise j < t then rise_up t (j + 1) else j)"
  by pat_completeness auto
termination
  by (relation "measure (\<lambda>(t, j). t - j)") (auto simp: rise_at)

declare rise_up.simps [simp del]

fun rise_down :: "nat \<Rightarrow> nat \<Rightarrow> nat" where
  "rise_down t 0 = 0"
| "rise_down t (Suc j) = (if t \<le> crystal_rise j then rise_down t j else Suc j)"

definition crystal_rise_at_or_after :: "nat \<Rightarrow> nat" where
  "crystal_rise_at_or_after t =
     (let (num, den) = IOB_OSCILLATOR_PERIOD in rise_down t (rise_up t (div_ceil (t * den) num)))"

section \<open>The 2651\<close>

record serial_port =
  ser_mode1 :: u8
  ser_mode2 :: u8
  ser_command :: u8
  ser_errors :: u8
  ser_second_mode :: bool
  ser_next_syn :: u8
  ser_syn :: "u8 list"
  ser_generator_from :: "nat option"
  ser_thr :: "(u8 \<times> nat) option"
  ser_shifting :: "(u8 \<times> nat) option"
  ser_tx_from :: nat
  ser_tx_empty :: bool
  ser_rhr :: u8
  ser_rx_ready :: bool
  ser_assembling :: "(u8 \<times> nat \<times> nat) option"
  ser_rx_from :: nat
  ser_dschg :: bool
  ser_dsr_was :: bool
  ser_dcd_was :: bool
  ser_cable :: serial_cable

definition serial_default :: serial_port where
  "serial_default = \<lparr>ser_mode1 = 0, ser_mode2 = 0, ser_command = 0, ser_errors = 0, ser_second_mode = False, ser_next_syn = 0,
     ser_syn = [0, 0, 0], ser_generator_from = None, ser_thr = None, ser_shifting = None, ser_tx_from = 0, ser_tx_empty = False,
     ser_rhr = 0, ser_rx_ready = False, ser_assembling = None, ser_rx_from = 0, ser_dschg = False, ser_dsr_was = False,
     ser_dcd_was = False, ser_cable = serial_cable_default\<rparr>"

definition ser_framing :: "serial_port \<Rightarrow> framing" where
  "ser_framing s = framing_of (ser_mode1 s)"

definition ser_rate :: "serial_port \<Rightarrow> u8" where
  "ser_rate s = ser_mode2 s AND M2_RATE_MASK"

definition ser_mode :: "serial_port \<Rightarrow> u8" where
  "ser_mode s = ser_command s AND CR_MODE_MASK"

definition ser_dsr :: "serial_port \<Rightarrow> bool" where
  "ser_dsr s = cb_up (ser_cable s)"

definition ser_dcd :: "serial_port \<Rightarrow> bool" where
  "ser_dcd s = (if ser_mode s = CR_LOCAL_LOOP_BACK then ser_command s AND CR_DTR \<noteq> 0 else cb_up (ser_cable s))"

definition ser_cts :: "serial_port \<Rightarrow> bool" where
  "ser_cts s = (if ser_mode s = CR_LOCAL_LOOP_BACK then ser_command s AND CR_RTS \<noteq> 0 else cb_up (ser_cable s))"

definition ser_dtr :: "serial_port \<Rightarrow> bool" where
  "ser_dtr s \<longleftrightarrow> ser_command s AND CR_DTR \<noteq> 0 \<and> ser_mode s \<noteq> CR_LOCAL_LOOP_BACK"

definition ser_rts :: "serial_port \<Rightarrow> bool" where
  "ser_rts s \<longleftrightarrow> ser_command s AND CR_RTS \<noteq> 0 \<and> ser_mode s \<noteq> CR_LOCAL_LOOP_BACK"

definition ser_tx_clocked :: "serial_port \<Rightarrow> bool" where
  "ser_tx_clocked s \<longleftrightarrow> ser_mode1 s AND M1_RATE_MASK \<noteq> M1_SYNCHRONOUS \<and> ser_mode2 s AND M2_TX_INTERNAL \<noteq> 0"

definition ser_rx_clocked :: "serial_port \<Rightarrow> bool" where
  "ser_rx_clocked s \<longleftrightarrow> ser_mode1 s AND M1_RATE_MASK \<noteq> M1_SYNCHRONOUS \<and> ser_mode2 s AND M2_RX_INTERNAL \<noteq> 0"

definition ser_tx_on :: "serial_port \<Rightarrow> bool" where
  "ser_tx_on s \<longleftrightarrow> ser_command s AND CR_TX_ENABLE \<noteq> 0 \<and> ser_tx_clocked s \<and>
     (ser_mode s = CR_NORMAL \<or> ser_mode s = CR_LOCAL_LOOP_BACK)"

definition ser_rx_on :: "serial_port \<Rightarrow> bool" where
  "ser_rx_on s \<longleftrightarrow> (ser_command s AND CR_RX_ENABLE \<noteq> 0 \<or> ser_mode s = CR_LOCAL_LOOP_BACK) \<and> ser_rx_clocked s"

definition ser_rx_runs :: "serial_port \<Rightarrow> bool" where
  "ser_rx_runs s \<longleftrightarrow> ser_rx_on s \<and> ser_dcd s"

definition ser_generator_on :: "serial_port \<Rightarrow> bool" where
  "ser_generator_on s \<longleftrightarrow> ser_tx_on s \<or> ser_rx_on s"

definition ser_clock_at_or_after :: "nat \<Rightarrow> serial_port \<Rightarrow> nat" where
  "ser_clock_at_or_after t s =
     (let divisor = DIVISORS ! unat (ser_rate s); from = (case ser_generator_from s of None \<Rightarrow> t | Some f \<Rightarrow> f);
          j0 = crystal_rise_at_or_after from; jt = crystal_rise_at_or_after t;
          k = max (div_ceil (jt + 1 - j0) divisor) 1
      in crystal_rise (j0 + k * divisor - 1))"

definition ser_note_enables :: "bool \<times> bool \<times> bool \<Rightarrow> nat \<Rightarrow> serial_port \<Rightarrow> serial_port" where
  "ser_note_enables was now s =
     (let (generator, tx, rx) = was;
          s = (if \<not> generator \<and> ser_generator_on s then s\<lparr>ser_generator_from := Some now\<rparr>
               else if generator \<and> \<not> ser_generator_on s then s\<lparr>ser_generator_from := None\<rparr> else s);
          s = (if \<not> tx \<and> ser_tx_on s then s\<lparr>ser_tx_from := max (ser_tx_from s) now\<rparr> else s)
      in if \<not> rx \<and> ser_rx_on s then s\<lparr>ser_rx_from := max (ser_rx_from s) now\<rparr> else s)"

definition ser_enables :: "serial_port \<Rightarrow> bool \<times> bool \<times> bool" where
  "ser_enables s = (ser_generator_on s, ser_tx_on s, ser_rx_on s)"

definition ser_thr_start :: "serial_port \<Rightarrow> nat option" where
  "ser_thr_start s = (case ser_thr s of None \<Rightarrow> None
     | Some (_, loaded) \<Rightarrow>
       if ser_tx_on s \<and> ser_cts s then Some (ser_clock_at_or_after (max loaded (ser_tx_from s)) s) else None)"

definition ser_tx_ready_at :: "nat \<Rightarrow> serial_port \<Rightarrow> bool" where
  "ser_tx_ready_at now s \<longleftrightarrow> ser_tx_on s \<and>
     (case (ser_thr s, ser_shifting s) of
        (None, _) \<Rightarrow> True
      | (Some _, None) \<Rightarrow> (case ser_thr_start s of None \<Rightarrow> False | Some start \<Rightarrow> start \<le> now)
      | (Some _, Some (_, ends)) \<Rightarrow> ser_cts s \<and> ends \<le> now)"

definition ser_rx_times :: "nat \<Rightarrow> serial_port \<Rightarrow> nat \<times> nat" where
  "ser_rx_times start s =
     (let f = ser_framing s; bit = bit_ns (ser_rate s)
      in (start + (1 + unat (fr_bits f) + (if fr_parity f \<noteq> None then 1 else 0)) * bit + bit div 2,
          start + fr_frame_ns (ser_rate s) f))"

definition ser_next_arrival :: "serial_port \<Rightarrow> nat option" where
  "ser_next_arrival s =
     (case ser_assembling s of Some (_, arrives, _) \<Rightarrow> Some arrives
      | None \<Rightarrow> (case cb_inbound (ser_cable s) of [] \<Rightarrow> None
                 | (sent, _) # _ \<Rightarrow> Some (fst (ser_rx_times (max sent (ser_rx_from s)) s))))"

definition ser_rx_ready_at :: "nat \<Rightarrow> serial_port \<Rightarrow> bool" where
  "ser_rx_ready_at now s \<longleftrightarrow> ser_rx_ready s \<or>
     (ser_rx_runs s \<and> (case ser_next_arrival s of None \<Rightarrow> False | Some arrives \<Rightarrow> arrives \<le> now))"

definition ser_load_rhr :: "u8 \<Rightarrow> serial_port \<Rightarrow> serial_port" where
  "ser_load_rhr byte s =
     (let s = (if ser_rx_ready s then s\<lparr>ser_errors := ser_errors s OR SR_OVERRUN\<rparr> else s)
      in s\<lparr>ser_rhr := byte, ser_rx_ready := True\<rparr>)"

definition ser_outbound :: "nat \<Rightarrow> u8 \<Rightarrow> serial_port \<Rightarrow> serial_port" where
  "ser_outbound at byte s = s\<lparr>ser_cable := (ser_cable s)\<lparr>cb_outbound := cb_outbound (ser_cable s) @ [(at, byte)]\<rparr>\<rparr>"

definition ser_deliver :: "u8 \<Rightarrow> nat \<Rightarrow> serial_port \<Rightarrow> serial_port" where
  "ser_deliver byte at s =
     (let byte = byte AND fr_mask (ser_framing s)
      in if ser_mode s = CR_LOCAL_LOOP_BACK then ser_load_rhr byte s else ser_outbound at byte s)"

lemma deliver_fields:
  "ser_thr (ser_deliver byte at s) = ser_thr s" "ser_shifting (ser_deliver byte at s) = ser_shifting s"
  by (simp_all add: ser_deliver_def ser_load_rhr_def ser_outbound_def Let_def)

function ser_transmit :: "nat \<Rightarrow> serial_port \<Rightarrow> serial_port" where
  "ser_transmit now s =
     (let frame = fr_frame_ns (ser_rate s) (ser_framing s)
      in case ser_shifting s of
        Some (byte, ends) \<Rightarrow>
          if ends \<le> now then
            let s = ser_deliver byte ends (s\<lparr>ser_shifting := None\<rparr>)
            in ser_transmit now
              (case ser_thr s of
                 Some (following, _) \<Rightarrow>
                   if ser_tx_on s \<and> ser_cts s then s\<lparr>ser_thr := None, ser_shifting := Some (following, ends + frame)\<rparr> else s
               | None \<Rightarrow> s\<lparr>ser_tx_empty := ser_tx_on s\<rparr>)
          else s
      | None \<Rightarrow>
          (case (ser_thr s, ser_thr_start s) of
             (Some (following, _), Some start) \<Rightarrow>
               if start \<le> now then ser_transmit now (s\<lparr>ser_thr := None, ser_shifting := Some (following, start + frame)\<rparr>) else s
           | _ \<Rightarrow> s))"
  by pat_completeness auto
termination
  by (relation "measure (\<lambda>(_, s). (if ser_thr s = None then 0 else 2) + (if ser_shifting s = None then 0 else 1))")
    (auto simp: deliver_fields dest!: sym [of "Some _"] split: option.splits)

declare ser_transmit.simps [simp del]

text \<open>A character in the receiver, come whole.\<close>

definition ser_arrive :: "u8 \<Rightarrow> nat \<Rightarrow> serial_port \<Rightarrow> serial_port" where
  "ser_arrive byte ends s =
     (let s = s\<lparr>ser_assembling := None, ser_rx_from := ends\<rparr>
      in if ser_mode s = CR_REMOTE_LOOP_BACK then ser_outbound ends byte s
         else if ser_mode s = CR_AUTO_ECHO then ser_load_rhr byte (ser_outbound ends byte s)
         else ser_load_rhr byte s)"

lemma arrive_fields: "cb_inbound (ser_cable (ser_arrive byte ends s)) = cb_inbound (ser_cable s)" "ser_assembling (ser_arrive byte ends s) = None"
  by (simp_all add: ser_arrive_def ser_load_rhr_def ser_outbound_def Let_def)

function ser_receive :: "nat \<Rightarrow> serial_port \<Rightarrow> serial_port" where
  "ser_receive now s =
     (if \<not> ser_rx_runs s then s
      else case ser_assembling s of
        Some (byte, arrives, ends) \<Rightarrow> if arrives \<le> now then ser_receive now (ser_arrive byte ends s) else s
      | None \<Rightarrow>
          (case cb_inbound (ser_cable s) of
             [] \<Rightarrow> s
           | (sent, coming) # rest \<Rightarrow>
             if max sent (ser_rx_from s) \<le> now then
               let (arrives, ends) = ser_rx_times (max sent (ser_rx_from s)) s
               in ser_receive now (s\<lparr>ser_cable := (ser_cable s)\<lparr>cb_inbound := rest\<rparr>,
                    ser_assembling := Some (coming AND fr_mask (ser_framing s), arrives, ends)\<rparr>)
             else s))"
  by pat_completeness auto
termination
  by (relation "measure (\<lambda>(_, s). 2 * length (cb_inbound (ser_cable s)) + (if ser_assembling s = None then 0 else 1))")
    (auto simp: arrive_fields)

declare ser_receive.simps [simp del]

text \<open>The modem lines as the chip last saw them.\<close>

definition ser_modem :: "serial_port \<Rightarrow> serial_port" where
  "ser_modem s =
     (if ser_dsr s \<noteq> ser_dsr_was s \<or> ser_dcd s \<noteq> ser_dcd_was s then
        let t = s\<lparr>ser_dschg := True, ser_dsr_was := ser_dsr s, ser_dcd_was := ser_dcd s\<rparr>
        in case cb_plugged (ser_cable s) of None \<Rightarrow> t
           | Some at \<Rightarrow> t\<lparr>ser_rx_from := max (ser_rx_from s) at, ser_tx_from := max (ser_tx_from s) at\<rparr>
      else s)"

definition ser_advance :: "nat \<Rightarrow> serial_port \<Rightarrow> serial_port" where
  "ser_advance now s =
     (if ser_shifting s = None \<and> ser_thr s = None \<and> ser_assembling s = None \<and> cb_inbound (ser_cable s) = [] \<and>
         ser_dsr s = ser_dsr_was s \<and> ser_dcd s = ser_dcd_was s
      then s else ser_receive now (ser_transmit now (ser_modem s)))"

definition ser_status :: "serial_port \<Rightarrow> u8" where
  "ser_status s =
     (let flag = (\<lambda>on mask. if on then mask else 0 :: u8);
          tx_ready = (ser_tx_on s \<and> ser_thr s = None);
          tx_empty = (ser_command s AND CR_TX_ENABLE \<noteq> 0 \<and> ser_tx_empty s)
      in flag tx_ready SR_TX_READY OR flag (ser_rx_ready s) SR_RX_READY OR
         flag (tx_empty \<or> ser_dschg s) SR_TX_EMPTY_OR_DSCHG OR ser_errors s OR
         flag (ser_dcd s) SR_DCD OR flag (ser_dsr s) SR_DSR)"

definition ser_select :: "u32 \<Rightarrow> u8" where
  "ser_select uaddr = ucast (drop_bit 1 uaddr AND 3)"

definition ser_read :: "u32 \<Rightarrow> nat \<Rightarrow> serial_port \<Rightarrow> u8 \<times> serial_port" where
  "ser_read uaddr now s =
     (let s = ser_advance now s; r = ser_select uaddr
      in if r = 0 then (ser_rhr s, s\<lparr>ser_rx_ready := False\<rparr>)
         else if r = 1 then (ser_status s, s\<lparr>ser_dschg := False\<rparr>)
         else if r = 2 then (if ser_second_mode s then ser_mode2 s else ser_mode1 s, s\<lparr>ser_second_mode := \<not> ser_second_mode s\<rparr>)
         else (ser_command s, s\<lparr>ser_second_mode := False, ser_next_syn := 0\<rparr>))"

definition ser_write :: "u32 \<Rightarrow> u8 \<Rightarrow> nat \<Rightarrow> serial_port \<Rightarrow> serial_port" where
  "ser_write uaddr byte now s =
     (let s = ser_advance now s; was = ser_enables s; r = ser_select uaddr;
          s = (if r = 0 then s\<lparr>ser_thr := Some (byte, now), ser_tx_empty := False\<rparr>
               else if r = 1 then
                 s\<lparr>ser_syn := (ser_syn s)[unat (ser_next_syn s) := byte], ser_next_syn := (ser_next_syn s + 1) mod 3\<rparr>
               else if r = 2 then
                 let s = (if ser_second_mode s then s\<lparr>ser_mode2 := byte\<rparr> else s\<lparr>ser_mode1 := byte\<rparr>)
                 in s\<lparr>ser_second_mode := \<not> ser_second_mode s\<rparr>
               else
                 let s = (if byte AND CR_RESET_ERROR \<noteq> 0 then s\<lparr>ser_errors := ser_errors s AND NOT SR_ERRORS\<rparr> else s);
                     s = s\<lparr>ser_command := byte AND NOT CR_RESET_ERROR\<rparr>;
                     s = (if \<not> ser_rx_on s then s\<lparr>ser_assembling := None, ser_rx_ready := False\<rparr> else s)
                 in if ser_command s AND CR_TX_ENABLE = 0 then s\<lparr>ser_tx_empty := False\<rparr> else s)
      in ser_receive now (ser_transmit now (ser_note_enables was now s)))"

definition ser_reset :: "serial_port \<Rightarrow> serial_port" where
  "ser_reset s =
     (let s = serial_default\<lparr>ser_cable := ser_cable s\<rparr>; s = s\<lparr>ser_dsr_was := ser_dsr s\<rparr> in s\<lparr>ser_dcd_was := ser_dcd s\<rparr>)"

section \<open>Checkpoint\<close>

definition held :: "bool \<Rightarrow> 'a \<Rightarrow> 'a option" where
  "held some x = (if some then Some x else None)"

definition ser_save :: "serial_port \<Rightarrow> writer \<Rightarrow> writer" where
  "ser_save s = put_all
     [put_bytes [ser_mode1 s, ser_mode2 s, ser_command s, ser_errors s, ser_next_syn s, ser_rhr s], put_bytes (ser_syn s),
      put_bool (ser_second_mode s), put_bool (ser_tx_empty s), put_bool (ser_rx_ready s), put_bool (ser_dschg s),
      put_bool (ser_dsr_was s), put_bool (ser_dcd_was s), put_u64s [of_nat (ser_tx_from s), of_nat (ser_rx_from s)],
      put_bool (ser_generator_from s \<noteq> None), put_u64 (case ser_generator_from s of None \<Rightarrow> 0 | Some t \<Rightarrow> of_nat t),
      put_bool (ser_thr s \<noteq> None), put_u8 (case ser_thr s of None \<Rightarrow> 0 | Some (b, t) \<Rightarrow> b),
      put_u64 (case ser_thr s of None \<Rightarrow> 0 | Some (b, t) \<Rightarrow> of_nat t),
      put_bool (ser_shifting s \<noteq> None), put_u8 (case ser_shifting s of None \<Rightarrow> 0 | Some (b, t) \<Rightarrow> b),
      put_u64 (case ser_shifting s of None \<Rightarrow> 0 | Some (b, t) \<Rightarrow> of_nat t),
      put_bool (ser_assembling s \<noteq> None), put_u8 (case ser_assembling s of None \<Rightarrow> 0 | Some (b, d, e) \<Rightarrow> b),
      put_u64s (case ser_assembling s of None \<Rightarrow> [0, 0] | Some (b, d, e) \<Rightarrow> [of_nat d, of_nat e])]"

text \<open>\<open>let [a, b] = v[..] else\<close> an error.\<close>

definition two_u64s :: "(u64 \<Rightarrow> u64 \<Rightarrow> 'a rd) \<Rightarrow> 'a rd" where
  "two_u64s get = rd_bind get_u64s (\<lambda>v. case v of [a, b] \<Rightarrow> get a b | _ \<Rightarrow> rd_fail Bad_value)"

definition ser_load :: "serial_port \<Rightarrow> serial_port rd" where
  "ser_load s = rd_bind (get_bytes_into 6) (\<lambda>regs. rd_bind (get_bytes_into 3) (\<lambda>syn.
     rd_bind get_bool (\<lambda>second. rd_bind get_bool (\<lambda>tx_empty. rd_bind get_bool (\<lambda>rx_ready. rd_bind get_bool (\<lambda>dschg.
     rd_bind get_bool (\<lambda>dsr_was. rd_bind get_bool (\<lambda>dcd_was. two_u64s (\<lambda>tx_from rx_from.
     rd_bind get_bool (\<lambda>gen. rd_bind get_u64 (\<lambda>gen_at.
     rd_bind get_bool (\<lambda>thr. rd_bind get_u8 (\<lambda>thr_byte. rd_bind get_u64 (\<lambda>thr_at.
     rd_bind get_bool (\<lambda>sh. rd_bind get_u8 (\<lambda>sh_byte. rd_bind get_u64 (\<lambda>sh_at.
     rd_bind get_bool (\<lambda>rx. rd_bind get_u8 (\<lambda>rx_byte. two_u64s (\<lambda>arrives ends.
       rd_return (s\<lparr>ser_mode1 := regs ! 0, ser_mode2 := regs ! 1, ser_command := regs ! 2, ser_errors := regs ! 3,
         ser_next_syn := regs ! 4, ser_rhr := regs ! 5, ser_syn := syn, ser_second_mode := second,
         ser_tx_empty := tx_empty, ser_rx_ready := rx_ready, ser_dschg := dschg, ser_dsr_was := dsr_was,
         ser_dcd_was := dcd_was, ser_tx_from := unat tx_from, ser_rx_from := unat rx_from,
         ser_generator_from := held gen (unat gen_at), ser_thr := held thr (thr_byte, unat thr_at),
         ser_shifting := held sh (sh_byte, unat sh_at),
         ser_assembling := held rx (rx_byte, unat arrives, unat ends)\<rparr>)))))))))))))))))))))"

end
