(* ===== verification/SerialRuns.thy ===== *)
theory SerialRuns
  imports Serial
begin

text \<open>
  The serial port as it runs: the crystal's edges, the transmitter and the receiver as halves that do not touch each
  other, and what follows for how the port is advanced, what it says of itself, and what it sends.
\<close>


section \<open>The crystal\<close>

text \<open>The first rising edge at or after a time, by the division and the two loops.\<close>

lemma rise_up_at: "j \<le> rise_up t j \<and> t \<le> crystal_rise (rise_up t j) \<and> (\<forall>k. j \<le> k \<and> k < rise_up t j \<longrightarrow> crystal_rise k < t)"
proof (induction t j rule: rise_up.induct)
  case (1 t j)
  show ?case
  proof (cases "crystal_rise j < t")
    case True
    then have "rise_up t j = rise_up t (j + 1)" by (simp add: rise_up.simps)
    then show ?thesis using "1.IH" [OF True] True by (auto simp: Suc_le_eq) (metis le_neq_implies_less)
  qed (simp add: rise_up.simps [of t j])
qed

lemma rise_mono: "i \<le> j \<Longrightarrow> crystal_rise i \<le> crystal_rise j"
  by (simp add: rise_at div_le_mono)

lemma rise_down_at: "t \<le> crystal_rise j \<Longrightarrow> t \<le> crystal_rise (rise_down t j) \<and> (\<forall>k < rise_down t j. crystal_rise k < t)"
proof (induction j)
  case (Suc j)
  then show ?case
  proof (cases "t \<le> crystal_rise j")
    case False
    then have "crystal_rise k < t" if "k \<le> j" for k using rise_mono [OF that] by simp
    then show ?thesis using Suc False by auto
  qed simp
qed simp

lemma first_rise:
  "t \<le> crystal_rise (crystal_rise_at_or_after t)" "k < crystal_rise_at_or_after t \<Longrightarrow> crystal_rise k < t"
  "crystal_rise_at_or_after t = (LEAST j. t \<le> crystal_rise j)"
proof -
  have "t \<le> crystal_rise (crystal_rise_at_or_after t) \<and> (\<forall>k < crystal_rise_at_or_after t. crystal_rise k < t)"
    unfolding crystal_rise_at_or_after_def IOB_OSCILLATOR_PERIOD_def Let_def prod.case
    by (rule rise_down_at) (simp add: rise_up_at)
  then show "t \<le> crystal_rise (crystal_rise_at_or_after t)" "k < crystal_rise_at_or_after t \<Longrightarrow> crystal_rise k < t"
    "crystal_rise_at_or_after t = (LEAST j. t \<le> crystal_rise j)"
    by (auto intro!: Least_equality [symmetric] simp: not_less [symmetric])
qed

section \<open>Halves of the port\<close>

text \<open>What the receiver writes, and what the transmitter writes.\<close>

definition receiver_upd ::
  "(u8 \<times> nat \<times> nat) option \<Rightarrow> nat \<Rightarrow> (nat \<times> u8) list \<Rightarrow> u8 \<Rightarrow> bool \<Rightarrow> u8 \<Rightarrow> serial_port \<Rightarrow> serial_port" where
  "receiver_upd assembling from inbound rhr ready errors s =
     s\<lparr>ser_assembling := assembling, ser_rx_from := from, ser_cable := (ser_cable s)\<lparr>cb_inbound := inbound\<rparr>,
       ser_rhr := rhr, ser_rx_ready := ready, ser_errors := errors\<rparr>"

definition transmitter_upd ::
  "(u8 \<times> nat) option \<Rightarrow> (u8 \<times> nat) option \<Rightarrow> bool \<Rightarrow> (nat \<times> u8) list \<Rightarrow> serial_port \<Rightarrow> serial_port" where
  "transmitter_upd thr shifting dry outbound s =
     s\<lparr>ser_thr := thr, ser_shifting := shifting, ser_tx_empty := dry, ser_cable := (ser_cable s)\<lparr>cb_outbound := outbound\<rparr>\<rparr>"

definition same_receiver :: "serial_port \<Rightarrow> serial_port \<Rightarrow> serial_port" where
  "same_receiver r = receiver_upd (ser_assembling r) (ser_rx_from r) (cb_inbound (ser_cable r)) (ser_rhr r) (ser_rx_ready r) (ser_errors r)"

definition same_transmitter :: "serial_port \<Rightarrow> serial_port \<Rightarrow> serial_port" where
  "same_transmitter t = transmitter_upd (ser_thr t) (ser_shifting t) (ser_tx_empty t) (cb_outbound (ser_cable t))"

lemmas mode_defs = ser_mode_def ser_rate_def ser_framing_def ser_dsr_def ser_dcd_def ser_cts_def ser_tx_clocked_def
  ser_rx_clocked_def ser_tx_on_def ser_rx_on_def ser_rx_runs_def ser_rx_times_def ser_clock_at_or_after_def cb_up_def

lemma receiver_upd_modes:
  "ser_mode (receiver_upd a b c d e f s) = ser_mode s" "ser_rate (receiver_upd a b c d e f s) = ser_rate s"
  "ser_framing (receiver_upd a b c d e f s) = ser_framing s" "ser_tx_on (receiver_upd a b c d e f s) = ser_tx_on s"
  "ser_cts (receiver_upd a b c d e f s) = ser_cts s" "ser_thr (receiver_upd a b c d e f s) = ser_thr s"
  "ser_shifting (receiver_upd a b c d e f s) = ser_shifting s" "ser_tx_from (receiver_upd a b c d e f s) = ser_tx_from s"
  "ser_clock_at_or_after t (receiver_upd a b c d e f s) = ser_clock_at_or_after t s"
  by (simp_all add: receiver_upd_def mode_defs)

lemma receiver_upd_start: "ser_thr_start (receiver_upd a b c d e f s) = ser_thr_start s"
  unfolding ser_thr_start_def receiver_upd_modes ..

lemma transmitter_upd_modes:
  "ser_mode (transmitter_upd a b c d s) = ser_mode s" "ser_framing (transmitter_upd a b c d s) = ser_framing s"
  "ser_rx_runs (transmitter_upd a b c d s) = ser_rx_runs s" "ser_rx_times t (transmitter_upd a b c d s) = ser_rx_times t s"
  "ser_assembling (transmitter_upd a b c d s) = ser_assembling s" "ser_rx_from (transmitter_upd a b c d s) = ser_rx_from s"
  "cb_inbound (ser_cable (transmitter_upd a b c d s)) = cb_inbound (ser_cable s)"
  by (simp_all add: transmitter_upd_def mode_defs)

definition cpu_line :: "serial_port \<Rightarrow> bool" where
  "cpu_line s \<longleftrightarrow> ser_mode s = CR_NORMAL"

lemma cpu_line_modes: "cpu_line s \<Longrightarrow> ser_mode s \<noteq> CR_LOCAL_LOOP_BACK \<and> ser_mode s \<noteq> CR_REMOTE_LOOP_BACK \<and> ser_mode s \<noteq> CR_AUTO_ECHO"
  by (simp add: cpu_line_def CR_NORMAL_def CR_LOCAL_LOOP_BACK_def CR_REMOTE_LOOP_BACK_def CR_AUTO_ECHO_def)

text \<open>One step of the transmitter: the shift register's character out, and the holding register's into it.\<close>

definition shift_out :: "u8 \<Rightarrow> nat \<Rightarrow> serial_port \<Rightarrow> serial_port" where
  "shift_out byte ends s =
     (let frame = fr_frame_ns (ser_rate s) (ser_framing s); s = ser_deliver byte ends (s\<lparr>ser_shifting := None\<rparr>)
      in case ser_thr s of
           Some (following, _) \<Rightarrow>
             if ser_tx_on s \<and> ser_cts s then s\<lparr>ser_thr := None, ser_shifting := Some (following, ends + frame)\<rparr> else s
         | None \<Rightarrow> s\<lparr>ser_tx_empty := ser_tx_on s\<rparr>)"

definition shift_in :: "u8 \<Rightarrow> nat \<Rightarrow> serial_port \<Rightarrow> serial_port" where
  "shift_in following start s =
     s\<lparr>ser_thr := None, ser_shifting := Some (following, start + fr_frame_ns (ser_rate s) (ser_framing s))\<rparr>"

lemma transmit_cases:
  obtains (out) byte ends where "ser_shifting s = Some (byte, ends)" "\<And>now. ends \<le> now \<Longrightarrow> ser_transmit now s = ser_transmit now (shift_out byte ends s)"
    "\<And>now. now < ends \<Longrightarrow> ser_transmit now s = s"
  | (start) following l start where "ser_shifting s = None" "ser_thr_start s = Some start" "ser_thr s = Some (following, l)"
    "\<And>now. start \<le> now \<Longrightarrow> ser_transmit now s = ser_transmit now (shift_in following start s)" "\<And>now. now < start \<Longrightarrow> ser_transmit now s = s"
  | (rest) "\<And>now. ser_transmit now s = s" "ser_shifting s = None" "ser_thr_start s = None"
proof (cases "ser_shifting s")
  case (Some x)
  then show thesis using out [of "fst x" "snd x"]
    by (cases x) (simp add: ser_transmit.simps [of _ s] shift_out_def Let_def)
next
  case None
  show thesis
  proof (cases "ser_thr_start s")
    case n: None
    then show thesis using None rest by (simp add: ser_transmit.simps [of _ s] Let_def split: option.split)
  next
    case (Some t)
    then obtain b l where "ser_thr s = Some (b, l)" by (auto simp: ser_thr_start_def split: option.splits)
    then show thesis using None Some start [of t b l] by (simp add: ser_transmit.simps [of _ s] shift_in_def Let_def)
  qed
qed

lemma shift_fields:
  "ser_thr (shift_in b t s) = None" "ser_shifting (shift_in b t s) \<noteq> None"
  "ser_thr s = None \<Longrightarrow> ser_thr (shift_out b t s) = None \<and> ser_shifting (shift_out b t s) = None"
  "ser_thr s \<noteq> None \<Longrightarrow> ser_thr (shift_out b t s) = None \<or> ser_shifting (shift_out b t s) = None"
  by (auto simp: shift_in_def shift_out_def deliver_fields Let_def split: option.split)

lemma transmit_induct [case_names step]:
  assumes "\<And>s. (\<And>b t. ser_shifting s = Some (b, t) \<Longrightarrow> P (shift_out b t s)) \<Longrightarrow>
    (\<And>b t. ser_shifting s = None \<Longrightarrow> ser_thr s \<noteq> None \<Longrightarrow> P (shift_in b t s)) \<Longrightarrow> P s"
  shows "P s"
proof (induction s rule: measure_induct_rule [where f = "\<lambda>s. (if ser_thr s = None then 0 else 2) + (if ser_shifting s = None then 0 else 1 :: nat)"])
  case (less s)
  show ?case
  proof (rule assms)
    fix b t
    assume "ser_shifting s = Some (b, t)"
    then show "P (shift_out b t s)" using shift_fields(3,4) [of s b t] by (intro less) (cases "ser_thr s"; auto)
  next
    fix b t
    assume "ser_shifting s = None" "ser_thr s \<noteq> None"
    then show "P (shift_in b t s)" using shift_fields(1,2) [of b t s] by (intro less) simp
  qed
qed

lemma thr_start_some: "ser_thr_start s = Some t \<Longrightarrow> ser_thr s \<noteq> None"
  by (auto simp: ser_thr_start_def split: option.splits)

lemma transmit_further: "now \<le> t \<Longrightarrow> ser_transmit t (ser_transmit now s) = ser_transmit t s"
proof (induction s rule: transmit_induct)
  case (step s)
  show ?case
  proof (cases s rule: transmit_cases)
    case (out byte ends)
    then show ?thesis using step by (cases "ends \<le> now") auto
  next
    case (start following l at)
    then show ?thesis using step thr_start_some [OF start(2)] by (cases "at \<le> now") auto
  next
    case rest
    then show ?thesis by simp
  qed
qed

lemma shift_keeps:
  assumes "cpu_line s"
  shows "cpu_line (shift_out b t s)" "cpu_line (shift_in b t s)"
    "same_transmitter (shift_out b t s) s = shift_out b t s" "same_transmitter (shift_in b t s) s = shift_in b t s"
    "shift_out b t (receiver_upd x y z u v w s) = receiver_upd x y z u v w (shift_out b t s)"
    "shift_in b t (receiver_upd x y z u v w s) = receiver_upd x y z u v w (shift_in b t s)"
proof -
  have m: "ser_mode s \<noteq> CR_LOCAL_LOOP_BACK" "ser_mode s = CR_NORMAL" using cpu_line_modes [OF assms] assms by (simp_all add: cpu_line_def)
  show "cpu_line (shift_in b t s)" using m by (simp add: cpu_line_def shift_in_def ser_mode_def)
  show "same_transmitter (shift_in b t s) s = shift_in b t s" by (simp add: same_transmitter_def transmitter_upd_def shift_in_def)
  show "shift_in b t (receiver_upd x y z u v w s) = receiver_upd x y z u v w (shift_in b t s)"
    by (simp add: shift_in_def receiver_upd_modes) (simp add: receiver_upd_def)
  have d: "ser_deliver byte at s' = ser_outbound at (byte AND fr_mask (ser_framing s')) s'" if "ser_mode s' = ser_mode s" for byte at s'
    using that m by (simp add: ser_deliver_def Let_def)
  have o: "ser_mode (s\<lparr>ser_shifting := None\<rparr>) = ser_mode s" by (simp add: ser_mode_def)
  show "cpu_line (shift_out b t s)" using m
    by (auto simp: cpu_line_def shift_out_def Let_def d [OF o] ser_outbound_def ser_mode_def split: option.split)
  show "same_transmitter (shift_out b t s) s = shift_out b t s"
    by (auto simp: same_transmitter_def transmitter_upd_def shift_out_def Let_def d [OF o] ser_outbound_def split: option.split)
  have o': "ser_mode ((receiver_upd x y z u v w s)\<lparr>ser_shifting := None\<rparr>) = ser_mode s" by (simp add: ser_mode_def receiver_upd_def)
  show "shift_out b t (receiver_upd x y z u v w s) = receiver_upd x y z u v w (shift_out b t s)"
    unfolding shift_out_def Let_def d [OF o] d [OF o']
    by (auto simp: ser_outbound_def receiver_upd_def mode_defs split: option.split)
qed

lemma transmitter_upd_again: "transmitter_upd x y z w (transmitter_upd x' y' z' w' s) = transmitter_upd x y z w s"
  by (simp add: transmitter_upd_def)

lemma same_transmitter_trans:
  "same_transmitter b a = b \<Longrightarrow> same_transmitter c b = c \<Longrightarrow> same_transmitter c a = c"
  by (metis same_transmitter_def transmitter_upd_again)

lemma transmit_keeps:
  assumes "cpu_line s"
  shows "cpu_line (ser_transmit now s) \<and> same_transmitter (ser_transmit now s) s = ser_transmit now s \<and>
    ser_transmit now (receiver_upd x y z u v w s) = receiver_upd x y z u v w (ser_transmit now s)"
  using assms
proof (induction s rule: transmit_induct)
  case (step s)
  have same: "same_transmitter s s = s" by (simp add: same_transmitter_def transmitter_upd_def)
  let ?r = "receiver_upd x y z u v w"
  show ?case
  proof (cases s rule: transmit_cases)
    case (out byte ends)
    have r: "ser_shifting (?r s) = Some (byte, ends)" using out(1) by (simp add: receiver_upd_modes)
    show ?thesis
    proof (cases "ends \<le> now")
      case True
      have "ser_transmit now (?r s) = ser_transmit now (shift_out byte ends (?r s))"
        using r True by (cases "?r s" rule: transmit_cases) auto
      then show ?thesis using step(1) [OF out(1)] shift_keeps [OF step.prems] out(2) [OF True] same_transmitter_trans by metis
    next
      case False
      then have "ser_transmit now (?r s) = ?r s" using r by (cases "?r s" rule: transmit_cases) auto
      then show ?thesis using out(3) False step.prems same by simp
    qed
  next
    case (start following l at)
    have r: "ser_shifting (?r s) = None" "ser_thr_start (?r s) = Some at" using start(1,2) by (simp_all add: receiver_upd_modes receiver_upd_start)
    show ?thesis
    proof (cases "at \<le> now")
      case True
      have "ser_transmit now (?r s) = ser_transmit now (shift_in following at (?r s))"
        using r start(3) True by (simp add: ser_transmit.simps [of _ "?r s"] receiver_upd_modes receiver_upd_start shift_in_def Let_def)
      then show ?thesis
        using step(2) [OF start(1) thr_start_some [OF start(2)]] shift_keeps [OF step.prems] start(4) [OF True] same_transmitter_trans by metis
    next
      case False
      then have "ser_transmit now (?r s) = ?r s" using r by (cases "?r s" rule: transmit_cases) auto
      then show ?thesis using start(5) False step.prems same by simp
    qed
  next
    case rest
    then have "ser_shifting (?r s) = None" "ser_thr_start (?r s) = None" by (simp_all add: receiver_upd_modes receiver_upd_start)
    then have "ser_transmit now (?r s) = ?r s" by (cases "?r s" rule: transmit_cases) auto
    then show ?thesis using rest step.prems same by simp
  qed
qed

text \<open>The receiver likewise: a character come whole, and the next one off the cable.\<close>

definition take_in :: "nat \<Rightarrow> u8 \<Rightarrow> (nat \<times> u8) list \<Rightarrow> serial_port \<Rightarrow> serial_port" where
  "take_in start coming rest s =
     s\<lparr>ser_cable := (ser_cable s)\<lparr>cb_inbound := rest\<rparr>,
       ser_assembling := Some (coming AND fr_mask (ser_framing s), fst (ser_rx_times start s), snd (ser_rx_times start s))\<rparr>"

lemma receive_cases:
  obtains (whole) byte arrives ends where "ser_rx_runs s" "ser_assembling s = Some (byte, arrives, ends)"
    "\<And>now. arrives \<le> now \<Longrightarrow> ser_receive now s = ser_receive now (ser_arrive byte ends s)" "\<And>now. now < arrives \<Longrightarrow> ser_receive now s = s"
  | (coming) sent coming rest where "ser_rx_runs s" "ser_assembling s = None" "cb_inbound (ser_cable s) = (sent, coming) # rest"
    "\<And>now. max sent (ser_rx_from s) \<le> now \<Longrightarrow> ser_receive now s = ser_receive now (take_in (max sent (ser_rx_from s)) coming rest s)"
    "\<And>now. now < max sent (ser_rx_from s) \<Longrightarrow> ser_receive now s = s"
  | (rest) "\<And>now. ser_receive now s = s" "\<not> ser_rx_runs s \<or> ser_assembling s = None \<and> cb_inbound (ser_cable s) = []"
proof (cases "ser_rx_runs s")
  case runs: True
  show thesis
  proof (cases "ser_assembling s")
    case (Some x)
    then show thesis using runs whole [of "fst x" "fst (snd x)" "snd (snd x)"] by (cases x) (simp add: ser_receive.simps [of _ s])
  next
    case None
    show thesis
    proof (cases "cb_inbound (ser_cable s)")
      case Nil
      then show thesis using runs None rest by (simp add: ser_receive.simps [of _ s])
    next
      case (Cons x xs)
      have "ser_receive now s = (if max (fst x) (ser_rx_from s) \<le> now
          then ser_receive now (take_in (max (fst x) (ser_rx_from s)) (snd x) xs s) else s)" for now
        using Cons runs None by (cases x) (simp add: ser_receive.simps [of _ s] take_in_def Let_def split: prod.split)
      then show thesis using Cons by (intro coming [OF runs None, of "fst x" "snd x" xs]) (simp_all del: max.bounded_iff max_less_iff_conj)
    qed
  qed
next
  case False
  then show thesis using rest by (simp add: ser_receive.simps [of _ s])
qed

lemma receive_induct [case_names step]:
  assumes "\<And>s. (\<And>b t e. ser_assembling s = Some (b, t, e) \<Longrightarrow> P (ser_arrive b e s)) \<Longrightarrow>
    (\<And>start sent coming rest. ser_assembling s = None \<Longrightarrow> cb_inbound (ser_cable s) = (sent, coming) # rest \<Longrightarrow> P (take_in start coming rest s)) \<Longrightarrow> P s"
  shows "P s"
proof (induction s rule: measure_induct_rule [where f = "\<lambda>s. 2 * length (cb_inbound (ser_cable s)) + (if ser_assembling s = None then 0 else 1 :: nat)"])
  case (less s)
  show ?case
  proof (rule assms)
    fix b t e
    assume "ser_assembling s = Some (b, t, e)"
    then show "P (ser_arrive b e s)" by (intro less) (simp add: arrive_fields)
  next
    fix start sent coming rest
    assume "ser_assembling s = None" "cb_inbound (ser_cable s) = (sent, coming) # rest"
    then show "P (take_in start coming rest s)" by (intro less) (simp add: take_in_def)
  qed
qed

lemma receive_further: "now \<le> t \<Longrightarrow> ser_receive t (ser_receive now s) = ser_receive t s"
proof (induction s rule: receive_induct)
  case (step s)
  show ?case
  proof (cases s rule: receive_cases)
    case (whole byte arrives ends)
    then show ?thesis using step by (cases "arrives \<le> now") auto
  next
    case (coming sent c rest)
    then show ?thesis using step by (cases "max sent (ser_rx_from s) \<le> now") auto
  next
    case rest
    then show ?thesis by simp
  qed
qed

lemma receiver_upd_again: "receiver_upd a b c d e f (receiver_upd a' b' c' d' e' f' s) = receiver_upd a b c d e f s"
  by (simp add: receiver_upd_def)

lemma same_receiver_trans: "same_receiver b a = b \<Longrightarrow> same_receiver c b = c \<Longrightarrow> same_receiver c a = c"
  by (metis same_receiver_def receiver_upd_again)

lemma arrive_keeps:
  assumes "cpu_line s"
  shows "cpu_line (ser_arrive b e s)" "same_receiver (ser_arrive b e s) s = ser_arrive b e s"
    "ser_arrive b e (transmitter_upd x y z w s) = transmitter_upd x y z w (ser_arrive b e s)"
    "cpu_line (take_in start c rest s)" "same_receiver (take_in start c rest s) s = take_in start c rest s"
    "take_in start c rest (transmitter_upd x y z w s) = transmitter_upd x y z w (take_in start c rest s)"
proof -
  have a: "ser_arrive b e s' = ser_load_rhr b (s'\<lparr>ser_assembling := None, ser_rx_from := e\<rparr>)" if "ser_command s' = ser_command s" for s'
    using cpu_line_modes [OF assms] that by (simp add: ser_arrive_def Let_def ser_mode_def)
  have t: "ser_command (transmitter_upd x y z w s) = ser_command s" by (simp add: transmitter_upd_def)
  show "cpu_line (ser_arrive b e s)" "same_receiver (ser_arrive b e s) s = ser_arrive b e s"
    unfolding a [OF refl] using assms
    by (simp_all add: cpu_line_def ser_mode_def ser_load_rhr_def Let_def same_receiver_def receiver_upd_def)
  show "ser_arrive b e (transmitter_upd x y z w s) = transmitter_upd x y z w (ser_arrive b e s)"
    unfolding a [OF refl] a [OF t] by (simp add: ser_load_rhr_def Let_def transmitter_upd_def)
  show "cpu_line (take_in start c rest s)" "same_receiver (take_in start c rest s) s = take_in start c rest s"
    using assms by (simp_all add: cpu_line_def ser_mode_def take_in_def same_receiver_def receiver_upd_def)
  show "take_in start c rest (transmitter_upd x y z w s) = transmitter_upd x y z w (take_in start c rest s)"
    by (simp add: take_in_def transmitter_upd_modes) (simp add: transmitter_upd_def)
qed

lemma receive_keeps:
  assumes "cpu_line s"
  shows "cpu_line (ser_receive now s) \<and> same_receiver (ser_receive now s) s = ser_receive now s \<and>
    ser_receive now (transmitter_upd x y z w s) = transmitter_upd x y z w (ser_receive now s)"
  using assms
proof (induction s rule: receive_induct)
  case (step s)
  have same: "same_receiver s s = s" by (simp add: same_receiver_def receiver_upd_def)
  let ?t = "transmitter_upd x y z w"
  note modes = transmitter_upd_modes [where a = x and b = y and c = z and d = w and s = s]
  have on: ?case if n: "cpu_line (ser_receive now n) \<and> same_receiver (ser_receive now n) n = ser_receive now n \<and>
      ser_receive now (?t n) = ?t (ser_receive now n)" "same_receiver n s = n"
      "ser_receive now s = ser_receive now n" "ser_receive now (?t s) = ser_receive now (?t n)" for n
    using n same_receiver_trans [OF n(2)] by simp
  show ?case
  proof (cases s rule: receive_cases)
    case (whole byte arrives ends)
    have "ser_receive now (?t s) = (if arrives \<le> now then ser_receive now (ser_arrive byte ends (?t s)) else ?t s)"
      using whole(1,2) by (simp add: ser_receive.simps [of _ "?t s"] modes)
    then show ?thesis
      using on [OF step(1) [OF whole(2) arrive_keeps(1) [OF step.prems]] arrive_keeps(2) [OF step.prems] whole(3)]
        arrive_keeps(3) [OF step.prems] whole(4) same step.prems
      by (cases "arrives \<le> now") simp_all
  next
    case (coming sent c rest)
    have "ser_receive now (?t s) =
      (if max sent (ser_rx_from s) \<le> now then ser_receive now (take_in (max sent (ser_rx_from s)) c rest (?t s)) else ?t s)"
      using coming(1-3) by (simp add: ser_receive.simps [of _ "?t s"] modes take_in_def Let_def split: prod.split)
    then show ?thesis
      using on [OF step(2) [OF coming(2,3) arrive_keeps(4) [OF step.prems]] arrive_keeps(5) [OF step.prems] coming(4)]
        arrive_keeps(6) [OF step.prems] coming(5) same step.prems
      by (cases "max sent (ser_rx_from s) \<le> now") (simp_all del: max.bounded_iff max_less_iff_conj)
  next
    case rest
    then have "ser_receive now (?t s) = ?t s" by (auto simp: ser_receive.simps [of _ "?t s"] modes)
    then show ?thesis using rest(1) step.prems same by simp
  qed
qed

lemma halves_commute:
  assumes "cpu_line s"
  shows "ser_transmit t (ser_receive now s) = ser_receive now (ser_transmit t s)"
proof -
  have r: "same_receiver (ser_receive now s) s = ser_receive now s" using receive_keeps [OF assms] by blast
  have t: "same_transmitter (ser_transmit t s) s = ser_transmit t s" using transmit_keeps [OF assms] by blast
  have "ser_transmit t (ser_receive now s) = same_receiver (ser_receive now s) (ser_transmit t s)"
    by (subst r [symmetric]) (simp only: same_receiver_def transmit_keeps [OF assms])
  also have "\<dots> = same_receiver (ser_receive now s) (same_transmitter (ser_transmit t s) s)" by (simp only: t)
  also have "\<dots> = same_transmitter (ser_transmit t s) (same_receiver (ser_receive now s) s)"
    by (simp add: same_receiver_def same_transmitter_def receiver_upd_def transmitter_upd_def)
  also have "\<dots> = same_transmitter (ser_transmit t s) (ser_receive now s)" by (simp only: r)
  also have "\<dots> = ser_receive now (same_transmitter (ser_transmit t s) s)"
    by (simp only: same_transmitter_def receive_keeps [OF assms])
  finally show ?thesis by (simp only: t)
qed

section \<open>How often the port is advanced\<close>

text \<open>The skip for a port with nothing in flight changes nothing.\<close>

lemma nothing_in_flight:
  "ser_shifting s = None \<Longrightarrow> ser_thr s = None \<Longrightarrow> ser_assembling s = None \<Longrightarrow> cb_inbound (ser_cable s) = [] \<Longrightarrow>
    ser_transmit now s = s \<and> ser_receive now s = s"
  by (simp add: ser_transmit.simps [of now s] ser_receive.simps [of now s] Let_def)

lemma advance_halves: "ser_advance now s = ser_receive now (ser_transmit now (ser_modem s))"
proof -
  have "ser_dsr s = ser_dsr_was s \<Longrightarrow> ser_dcd s = ser_dcd_was s \<Longrightarrow> ser_modem s = s" by (simp add: ser_modem_def)
  then show ?thesis using nothing_in_flight [of s now] by (auto simp: ser_advance_def)
qed

lemma modem_keeps: "cpu_line s \<Longrightarrow> cpu_line (ser_modem s)"
  "ser_dsr (ser_modem s) = ser_dsr_was (ser_modem s)" "ser_dcd (ser_modem s) = ser_dcd_was (ser_modem s)"
  by (auto simp: ser_modem_def cpu_line_def mode_defs Let_def split: option.split)

lemma modem_seen: "ser_dsr s = ser_dsr_was s \<Longrightarrow> ser_dcd s = ser_dcd_was s \<Longrightarrow> ser_modem s = s"
  by (simp add: ser_modem_def)

lemma halves_lines:
  "same_transmitter t s = t \<Longrightarrow> ser_dsr t = ser_dsr s \<and> ser_dcd t = ser_dcd s \<and> ser_dsr_was t = ser_dsr_was s \<and> ser_dcd_was t = ser_dcd_was s"
  "same_receiver t s = t \<Longrightarrow> ser_dsr t = ser_dsr s \<and> ser_dcd t = ser_dcd s \<and> ser_dsr_was t = ser_dsr_was s \<and> ser_dcd_was t = ser_dcd_was s"
proof -
  have "ser_dsr (same_transmitter t s) = ser_dsr s \<and> ser_dcd (same_transmitter t s) = ser_dcd s \<and>
    ser_dsr_was (same_transmitter t s) = ser_dsr_was s \<and> ser_dcd_was (same_transmitter t s) = ser_dcd_was s"
    by (simp add: same_transmitter_def transmitter_upd_def mode_defs)
  then show "same_transmitter t s = t \<Longrightarrow> ser_dsr t = ser_dsr s \<and> ser_dcd t = ser_dcd s \<and> ser_dsr_was t = ser_dsr_was s \<and> ser_dcd_was t = ser_dcd_was s"
    by metis
  have "ser_dsr (same_receiver t s) = ser_dsr s \<and> ser_dcd (same_receiver t s) = ser_dcd s \<and>
    ser_dsr_was (same_receiver t s) = ser_dsr_was s \<and> ser_dcd_was (same_receiver t s) = ser_dcd_was s"
    by (simp add: same_receiver_def receiver_upd_def mode_defs)
  then show "same_receiver t s = t \<Longrightarrow> ser_dsr t = ser_dsr s \<and> ser_dcd t = ser_dcd s \<and> ser_dsr_was t = ser_dsr_was s \<and> ser_dcd_was t = ser_dcd_was s"
    by metis
qed

lemma advance_keeps:
  assumes "cpu_line s"
  shows "cpu_line (ser_advance now s)" "ser_modem (ser_advance now s) = ser_advance now s"
proof -
  note m = modem_keeps(1) [OF assms]
  note t = transmit_keeps [OF m, of now]
  note r = receive_keeps [OF conjunct1 [OF t], of now]
  show "cpu_line (ser_advance now s)" using r by (simp add: advance_halves)
  show "ser_modem (ser_advance now s) = ser_advance now s"
    using halves_lines(1) [of "ser_transmit now (ser_modem s)" "ser_modem s"] t r modem_keeps(2,3) [of s]
      halves_lines(2) [of "ser_receive now (ser_transmit now (ser_modem s))" "ser_transmit now (ser_modem s)"]
    by (intro modem_seen) (simp_all add: advance_halves)
qed

text \<open>What the transmitter leaves of the receiver's state in every mode, and the receiver of the transmitter's.\<close>

definition lines_seen :: "serial_port \<Rightarrow> bool" where
  "lines_seen s \<longleftrightarrow> ser_dsr s = ser_dsr_was s \<and> ser_dcd s = ser_dcd_was s"

lemma lines_modem: "lines_seen s \<Longrightarrow> ser_modem s = s" "lines_seen (ser_modem s)"
  using modem_seen modem_keeps(2,3) by (simp_all add: lines_seen_def)

lemma deliver_lines: "lines_seen (ser_deliver b t s) = lines_seen s"
  by (simp add: ser_deliver_def ser_load_rhr_def ser_outbound_def lines_seen_def mode_defs Let_def)

lemma lines_frame [simp]:
  "lines_seen (s\<lparr>ser_shifting := x\<rparr>) = lines_seen s" "lines_seen (s\<lparr>ser_thr := y\<rparr>) = lines_seen s"
  "lines_seen (s\<lparr>ser_tx_empty := b\<rparr>) = lines_seen s"
  by (simp_all add: lines_seen_def mode_defs)

lemma shift_lines: "lines_seen (shift_out b t s) = lines_seen s" "lines_seen (shift_in b t s) = lines_seen s"
  by (auto simp: shift_out_def shift_in_def Let_def deliver_lines split: option.split)

definition nothing_coming :: "serial_port \<Rightarrow> bool" where
  "nothing_coming s \<longleftrightarrow> ser_assembling s = None \<and> cb_inbound (ser_cable s) = []"

definition nothing_going :: "serial_port \<Rightarrow> bool" where
  "nothing_going s \<longleftrightarrow> ser_thr s = None \<and> ser_shifting s = None"

lemma deliver_coming: "nothing_coming (ser_deliver b t s) = nothing_coming s"
  by (simp add: ser_deliver_def ser_load_rhr_def ser_outbound_def nothing_coming_def Let_def)

lemma coming_frame [simp]:
  "nothing_coming (s\<lparr>ser_shifting := x\<rparr>) = nothing_coming s" "nothing_coming (s\<lparr>ser_thr := y\<rparr>) = nothing_coming s"
  "nothing_coming (s\<lparr>ser_tx_empty := b\<rparr>) = nothing_coming s"
  by (simp_all add: nothing_coming_def)

lemma shift_coming: "nothing_coming (shift_out b t s) = nothing_coming s" "nothing_coming (shift_in b t s) = nothing_coming s"
  by (auto simp: shift_out_def shift_in_def Let_def deliver_coming split: option.split)

lemma transmit_all_modes:
  "lines_seen (ser_transmit now s) = lines_seen s \<and> nothing_coming (ser_transmit now s) = nothing_coming s"
proof (induction s rule: transmit_induct)
  case (step s)
  show ?case
  proof (cases s rule: transmit_cases)
    case (out byte ends)
    then show ?thesis using step(1) [OF out(1)] shift_lines(1) shift_coming(1) by (cases "ends \<le> now") simp_all
  next
    case (start following l at)
    then show ?thesis using step(2) [OF start(1)] shift_lines(2) shift_coming(2) by (cases "at \<le> now") simp_all
  qed simp
qed

lemma arrive_all_modes:
  "lines_seen (ser_arrive b e s) = lines_seen s" "nothing_going (ser_arrive b e s) = nothing_going s"
  "lines_seen (take_in start c rest s) = lines_seen s" "nothing_going (take_in start c rest s) = nothing_going s"
  by (simp_all add: ser_arrive_def ser_load_rhr_def ser_outbound_def take_in_def lines_seen_def nothing_going_def mode_defs Let_def)

lemma receive_all_modes:
  "lines_seen (ser_receive now s) = lines_seen s \<and> nothing_going (ser_receive now s) = nothing_going s"
proof (induction s rule: receive_induct)
  case (step s)
  show ?case
  proof (cases s rule: receive_cases)
    case (whole byte arrives ends)
    then show ?thesis using step(1) [OF whole(2)] arrive_all_modes(1,2) by (cases "arrives \<le> now") simp_all
  next
    case (coming sent c rest)
    then show ?thesis using step(2) [OF coming(2,3)] arrive_all_modes(3,4)
      by (cases "max sent (ser_rx_from s) \<le> now") (simp_all del: max.bounded_iff max_less_iff_conj)
  qed simp
qed

lemma modem_flow: "nothing_coming (ser_modem s) = nothing_coming s" "nothing_going (ser_modem s) = nothing_going s"
  by (simp_all add: ser_modem_def nothing_coming_def nothing_going_def Let_def split: option.split)

lemma idle_halves:
  "nothing_coming s \<Longrightarrow> ser_receive now s = s" "nothing_going s \<Longrightarrow> ser_transmit now s = s"
  by (simp_all add: nothing_coming_def nothing_going_def ser_receive.simps [of now s] ser_transmit.simps [of now s] Let_def)

text \<open>
  C37: how often the port is advanced does not show. In the mode that puts the processor's characters on the line,
  whatever is in the registers and on the cable, and in every other mode while only one half of the port has
  characters (nothing is coming in, or nothing is going out), a port advanced to a time, and then to a later one, is
  the port advanced to the later one at once. With both halves at work in the other modes it does show: both put
  their characters in one place.
\<close>

theorem serial_in_pieces:
  assumes "ser_mode s = CR_NORMAL \<or> nothing_coming s \<or> nothing_going s" "now \<le> later"
  shows "ser_advance later (ser_advance now s) = ser_advance later s"
proof -
  define m where "m = ser_modem s"
  have a: "ser_advance t s = ser_receive t (ser_transmit t m)" for t by (simp add: advance_halves m_def)
  have seen: "lines_seen m" by (simp add: m_def lines_modem)
  have "ser_modem (ser_advance now s) = ser_advance now s"
    using seen transmit_all_modes receive_all_modes by (intro lines_modem(1)) (simp add: a)
  then have b: "ser_advance later (ser_advance now s) = ser_receive later (ser_transmit later (ser_receive now (ser_transmit now m)))"
    by (simp add: advance_halves [of later] a)
  consider "ser_mode s = CR_NORMAL" | "nothing_coming m" | "nothing_going m" using assms(1) by (auto simp: m_def modem_flow)
  then show ?thesis
  proof cases
    case 1
    then have m: "cpu_line m" using modem_keeps(1) [of s] by (simp add: m_def cpu_line_def)
    note t = transmit_keeps [OF m, THEN conjunct1]
    show ?thesis unfolding b a [of later]
      by (simp only: halves_commute [OF t] receive_further [OF assms(2)] transmit_further [OF assms(2)])
  next
    case 2
    then show ?thesis unfolding b a [of later]
      by (simp add: idle_halves(1) transmit_all_modes transmit_further [OF assms(2)])
  next
    case 3
    then show ?thesis unfolding b a [of later]
      by (simp add: idle_halves(2) receive_all_modes receive_further [OF assms(2)])
  qed
qed

lemma serial_in_pieces_witness:
  "\<exists>s. ser_thr s = Some (0x41, 4) \<and> ser_mode s = CR_LOCAL_LOOP_BACK \<and> ser_advance 90000 (ser_advance 5 s) = ser_advance 90000 s"
  using serial_in_pieces [of "serial_default\<lparr>ser_thr := Some (0x41, 4), ser_command := 0x80\<rparr>" 5 90000]
  by (intro exI [where x = "serial_default\<lparr>ser_thr := Some (0x41, 4), ser_command := 0x80\<rparr>"])
    (simp add: serial_default_def serial_cable_default_def nothing_coming_def ser_mode_def CR_MODE_MASK_def CR_LOCAL_LOOP_BACK_def)

section \<open>What is ready\<close>

lemma transmit_ready:
  "ser_tx_on s \<Longrightarrow> ser_thr (ser_transmit now s) = None \<longleftrightarrow> ser_tx_ready_at now s"
proof -
  assume on: "ser_tx_on s"
  have gone: "ser_thr s' = None \<Longrightarrow> ser_thr (ser_transmit now s') = None" for s'
  proof (induction s' rule: transmit_induct)
    case (step s')
    have no: "ser_thr_start s' = None" using step.prems by (simp add: ser_thr_start_def)
    show ?case
    proof (cases s' rule: transmit_cases)
      case (out byte ends)
      then show ?thesis using step shift_fields(3) [OF step.prems] by (cases "ends \<le> now") auto
    qed (use no step.prems in simp_all)
  qed
  show ?thesis
  proof (cases s rule: transmit_cases)
    case (out byte ends)
    show ?thesis
    proof (cases "ser_thr s")
      case None
      then show ?thesis using gone on by (simp add: ser_tx_ready_at_def)
    next
      case (Some x)
      have d: "ser_tx_on (ser_deliver byte ends (s\<lparr>ser_shifting := None\<rparr>)) = ser_tx_on s" "ser_cts (ser_deliver byte ends (s\<lparr>ser_shifting := None\<rparr>)) = ser_cts s"
        by (simp_all add: ser_deliver_def ser_load_rhr_def ser_outbound_def Let_def mode_defs)
      have "ser_thr (shift_out byte ends s) = (if ser_cts s then None else Some x)"
        "\<not> ser_cts s \<Longrightarrow> ser_shifting (shift_out byte ends s) = None \<and> ser_thr_start (shift_out byte ends s) = None"
        using Some on by (auto simp: shift_out_def Let_def deliver_fields d ser_thr_start_def split: prod.split)
      then have "ends \<le> now \<Longrightarrow> ser_thr (ser_transmit now s) = None \<longleftrightarrow> ser_cts s"
        using out(2) gone by (cases "ser_cts s") (simp_all, cases "shift_out byte ends s" rule: transmit_cases, auto)
      moreover have "now < ends \<Longrightarrow> ser_thr (ser_transmit now s) \<noteq> None" using out(3) Some by simp
      ultimately show ?thesis using Some out(1) on by (cases "ends \<le> now") (auto simp: ser_tx_ready_at_def split: prod.split)
    qed
  next
    case (start following l at)
    then show ?thesis using on gone shift_fields(1) [of following at s] by (cases "at \<le> now") (auto simp: ser_tx_ready_at_def)
  next
    case rest
    then show ?thesis using on by (auto simp: ser_tx_ready_at_def split: option.split)
  qed
qed

lemma take_in_runs: "ser_rx_runs (take_in start c rest s) = ser_rx_runs s"
  by (simp add: take_in_def mode_defs)

lemma rx_times_later: "start \<le> fst (ser_rx_times start s)"
  by (simp add: ser_rx_times_def Let_def)

lemma receive_ready:
  assumes "ser_mode s \<noteq> CR_REMOTE_LOOP_BACK"
  shows "ser_rx_ready (ser_receive now s) \<longleftrightarrow> ser_rx_ready_at now s"
proof -
  have stays: "ser_rx_ready s' \<Longrightarrow> ser_rx_ready (ser_receive now s')" for s'
  proof (induction s' rule: receive_induct)
    case (step s')
    have "ser_rx_ready (ser_arrive b e s')" for b e
      using step.prems by (auto simp: ser_arrive_def ser_load_rhr_def ser_outbound_def Let_def)
    moreover have "ser_rx_ready (take_in start c rest s')" for start c rest using step.prems by (simp add: take_in_def)
    ultimately show ?case using step by (cases s' rule: receive_cases) (metis not_less)+
  qed
  have arrived: "ser_rx_ready (ser_arrive b e s')" if "ser_mode s' \<noteq> CR_REMOTE_LOOP_BACK" for b e s'
    using that by (simp add: ser_arrive_def ser_load_rhr_def Let_def ser_mode_def)
  have one: "ser_rx_ready (ser_receive now s') \<longleftrightarrow> ser_rx_ready s' \<or> arrives \<le> now"
    if "ser_mode s' \<noteq> CR_REMOTE_LOOP_BACK" "ser_rx_runs s'" "ser_assembling s' = Some (byte, arrives, ends)" for s' byte arrives ends
    using that stays [OF arrived [OF that(1)], of byte ends] stays [of s']
    by (auto simp: ser_receive.simps [of now s'])
  show ?thesis
  proof (cases s rule: receive_cases)
    case (whole byte arrives ends)
    then show ?thesis using one [OF assms whole(1,2)] by (simp add: ser_rx_ready_at_def ser_next_arrival_def)
  next
    case (coming sent c rest)
    let ?start = "max sent (ser_rx_from s)"
    have later: "?start \<le> fst (ser_rx_times ?start s)" by (rule rx_times_later)
    have "ser_mode (take_in ?start c rest s) = ser_mode s" by (simp add: take_in_def ser_mode_def)
    then have n: "ser_mode (take_in ?start c rest s) \<noteq> CR_REMOTE_LOOP_BACK" "ser_rx_runs (take_in ?start c rest s)"
      using assms coming(1) by (simp_all add: take_in_runs)
    have f: "ser_rx_ready (take_in ?start c rest s) = ser_rx_ready s" "ser_assembling (take_in ?start c rest s) =
        Some (c AND fr_mask (ser_framing s), fst (ser_rx_times ?start s), snd (ser_rx_times ?start s))"
      by (simp_all add: take_in_def)
    have "ser_rx_ready_at now s \<longleftrightarrow> ser_rx_ready s \<or> fst (ser_rx_times ?start s) \<le> now"
      using coming(1-3) by (simp add: ser_rx_ready_at_def ser_next_arrival_def)
    then show ?thesis using coming(4,5) one [OF n f(2)] f(1) later stays [of s]
      by (cases "?start \<le> now") (auto simp del: max.bounded_iff max_less_iff_conj)
  next
    case rest
    then show ?thesis by (auto simp: ser_rx_ready_at_def ser_next_arrival_def)
  qed
qed

lemma status_bits:
  assumes "ser_errors s AND 3 = 0"
  shows "ser_status s AND SR_TX_READY \<noteq> 0 \<longleftrightarrow> ser_tx_on s \<and> ser_thr s = None"
    "ser_status s AND SR_RX_READY \<noteq> 0 \<longleftrightarrow> ser_rx_ready s"
proof -
  have "ser_errors s AND 1 = (ser_errors s AND 3) AND 1" "ser_errors s AND 2 = (ser_errors s AND 3) AND 2"
    by (simp_all add: and.assoc)
  then have "ser_errors s AND 1 = 0" "ser_errors s AND 2 = 0" by (simp_all add: assms)
  then show "ser_status s AND SR_TX_READY \<noteq> 0 \<longleftrightarrow> ser_tx_on s \<and> ser_thr s = None"
    "ser_status s AND SR_RX_READY \<noteq> 0 \<longleftrightarrow> ser_rx_ready s"
    by (auto simp: ser_status_def Let_def SR_TX_READY_def SR_RX_READY_def SR_TX_EMPTY_OR_DSCHG_def SR_DCD_def SR_DSR_def
      bit.conj_disj_distrib2)
qed

section \<open>What the port will answer\<close>

lemma transmit_same: "cpu_line s \<Longrightarrow> same_transmitter (ser_transmit now s) s = ser_transmit now s"
  using transmit_keeps by blast

lemma receive_same: "cpu_line s \<Longrightarrow> same_receiver (ser_receive now s) s = ser_receive now s"
  using receive_keeps by blast

lemma receive_leaves:
  assumes "cpu_line s"
  shows "ser_thr (ser_receive now s) = ser_thr s" "ser_tx_on (ser_receive now s) = ser_tx_on s"
    "ser_shifting (ser_receive now s) = ser_shifting s" "cb_outbound (ser_cable (ser_receive now s)) = cb_outbound (ser_cable s)"
    "ser_framing (ser_receive now s) = ser_framing s"
  by (subst receive_same [OF assms, symmetric], simp add: same_receiver_def receiver_upd_def mode_defs)+

lemma transmitter_upd_arrival: "ser_rx_ready_at t (transmitter_upd x y z w s) = ser_rx_ready_at t s"
proof -
  have "ser_rx_ready (transmitter_upd x y z w s) = ser_rx_ready s" by (simp add: transmitter_upd_def)
  then show ?thesis unfolding ser_rx_ready_at_def ser_next_arrival_def transmitter_upd_modes by simp
qed

lemma transmit_leaves:
  assumes "cpu_line s"
  shows "ser_rx_ready (ser_transmit now s) = ser_rx_ready s" "ser_tx_on (ser_transmit now s) = ser_tx_on s"
    "ser_errors (ser_transmit now s) = ser_errors s" "ser_framing (ser_transmit now s) = ser_framing s"
    "ser_rx_ready_at t (ser_transmit now s) = ser_rx_ready_at t s"
proof -
  note [simp] = mode_defs
  show "ser_rx_ready (ser_transmit now s) = ser_rx_ready s" "ser_tx_on (ser_transmit now s) = ser_tx_on s"
    "ser_errors (ser_transmit now s) = ser_errors s" "ser_framing (ser_transmit now s) = ser_framing s"
    by (subst transmit_same [OF assms, symmetric], simp add: same_transmitter_def transmitter_upd_def)+
  show "ser_rx_ready_at t (ser_transmit now s) = ser_rx_ready_at t s"
    by (subst transmit_same [OF assms, symmetric]) (simp only: same_transmitter_def transmitter_upd_arrival)
qed

lemma arrive_errors: "ser_errors s AND 3 = 0 \<Longrightarrow> ser_errors (ser_arrive b e s) AND 3 = 0"
  by (auto simp: ser_arrive_def ser_load_rhr_def ser_outbound_def Let_def SR_OVERRUN_def bit.conj_disj_distrib2)

lemma receive_errors: "ser_errors s AND 3 = 0 \<Longrightarrow> ser_errors (ser_receive now s) AND 3 = 0"
proof (induction s rule: receive_induct)
  case (step s)
  show ?case
  proof (cases s rule: receive_cases)
    case (whole byte arrives ends)
    then show ?thesis using step arrive_errors by (cases "arrives \<le> now") auto
  next
    case (coming sent c rest)
    then show ?thesis using step by (cases "max sent (ser_rx_from s) \<le> now") (auto simp: take_in_def simp del: max.bounded_iff max_less_iff_conj)
  next
    case rest
    then show ?thesis using step.prems by simp
  qed
qed

text \<open>In every mode the transmitter leaves what its own readiness is made from, and the receiver too.\<close>

lemma deliver_on:
  "ser_tx_on (ser_deliver b t s) = ser_tx_on s" "ser_errors s AND 3 = 0 \<Longrightarrow> ser_errors (ser_deliver b t s) AND 3 = 0"
  "ser_mode (ser_deliver b t s) = ser_mode s"
  by (auto simp: ser_deliver_def ser_load_rhr_def ser_outbound_def Let_def mode_defs SR_OVERRUN_def bit.conj_disj_distrib2)

lemma shift_on:
  "ser_tx_on (shift_out b t s) = ser_tx_on s" "ser_errors s AND 3 = 0 \<Longrightarrow> ser_errors (shift_out b t s) AND 3 = 0"
  "ser_tx_on (shift_in b t s) = ser_tx_on s" "ser_errors (shift_in b t s) = ser_errors s"
  "ser_mode (shift_out b t s) = ser_mode s" "ser_mode (shift_in b t s) = ser_mode s"
proof -
  have c: "ser_tx_on (s\<lparr>ser_shifting := None\<rparr>) = ser_tx_on s" "ser_mode (s\<lparr>ser_shifting := None\<rparr>) = ser_mode s" by (simp_all add: mode_defs)
  have u: "ser_tx_on (t\<lparr>ser_thr := x, ser_shifting := y\<rparr>) = ser_tx_on t" "ser_tx_on (t\<lparr>ser_tx_empty := z\<rparr>) = ser_tx_on t"
    "ser_mode (t\<lparr>ser_thr := x, ser_shifting := y\<rparr>) = ser_mode t" "ser_mode (t\<lparr>ser_tx_empty := z\<rparr>) = ser_mode t" for t x y z
    by (simp_all add: mode_defs)
  show "ser_tx_on (shift_out b t s) = ser_tx_on s" "ser_mode (shift_out b t s) = ser_mode s"
    by (auto simp: shift_out_def Let_def u c deliver_on split: option.split)
  show "ser_errors s AND 3 = 0 \<Longrightarrow> ser_errors (shift_out b t s) AND 3 = 0"
    using deliver_on(2) [of "s\<lparr>ser_shifting := None\<rparr>" b t] by (auto simp: shift_out_def Let_def split: option.split)
qed (simp_all add: shift_in_def mode_defs)

lemma transmit_on:
  "ser_tx_on (ser_transmit now s) = ser_tx_on s \<and> ser_mode (ser_transmit now s) = ser_mode s \<and>
    (ser_errors s AND 3 = 0 \<longrightarrow> ser_errors (ser_transmit now s) AND 3 = 0)"
proof (induction s rule: transmit_induct)
  case (step s)
  show ?case
  proof (cases s rule: transmit_cases)
    case (out byte ends)
    then show ?thesis using step(1) [OF out(1)] shift_on(1,2,5) [where s = s] by (cases "ends \<le> now") simp_all
  next
    case (start following l at)
    then show ?thesis using step(2) [OF start(1)] shift_on(3,4,6) [where s = s] by (cases "at \<le> now") simp_all
  qed simp
qed

lemma arrive_on:
  "ser_tx_on (ser_arrive b e s) = ser_tx_on s \<and> ser_thr (ser_arrive b e s) = ser_thr s"
  "ser_tx_on (take_in start c rest s) = ser_tx_on s \<and> ser_thr (take_in start c rest s) = ser_thr s"
  by (simp_all add: ser_arrive_def ser_load_rhr_def ser_outbound_def take_in_def mode_defs Let_def)

lemma receive_on: "ser_tx_on (ser_receive now s) = ser_tx_on s \<and> ser_thr (ser_receive now s) = ser_thr s"
proof (induction s rule: receive_induct)
  case (step s)
  show ?case
  proof (cases s rule: receive_cases)
    case (whole byte arrives ends)
    then show ?thesis using step(1) [OF whole(2)] arrive_on(1) by (cases "arrives \<le> now") simp_all
  next
    case (coming sent c rest)
    then show ?thesis using step(2) [OF coming(2,3)] arrive_on(2)
      by (cases "max sent (ser_rx_from s) \<le> now") (simp_all del: max.bounded_iff max_less_iff_conj)
  qed simp
qed

text \<open>Out of local loop back the transmitter leaves the receiver's answer.\<close>

lemma shift_arrival:
  "ser_mode s \<noteq> CR_LOCAL_LOOP_BACK \<Longrightarrow> \<exists>x y z w. shift_out b t s = transmitter_upd x y z w s"
  "\<exists>x y z w. shift_in b t s = transmitter_upd x y z w s"
proof -
  assume "ser_mode s \<noteq> CR_LOCAL_LOOP_BACK"
  then have d: "ser_deliver b t (s\<lparr>ser_shifting := None\<rparr>) =
      ser_outbound t (b AND fr_mask (ser_framing s)) (s\<lparr>ser_shifting := None\<rparr>)"
    by (simp add: ser_deliver_def Let_def ser_mode_def ser_framing_def)
  have "shift_out b t s = same_transmitter (shift_out b t s) s"
    by (auto simp: same_transmitter_def transmitter_upd_def shift_out_def Let_def d ser_outbound_def split: option.split)
  then show "\<exists>x y z w. shift_out b t s = transmitter_upd x y z w s" unfolding same_transmitter_def by blast
next
  have "shift_in b t s = same_transmitter (shift_in b t s) s" by (simp add: same_transmitter_def transmitter_upd_def shift_in_def)
  then show "\<exists>x y z w. shift_in b t s = transmitter_upd x y z w s" unfolding same_transmitter_def by blast
qed

lemma transmit_arrival: "ser_mode s \<noteq> CR_LOCAL_LOOP_BACK \<Longrightarrow> ser_rx_ready_at t (ser_transmit now s) = ser_rx_ready_at t s"
proof (induction s rule: transmit_induct)
  case (step s)
  show ?case
  proof (cases s rule: transmit_cases)
    case (out byte ends)
    have "ser_rx_ready_at t (shift_out byte ends s) = ser_rx_ready_at t s"
      using shift_arrival(1) [OF step.prems, of byte ends] transmitter_upd_arrival by metis
    then show ?thesis using out step(1) [OF out(1)] step.prems shift_on(5) [where s = s] by (cases "ends \<le> now") simp_all
  next
    case (start following l at)
    have "ser_rx_ready_at t (shift_in following at s) = ser_rx_ready_at t s"
      using shift_arrival(2) [of following at s] transmitter_upd_arrival by metis
    then show ?thesis using start step(2) [OF start(1)] step.prems shift_on(6) [where s = s] by (cases "at \<le> now") simp_all
  qed simp
qed

text \<open>What the port has put on the cable, what is in its shift register and what waits to go there.\<close>

definition sent_and_waiting :: "serial_port \<Rightarrow> u8 list" where
  "sent_and_waiting s =
     cb_sent (ser_cable s) @ (case ser_shifting s of None \<Rightarrow> [] | Some (b, _) \<Rightarrow> [b AND fr_mask (ser_framing s)]) @
     (case ser_thr s of None \<Rightarrow> [] | Some (b, _) \<Rightarrow> [b AND fr_mask (ser_framing s)])"

text \<open>When the last of the characters now in the transmitter is on the cable.\<close>

definition sent_by :: "serial_port \<Rightarrow> nat" where
  "sent_by s =
     (let frame = fr_frame_ns (ser_rate s) (ser_framing s)
      in case (ser_shifting s, ser_thr_start s) of
           (Some (_, ends), _) \<Rightarrow> if ser_thr s = None then ends else ends + frame
         | (None, Some start) \<Rightarrow> start + frame
         | (None, None) \<Rightarrow> 0)"

lemmas serial_bits = CR_TX_ENABLE_def CR_RX_ENABLE_def CR_MODE_MASK_def CR_NORMAL_def CR_LOCAL_LOOP_BACK_def CR_RTS_def CR_DTR_def
  M1_RATE_MASK_def M1_SYNCHRONOUS_def M1_LENGTH_SHIFT_def M1_LENGTH_MASK_def M1_PARITY_def M1_STOP_SHIFT_def M1_STOP_MASK_def
  M2_TX_INTERNAL_def M2_RX_INTERNAL_def M2_RATE_MASK_def

text \<open>A port at 9,600 baud, one character in the shift register and one behind it.\<close>

definition port_at_work :: serial_port where
  "port_at_work = serial_default\<lparr>ser_mode1 := 0x4e, ser_mode2 := 0x3e, ser_command := 0x27, ser_shifting := Some (0x41, 1000),
     ser_thr := Some (0x42, 10), ser_generator_from := Some 0, ser_dsr_was := True, ser_dcd_was := True,
     ser_cable := serial_cable_default\<lparr>cb_plugged := Some 0\<rparr>\<rparr>"

lemma port_at_work_facts:
  "ser_mode port_at_work = CR_NORMAL" "ser_errors port_at_work AND 3 = 0" "ser_dsr port_at_work = ser_dsr_was port_at_work"
  "ser_dcd port_at_work = ser_dcd_was port_at_work" "ser_tx_on port_at_work" "ser_cts port_at_work"
  "ser_tx_ready_at 2000000 port_at_work" "\<not> ser_tx_ready_at 999 port_at_work" "\<not> ser_rx_ready_at 2000000 port_at_work"
  "sent_and_waiting port_at_work = [0x41, 0x42]" "sent_by port_at_work \<le> 2000000" "fr_mask (ser_framing port_at_work) = 0xff"
  "ser_select 0x3e870 = 0"
  by (simp_all add: port_at_work_def serial_default_def serial_cable_default_def mode_defs serial_bits ser_tx_ready_at_def
    ser_rx_ready_at_def ser_next_arrival_def sent_and_waiting_def sent_by_def cb_sent_def fr_mask_def framing_of_def
    fr_frame_ns_def fr_half_bits_def DIVISORS_def BRCLK_HZ_def ser_select_def)

text \<open>
  C38: the engine that runs ahead of the port is told no lie, as long as the modem lines are where the port last saw
  them and its error bits are no others than the status register's. The answer worked out without moving the port,
  whether its transmitter will be ready at a time, is in every mode the bit its status register shows once it has
  been advanced there; and so is the answer for its receiver in the normal mode and in auto echo. (In the loop-back
  modes it is not, since a character that arrives there is not the processor's, or comes from the transmitter.)
\<close>

theorem serial_ready_foreseen:
  assumes "ser_errors s AND 3 = 0" "ser_dsr s = ser_dsr_was s" "ser_dcd s = ser_dcd_was s"
  shows "(ser_tx_ready_at now s \<longleftrightarrow> ser_status (ser_advance now s) AND SR_TX_READY \<noteq> 0) \<and>
    (ser_mode s = CR_NORMAL \<or> ser_mode s = CR_AUTO_ECHO \<longrightarrow>
      (ser_rx_ready_at now s \<longleftrightarrow> ser_status (ser_advance now s) AND SR_RX_READY \<noteq> 0))"
proof -
  define t where "t = ser_transmit now s"
  have a: "ser_advance now s = ser_receive now t" using modem_seen [OF assms(2,3)] by (simp add: advance_halves t_def)
  note on = transmit_on [of now s, folded t_def] receive_on [of now t]
  have e: "ser_errors (ser_receive now t) AND 3 = 0" using receive_errors on(1) assms(1) by blast
  have "ser_tx_ready_at now s \<longleftrightarrow> ser_tx_on s \<and> ser_thr t = None"
    using transmit_ready [of s now] by (auto simp: t_def ser_tx_ready_at_def)
  then have tx: "ser_tx_ready_at now s \<longleftrightarrow> ser_status (ser_advance now s) AND SR_TX_READY \<noteq> 0"
    using status_bits(1) [OF e] on by (simp add: a)
  have "ser_rx_ready_at now s \<longleftrightarrow> ser_status (ser_advance now s) AND SR_RX_READY \<noteq> 0"
    if "ser_mode s = CR_NORMAL \<or> ser_mode s = CR_AUTO_ECHO"
  proof -
    have "ser_mode s \<noteq> CR_LOCAL_LOOP_BACK" "ser_mode t \<noteq> CR_REMOTE_LOOP_BACK"
      using that on(1) by (auto simp: CR_NORMAL_def CR_LOCAL_LOOP_BACK_def CR_REMOTE_LOOP_BACK_def CR_AUTO_ECHO_def)
    then show ?thesis using status_bits(2) [OF e] receive_ready [of t now] transmit_arrival [of s now now] by (simp add: a t_def)
  qed
  then show ?thesis using tx by blast
qed

lemma serial_ready_foreseen_witness:
  "ser_status (ser_advance 2000000 port_at_work) AND SR_TX_READY \<noteq> 0 \<and> ser_status (ser_advance 2000000 port_at_work) AND SR_RX_READY = 0 \<and>
    ser_status (ser_advance 999 port_at_work) AND SR_TX_READY = 0"
  using serial_ready_foreseen [of port_at_work 2000000] serial_ready_foreseen [of port_at_work 999]
  by (simp add: port_at_work_facts)

section \<open>The characters sent\<close>

lemma deliver_normal: "cpu_line s \<Longrightarrow> ser_deliver b t (s\<lparr>ser_shifting := None\<rparr>) =
    ser_outbound t (b AND fr_mask (ser_framing s)) (s\<lparr>ser_shifting := None\<rparr>)"
  using cpu_line_modes [of s] by (simp add: ser_deliver_def Let_def ser_mode_def ser_framing_def)

lemma shift_waiting:
  "cpu_line s \<Longrightarrow> ser_shifting s = Some (b, e) \<Longrightarrow> sent_and_waiting (shift_out b e s) = sent_and_waiting s"
  "ser_shifting s = None \<Longrightarrow> ser_thr s = Some (b, l) \<Longrightarrow> sent_and_waiting (shift_in b t s) = sent_and_waiting s"
  by (auto simp: sent_and_waiting_def shift_out_def shift_in_def deliver_normal Let_def ser_outbound_def cb_sent_def mode_defs
    split: option.split)

lemma transmit_waiting: "cpu_line s \<Longrightarrow> sent_and_waiting (ser_transmit now s) = sent_and_waiting s"
proof (induction s rule: transmit_induct)
  case (step s)
  show ?case
  proof (cases s rule: transmit_cases)
    case (out byte ends)
    then show ?thesis using step(1) [OF out(1) shift_keeps(1) [OF step.prems]] shift_waiting(1) [OF step.prems]
      by (cases "ends \<le> now") simp_all
  next
    case (start following l at)
    then show ?thesis using step(2) [OF start(1) _ shift_keeps(2) [OF step.prems]] shift_waiting(2) [OF start(1,3)]
      by (cases "at \<le> now") simp_all
  qed simp
qed

lemma receive_waiting: "cpu_line s \<Longrightarrow> sent_and_waiting (ser_receive now s) = sent_and_waiting s"
  unfolding sent_and_waiting_def cb_sent_def receive_leaves ..

lemma modem_waiting: "sent_and_waiting (ser_modem s) = sent_and_waiting s"
  by (simp add: sent_and_waiting_def ser_modem_def Let_def mode_defs split: option.split)

lemma advance_waiting: "cpu_line s \<Longrightarrow> sent_and_waiting (ser_advance now s) = sent_and_waiting s"
  using transmit_keeps [OF modem_keeps(1)]
  by (simp add: advance_halves receive_waiting transmit_waiting modem_keeps(1) modem_waiting)

lemma same_enables: "ser_note_enables (ser_enables s) now s = s"
  by (simp add: ser_note_enables_def ser_enables_def)

lemma data_write:
  assumes "ser_select uaddr = 0"
  shows "ser_write uaddr byte now s =
    (let s = ser_advance now s in ser_receive now (ser_transmit now (s\<lparr>ser_thr := Some (byte, now), ser_tx_empty := False\<rparr>)))"
proof -
  have "ser_enables (t\<lparr>ser_thr := Some (byte, now), ser_tx_empty := False\<rparr>) = ser_enables t" for t
    by (simp add: ser_enables_def ser_generator_on_def mode_defs)
  then show ?thesis using assms same_enables [of "ser_advance now s\<lparr>ser_thr := Some (byte, now), ser_tx_empty := False\<rparr>" now]
    by (simp add: ser_write_def Let_def)
qed

text \<open>
  C39: in the normal mode the port loses and reorders nothing. Advancing it, however far, leaves the characters sent,
  shifting and waiting the same characters in the same order; and with the modem lines as the port last saw them, one
  written to the data register when its transmitter says it is ready goes behind them, cut to the length of a
  character. (In the other modes what is sent is not only the processor's: auto echo and remote loop back send what
  arrives, and local loop back sends nothing.)
\<close>

theorem serial_sends_in_order:
  assumes "ser_mode s = CR_NORMAL"
  shows "sent_and_waiting (ser_advance now s) = sent_and_waiting s \<and>
    (ser_select uaddr = 0 \<longrightarrow> ser_dsr s = ser_dsr_was s \<longrightarrow> ser_dcd s = ser_dcd_was s \<longrightarrow> ser_tx_ready_at now s \<longrightarrow>
      sent_and_waiting (ser_write uaddr byte now s) = sent_and_waiting s @ [byte AND fr_mask (ser_framing s)])"
proof -
  have line: "cpu_line s" using assms by (simp add: cpu_line_def)
  have "sent_and_waiting (ser_write uaddr byte now s) = sent_and_waiting s @ [byte AND fr_mask (ser_framing s)]"
    if w: "ser_select uaddr = 0" and m: "ser_dsr s = ser_dsr_was s" "ser_dcd s = ser_dcd_was s" and r: "ser_tx_ready_at now s"
  proof -
    define a where "a = ser_advance now s"
    have ar: "a = ser_receive now (ser_transmit now s)" using modem_seen [OF m] by (simp add: a_def advance_halves)
    have tl: "cpu_line (ser_transmit now s)" using transmit_keeps [OF line] by blast
    have al: "cpu_line a" using advance_keeps [OF line] by (simp add: a_def)
    have "ser_tx_on s" using r by (simp add: ser_tx_ready_at_def)
    then have thr: "ser_thr a = None" using transmit_ready r receive_leaves [OF tl] by (simp add: ar)
    have f: "ser_framing a = ser_framing s" using receive_leaves [OF tl] transmit_leaves [OF line] by (simp add: ar)
    define w where "w = a\<lparr>ser_thr := Some (byte, now), ser_tx_empty := False\<rparr>"
    have wl: "cpu_line w" using al by (simp add: w_def cpu_line_def ser_mode_def)
    have "ser_write uaddr byte now s = ser_receive now (ser_transmit now w)"
      unfolding data_write [OF w] Let_def w_def a_def ..
    then have "sent_and_waiting (ser_write uaddr byte now s) = sent_and_waiting w"
      using transmit_keeps [OF wl] by (simp add: receive_waiting transmit_waiting wl)
    also have "\<dots> = sent_and_waiting a @ [byte AND fr_mask (ser_framing s)]"
      using thr f by (simp add: w_def sent_and_waiting_def ser_framing_def cong: option.case_cong)
    finally show ?thesis using advance_waiting [OF line] by (simp add: a_def)
  qed
  then show ?thesis using advance_waiting [OF line] by blast
qed

lemma serial_sends_in_order_witness:
  "sent_and_waiting (ser_write 0x3e870 0x43 2000000 port_at_work) = [0x41, 0x42, 0x43]"
  using serial_sends_in_order [where s = port_at_work and uaddr = "0x3e870" and now = 2000000 and byte = "0x43"] by (simp add: port_at_work_facts)

lemma shift_sent_by:
  assumes "cpu_line s" "ser_tx_on s" "ser_cts s"
  shows "ser_shifting s = Some (b, e) \<Longrightarrow> sent_by (shift_out b e s) \<le> sent_by s \<and> ser_tx_on (shift_out b e s) \<and> ser_cts (shift_out b e s)"
    "ser_shifting s = None \<Longrightarrow> ser_thr_start s = Some t \<Longrightarrow> sent_by (shift_in b t s) = sent_by s \<and> ser_tx_on (shift_in b t s) \<and> ser_cts (shift_in b t s)"
  using assms(2,3)
  by (auto simp: sent_by_def shift_out_def shift_in_def deliver_normal [OF assms(1)] Let_def ser_outbound_def ser_thr_start_def mode_defs
    split: option.split)

lemma transmit_drains:
  assumes "cpu_line s" "ser_tx_on s" "ser_cts s" "sent_by s \<le> now"
  shows "ser_shifting (ser_transmit now s) = None \<and> ser_thr (ser_transmit now s) = None"
  using assms
proof (induction s rule: transmit_induct)
  case (step s)
  show ?case
  proof (cases s rule: transmit_cases)
    case (out byte ends)
    have "ends \<le> sent_by s" using out(1) by (simp add: sent_by_def Let_def)
    then show ?thesis using step(1) [OF out(1) shift_keeps(1) [OF step.prems(1)]] step.prems shift_sent_by(1) [OF step.prems(1-3) out(1)]
        out(2) by (simp add: order_trans)
  next
    case (start following l at)
    have "at \<le> sent_by s" using start(1,2) by (simp add: sent_by_def Let_def)
    then show ?thesis using step(2) [OF start(1) thr_start_some [OF start(2)] shift_keeps(2) [OF step.prems(1)]] step.prems
        shift_sent_by(2) [OF step.prems(1-3) start(1,2)] start(4) by (simp add: order_trans)
  next
    case rest
    then show ?thesis using step.prems by (simp add: ser_thr_start_def split: option.splits prod.splits if_splits)
  qed
qed

text \<open>
  C40: and in the normal mode everything given to an enabled transmitter is sent, once the cable lets it (clear to
  send, and the modem lines as the port last saw them): advanced past the time worked out from its registers, the port
  has put every character it held on the cable, in order, behind those already there.
\<close>

theorem serial_drains:
  assumes "ser_mode s = CR_NORMAL" "ser_tx_on s" "ser_cts s" "ser_dsr s = ser_dsr_was s" "ser_dcd s = ser_dcd_was s"
    "sent_by s \<le> now"
  shows "cb_sent (ser_cable (ser_advance now s)) = sent_and_waiting s"
proof -
  have line: "cpu_line s" using assms(1) by (simp add: cpu_line_def)
  have tl: "cpu_line (ser_transmit now s)" using transmit_keeps [OF line] by blast
  have a: "ser_advance now s = ser_receive now (ser_transmit now s)" using modem_seen [OF assms(4,5)] by (simp add: advance_halves)
  have "sent_and_waiting (ser_advance now s) = cb_sent (ser_cable (ser_advance now s))"
    using transmit_drains [OF line assms(2,3,6)] receive_leaves [OF tl] by (simp add: a sent_and_waiting_def)
  then show ?thesis using advance_waiting [OF line] by simp
qed

lemma serial_drains_witness: "cb_sent (ser_cable (ser_advance 2000000 port_at_work)) = [0x41, 0x42]"
  using serial_drains [of port_at_work 2000000] by (simp add: port_at_work_facts)

section \<open>Saved and loaded\<close>

definition serial_fits :: "serial_port \<Rightarrow> bool" where
  "serial_fits s \<longleftrightarrow> length (ser_syn s) = 3 \<and> ser_tx_from s < 2 ^ 64 \<and> ser_rx_from s < 2 ^ 64 \<and>
     pred_option (\<lambda>t. t < 2 ^ 64) (ser_generator_from s) \<and> pred_option (\<lambda>(_, t). t < 2 ^ 64) (ser_thr s) \<and>
     pred_option (\<lambda>(_, t). t < 2 ^ 64) (ser_shifting s) \<and> pred_option (\<lambda>(_, d, e). d < 2 ^ 64 \<and> e < 2 ^ 64) (ser_assembling s)"

lemma codes_two:
  assumes "codes n (put_all ps) (get a b) v"
  shows "codes n (put_all (put_u64s [a, b] # ps)) (two_u64s get) v"
  unfolding two_u64s_def by (rule codes_cons [OF codes_u64s]) (simp_all add: assms)

lemma codes_serial:
  assumes "serial_fits s"
  shows "codes n (ser_save s) (ser_load s') (s\<lparr>ser_cable := ser_cable s'\<rparr>)"
proof -
  define rx where "rx = (case ser_assembling s of None \<Rightarrow> (0, 0, 0) | Some x \<Rightarrow> x)"
  have u: "(case ser_assembling s of None \<Rightarrow> 0 | Some (b, d, e) \<Rightarrow> b) = fst rx"
    "(case ser_assembling s of None \<Rightarrow> [0, 0] | Some (b, d, e) \<Rightarrow> [of_nat d, of_nat e]) = [of_nat (fst (snd rx)), of_nat (snd (snd rx)) :: u64]"
    by (auto simp: rx_def split: option.split)
  have rx: "held (ser_assembling s \<noteq> None) (fst rx, unat (of_nat (fst (snd rx)) :: u64), unat (of_nat (snd (snd rx)) :: u64)) = ser_assembling s"
    using assms by (cases "ser_assembling s") (auto simp: rx_def held_def serial_fits_def unat_of_nat_64)
  have held: "held (ser_thr s \<noteq> None) ((case ser_thr s of None \<Rightarrow> 0 | Some (b, t) \<Rightarrow> b), unat ((case ser_thr s of None \<Rightarrow> 0 | Some (b, t) \<Rightarrow> of_nat t) :: u64)) = ser_thr s"
    "held (ser_shifting s \<noteq> None) ((case ser_shifting s of None \<Rightarrow> 0 | Some (b, t) \<Rightarrow> b), unat ((case ser_shifting s of None \<Rightarrow> 0 | Some (b, t) \<Rightarrow> of_nat t) :: u64)) = ser_shifting s"
    "held (ser_generator_from s \<noteq> None) (unat ((case ser_generator_from s of None \<Rightarrow> 0 | Some t \<Rightarrow> of_nat t) :: u64)) = ser_generator_from s"
    using assms by (cases "ser_thr s"; cases "ser_shifting s"; cases "ser_generator_from s"; auto simp: held_def serial_fits_def unat_of_nat_64)+
  have syn: "length (ser_syn s) < 2 ^ 64" "length (ser_syn s) = 3" using assms by (simp_all add: serial_fits_def)
  show ?thesis
    unfolding ser_save_def ser_load_def u
    by (rule codes_cons [OF codes_bytes_into], simp, simp, rule codes_cons [OF codes_bytes_into [OF syn]], (rule codes_step)+,
      rule codes_two, (rule codes_step)+, rule codes_two, rule codes_end, simp only: held rx)
      (use assms in \<open>simp add: serial_fits_def unat_of_nat_64\<close>)
qed

interpretation serial_codec: codec n "\<lambda>s. serial_fits s \<and> ser_cable s = c" ser_save "ser_load (serial_default\<lparr>ser_cable := c\<rparr>)" for n c
proof
  show "codes n (ser_save s) (ser_load (serial_default\<lparr>ser_cable := c\<rparr>)) s" if "serial_fits s \<and> ser_cable s = c" for s
  proof -
    let ?blank = "serial_default\<lparr>ser_cable := c\<rparr>"
    have "codes n (ser_save s) (ser_load ?blank) (s\<lparr>ser_cable := ser_cable ?blank\<rparr>)" using that by (intro codes_serial) simp
    moreover have "s\<lparr>ser_cable := ser_cable ?blank\<rparr> = s" using that by (cases s) simp
    ultimately show ?thesis by (simp only:)
  qed
qed

end
