(* ===== verification/Spec2Isabelle.thy ===== *)
theory Spec2Isabelle
  imports Isa Ttl Muldiv Checkpoint ClockGen Spy Vmap MacroDispatch Timers MemoryPort
    ChaosWire QuuxInput BlockDisk MicroSpec MicroPipe TvFlag
    DiskTrack Mouse SerialRuns
begin

text \<open>
  A verification library for muir, a simulator of the MIT CADR Lisp machine and of its successor QUUX.
  The simulator runs one machine state through engines of different fidelity; the machine's state,
  registers and memories are \<open>src/src/machine.rs\<close>, and around it stand the arithmetic unit, the clock, the
  memory path, the devices and the checkpoint file that keeps them all. The theories below model the
  parts from the source, one theory for a source file or a self-contained part of one.

  \<^item> \<open>Prelude\<close>: the machine integers as words, the collections of facts, generic lemmas.
  \<^item> \<open>Isa\<close> (\<open>isa.rs\<close>): the 48-bit microinstruction, its fields and decoded views, and the assembler's
    helpers; what is assembled decodes to its fields.
  \<^item> \<open>Ttl\<close> (\<open>ttl.rs\<close>): the ALU's nine slices and the control of page ALUC4 as functions of 33-bit words;
    each function code computes its logical or arithmetic function, and \<open>M-A-1\<close> decides comparisons.
  \<^item> \<open>Muldiv\<close> (\<open>muldiv.rs\<close>): QUUX's multiply and divide as the folds of the CADR's steps that they are; the
    product is exact and the quotient and remainder are those of the signed division.
  \<^item> \<open>Clock\<close>, \<open>ClockGen\<close> (\<open>clock.rs\<close>): the speeds and timing models; the behavioral clock generator with its
    queue of events, its invariant on every reachable state, and a microcycle's waveform and length.
  \<^item> \<open>Codec\<close>, \<open>Checkpoint\<close> (\<open>checkpoint.rs\<close>): the fields of a checkpoint, each with what it reads back;
    the body's zero-run packing and the file. The locale \<open>codec\<close> is the interface of everything that
    saves and loads itself, and is interpreted for each field and each component below that has state.
  \<^item> \<open>Spy\<close> (\<open>spy.rs\<close>): the diagnostic interface's addresses, strobes and registers.
  \<^item> \<open>Geometry\<close>, \<open>Vmap\<close>, \<open>MacroDispatch\<close>, \<open>Timers\<close> (\<open>machine.rs\<close>): what differs between the machines; the
    two-level virtual memory map (locale \<open>two_level_map\<close>, interpreted on every machine's map); QUUX's macro
    dispatch and its fused return; the real-time clock and the interval timers, refined to their
    history (locale \<open>timer_impl\<close>).
  \<^item> \<open>Cache\<close> (\<open>cache.rs\<close>): the tags of QUUX's cache, refined to least-recently-used replacement.
  \<^item> \<open>MemoryPort\<close> (\<open>memory_port.rs\<close>): the processor's memory cycle, main memory's timing, and the prefetch,
    whose buffered word is shown to be the word the next fetch would read; over every history of the port no access
    waits for more than one write.
  \<^item> \<open>ChaosPacket\<close>, \<open>ChaosWire\<close> (\<open>chaos/packet.rs\<close>, \<open>chaos/wire.rs\<close>): the Chaosnet's packet, its frame with the
    check word, and the line code with its sampled receiver; a packet sent is the packet received.
  \<^item> \<open>QuuxInput\<close> (\<open>quux_input.rs\<close>): QUUX's keyboard and mouse page, its FIFO an instance of the locale
    \<open>bounded_queue\<close>.
  \<^item> \<open>DiskImage\<close> (\<open>disk_image.rs\<close>): QUUX's disk file, raw or VHD, over a host file that is a list of bytes;
    a dynamic VHD is an array of sectors that its file, the footer at its end included, opens as after every
    write, and a disk reads back what was written.
  \<^item> \<open>BlockDisk\<close> (\<open>block_disk.rs\<close>): the block-disk's registers and its transfers along a command list between
    the disk and main memory.
  \<^item> \<open>DiskFormat\<close>, \<open>DiskEcc\<close>, \<open>DiskTrap\<close>, \<open>DiskFire\<close> (\<open>disk_unit.rs\<close>): a sector as it lies on a pack and read
    back from its bits, and the controller's check code: a Fire code whose trap locates every burst of eleven
    bits, and whose corrections make the block check.
  \<^item> \<open>DiskUnit\<close> (\<open>disk_unit.rs\<close>): the drive's pack, which reads back the sectors written to it, its heads and the
    time it takes.
  \<^item> \<open>DiskController\<close> (\<open>disk_controller.rs\<close>): the CADR's disk controller: its registers, and the commands START
    runs between a drive and main memory. \<open>DiskTransfer\<close> shows what a read moves, \<open>DiskErrors\<close> what a header that
    does not compare and a burst in the data do to it, \<open>DiskWrites\<close> what a write leaves on the pack, and
    \<open>DiskTrack\<close> when START returns and that a track read whole can be laid down again.
  \<^item> \<open>Mouse\<close> (\<open>terminal/mouse.rs\<close>, and the mouse interface of \<open>ioboard.rs\<close>): the encoders' quadrature lines and the
    board's counters, which count every step the mouse is asked for.
  \<^item> \<open>Serial\<close>, \<open>SerialRuns\<close> (\<open>serial.rs\<close>): the 2651 with its character frame, rates and modes on a cable; the
    transmitter and the receiver do not touch each other in the normal mode, nor in the others while only one has
    characters, so how often the port is advanced does not show; what it says will be ready is; and in the normal
    mode the characters go out in order. In the loop-back modes with characters both ways this is not so.
  \<^item> \<open>Busint\<close> (\<open>busint.rs\<close>, with the straps of \<open>tv.rs\<close> and the blocks of \<open>ioboard.rs\<close> and
    \<open>disk_controller.rs\<close>): the addresses of the bus interface and the decode of a physical address.
  \<^item> \<open>Machine\<close> (\<open>machine.rs\<close>): the processor's state, its control store, stack, virtual memory cycles and
    console registers. The boards behind the bus are the record \<open>bus\<close>, an argument of every operation
    that reaches them.
  \<^item> \<open>Micro\<close> (\<open>micro.rs\<close>): the microprogram engine, one microinstruction of the machine a step.
    \<open>MicroInv\<close> has its invariant on every reachable state, with the rules that take a predicate through an
    operation's bindings and branches; \<open>MicroSpec\<close> the meaning of BYTE instructions and conditional jumps;
    \<open>MicroStack\<close> the microstack as a list and its pointer's movement; \<open>MicroPipe\<close> the order instructions run in.
  \<^item> \<open>TvSync\<close>, \<open>Tv\<close>, \<open>TvFlag\<close> (\<open>tv/sync.rs\<close>, \<open>tv.rs\<close>): the display's sync program laid out in time, the board's
    registers and picture, and the vertical flag as the flop it models, on every state the board reaches.

  Correspondence. A struct is a record with its fields in order, an enum a datatype, an integer a word of
  its width (\<open>usize\<close> is \<open>nat\<close>), and an operation that takes \<open>&mut self\<close> a function from the state to the
  new state. Arithmetic wraps, as in the release build the project ships, where the code uses the plain
  operators. A result of \<open>io::Result\<close> is a sum whose left side is a constructor for each message. An
  array the code indexes within bounds by masking is a function of the index, or a list with its length
  in the component's invariant. \<open>to_le_bytes\<close>, \<open>div_ceil\<close>, \<open>is_power_of_two\<close> and \<open>from_utf8\<close> are
  the standard library's and are written out.

  Fuel. No definition takes fuel: the loops over bytes end by a measure on what is left of them, the
  loops over bits by the count of them.

  Not modelled, and why: the command line, the prompt, the terminal, the capture and the host's files and
  sockets are input and output; the netlists, the pinouts and the wire lists are data; the netlist engine
  is an evaluator of that data. The registers-level engine \<open>rtl.rs\<close> is modelled only as the environment of
  the memory port (the relations of \<open>MemoryPort\<close>), the boards behind the bus only as the record \<open>bus\<close> with the
  hypothesis \<open>bus_frame\<close> that they keep to their own state. Left out too are the checkpoint of the whole machine,
  the keyboard and clock registers of \<open>ioboard.rs\<close>, and the Chaosnet's interface and cable, where the packet and
  its line code are the part with a contract of its own. A host file is a list of bytes, and host writes succeed.
\<close>

end
